(* ===== verification/Prelude.thy ===== *)
theory Prelude
  imports Main "HOL-Library.List_Lexorder" "HOL-Library.Char_ord" "HOL-Library.Product_Lexorder"
begin

text \<open>
  Shared vocabulary of the development: the Go values every component uses (UUIDs, instants,
  strings), errors as values with the matching rule of Go's errors.Is, the two result types
  (a pure fallible computation and a fallible computation over a database state), and generic
  lemmas on keyed lists, sorting and decimal printing.
\<close>

section \<open>Values\<close>

text \<open>
  A UUID is its 128-bit value read as a number: uuid.Nil is 0, and the order of the canonical
  text form is the numeric order. An instant is the number of nanoseconds since Go's zero
  time (so the zero time is 0), a duration a number of nanoseconds. Go's int and int64 are
  unbounded integers here: no operation of the modelled code multiplies them, and the counters
  only grow by one per event.
\<close>

type_synonym uuid = nat
type_synonym time = int
type_synonym duration = int

abbreviation (input) uuidNil :: uuid where
  "uuidNil \<equiv> 0"

section \<open>Errors\<close>

text \<open>
  The sentinel errors callers branch on with errors.Is. Wrapping with a single percent-w verb
  keeps exactly the sentinel, so the wrapping text is left out; ErrText is an error that wraps
  no sentinel (a plain fmt.Errorf), and ErrWrap one that wraps two errors.
\<close>

datatype sentinel =
    ErrDefinitionNotRegistered | ErrGuardNotRegistered | ErrCaseNotFound | ErrCaseExists
  | ErrCaseClosed | ErrInvalidTransition | ErrGuardRejected | ErrNotAssigned
  | ErrAlreadyAssigned | ErrInvalidDefinition | ErrCommentRequired | ErrCommentNotAllowed
  | ErrNoRoute | ErrTooManyDecisionHops | ErrReturnNotVisited | ErrUnknownEffect | ErrConflict
  | ErrUnsupportedEventSchema | ErrInvalidActor | ErrInvalidFailure | ErrChainBroken
  | ErrTokenRequired | ErrTokenNotFound | ErrLastBranch | ErrJoinRejected | ErrReasonRequired
  | ErrCaseWithoutTokens | ErrInvalidOutcome | ErrUnknownAssignRule | ErrUnknownDeadlineRule
  | ErrNotOverdue | ErrAlreadyExpired | ErrOffsetOutOfRange
  | ErrNoTx | ErrInvalidRegistration | ErrDuplicateEffect
  | ErrInvalidRequest | ErrKeyReused | ErrInProgress | ErrNoRows
  | ErrUnauthenticated | ErrForbidden | ErrUnavailable
  | ErrAuthUnauthenticated | ErrAuthForbidden | ErrServiceUnavailable
  | ErrUnredactable
  | ErrOutOfRange | ErrNotParseable | ErrTooManyDecimals | ErrInvalidBounds | ErrInvalidScale
  | ErrProcessNotFound | ErrNotHolder | ErrNotClaimant | ErrNoAccess | ErrPublishConflict
  | ErrDocNotFound | ErrInvalidInput | ErrTemplate | ErrEmptyPDF | ErrRenderRejected | ErrDocumentNotFound

text \<open>ErrFields is an error that carries a message per form field (FormError).\<close>

datatype error = Err sentinel | ErrText string | ErrWrap error error | ErrFields "(string \<times> string) list"

fun errorsIs :: "error \<Rightarrow> sentinel \<Rightarrow> bool" where
  "errorsIs (Err s) t = (s = t)"
| "errorsIs (ErrText m) t = False"
| "errorsIs (ErrWrap a b) t = (errorsIs a t \<or> errorsIs b t)"
| "errorsIs (ErrFields fs) t = False"

text \<open>A nil dereference: Go panics and the call returns nothing.\<close>

abbreviation panic :: error where
  "panic \<equiv> ErrText ''panic''"

section \<open>Fallible computations\<close>

type_synonym 'a result = "error + 'a"

fun bindR :: "'a result \<Rightarrow> ('a \<Rightarrow> 'b result) \<Rightarrow> 'b result" where
  "bindR (Inl e) f = Inl e"
| "bindR (Inr x) f = f x"

definition requireR :: "bool \<Rightarrow> error \<Rightarrow> unit result" where
  "requireR b e = (if b then Inr () else Inl e)"

lemma bindR_eq_Inr [simp]: "bindR m f = Inr y \<longleftrightarrow> (\<exists>x. m = Inr x \<and> f x = Inr y)"
  by (cases m) auto

lemma bindR_eq_Inl: "bindR m f = Inl e \<longleftrightarrow> m = Inl e \<or> (\<exists>x. m = Inr x \<and> f x = Inl e)"
  by (cases m) auto

lemma requireR_eq_Inr [simp]: "requireR b e = Inr u \<longleftrightarrow> b"
  by (simp add: requireR_def)

lemma requireR_eq_Inl [simp]: "requireR b e = Inl e' \<longleftrightarrow> \<not> b \<and> e' = e"
  by (auto simp: requireR_def)

lemma requireR_simps [simp]: "requireR True e = Inr ()" "requireR False e = Inl e"
  by (simp_all add: requireR_def)

lemma bindR_cong [fundef_cong]:
  "m = m' \<Longrightarrow> (\<And>x. m' = Inr x \<Longrightarrow> f x = g x) \<Longrightarrow> bindR m f = bindR m' g"
  by (cases m') auto

text \<open>
  An operation over a database state returns its outcome and the state it leaves behind, also
  when it fails: what a failed call has already written stays until the caller rolls back.
\<close>

type_synonym ('s, 'a) action = "'s \<Rightarrow> 'a result \<times> 's"

definition bindA :: "('s, 'a) action \<Rightarrow> ('a \<Rightarrow> ('s, 'b) action) \<Rightarrow> ('s, 'b) action" where
  "bindA m f = (\<lambda>s. case m s of (Inl e, s') \<Rightarrow> (Inl e, s') | (Inr x, s') \<Rightarrow> f x s')"

definition returnA :: "'a \<Rightarrow> ('s, 'a) action" where
  "returnA x = (\<lambda>s. (Inr x, s))"

definition liftR :: "'a result \<Rightarrow> ('s, 'a) action" where
  "liftR r = (\<lambda>s. (r, s))"

definition readA :: "('s \<Rightarrow> 'a result) \<Rightarrow> ('s, 'a) action" where
  "readA f = (\<lambda>s. (f s, s))"

lemma returnA_run [simp]: "returnA x s = (Inr x, s)"
  by (simp add: returnA_def)

lemma liftR_run [simp]: "liftR r s = (r, s)"
  by (simp add: liftR_def)

lemma readA_run [simp]: "readA f s = (f s, s)"
  by (simp add: readA_def)

lemma bindA_run_Inl [simp]: "m s = (Inl e, s') \<Longrightarrow> bindA m f s = (Inl e, s')"
  by (simp add: bindA_def)

lemma bindA_run_Inr [simp]: "m s = (Inr x, s') \<Longrightarrow> bindA m f s = f x s'"
  by (simp add: bindA_def)

lemma bindA_eq_Inr:
  "bindA m f s = (Inr y, s'') \<longleftrightarrow> (\<exists>x s'. m s = (Inr x, s') \<and> f x s' = (Inr y, s''))"
  by (cases "m s") (auto simp: bindA_def split: sum.splits)

lemma bindA_eq_Inl:
  "bindA m f s = (Inl e, s'') \<longleftrightarrow>
     m s = (Inl e, s'') \<or> (\<exists>x s'. m s = (Inr x, s') \<and> f x s' = (Inl e, s''))"
  by (cases "m s") (auto simp: bindA_def split: sum.splits)

lemma bindA_liftR [simp]:
  "bindA (liftR r) f s = (case r of Inl e \<Rightarrow> (Inl e, s) | Inr x \<Rightarrow> f x s)"
  by (simp add: bindA_def)

lemma bindA_readA [simp]:
  "bindA (readA g) f s = (case g s of Inl e \<Rightarrow> (Inl e, s) | Inr x \<Rightarrow> f x s)"
  by (simp add: bindA_def)

primrec forA :: "('a \<Rightarrow> ('s, unit) action) \<Rightarrow> 'a list \<Rightarrow> ('s, unit) action" where
  "forA f [] = returnA ()"
| "forA f (x # xs) = bindA (f x) (\<lambda>_. forA f xs)"

primrec mapA :: "('a \<Rightarrow> ('s, 'b) action) \<Rightarrow> 'a list \<Rightarrow> ('s, 'b list) action" where
  "mapA f [] = returnA []"
| "mapA f (x # xs) = bindA (f x) (\<lambda>y. bindA (mapA f xs) (\<lambda>ys. returnA (y # ys)))"

section \<open>Keyed lists\<close>

text \<open>
  Rows and pointer lists keyed by an identifier: lookup returns the first entry with the key,
  replacement rewrites the entries that carry the key of the new one.
\<close>

definition lookupBy :: "('a \<Rightarrow> 'k) \<Rightarrow> 'k \<Rightarrow> 'a list \<Rightarrow> 'a option" where
  "lookupBy key k xs = find (\<lambda>x. key x = k) xs"

definition replaceBy :: "('a \<Rightarrow> 'k) \<Rightarrow> 'a \<Rightarrow> 'a list \<Rightarrow> 'a list" where
  "replaceBy key y xs = map (\<lambda>x. if key x = key y then y else x) xs"

lemma lookupBy_Nil [simp]: "lookupBy key k [] = None"
  by (simp add: lookupBy_def)

lemma lookupBy_Cons [simp]:
  "lookupBy key k (x # xs) = (if key x = k then Some x else lookupBy key k xs)"
  by (simp add: lookupBy_def)

lemma lookupBy_Some_mem: "lookupBy key k xs = Some x \<Longrightarrow> x \<in> set xs \<and> key x = k"
  by (auto simp: lookupBy_def find_Some_iff)

lemma lookupBy_None: "lookupBy key k xs = None \<longleftrightarrow> k \<notin> key ` set xs"
  by (auto simp: lookupBy_def find_None_iff)

lemma lookupBy_mem:
  "distinct (map key xs) \<Longrightarrow> x \<in> set xs \<Longrightarrow> lookupBy key (key x) xs = Some x"
  by (induction xs) (auto simp: rev_image_eqI)

lemma map_key_replaceBy [simp]: "map key (replaceBy key y xs) = map key xs"
  by (simp add: replaceBy_def)

lemma length_replaceBy [simp]: "length (replaceBy key y xs) = length xs"
  by (simp add: replaceBy_def)

lemma key_image_replaceBy [simp]: "key ` set (replaceBy key y xs) = key ` set xs"
  by (metis map_key_replaceBy set_map)

lemma set_replaceBy:
  "key y \<in> key ` set xs \<Longrightarrow> set (replaceBy key y xs) = insert y {x \<in> set xs. key x \<noteq> key y}"
  by (auto simp: replaceBy_def image_iff split: if_splits)

lemma replaceBy_absent: "key y \<notin> key ` set xs \<Longrightarrow> replaceBy key y xs = xs"
  by (induction xs) (auto simp: replaceBy_def)

lemma lookupBy_replaceBy:
  "lookupBy key k (replaceBy key y xs) =
     (if k = key y \<and> k \<in> key ` set xs then Some y else lookupBy key k xs)"
  by (induction xs) (auto simp: replaceBy_def)

lemma lookupBy_append:
  "lookupBy key k (xs @ ys) =
     (case lookupBy key k xs of None \<Rightarrow> lookupBy key k ys | Some x \<Rightarrow> Some x)"
  by (induction xs) auto

text \<open>
  Counting entries: replacing the single entry with a key moves the count by the difference of
  the predicate on the old and on the new entry.
\<close>

definition countIf :: "('a \<Rightarrow> bool) \<Rightarrow> 'a list \<Rightarrow> nat" where
  "countIf P xs = length (filter P xs)"

lemma countIf_Nil [simp]: "countIf P [] = 0"
  by (simp add: countIf_def)

lemma countIf_Cons [simp]: "countIf P (x # xs) = (if P x then 1 else 0) + countIf P xs"
  by (simp add: countIf_def)

lemma countIf_append [simp]: "countIf P (xs @ ys) = countIf P xs + countIf P ys"
  by (simp add: countIf_def)

lemma countIf_0: "countIf P xs = 0 \<longleftrightarrow> (\<forall>x \<in> set xs. \<not> P x)"
  by (induction xs) auto

lemma countIf_pos: "0 < countIf P xs \<longleftrightarrow> (\<exists>x \<in> set xs. P x)"
  by (induction xs) auto

lemma countIf_cong: "(\<And>x. x \<in> set xs \<Longrightarrow> P x = Q x) \<Longrightarrow> countIf P xs = countIf Q xs"
  by (induction xs) auto

lemma countIf_mono: "(\<And>x. x \<in> set xs \<Longrightarrow> P x \<Longrightarrow> Q x) \<Longrightarrow> countIf P xs \<le> countIf Q xs"
  by (induction xs) auto

lemma countIf_split: "countIf P xs = countIf (\<lambda>x. P x \<and> Q x) xs + countIf (\<lambda>x. P x \<and> \<not> Q x) xs"
  by (induction xs) auto

lemma countIf_replaceBy:
  assumes "distinct (map key xs)" "x \<in> set xs" "key x = key y"
  shows "countIf P (replaceBy key y xs) + (if P x then 1 else 0) =
         countIf P xs + (if P y then 1 else 0)"
  using assms
proof (induction xs)
  case Nil
  then show ?case by simp
next
  case (Cons a xs)
  show ?case
  proof (cases "a = x")
    case True
    with Cons.prems have "key y \<notin> key ` set xs" by (auto simp: image_iff)
    then have "replaceBy key y xs = xs" by (rule replaceBy_absent)
    with True Cons.prems show ?thesis by (simp add: replaceBy_def)
  next
    case False
    with Cons.prems have "x \<in> set xs" and "key a \<noteq> key y" by (auto simp: image_iff)
    with Cons show ?thesis by (simp add: replaceBy_def)
  qed
qed

lemma countIf_map: "countIf P (map f xs) = countIf (P \<circ> f) xs"
  by (induction xs) auto

lemma map_filter_Nil: "List.map_filter g xs = [] \<longleftrightarrow> (\<forall>x \<in> set xs. g x = None)"
  by (induction xs) (auto simp: List.map_filter_simps split: option.splits)

lemma set_map_filter': "y \<in> set (List.map_filter g xs) \<longleftrightarrow> (\<exists>x \<in> set xs. g x = Some y)"
  by (induction xs) (auto simp: List.map_filter_simps split: option.splits)

section \<open>Strings\<close>

text \<open>
  A Go string is a sequence of bytes, held as an Isabelle string whose characters are bytes.
  strings.TrimSpace drops leading and trailing runes for which unicode.IsSpace holds; each of
  those runes is one of the byte sequences below (the ASCII blanks, U+0085, U+00A0, U+1680,
  U+2000 to U+200A, U+2028, U+2029, U+202F, U+205F and U+3000 in UTF-8), none a prefix or a
  suffix of another.
\<close>

definition spaceRunes :: "string list" where
  "spaceRunes =
     map (\<lambda>n. [char_of n]) [9::nat, 10, 11, 12, 13, 32] @
     map (map char_of)
       ([[0xC2, 0x85], [0xC2, 0xA0], [0xE1, 0x9A, 0x80]] @
        map (\<lambda>n. [0xE2, 0x80, n]) ([0x80 ..< 0x8B] @ [0xA8, 0xA9, 0xAF]) @
        [[0xE2, 0x81, 0x9F], [0xE3, 0x80, 0x80 :: nat]])"

lemma spaceRunes_eq [code]:
  "spaceRunes =
     [[CHR 0x09], [CHR 0x0A], [CHR 0x0B], [CHR 0x0C], [CHR 0x0D], [CHR 0x20], [CHR 0xC2, CHR 0x85],
      [CHR 0xC2, CHR 0xA0], [CHR 0xE1, CHR 0x9A, CHR 0x80], [CHR 0xE2, CHR 0x80, CHR 0x80],
      [CHR 0xE2, CHR 0x80, CHR 0x81], [CHR 0xE2, CHR 0x80, CHR 0x82], [CHR 0xE2, CHR 0x80, CHR 0x83],
      [CHR 0xE2, CHR 0x80, CHR 0x84], [CHR 0xE2, CHR 0x80, CHR 0x85], [CHR 0xE2, CHR 0x80, CHR 0x86],
      [CHR 0xE2, CHR 0x80, CHR 0x87], [CHR 0xE2, CHR 0x80, CHR 0x88], [CHR 0xE2, CHR 0x80, CHR 0x89],
      [CHR 0xE2, CHR 0x80, CHR 0x8A], [CHR 0xE2, CHR 0x80, CHR 0xA8], [CHR 0xE2, CHR 0x80, CHR 0xA9],
      [CHR 0xE2, CHR 0x80, CHR 0xAF], [CHR 0xE2, CHR 0x81, CHR 0x9F], [CHR 0xE3, CHR 0x80, CHR 0x80]]"
  by (simp add: spaceRunes_def upt_conv_Cons char_of_def bit_Suc_0_iff)

fun stripPrefix :: "string \<Rightarrow> string \<Rightarrow> string option" where
  "stripPrefix [] s = Some s"
| "stripPrefix (p # ps) [] = None"
| "stripPrefix (p # ps) (c # s) = (if p = c then stripPrefix ps s else None)"

fun stripAny :: "string list \<Rightarrow> string \<Rightarrow> string option" where
  "stripAny [] s = None"
| "stripAny (p # ps) s = (case stripPrefix p s of Some r \<Rightarrow> Some r | None \<Rightarrow> stripAny ps s)"

lemma stripPrefix_Some: "stripPrefix p s = Some r \<longleftrightarrow> s = p @ r"
  by (induction p s rule: stripPrefix.induct) auto

lemma stripAny_Some: "stripAny ps s = Some r \<Longrightarrow> \<exists>p \<in> set ps. s = p @ r"
  by (induction ps) (auto simp: stripPrefix_Some split: option.splits)

lemma stripAny_None: "stripAny ps s = None \<longleftrightarrow> (\<forall>p \<in> set ps. \<forall>r. s \<noteq> p @ r)"
proof (induction ps)
  case Nil
  then show ?case by simp
next
  case (Cons p ps)
  have "stripPrefix p s = None \<longleftrightarrow> (\<forall>r. s \<noteq> p @ r)"
    by (metis option.distinct(1) option.exhaust stripPrefix_Some)
  with Cons show ?case by (auto split: option.split)
qed

primrec trimLoop :: "nat \<Rightarrow> string list \<Rightarrow> string \<Rightarrow> string" where
  "trimLoop 0 ps s = s"
| "trimLoop (Suc n) ps s = (case stripAny ps s of Some r \<Rightarrow> trimLoop n ps r | None \<Rightarrow> s)"

definition trimLeftSpace :: "string \<Rightarrow> string" where
  "trimLeftSpace s = trimLoop (length s) spaceRunes s"

definition trimRightSpace :: "string \<Rightarrow> string" where
  "trimRightSpace s = rev (trimLoop (length s) (map rev spaceRunes) (rev s))"

definition trimSpace :: "string \<Rightarrow> string" where
  "trimSpace s = trimRightSpace (trimLeftSpace s)"

text \<open>Decimal printing, the verb percent-d of fmt.Sprintf.\<close>

definition digitChar :: "nat \<Rightarrow> char" where
  "digitChar n = char_of (48 + n)"

fun digits :: "nat \<Rightarrow> string" where
  "digits n = (if n < 10 then [digitChar n] else digits (n div 10) @ [digitChar (n mod 10)])"

declare digits.simps [simp del]

definition showInt :: "int \<Rightarrow> string" where
  "showInt i = (if i < 0 then CHR ''-'' # digits (nat (- i)) else digits (nat i))"

lemma digitChar_inj: "a < 10 \<Longrightarrow> b < 10 \<Longrightarrow> digitChar a = digitChar b \<Longrightarrow> a = b"
proof -
  assume "a < 10" "b < 10" "digitChar a = digitChar b"
  then have "of_char (digitChar a) = (of_char (digitChar b) :: nat)" by simp
  with \<open>a < 10\<close> \<open>b < 10\<close> show ?thesis by (simp add: digitChar_def)
qed

lemma digitChar_value: "a < 10 \<Longrightarrow> of_char (digitChar a) = 48 + a"
  by (simp add: digitChar_def)

lemma digits_not_Nil: "digits n \<noteq> []"
  by (subst digits.simps) simp

lemma digits_chars: "c \<in> set (digits n) \<Longrightarrow> 48 \<le> (of_char c :: nat) \<and> (of_char c :: nat) < 58"
proof (induction n rule: digits.induct)
  case (1 n)
  show ?case
  proof (cases "n < 10")
    case True
    with "1.prems" show ?thesis by (simp add: digits.simps [of n] digitChar_value)
  next
    case False
    with "1.prems" have "c \<in> set (digits (n div 10)) \<or> c = digitChar (n mod 10)"
      by (auto simp: digits.simps [of n])
    with "1.IH" [OF False] show ?thesis by (auto simp: digitChar_value)
  qed
qed

lemma digits_inj: "digits m = digits n \<Longrightarrow> m = n"
proof (induction m arbitrary: n rule: digits.induct)
  case (1 m)
  show ?case
  proof (cases "m < 10")
    case True
    then have m: "digits m = [digitChar m]" by (simp add: digits.simps [of m])
    show ?thesis
    proof (cases "n < 10")
      case True
      with m "1.prems" \<open>m < 10\<close> show ?thesis
        by (auto simp: digits.simps [of n] intro: digitChar_inj)
    next
      case False
      with m "1.prems" show ?thesis by (auto simp: digits.simps [of n] digits_not_Nil)
    qed
  next
    case False
    then have m: "digits m = digits (m div 10) @ [digitChar (m mod 10)]"
      by (simp add: digits.simps [of m])
    show ?thesis
    proof (cases "n < 10")
      case True
      with m "1.prems" have "digits (m div 10) = []" by (simp add: digits.simps [of n])
      then show ?thesis by (simp add: digits_not_Nil)
    next
      case n: False
      with m "1.prems" have "digits (m div 10) = digits (n div 10)"
        and "digitChar (m mod 10) = digitChar (n mod 10)"
        by (simp_all add: digits.simps [of n])
      then have "m div 10 = n div 10" and "m mod 10 = n mod 10"
        using "1.IH" [OF False] by (auto intro: digitChar_inj)
      then show ?thesis by (metis div_mult_mod_eq)
    qed
  qed
qed

lemma minus_not_digit: "CHR ''-'' \<notin> set (digits n)" and at_not_digit: "CHR ''@'' \<notin> set (digits n)"
  using digits_chars [of "CHR ''-''" n] digits_chars [of "CHR ''@''" n] by auto

lemma minus_digits_neq: "CHR ''-'' # xs \<noteq> digits n" "digits n \<noteq> CHR ''-'' # xs"
  using minus_not_digit [of n] by (metis list.set_intros(1))+

lemma showInt_inj: "showInt a = showInt b \<Longrightarrow> a = b"
  by (auto simp: showInt_def minus_digits_neq dest: digits_inj split: if_splits)

lemma at_not_showInt: "CHR ''@'' \<notin> set (showInt i)"
  using at_not_digit by (simp add: showInt_def)

section \<open>Name lists\<close>

text \<open>
  The loop that collects names once each (a map of names seen and a slice), then sort.Strings.
\<close>

fun dedupFrom :: "'a list \<Rightarrow> 'a list \<Rightarrow> 'a list" where
  "dedupFrom seen [] = []"
| "dedupFrom seen (x # xs) =
     (if x \<in> set seen then dedupFrom seen xs else x # dedupFrom (x # seen) xs)"

definition sortedNames :: "string list \<Rightarrow> string list" where
  "sortedNames names = sort (dedupFrom [] (filter (\<lambda>n. n \<noteq> '''') names))"

lemma set_dedupFrom: "set (dedupFrom seen xs) = set xs - set seen"
  by (induction seen xs rule: dedupFrom.induct) auto

lemma distinct_dedupFrom: "distinct (dedupFrom seen xs)"
  by (induction seen xs rule: dedupFrom.induct) (auto simp: set_dedupFrom)

lemma set_sortedNames: "set (sortedNames names) = set names - {''''}"
  by (auto simp: sortedNames_def set_dedupFrom)

lemma sorted_sortedNames: "sorted (sortedNames names)"
  and distinct_sortedNames: "distinct (sortedNames names)"
  by (simp_all add: sortedNames_def distinct_dedupFrom)

end
