(* ===== verification/Defs.thy ===== *)
theory Defs
  imports Prelude
begin

text \<open>
  Workflow definitions (workflow/workflow.go): node kinds, comment policies, join policies and
  outcomes, eligibilities, nodes, transitions and definitions, with the accessors the engine
  and the validator use. A Go string type with named constants is a datatype with one
  constructor per constant, and one that carries any other text.
\<close>

section \<open>Enumerations\<close>

datatype Status = StatusOpen | StatusClosed | StatusCancelled | StatusOther string

fun Status_Valid :: "Status \<Rightarrow> bool" where
  "Status_Valid (StatusOther s) = False"
| "Status_Valid _ = True"

datatype CommentPolicy =
    CommentNone | commentPolicyNoneAlias | CommentOptional | CommentRequired | CommentOther string

fun CommentPolicy_Valid :: "CommentPolicy \<Rightarrow> bool" where
  "CommentPolicy_Valid (CommentOther s) = False"
| "CommentPolicy_Valid _ = True"

definition Canonical :: "CommentPolicy \<Rightarrow> CommentPolicy" where
  "Canonical p = (if p = commentPolicyNoneAlias then CommentNone else p)"

definition checkComment :: "CommentPolicy \<Rightarrow> string \<Rightarrow> unit result" where
  "checkComment policy comment =
     (let policy = Canonical policy in
      if policy = CommentRequired \<and> comment = '''' then Inl (Err ErrCommentRequired)
      else if policy = CommentNone \<and> comment \<noteq> '''' then Inl (Err ErrCommentNotAllowed)
      else Inr ())"

datatype NodeKind =
    NodeTask | nodeTaskAlias | NodeDecision | NodeParallel | NodeInclusive | NodeJoin
  | NodeKindOther string

fun NodeKind_Valid :: "NodeKind \<Rightarrow> bool" where
  "NodeKind_Valid (NodeKindOther s) = False"
| "NodeKind_Valid _ = True"

definition IsSplit :: "NodeKind \<Rightarrow> bool" where
  "IsSplit k = (k = NodeParallel \<or> k = NodeInclusive)"

definition IsAutomatic :: "NodeKind \<Rightarrow> bool" where
  "IsAutomatic k = (k = NodeDecision \<or> IsSplit k \<or> k = NodeJoin)"

fun label :: "NodeKind \<Rightarrow> string" where
  "label NodeDecision = ''decision node''"
| "label NodeParallel = ''parallel split''"
| "label NodeInclusive = ''inclusive split''"
| "label NodeJoin = ''join node''"
| "label _ = ''node''"

datatype JoinPolicy =
    JoinPolicyNone | JoinAllApprove | JoinAnyApprove | JoinCollect | JoinPolicyOther string

fun JoinPolicy_Valid :: "JoinPolicy \<Rightarrow> bool" where
  "JoinPolicy_Valid (JoinPolicyOther s) = False"
| "JoinPolicy_Valid _ = True"

fun policyText :: "JoinPolicy \<Rightarrow> string" where
  "policyText JoinPolicyNone = ''''"
| "policyText JoinAllApprove = ''all_approve''"
| "policyText JoinAnyApprove = ''any_approve''"
| "policyText JoinCollect = ''collect''"
| "policyText (JoinPolicyOther s) = s"

datatype Outcome =
    OutcomeNone | OutcomeApproved | OutcomeRejected | OutcomeUnanswered | OutcomeOther string

lemma IsSplit_simps [simp]:
  "IsSplit NodeParallel" "IsSplit NodeInclusive" "\<not> IsSplit NodeTask" "\<not> IsSplit nodeTaskAlias"
  "\<not> IsSplit NodeDecision" "\<not> IsSplit NodeJoin" "\<not> IsSplit (NodeKindOther s)"
  by (simp_all add: IsSplit_def)

lemma IsAutomatic_simps [simp]:
  "IsAutomatic NodeParallel" "IsAutomatic NodeInclusive" "\<not> IsAutomatic NodeTask"
  "\<not> IsAutomatic nodeTaskAlias" "IsAutomatic NodeDecision" "IsAutomatic NodeJoin"
  "\<not> IsAutomatic (NodeKindOther s)"
  by (simp_all add: IsAutomatic_def)

section \<open>Eligibility\<close>

record Eligibility =
  el_Position :: string
  el_Unit :: string

definition ByPosition :: "string \<Rightarrow> Eligibility" where
  "ByPosition position = \<lparr>el_Position = position, el_Unit = ''''\<rparr>"

definition ByPositionInUnit :: "string \<Rightarrow> string \<Rightarrow> Eligibility" where
  "ByPositionInUnit position unit = \<lparr>el_Position = position, el_Unit = unit\<rparr>"

abbreviation zeroEligibility :: Eligibility where
  "zeroEligibility \<equiv> \<lparr>el_Position = '''', el_Unit = ''''\<rparr>"

definition Eligibility_IsZero :: "Eligibility \<Rightarrow> bool" where
  "Eligibility_IsZero e = (el_Position e = '''')"

definition ResolveUnit :: "Eligibility \<Rightarrow> string \<Rightarrow> string" where
  "ResolveUnit e caseUnit = (if el_Unit e \<noteq> '''' then el_Unit e else caseUnit)"

section \<open>Nodes, transitions, definitions\<close>

record Node =
  node_ID :: string
  node_Start :: bool
  node_Terminal :: bool
  node_Eligible :: Eligibility
  node_Deadline :: duration
  node_DeadlineRule :: string
  node_Kind :: NodeKind
  node_Effects :: "string list"
  node_Join :: string
  node_OnExpire :: string
  node_JoinPolicy :: JoinPolicy
  node_AssignRule :: string

text \<open>The zero Node, what Go returns beside false when a lookup fails.\<close>

definition zeroNode :: Node where
  "zeroNode = \<lparr>node_ID = '''', node_Start = False, node_Terminal = False,
     node_Eligible = zeroEligibility, node_Deadline = 0, node_DeadlineRule = '''',
     node_Kind = NodeTask, node_Effects = [], node_Join = '''', node_OnExpire = '''',
     node_JoinPolicy = JoinPolicyNone, node_AssignRule = ''''\<rparr>"

record Transition =
  tr_From :: string
  tr_To :: string
  tr_Action :: string
  tr_Guard :: string
  tr_Comment :: CommentPolicy
  tr_Return :: bool
  tr_Effects :: "string list"
  tr_Outcome :: Outcome

definition zeroTransition :: Transition where
  "zeroTransition = \<lparr>tr_From = '''', tr_To = '''', tr_Action = '''', tr_Guard = '''',
     tr_Comment = CommentNone, tr_Return = False, tr_Effects = [], tr_Outcome = OutcomeNone\<rparr>"

record Definition =
  d_Name :: string
  d_Version :: int
  d_Nodes :: "Node list"
  d_Transitions :: "Transition list"

definition Definition_Node :: "Definition \<Rightarrow> string \<Rightarrow> Node option" where
  "Definition_Node d nid = find (\<lambda>n. node_ID n = nid) (d_Nodes d)"

definition StartNode :: "Definition \<Rightarrow> Node option" where
  "StartNode d = find node_Start (d_Nodes d)"

definition TransitionsFrom :: "Definition \<Rightarrow> string \<Rightarrow> Transition list" where
  "TransitionsFrom d nodeID = filter (\<lambda>t. tr_From t = nodeID) (d_Transitions d)"

definition GuardNames :: "Definition \<Rightarrow> string list" where
  "GuardNames d = sortedNames (map tr_Guard (d_Transitions d))"

definition DeadlineRules :: "Definition \<Rightarrow> string list" where
  "DeadlineRules d =
     sortedNames (map node_DeadlineRule (filter (\<lambda>n. \<not> node_Terminal n) (d_Nodes d)))"

definition AssignRules :: "Definition \<Rightarrow> string list" where
  "AssignRules d = sortedNames (map node_AssignRule (d_Nodes d))"

definition EffectNames :: "Definition \<Rightarrow> string list" where
  "EffectNames d =
     sortedNames (concat (map node_Effects (d_Nodes d)) @ concat (map tr_Effects (d_Transitions d)))"

definition Key :: "Definition \<Rightarrow> string" where
  "Key d = d_Name d @ ''@'' @ showInt (d_Version d)"

definition findTransition :: "Transition list \<Rightarrow> string \<Rightarrow> Transition option" where
  "findTransition candidates action = find (\<lambda>t. tr_Action t = action) candidates"

text \<open>
  A violation Validate reports: the format string of its message and the arguments. The
  validator never reads its own messages, so they stay unformatted.
\<close>

datatype arg = S string | I int | Names "string list" | Sprintf string "arg list"

type_synonym violation = "string \<times> arg list"

text \<open>
  The lookup maps Validate builds while it walks the definition. nodeByID leaves out nodes
  without an ID, and a later node overwrites an earlier one with the same ID; outgoingByNode
  holds, in order, the transitions whose source is known, and outOf reads its entry at a node.
  nodeAt is the read of a Go map that yields the zero value for an absent key.
\<close>

definition nodeByID :: "Definition \<Rightarrow> string \<Rightarrow> Node option" where
  "nodeByID d nid = (if nid = '''' then None else find (\<lambda>n. node_ID n = nid) (rev (d_Nodes d)))"

definition nodeAt :: "(string \<Rightarrow> Node option) \<Rightarrow> string \<Rightarrow> Node" where
  "nodeAt byID nid = (case byID nid of Some n \<Rightarrow> n | None \<Rightarrow> zeroNode)"

definition outgoingByNode :: "Definition \<Rightarrow> Transition list" where
  "outgoingByNode d = filter (\<lambda>t. nodeByID d (tr_From t) \<noteq> None) (d_Transitions d)"

definition outOf :: "Transition list \<Rightarrow> string \<Rightarrow> Transition list" where
  "outOf out nid = filter (\<lambda>t. tr_From t = nid) out"

section \<open>Lemmas\<close>

lemma Definition_Node_Some:
  "Definition_Node d nid = Some n \<Longrightarrow> n \<in> set (d_Nodes d) \<and> node_ID n = nid"
  by (auto simp: Definition_Node_def find_Some_iff)

lemma Definition_Node_ID [simp]:
  "Definition_Node d nid = Some n \<Longrightarrow> Definition_Node d (node_ID n) = Some n"
  using Definition_Node_Some by fastforce

lemma TransitionsFrom_mem:
  "t \<in> set (TransitionsFrom d nid) \<longleftrightarrow> t \<in> set (d_Transitions d) \<and> tr_From t = nid"
  by (auto simp: TransitionsFrom_def)

lemma findTransition_Some:
  "findTransition ts a = Some t \<Longrightarrow> t \<in> set ts \<and> tr_Action t = a"
  by (auto simp: findTransition_def find_Some_iff)

lemma split_at_unique:
  "xs @ c # ys = xs' @ c # ys' \<Longrightarrow> c \<notin> set ys \<Longrightarrow> c \<notin> set ys' \<Longrightarrow> xs = xs' \<and> ys = ys'"
proof (induction xs arbitrary: xs')
  case Nil
  then show ?case by (cases xs') auto
next
  case (Cons x xs)
  then show ?case by (cases xs') auto
qed

text \<open>
  The registration key Name@Version identifies the name and the version, although a name may
  itself hold an at sign.
\<close>

lemma Key_inj: "Key a = Key b \<Longrightarrow> d_Name a = d_Name b \<and> d_Version a = d_Version b"
  using split_at_unique [of "d_Name a" "CHR ''@''" "showInt (d_Version a)" "d_Name b"
      "showInt (d_Version b)"]
  by (auto simp: Key_def at_not_showInt dest: showInt_inj)

lemma checkComment_Inr:
  "checkComment p c = Inr () \<longleftrightarrow>
     (p = CommentRequired \<longrightarrow> c \<noteq> '''') \<and> (p \<in> {CommentNone, commentPolicyNoneAlias} \<longrightarrow> c = '''')"
  by (auto simp: checkComment_def Canonical_def Let_def)

lemma set_EffectNames:
  "set (EffectNames d) =
     ((\<Union>n \<in> set (d_Nodes d). set (node_Effects n)) \<union>
      (\<Union>t \<in> set (d_Transitions d). set (tr_Effects t))) - {''''}"
  by (simp add: EffectNames_def set_sortedNames)

lemma nodeByID_Some: "nodeByID d nid = Some n \<Longrightarrow> n \<in> set (d_Nodes d) \<and> node_ID n = nid \<and> nid \<noteq> ''''"
  by (auto simp: nodeByID_def find_Some_iff rev_nth split: if_splits)

lemma nodeByID_None: "nodeByID d nid = None \<longleftrightarrow> nid = '''' \<or> (\<forall>n \<in> set (d_Nodes d). node_ID n \<noteq> nid)"
  by (auto simp: nodeByID_def find_None_iff)

lemma nodeByID_mem:
  "distinct (map node_ID (d_Nodes d)) \<Longrightarrow> n \<in> set (d_Nodes d) \<Longrightarrow> node_ID n \<noteq> '''' \<Longrightarrow>
   nodeByID d (node_ID n) = Some n"
  using lookupBy_mem [of node_ID "rev (d_Nodes d)" n]
  by (simp add: nodeByID_def lookupBy_def rev_map [symmetric])

lemma Definition_Node_mem:
  "distinct (map node_ID (d_Nodes d)) \<Longrightarrow> n \<in> set (d_Nodes d) \<Longrightarrow> Definition_Node d (node_ID n) = Some n"
  using lookupBy_mem [of node_ID "d_Nodes d" n] by (simp add: Definition_Node_def lookupBy_def)

lemma outOf_mem: "t \<in> set (outOf out nid) \<longleftrightarrow> t \<in> set out \<and> tr_From t = nid"
  by (auto simp: outOf_def)

lemma outgoingByNode_mem:
  "t \<in> set (outgoingByNode d) \<longleftrightarrow> t \<in> set (d_Transitions d) \<and> nodeByID d (tr_From t) \<noteq> None"
  by (auto simp: outgoingByNode_def)

lemma outOf_outgoingByNode:
  "nodeByID d nid \<noteq> None \<Longrightarrow> outOf (outgoingByNode d) nid = TransitionsFrom d nid"
  by (auto simp: outOf_def outgoingByNode_def TransitionsFrom_def intro: filter_cong)

end
