(* ===== verification/Graph.thy ===== *)
theory Graph
  imports Defs
begin

text \<open>
  The graph searches of the validator: the breadth-first search of Definition.Validate and
  checkBlock, reaches (workflow/joinpolicy.go), and detectGatewayCycle (workflow/workflow.go),
  a depth-first search with three colours. The lemmas give their meaning as reachability and
  acyclicity of the edge relation.
\<close>

section \<open>Breadth-first search over an edge list\<close>

definition succs :: "('a \<times> 'a) list \<Rightarrow> 'a \<Rightarrow> 'a list" where
  "succs E x = map snd (filter (\<lambda>e. fst e = x) E)"

fun enqueue :: "'a list \<Rightarrow> 'a list \<Rightarrow> 'a list \<Rightarrow> 'a list \<times> 'a list" where
  "enqueue seen queue [] = (seen, queue)"
| "enqueue seen queue (y # ys) =
     (if y \<in> set seen then enqueue seen queue ys
      else enqueue (seen @ [y]) (queue @ [y]) ys)"

lemma set_succs: "set (succs E x) = {y. (x, y) \<in> set E}"
  by (force simp: succs_def)

lemma enqueue_set:
  "enqueue seen queue ys = (seen', queue') \<Longrightarrow>
     set seen' = set seen \<union> set ys \<and> set queue' = set queue \<union> (set ys - set seen)"
proof (induction seen queue ys arbitrary: seen' queue' rule: enqueue.induct)
  case (1 seen queue)
  then show ?case by simp
next
  case (2 seen queue y ys)
  show ?case
  proof (cases "y \<in> set seen")
    case True
    then have "enqueue seen queue ys = (seen', queue')" using "2.prems" by simp
    from "2.IH"(1) [OF True this] True show ?thesis by auto
  next
    case False
    then have "enqueue (seen @ [y]) (queue @ [y]) ys = (seen', queue')" using "2.prems" by simp
    from "2.IH"(2) [OF False this] False show ?thesis by auto
  qed
qed

lemma enqueue_measure:
  assumes "enqueue seen queue ys = (seen', queue')" and "set ys \<subseteq> T" and "finite T"
  shows "length queue' + card (T - set seen') \<le> length queue + card (T - set seen)"
  using assms
proof (induction seen queue ys arbitrary: seen' queue' rule: enqueue.induct)
  case (1 seen queue)
  then show ?case by simp
next
  case (2 seen queue y ys)
  show ?case
  proof (cases "y \<in> set seen")
    case True
    with 2 show ?thesis by simp
  next
    case False
    then have *: "length queue' + card (T - set seen') \<le>
        length (queue @ [y]) + card (T - set (seen @ [y]))"
      using 2 by simp
    have "T - set (seen @ [y]) = (T - set seen) - {y}" by auto
    moreover have "y \<in> T - set seen" using False 2 by simp
    ultimately have "Suc (card (T - set (seen @ [y]))) = card (T - set seen)"
      using \<open>finite T\<close> by (metis card_Suc_Diff1 finite_Diff)
    with * show ?thesis by simp
  qed
qed

function bfs :: "('a \<times> 'a) list \<Rightarrow> 'a list \<Rightarrow> 'a list \<Rightarrow> 'a list" where
  "bfs E seen [] = seen"
| "bfs E seen (x # queue) =
     (let (seen', queue') = enqueue seen queue (succs E x) in bfs E seen' queue')"
  by pat_completeness auto
termination
proof (relation "measure (\<lambda>(E, seen, queue). length queue + card (snd ` set E - set seen))")
  fix E :: "('a \<times> 'a) list" and seen queue :: "'a list" and x p seen' queue'
  assume "p = enqueue seen queue (succs E x)" and "(seen', queue') = p"
  then have "length queue' + card (snd ` set E - set seen') \<le>
      length queue + card (snd ` set E - set seen)"
    by (intro enqueue_measure [of seen queue "succs E x"]) (force simp: set_succs)+
  then show "((E, seen', queue'), E, seen, x # queue) \<in>
      measure (\<lambda>(E, seen, queue). length queue + card (snd ` set E - set seen))"
    by simp
qed simp

declare bfs.simps [simp del]

lemma bfs_Nil: "bfs E seen [] = seen"
  by (simp add: bfs.simps)

lemma bfs_Cons: "enqueue seen queue (succs E x) = (s, q) \<Longrightarrow> bfs E seen (x # queue) = bfs E s q"
  by (simp add: bfs.simps)

lemma bfs_seen: "set seen \<subseteq> set (bfs E seen queue)"
proof (induction E seen queue rule: bfs.induct)
  case (1 E seen)
  then show ?case by (simp add: bfs_Nil)
next
  case (2 E seen x queue)
  obtain s q where eq: "enqueue seen queue (succs E x) = (s, q)" by fastforce
  with 2 have "set s \<subseteq> set (bfs E s q)" by simp
  with enqueue_set [OF eq] bfs_Cons [OF eq] show ?case by simp
qed

lemma bfs_sound: "set (bfs E seen queue) \<subseteq> set seen \<union> (set E)\<^sup>+ `` set queue"
proof (induction E seen queue rule: bfs.induct)
  case (1 E seen)
  then show ?case by (simp add: bfs_Nil)
next
  case (2 E seen x queue)
  obtain s q where eq: "enqueue seen queue (succs E x) = (s, q)" by fastforce
  note sets = enqueue_set [OF eq]
  have IH: "set (bfs E s q) \<subseteq> set s \<union> (set E)\<^sup>+ `` set q" using 2 eq by simp
  have s: "set s \<subseteq> set seen \<union> (set E)\<^sup>+ `` {x}" using sets by (auto simp: set_succs)
  have "set q \<subseteq> set queue \<union> (set E) `` {x}" using sets by (auto simp: set_succs)
  then have "(set E)\<^sup>+ `` set q \<subseteq> (set E)\<^sup>+ `` set queue \<union> (set E)\<^sup>+ `` {x}"
    by (blast intro: trancl_into_trancl2)
  with IH s have "set (bfs E s q) \<subseteq> set seen \<union> ((set E)\<^sup>+ `` {x} \<union> (set E)\<^sup>+ `` set queue)" by blast
  also have "(set E)\<^sup>+ `` {x} \<union> (set E)\<^sup>+ `` set queue = (set E)\<^sup>+ `` set (x # queue)" by auto
  finally show ?case using bfs_Cons [OF eq] by simp
qed

lemma bfs_closed:
  assumes "\<And>x. x \<in> set seen \<Longrightarrow> x \<notin> set queue \<Longrightarrow> set E `` {x} \<subseteq> set seen"
  shows "set E `` (set (bfs E seen queue) \<union> set queue) \<subseteq> set (bfs E seen queue)"
  using assms
proof (induction E seen queue rule: bfs.induct)
  case (1 E seen)
  then show ?case by (auto simp: bfs_Nil Image_def)
next
  case (2 E seen x queue)
  obtain s q where eq: "enqueue seen queue (succs E x) = (s, q)" by fastforce
  note sets = enqueue_set [OF eq]
  have closed: "set E `` {y} \<subseteq> set s" if "y \<in> set s" "y \<notin> set q" for y
  proof (cases "y = x")
    case True
    then show ?thesis using sets by (auto simp: set_succs)
  next
    case False
    then have "y \<in> set seen" "y \<notin> set (x # queue)" using that sets by auto
    then show ?thesis using "2.prems" sets by blast
  qed
  have IH: "set E `` (set (bfs E s q) \<union> set q) \<subseteq> set (bfs E s q)"
    using "2.IH" [of "(s, q)" s q] eq closed by simp
  have "set E `` {x} \<subseteq> set s" using sets by (auto simp: set_succs)
  moreover have "set s \<subseteq> set (bfs E s q)" by (rule bfs_seen)
  moreover have "set queue \<subseteq> set q" using sets by auto
  moreover have "set E `` (set (bfs E s q) \<union> set (x # queue)) =
      set E `` set (bfs E s q) \<union> (set E `` {x} \<union> set E `` set queue)"
    by (simp add: Image_Un [symmetric] Un_insert_left [symmetric] flip: Un_insert_right)
  ultimately have "set E `` (set (bfs E s q) \<union> set (x # queue)) \<subseteq> set (bfs E s q)"
    using IH Image_mono [of "set E" "set E" "set queue" "set q"] by blast
  with bfs_Cons [OF eq] show ?case by simp
qed

lemma Image_closed_rtrancl: "r `` X \<subseteq> X \<Longrightarrow> r\<^sup>* `` X = X"
proof
  assume closed: "r `` X \<subseteq> X"
  show "r\<^sup>* `` X \<subseteq> X"
  proof
    fix y assume "y \<in> r\<^sup>* `` X"
    then obtain x where "x \<in> X" "(x, y) \<in> r\<^sup>*" by blast
    from this(2,1) show "y \<in> X" by induction (use closed in auto)
  qed
  show "X \<subseteq> r\<^sup>* `` X" by blast
qed

lemma bfs_reachable: "set (bfs E [x] [x]) = (set E)\<^sup>* `` {x}"
proof
  have "set (bfs E [x] [x]) \<subseteq> {x} \<union> (set E)\<^sup>+ `` {x}"
    using bfs_sound [of E "[x]" "[x]"] by simp
  also have "\<dots> \<subseteq> (set E)\<^sup>* `` {x}" by (auto intro: trancl_into_rtrancl)
  finally show "set (bfs E [x] [x]) \<subseteq> (set E)\<^sup>* `` {x}" .
  have "set E `` (set (bfs E [x] [x]) \<union> set [x]) \<subseteq> set (bfs E [x] [x])"
    by (rule bfs_closed) simp
  then have "set E `` set (bfs E [x] [x]) \<subseteq> set (bfs E [x] [x])" by blast
  then have "(set E)\<^sup>* `` set (bfs E [x] [x]) = set (bfs E [x] [x])"
    by (rule Image_closed_rtrancl)
  moreover have "{x} \<subseteq> set (bfs E [x] [x])" using bfs_seen [of "[x]" E "[x]"] by simp
  then have "(set E)\<^sup>* `` {x} \<subseteq> (set E)\<^sup>* `` set (bfs E [x] [x])" by (rule Image_mono [OF order_refl])
  ultimately show "(set E)\<^sup>* `` {x} \<subseteq> set (bfs E [x] [x])" by simp
qed

section \<open>reaches\<close>

text \<open>The loop of reaches returns as soon as it dequeues the target.\<close>

function reachesLoop :: "('a \<times> 'a) list \<Rightarrow> 'a \<Rightarrow> 'a list \<Rightarrow> 'a list \<Rightarrow> bool" where
  "reachesLoop E target seen [] = False"
| "reachesLoop E target seen (x # queue) =
     (if x = target then True
      else let (seen', queue') = enqueue seen queue (succs E x)
           in reachesLoop E target seen' queue')"
  by pat_completeness auto
termination
proof (relation "measure (\<lambda>(E, target, seen, queue). length queue + card (snd ` set E - set seen))")
  fix E :: "('a \<times> 'a) list" and seen queue :: "'a list" and x target p seen' queue'
  assume "p = enqueue seen queue (succs E x)" and "(seen', queue') = p"
  then have "length queue' + card (snd ` set E - set seen') \<le>
      length queue + card (snd ` set E - set seen)"
    by (intro enqueue_measure [of seen queue "succs E x"]) (force simp: set_succs)+
  then show "((E, target, seen', queue'), E, target, seen, x # queue) \<in>
      measure (\<lambda>(E, target, seen, queue). length queue + card (snd ` set E - set seen))"
    by simp
qed simp

declare reachesLoop.simps [simp del]

lemma reachesLoop_Cons:
  "enqueue seen queue (succs E x) = (s, q) \<Longrightarrow>
   reachesLoop E target seen (x # queue) = (x = target \<or> reachesLoop E target s q)"
  by (simp add: reachesLoop.simps)

lemma reachesLoop_bfs:
  assumes "set queue \<subseteq> set seen" and "target \<in> set seen \<longrightarrow> target \<in> set queue"
  shows "reachesLoop E target seen queue \<longleftrightarrow> target \<in> set (bfs E seen queue)"
  using assms
proof (induction E target seen queue rule: reachesLoop.induct)
  case (1 E target seen)
  then show ?case by (simp add: bfs_Nil reachesLoop.simps)
next
  case (2 E target seen x queue)
  obtain s q where eq: "enqueue seen queue (succs E x) = (s, q)" by fastforce
  note sets = enqueue_set [OF eq]
  show ?case
  proof (cases "x = target")
    case True
    then have "target \<in> set seen" using "2.prems" by simp
    then show ?thesis using True bfs_seen [of seen E "x # queue"] reachesLoop_Cons [OF eq] by auto
  next
    case False
    have "set q \<subseteq> set s" using sets "2.prems" by auto
    moreover have "target \<in> set s \<longrightarrow> target \<in> set q" using sets "2.prems" False by auto
    ultimately have "reachesLoop E target s q \<longleftrightarrow> target \<in> set (bfs E s q)"
      using "2.IH" False eq by simp
    with False show ?thesis by (simp add: reachesLoop_Cons [OF eq] bfs_Cons [OF eq])
  qed
qed

section \<open>detectGatewayCycle\<close>

datatype color = White | Gray | Black

type_synonym dfs_state = "(string \<Rightarrow> color) \<times> string list"

definition cycleFrom :: "string list \<Rightarrow> string \<Rightarrow> string list" where
  "cycleFrom path next =
     (if next \<in> set path then dropWhile (\<lambda>p. p \<noteq> next) path else path) @ [next]"

text \<open>
  visit and its loop over the successors. The fuel bounds the depth of the recursion; every
  level colours one more white node, so one unit per node is enough (detectGatewayCycle_iff
  below is proved for exactly that fuel).
\<close>

fun visitNexts :: "(string \<Rightarrow> dfs_state \<Rightarrow> string list option \<times> dfs_state) \<Rightarrow> string list \<Rightarrow>
    dfs_state \<Rightarrow> string list option \<times> dfs_state" where
  "visitNexts rec [] st = (None, st)"
| "visitNexts rec (next # rest) (color, path) =
     (case color next of
        White \<Rightarrow> (case rec next (color, path) of
                    (Some cyc, st) \<Rightarrow> (Some cyc, st)
                  | (None, st) \<Rightarrow> visitNexts rec rest st)
      | Gray \<Rightarrow> (Some (cycleFrom path next), (color, path))
      | Black \<Rightarrow> visitNexts rec rest (color, path))"

primrec visit :: "nat \<Rightarrow> (string \<Rightarrow> string list) \<Rightarrow> string \<Rightarrow> dfs_state \<Rightarrow>
    string list option \<times> dfs_state" where
  "visit 0 adj n st = (None, st)"
| "visit (Suc f) adj n st =
     (case st of (color, path) \<Rightarrow>
        (case visitNexts (visit f adj) (adj n) (color(n := Gray), path @ [n]) of
           (Some cyc, st) \<Rightarrow> (Some cyc, st)
         | (None, (color, path)) \<Rightarrow> (None, (color(n := Black), butlast path))))"

fun visitRoots :: "nat \<Rightarrow> (string \<Rightarrow> string list) \<Rightarrow> string list \<Rightarrow> dfs_state \<Rightarrow> string list option" where
  "visitRoots f adj [] st = None"
| "visitRoots f adj (n # ns) (color, path) =
     (if color n = White
      then (case visit f adj n (color, path) of
              (Some cyc, st) \<Rightarrow> Some cyc
            | (None, st) \<Rightarrow> visitRoots f adj ns st)
      else visitRoots f adj ns (color, path))"

definition detectGatewayCycle :: "string list \<Rightarrow> (string \<Rightarrow> string list) \<Rightarrow> string list option" where
  "detectGatewayCycle nodes adj = visitRoots (length nodes) adj nodes (\<lambda>_. White, [])"

definition edges :: "(string \<Rightarrow> string list) \<Rightarrow> (string \<times> string) set" where
  "edges adj = {(x, y). y \<in> set (adj x)}"

definition isCycle :: "(string \<Rightarrow> string list) \<Rightarrow> string list \<Rightarrow> bool" where
  "isCycle adj c \<longleftrightarrow> 2 \<le> length c \<and> hd c = last c \<and> successively (\<lambda>x y. y \<in> set (adj x)) c"

definition blacks :: "(string \<Rightarrow> color) \<Rightarrow> string set" where
  "blacks color = {x. color x = Black}"

definition whites :: "string set \<Rightarrow> (string \<Rightarrow> color) \<Rightarrow> string set" where
  "whites U color = {x \<in> U. color x = White}"

text \<open>
  The invariant of the search inside a finite closed universe: the grey nodes are the current
  path, the path follows edges, and the black nodes are closed under edges and acyclic.
\<close>

definition dfs_inv :: "(string \<Rightarrow> string list) \<Rightarrow> string set \<Rightarrow> dfs_state \<Rightarrow> bool" where
  "dfs_inv adj U st \<longleftrightarrow> (case st of (color, path) \<Rightarrow>
     set path = {x. color x = Gray} \<and> distinct path \<and>
     successively (\<lambda>x y. y \<in> set (adj x)) path \<and>
     edges adj `` blacks color \<subseteq> blacks color \<and>
     acyclic (edges adj \<inter> blacks color \<times> blacks color) \<and>
     set path \<union> blacks color \<subseteq> U)"

lemma acyclic_insert_sink:
  assumes "acyclic (r \<inter> B \<times> B)" and "r `` B \<subseteq> B" and "n \<notin> B" and "r `` {n} \<subseteq> B"
  shows "acyclic (r \<inter> insert n B \<times> insert n B)"
proof -
  have no_in: "(x, n) \<notin> r \<inter> insert n B \<times> insert n B" for x
    using assms by auto
  have step: "(x, y) \<in> (r \<inter> insert n B \<times> insert n B)\<^sup>+ \<Longrightarrow> x \<in> B \<Longrightarrow> (x, y) \<in> (r \<inter> B \<times> B)\<^sup>+ \<and> y \<in> B" for x y
  proof (induction rule: trancl_induct)
    case (base y)
    then show ?case using assms by auto
  next
    case (step y z)
    then show ?case using assms by (auto intro: trancl_into_trancl)
  qed
  show ?thesis
  proof (rule acyclicI, rule allI, rule notI)
    fix x assume cyc: "(x, x) \<in> (r \<inter> insert n B \<times> insert n B)\<^sup>+"
    from cyc obtain z where "(z, x) \<in> r \<inter> insert n B \<times> insert n B" by (rule tranclE)
    with no_in have "x \<in> B" by auto
    with step [OF cyc] have "(x, x) \<in> (r \<inter> B \<times> B)\<^sup>+" by blast
    with assms(1) show False by (simp add: acyclic_def)
  qed
qed

lemma isCycle_cycleFrom:
  assumes "successively (\<lambda>x y. y \<in> set (adj x)) path" and "path \<noteq> []"
    and "next \<in> set path" and "next \<in> set (adj (last path))"
  shows "isCycle adj (cycleFrom path next)"
proof -
  obtain pre post where path: "path = pre @ next # post" and "next \<notin> set pre"
    using assms(3) by (meson split_list_first)
  then have drop: "dropWhile (\<lambda>p. p \<noteq> next) path = next # post"
    by (simp add: dropWhile_append)
  have "successively (\<lambda>x y. y \<in> set (adj x)) (next # post)"
    using assms(1) path by (simp add: successively_append_iff)
  moreover have "last (next # post) = last path" using path by simp
  ultimately have "successively (\<lambda>x y. y \<in> set (adj x)) ((next # post) @ [next])"
    using assms(4) by (subst successively_append_iff) simp
  then show ?thesis using drop assms(3) by (simp add: isCycle_def cycleFrom_def)
qed

text \<open>What a call of visit or of its loop guarantees: a cycle, or a larger black region.\<close>

fun dfs_post :: "(string \<Rightarrow> string list) \<Rightarrow> string set \<Rightarrow> string list \<Rightarrow> dfs_state \<Rightarrow>
    string list option \<times> dfs_state \<Rightarrow> bool" where
  "dfs_post adj U ns (color, path) (Some cyc, st) \<longleftrightarrow> isCycle adj cyc"
| "dfs_post adj U ns (color, path) (None, (color', path')) \<longleftrightarrow>
     dfs_inv adj U (color', path') \<and> path' = path \<and> set ns \<subseteq> blacks color' \<and>
     blacks color \<subseteq> blacks color' \<and> whites U color' \<subseteq> whites U color"

definition visit_ok :: "(string \<Rightarrow> string list) \<Rightarrow> string set \<Rightarrow> nat \<Rightarrow>
    (string \<Rightarrow> dfs_state \<Rightarrow> string list option \<times> dfs_state) \<Rightarrow> bool" where
  "visit_ok adj U f rec \<longleftrightarrow> (\<forall>n color path. dfs_inv adj U (color, path) \<longrightarrow> color n = White \<longrightarrow> n \<in> U \<longrightarrow>
     (path \<noteq> [] \<longrightarrow> n \<in> set (adj (last path))) \<longrightarrow> card (whites U color) \<le> f \<longrightarrow>
     dfs_post adj U [n] (color, path) (rec n (color, path)))"

lemma visit_okD:
  "\<lbrakk> visit_ok adj U f rec; dfs_inv adj U (color, path); color n = White; n \<in> U;
     path \<noteq> [] \<longrightarrow> n \<in> set (adj (last path)); card (whites U color) \<le> f \<rbrakk>
   \<Longrightarrow> dfs_post adj U [n] (color, path) (rec n (color, path))"
  by (simp add: visit_ok_def)

lemma visitNexts_ok:
  assumes rec: "visit_ok adj U f rec" and fin: "finite U"
  shows "\<lbrakk> dfs_inv adj U (color, path); path \<noteq> []; set ns \<subseteq> set (adj (last path)); set ns \<subseteq> U;
     card (whites U color) \<le> f \<rbrakk> \<Longrightarrow> dfs_post adj U ns (color, path) (visitNexts rec ns (color, path))"
proof (induction ns arbitrary: color)
  case Nil
  then show ?case by simp
next
  case (Cons n ns)
  show ?case
  proof (cases "color n")
    case Gray
    then have "n \<in> set path" using Cons.prems(1) by (simp add: dfs_inv_def)
    then have "isCycle adj (cycleFrom path n)"
      using Cons.prems by (intro isCycle_cycleFrom) (auto simp: dfs_inv_def)
    with Gray show ?thesis by simp
  next
    case Black
    then have "n \<in> blacks color" by (simp add: blacks_def)
    moreover have "dfs_post adj U ns (color, path) (visitNexts rec ns (color, path))"
      using Cons by simp
    ultimately show ?thesis using Black
      by (cases "(adj, U, ns, (color, path), visitNexts rec ns (color, path))" rule: dfs_post.cases)
        auto
  next
    case White
    have post: "dfs_post adj U [n] (color, path) (rec n (color, path))"
      using Cons.prems White by (intro visit_okD [OF rec]) auto
    obtain r c' p' where res: "rec n (color, path) = (r, (c', p'))" by (metis prod.exhaust)
    show ?thesis
    proof (cases r)
      case (Some cyc)
      with res post White show ?thesis by simp
    next
      case None
      have p': "p' = path" "dfs_inv adj U (c', path)" "n \<in> blacks c'" "blacks color \<subseteq> blacks c'"
        and w: "whites U c' \<subseteq> whites U color"
        using post res None by auto
      have "card (whites U c') \<le> card (whites U color)"
        using w fin by (intro card_mono) (auto simp: whites_def)
      then have IH: "dfs_post adj U ns (c', path) (visitNexts rec ns (c', path))"
        using Cons.prems p' by (intro Cons.IH) auto
      have "visitNexts rec (n # ns) (color, path) = visitNexts rec ns (c', path)"
        using White res None p' by simp
      then show ?thesis using IH p' w
        by (cases "(adj, U, ns, (c', path), visitNexts rec ns (c', path))" rule: dfs_post.cases) auto
    qed
  qed
qed

lemma dfs_inv_push:
  assumes "dfs_inv adj U (color, path)" "color n = White" "n \<in> U"
    "path \<noteq> [] \<longrightarrow> n \<in> set (adj (last path))"
  shows "dfs_inv adj U (color(n := Gray), path @ [n])"
proof -
  have "blacks (color(n := Gray)) = blacks color" using assms(2) by (auto simp: blacks_def)
  moreover have "n \<notin> set path" using assms(1,2) by (simp add: dfs_inv_def)
  moreover have "{x. (color(n := Gray)) x = Gray} = insert n {x. color x = Gray}" by auto
  moreover have "successively (\<lambda>x y. y \<in> set (adj x)) (path @ [n])"
    using assms(1,4) by (subst successively_append_iff) (auto simp: dfs_inv_def)
  ultimately show ?thesis using assms by (auto simp: dfs_inv_def)
qed

lemma dfs_inv_pop:
  assumes inv: "dfs_inv adj U (color, path @ [n])" and black: "set (adj n) \<subseteq> blacks color"
  shows "dfs_inv adj U (color(n := Black), path)"
proof -
  have gray: "color n = Gray" using inv by (auto simp: dfs_inv_def)
  have bl: "blacks (color(n := Black)) = insert n (blacks color)" by (auto simp: blacks_def)
  have grays: "{x. (color(n := Black)) x = Gray} = {x. color x = Gray} - {n}" by auto
  have "set path = {x. color x = Gray} - {n}" "distinct path"
    using inv by (auto simp: dfs_inv_def)
  moreover have "successively (\<lambda>x y. y \<in> set (adj x)) path"
    using inv successively_append_iff [of "\<lambda>x y. y \<in> set (adj x)" path "[n]"]
    by (simp add: dfs_inv_def)
  moreover have out: "edges adj `` {n} \<subseteq> blacks color" using black by (auto simp: edges_def)
  moreover have closed: "edges adj `` blacks color \<subseteq> blacks color"
    and ac: "acyclic (edges adj \<inter> blacks color \<times> blacks color)"
    and sub: "insert n (set path) \<union> blacks color \<subseteq> U"
    using inv by (auto simp: dfs_inv_def)
  moreover have "acyclic (edges adj \<inter> insert n (blacks color) \<times> insert n (blacks color))"
    using ac closed _ out by (rule acyclic_insert_sink) (simp add: gray blacks_def)
  moreover have "edges adj `` insert n (blacks color) \<subseteq> insert n (blacks color)"
    using out closed by blast
  ultimately show ?thesis unfolding dfs_inv_def prod.case bl grays by blast
qed

lemma visit_ok_visit:
  assumes fin: "finite U" and closed: "\<And>x. set (adj x) \<subseteq> U"
  shows "visit_ok adj U f (visit f adj)"
proof (induction f)
  case 0
  show ?case unfolding visit_ok_def
  proof (intro allI impI)
    fix n color path
    assume "color n = White" "n \<in> U" "card (whites U color) \<le> 0"
    moreover have "finite (whites U color)" using fin by (simp add: whites_def)
    ultimately show "dfs_post adj U [n] (color, path) (visit 0 adj n (color, path))"
      by (auto simp: whites_def)
  qed
next
  case (Suc f)
  show ?case unfolding visit_ok_def
  proof (intro allI impI)
    fix n color path
    assume inv: "dfs_inv adj U (color, path)" and white: "color n = White" and n: "n \<in> U"
      and last: "path \<noteq> [] \<longrightarrow> n \<in> set (adj (last path))" and card: "card (whites U color) \<le> Suc f"
    let ?color = "color(n := Gray)"
    have ws: "whites U ?color = whites U color - {n}" by (auto simp: whites_def)
    have "n \<in> whites U color" "finite (whites U color)" using white n fin by (auto simp: whites_def)
    then have card': "card (whites U ?color) \<le> f" using card ws by simp
    obtain r c' p' where res: "visitNexts (visit f adj) (adj n) (?color, path @ [n]) = (r, (c', p'))"
      by (metis prod.exhaust)
    have post: "dfs_post adj U (adj n) (?color, path @ [n]) (r, (c', p'))"
      unfolding res [symmetric]
      by (rule visitNexts_ok [OF Suc.IH fin])
        (use dfs_inv_push [OF inv white n last] closed card' in auto)
    show "dfs_post adj U [n] (color, path) (visit (Suc f) adj n (color, path))"
    proof (cases r)
      case (Some cyc)
      with post res show ?thesis by simp
    next
      case None
      have "blacks color \<subseteq> blacks ?color" using white by (auto simp: blacks_def)
      moreover have "whites U (c'(n := Black)) \<subseteq> whites U c'" by (auto simp: whites_def)
      moreover have "dfs_inv adj U (c'(n := Black), path)" "p' = path @ [n]"
        using post None dfs_inv_pop by auto
      moreover have "blacks (c'(n := Black)) = insert n (blacks c')" by (auto simp: blacks_def)
      ultimately show ?thesis using None res post ws by auto
    qed
  qed
qed

lemma visitRoots_ok:
  assumes fin: "finite U" and closed: "\<And>x. set (adj x) \<subseteq> U"
  shows "\<lbrakk> dfs_inv adj U (color, []); set ns \<subseteq> U; card U \<le> f \<rbrakk> \<Longrightarrow>
    (case visitRoots f adj ns (color, []) of
       Some c \<Rightarrow> isCycle adj c
     | None \<Rightarrow> \<exists>color'. dfs_inv adj U (color', []) \<and> set ns \<union> blacks color \<subseteq> blacks color')"
proof (induction ns arbitrary: color)
  case Nil
  then show ?case by auto
next
  case (Cons n ns)
  have noGray: "color n \<noteq> Gray" using Cons.prems by (auto simp: dfs_inv_def)
  show ?case
  proof (cases "color n = White")
    case False
    with noGray have "n \<in> blacks color" by (cases "color n") (auto simp: blacks_def)
    with False Cons show ?thesis by (fastforce split: option.splits)
  next
    case True
    have "card (whites U color) \<le> card U" using fin by (intro card_mono) (auto simp: whites_def)
    then have post: "dfs_post adj U [n] (color, []) (visit f adj n (color, []))"
      using Cons.prems True by (intro visit_okD [OF visit_ok_visit [OF fin closed]]) auto
    obtain r c' p' where res: "visit f adj n (color, []) = (r, (c', p'))" by (metis prod.exhaust)
    show ?thesis
    proof (cases r)
      case (Some cyc)
      with post res True show ?thesis by simp
    next
      case None
      with post res have p: "p' = []" "dfs_inv adj U (c', [])" "n \<in> blacks c'" "blacks color \<subseteq> blacks c'"
        by auto
      with Cons.IH [of c'] Cons.prems
      have "case visitRoots f adj ns (c', []) of
          Some c \<Rightarrow> isCycle adj c
        | None \<Rightarrow> \<exists>color'. dfs_inv adj U (color', []) \<and> set ns \<union> blacks c' \<subseteq> blacks color'" by simp
      with p res None True show ?thesis by (fastforce split: option.splits)
    qed
  qed
qed

lemma isCycle_trancl: "isCycle adj c \<Longrightarrow> (hd c, hd c) \<in> (edges adj)\<^sup>+"
proof -
  have path: "successively (\<lambda>x y. y \<in> set (adj x)) (x # xs) \<Longrightarrow> xs \<noteq> [] \<Longrightarrow>
      (x, last xs) \<in> (edges adj)\<^sup>+" for x xs
  proof (induction xs arbitrary: x)
    case (Cons y ys)
    then have "(x, y) \<in> (edges adj)\<^sup>+" by (auto simp: edges_def)
    with Cons show ?case by (cases ys) (auto intro: trancl_trans)
  qed simp
  assume "isCycle adj c"
  then obtain x xs where "c = x # xs" "xs \<noteq> []" "x = last xs"
    "successively (\<lambda>x y. y \<in> set (adj x)) (x # xs)"
    by (cases c; cases "tl c") (auto simp: isCycle_def)
  with path [of x xs] show ?thesis by simp
qed

lemma detectGatewayCycle_Some:
  assumes "\<And>x. set (adj x) \<subseteq> set nodes" and "detectGatewayCycle nodes adj = Some c"
  shows "isCycle adj c"
  using visitRoots_ok [of "set nodes" adj "\<lambda>_. White" nodes "length nodes"] assms
  by (auto simp: detectGatewayCycle_def dfs_inv_def blacks_def card_length acyclic_def)

lemma detectGatewayCycle_None:
  assumes closed: "\<And>x. set (adj x) \<subseteq> set nodes" and outside: "\<And>x. x \<notin> set nodes \<Longrightarrow> adj x = []"
  shows "detectGatewayCycle nodes adj = None \<longleftrightarrow> acyclic (edges adj)"
proof
  assume "detectGatewayCycle nodes adj = None"
  then obtain color where inv: "dfs_inv adj (set nodes) (color, [])" and "set nodes \<subseteq> blacks color"
    using visitRoots_ok [of "set nodes" adj "\<lambda>_. White" nodes "length nodes"] closed
    by (auto simp: detectGatewayCycle_def dfs_inv_def blacks_def card_length acyclic_def)
  then have "blacks color = set nodes" by (auto simp: dfs_inv_def)
  moreover have "edges adj \<subseteq> set nodes \<times> set nodes"
    using closed outside by (fastforce simp: edges_def)
  then have "edges adj \<inter> set nodes \<times> set nodes = edges adj" by blast
  ultimately show "acyclic (edges adj)" using inv by (simp add: dfs_inv_def)
next
  assume "acyclic (edges adj)"
  then show "detectGatewayCycle nodes adj = None"
    using detectGatewayCycle_Some [OF closed] isCycle_trancl
    by (meson acyclic_def not_Some_eq)
qed

end
