(* ===== verification/Blocks.thy ===== *)
theory Blocks
  imports Graph
begin

text \<open>
  The block structure of a definition (workflow/blocks.go): the region between a split and its
  join, computed branch by branch, and the rules that make blocks nest. The lemmas state the
  walk of buildBlock as reachability and the rules as facts about paths.
\<close>

section \<open>Blocks\<close>

record branch =
  br_action :: string
  br_order :: "string list"
  br_reentersSplit :: bool

record block =
  blk_split :: Node
  blk_join :: string
  blk_branches :: "branch list"

text \<open>The map branch.nodes holds the nodes of branch.order; block.interior is their union.\<close>

definition br_nodes :: "branch \<Rightarrow> string set" where
  "br_nodes br = set (br_order br)"

definition blk_interior :: "block \<Rightarrow> string set" where
  "blk_interior b = (\<Union>br \<in> set (blk_branches b). br_nodes br)"

definition block_contains :: "block \<Rightarrow> string \<Rightarrow> bool" where
  "block_contains b nid =
     (nid = node_ID (blk_split b) \<or> nid = blk_join b \<or> nid \<in> blk_interior b)"

definition block_members :: "block \<Rightarrow> string list" where
  "block_members b =
     node_ID (blk_split b) # concat (map br_order (blk_branches b)) @ [blk_join b]"

text \<open>
  The loop of buildBlock over one branch: the nodes found so far in order, whether the split was
  met again, and the queue.
\<close>

definition forwardTo :: "Transition list \<Rightarrow> string \<Rightarrow> string list" where
  "forwardTo out nid = map tr_To (filter (\<lambda>t. \<not> tr_Return t) (outOf out nid))"

function branchWalk :: "Transition list \<Rightarrow> Node \<Rightarrow> string list \<Rightarrow> bool \<Rightarrow> string list \<Rightarrow>
    string list \<times> bool" where
  "branchWalk out s order re [] = (order, re)"
| "branchWalk out s order re (nid # queue) =
     (if nid = node_Join s \<or> nid \<in> set order then branchWalk out s order re queue
      else if nid = node_ID s then branchWalk out s order True queue
      else branchWalk out s (order @ [nid]) re (queue @ forwardTo out nid))"
  by pat_completeness auto
termination
proof (relation "inv_image (less_than <*lex*> less_than)
    (\<lambda>(out, s, order, re, queue). (card ((set queue \<union> tr_To ` set out) - set order), length queue))")
  show "wf (inv_image (less_than <*lex*> less_than)
    (\<lambda>(out :: Transition list, s :: Node, order, re :: bool, queue).
       (card ((set queue \<union> tr_To ` set out) - set order), length queue)))"
    by (intro wf_inv_image wf_lex_prod wf_less_than)
next
  fix out :: "Transition list" and s :: Node and order re nid queue
  assume "nid = node_Join s \<or> nid \<in> set order"
  have "card ((set queue \<union> tr_To ` set out) - set order) \<le>
      card ((set (nid # queue) \<union> tr_To ` set out) - set order)"
    by (rule card_mono) auto
  then show "((out, s, order, re, queue), out, s, order, re, nid # queue) \<in>
      inv_image (less_than <*lex*> less_than)
        (\<lambda>(out, s, order, re, queue). (card ((set queue \<union> tr_To ` set out) - set order), length queue))"
    by auto
next
  fix out :: "Transition list" and s :: Node and order and re :: bool and nid queue
  have "card ((set queue \<union> tr_To ` set out) - set order) \<le>
      card ((set (nid # queue) \<union> tr_To ` set out) - set order)"
    by (rule card_mono) auto
  then show "((out, s, order, True, queue), out, s, order, re, nid # queue) \<in>
      inv_image (less_than <*lex*> less_than)
        (\<lambda>(out, s, order, re, queue). (card ((set queue \<union> tr_To ` set out) - set order), length queue))"
    by auto
next
  fix out :: "Transition list" and s :: Node and order re nid queue
  assume new: "\<not> (nid = node_Join s \<or> nid \<in> set order)"
  have "set (forwardTo out nid) \<subseteq> tr_To ` set out" by (auto simp: forwardTo_def outOf_def)
  with new have "(set (queue @ forwardTo out nid) \<union> tr_To ` set out) - set (order @ [nid]) \<subset>
      (set (nid # queue) \<union> tr_To ` set out) - set order" by auto
  then have "card ((set (queue @ forwardTo out nid) \<union> tr_To ` set out) - set (order @ [nid])) <
      card ((set (nid # queue) \<union> tr_To ` set out) - set order)"
    by (intro psubset_card_mono) auto
  then show "((out, s, order @ [nid], re, queue @ forwardTo out nid), out, s, order, re, nid # queue) \<in>
      inv_image (less_than <*lex*> less_than)
        (\<lambda>(out, s, order, re, queue). (card ((set queue \<union> tr_To ` set out) - set order), length queue))"
    by auto
qed

declare branchWalk.simps [simp del]

definition buildBranch :: "Transition list \<Rightarrow> Node \<Rightarrow> Transition \<Rightarrow> branch" where
  "buildBranch out s tr =
     (let (order, re) = branchWalk out s [] False [tr_To tr]
      in \<lparr>br_action = tr_Action tr, br_order = order, br_reentersSplit = re\<rparr>)"

definition buildBlock :: "Node \<Rightarrow> Transition list \<Rightarrow> block" where
  "buildBlock s out =
     \<lparr>blk_split = s, blk_join = node_Join s,
      blk_branches = map (buildBranch out s) (outOf out (node_ID s))\<rparr>"

section \<open>The rules inside one block\<close>

definition incomingFrom :: "Transition list \<Rightarrow> string \<Rightarrow> string list" where
  "incomingFrom inc nid = map tr_From (filter (\<lambda>t. tr_To t = nid) inc)"

text \<open>The walk backwards from the join inside a branch.\<close>

definition reachesJoin :: "Transition list \<Rightarrow> string \<Rightarrow> branch \<Rightarrow> string list" where
  "reachesJoin inc join br =
     bfs (map (\<lambda>t. (tr_To t, tr_From t)) (filter (\<lambda>t. tr_From t \<in> br_nodes br) inc)) [] [join]"

definition checkBranch :: "block \<Rightarrow> (string \<Rightarrow> Node option) \<Rightarrow> Transition list \<Rightarrow> branch \<Rightarrow> branch list \<Rightarrow>
    violation list" where
  "checkBranch b byID inc br others =
     (let lbl = S (label (node_Kind (blk_split b))); sid = S (node_ID (blk_split b));
          act = S (br_action br); reaches = reachesJoin inc (blk_join b) br
      in (if br_reentersSplit br
          then [(''%s %q: branch %q re-enters its split'', [lbl, sid, act])] else []) @
         map (\<lambda>nid. (''%s %q: branch %q reaches terminal node %q before its join %q'',
                    [lbl, sid, act, S nid, S (blk_join b)]))
           (filter (\<lambda>nid. node_Terminal (nodeAt byID nid)) (br_order br)) @
         (case find (\<lambda>nid. nid \<notin> set reaches \<and> \<not> node_Terminal (nodeAt byID nid)) (br_order br) of
            Some nid \<Rightarrow> [(''%s %q: branch %q never reaches its join %q from node %q'',
                        [lbl, sid, act, S (blk_join b), S nid])]
          | None \<Rightarrow> []) @
         concat (map (\<lambda>other. case find (\<lambda>nid. nid \<in> br_nodes other) (br_order br) of
            Some nid \<Rightarrow> [(''%s %q: branches %q and %q share node %q; a branch must stay apart from its siblings until the join'',
                        [lbl, sid, act, S (br_action other), S nid])]
          | None \<Rightarrow> []) others))"

fun checkBranches :: "block \<Rightarrow> (string \<Rightarrow> Node option) \<Rightarrow> Transition list \<Rightarrow> branch list \<Rightarrow>
    violation list" where
  "checkBranches b byID inc [] = []"
| "checkBranches b byID inc (br # rest) = checkBranch b byID inc br rest @ checkBranches b byID inc rest"

text \<open>The closure report and its map of pairs already reported.\<close>

definition nulKey :: "string \<Rightarrow> string \<Rightarrow> string" where
  "nulKey a b = a @ CHR 0x00 # b"

fun report :: "block \<Rightarrow> string list \<Rightarrow> (string \<times> string \<times> string) list \<Rightarrow> violation list" where
  "report b reported [] = []"
| "report b reported ((nid, from, fmt) # rest) =
     (if from = node_ID (blk_split b) \<or> from \<in> blk_interior b \<or> nulKey nid from \<in> set reported
      then report b reported rest
      else (fmt, [S (label (node_Kind (blk_split b))), S (node_ID (blk_split b)), S nid, S from]) #
             report b (nulKey nid from # reported) rest)"

definition entries :: "block \<Rightarrow> Transition list \<Rightarrow> (string \<times> string \<times> string) list" where
  "entries b inc =
     concat (map (\<lambda>nid. map (\<lambda>from. (nid, from, ''%s %q: node %q is entered from %q outside the block''))
                        (incomingFrom inc nid))
               (concat (map br_order (blk_branches b)))) @
     map (\<lambda>from. (blk_join b, from, ''%s %q: its join %q is entered from %q outside the block''))
       (incomingFrom inc (blk_join b))"

definition checkBlock :: "block \<Rightarrow> (string \<Rightarrow> Node option) \<Rightarrow> Transition list \<Rightarrow> violation list" where
  "checkBlock b byID inc =
     checkBranches b byID inc (blk_branches b) @ report b [] (entries b inc)"

section \<open>Nesting\<close>

text \<open>The first branch of a block that holds a node.\<close>

definition homeBranch :: "block \<Rightarrow> string \<Rightarrow> branch option" where
  "homeBranch b nid = find (\<lambda>br. nid \<in> br_nodes br) (blk_branches b)"

definition nestViolation :: "block \<Rightarrow> block \<Rightarrow> violation list" where
  "nestViolation outer inner =
     (case homeBranch outer (node_ID (blk_split inner)) of
        None \<Rightarrow> []
      | Some home \<Rightarrow>
          if \<exists>nid \<in> set (block_members inner). nid \<notin> br_nodes home
          then [(''%s %q: is not nested inside one branch of %s %q'',
                 [S (label (node_Kind (blk_split inner))), S (node_ID (blk_split inner)),
                  S (label (node_Kind (blk_split outer))), S (node_ID (blk_split outer))])]
          else [])"

definition overlapViolation :: "block \<Rightarrow> block \<Rightarrow> violation list" where
  "overlapViolation a b =
     (if node_ID (blk_split b) \<in> blk_interior a \<or> node_ID (blk_split a) \<in> blk_interior b then []
      else if \<exists>nid \<in> set (block_members a). block_contains b nid
      then [(''blocks of %s %q and %s %q overlap without nesting'',
             [S (label (node_Kind (blk_split a))), S (node_ID (blk_split a)),
              S (label (node_Kind (blk_split b))), S (node_ID (blk_split b))])]
      else [])"

fun overlapViolations :: "block list \<Rightarrow> violation list" where
  "overlapViolations [] = []"
| "overlapViolations (a # bs) = concat (map (overlapViolation a) bs) @ overlapViolations bs"

definition checkNesting :: "block list \<Rightarrow> violation list" where
  "checkNesting blocks =
     concat (map (\<lambda>(i, outer). concat (map (\<lambda>(k, inner).
         if i = k \<or> node_ID (blk_split inner) \<notin> blk_interior outer then []
         else nestViolation outer inner) (enumerate 0 blocks))) (enumerate 0 blocks)) @
     overlapViolations blocks"

text \<open>branchKey: the split and the position of the branch from 1, or the zero key for the root.\<close>

fun innermostFrom :: "string \<Rightarrow> nat \<Rightarrow> branch list \<Rightarrow> string \<Rightarrow> (string \<times> nat) \<times> nat option \<Rightarrow>
    (string \<times> nat) \<times> nat option" where
  "innermostFrom split i [] nid acc = acc"
| "innermostFrom split i (br # brs) nid (best, sz) =
     innermostFrom split (i + 1) brs nid
       (if nid \<in> br_nodes br \<and> (case sz of None \<Rightarrow> True | Some k \<Rightarrow> length (br_order br) < k)
        then ((split, i + 1), Some (length (br_order br))) else (best, sz))"

definition innermostBranch :: "block list \<Rightarrow> string \<Rightarrow> string \<times> nat" where
  "innermostBranch blocks nid =
     fst (foldl (\<lambda>acc b. innermostFrom (node_ID (blk_split b)) 0 (blk_branches b) nid acc)
            (('''', 0), None) blocks)"

section \<open>validateBlocks\<close>

definition namesJoin :: "(string \<Rightarrow> Node option) \<Rightarrow> Node \<Rightarrow> bool" where
  "namesJoin byID n =
     (node_Join n \<noteq> '''' \<and> (case byID (node_Join n) of None \<Rightarrow> False | Some j \<Rightarrow> node_Kind j = NodeJoin))"

definition splitViolation :: "(string \<Rightarrow> Node option) \<Rightarrow> Node \<Rightarrow> violation list" where
  "splitViolation byID n =
     (let lbl = S (label (node_Kind n)) in
      if node_Join n = ''''
      then [(''%s %q: must name its join (Node.Join)'', [lbl, S (node_ID n)])]
      else case byID (node_Join n) of
        None \<Rightarrow> [(''%s %q: names unknown join %q'', [lbl, S (node_ID n), S (node_Join n)])]
      | Some j \<Rightarrow> if node_Kind j \<noteq> NodeJoin
          then [(''%s %q: names %q, which is not a join node'',
                 [lbl, S (node_ID n), S (node_Join n)])]
          else [])"

definition splitNodes :: "Definition \<Rightarrow> Node list" where
  "splitNodes d = filter (\<lambda>n. node_ID n \<noteq> '''' \<and> IsSplit (node_Kind n)) (d_Nodes d)"

definition blocksOf :: "Definition \<Rightarrow> block list" where
  "blocksOf d = map (\<lambda>n. buildBlock n (outgoingByNode d)) (filter (namesJoin (nodeByID d)) (splitNodes d))"

definition namedBy :: "Definition \<Rightarrow> string \<Rightarrow> string list" where
  "namedBy d jid =
     map node_ID (filter (\<lambda>n. namesJoin (nodeByID d) n \<and> node_Join n = jid) (splitNodes d))"

definition joinViolation :: "Definition \<Rightarrow> Node \<Rightarrow> violation list" where
  "joinViolation d n =
     (case namedBy d (node_ID n) of
        [] \<Rightarrow> [(''join node %q: is not named by any split'', [S (node_ID n)])]
      | [s] \<Rightarrow> []
      | splits \<Rightarrow> [(''join node %q: is named by %d splits (%s), exactly one is required'',
                   [S (node_ID n), I (int (length splits)), Names splits])])"

definition returnViolation :: "Definition \<Rightarrow> block list \<Rightarrow> nat \<times> Transition \<Rightarrow> violation list" where
  "returnViolation d blocks = (\<lambda>(i, tr).
     if \<not> tr_Return tr \<or> nodeByID d (tr_From tr) = None \<or> nodeByID d (tr_To tr) = None then []
     else if innermostBranch blocks (tr_From tr) \<noteq> innermostBranch blocks (tr_To tr)
     then [(''transition[%d]: return transition from %q to %q crosses a block boundary'',
            [I (int i), S (tr_From tr), S (tr_To tr)])]
     else [])"

definition validateBlocks :: "Definition \<Rightarrow> violation list" where
  "validateBlocks d =
     (let blocks = blocksOf d;
          incoming = filter (\<lambda>t. \<not> tr_Return t) (d_Transitions d)
      in concat (map (splitViolation (nodeByID d)) (splitNodes d)) @
         concat (map (joinViolation d)
           (filter (\<lambda>n. node_ID n \<noteq> '''' \<and> node_Kind n = NodeJoin) (d_Nodes d))) @
         concat (map (\<lambda>b. checkBlock b (nodeByID d) incoming) blocks) @
         checkNesting blocks @
         concat (map (returnViolation d blocks) (enumerate 0 (d_Transitions d))))"

section \<open>What the walk of buildBlock computes\<close>

definition fwd :: "Transition list \<Rightarrow> (string \<times> string) set" where
  "fwd out = (\<lambda>t. (tr_From t, tr_To t)) ` {t \<in> set out. \<not> tr_Return t}"

text \<open>Forward steps that touch neither the split nor its join.\<close>

definition innerFwd :: "Transition list \<Rightarrow> Node \<Rightarrow> (string \<times> string) set" where
  "innerFwd out s = {(x, y) \<in> fwd out. {x, y} \<inter> {node_Join s, node_ID s} = {}}"

lemma set_forwardTo: "set (forwardTo out x) = {y. (x, y) \<in> fwd out}"
  by (auto simp: forwardTo_def outOf_def fwd_def)

lemma branchWalk_order: "set order \<subseteq> set (fst (branchWalk out s order re queue))"
  by (induction out s order re queue rule: branchWalk.induct)
    (auto simp: branchWalk.simps subset_iff)

lemma branchWalk_queue:
  "x \<in> set queue \<Longrightarrow> x \<noteq> node_Join s \<Longrightarrow> x \<noteq> node_ID s \<Longrightarrow>
   x \<in> set (fst (branchWalk out s order re queue))"
proof (induction out s order re queue rule: branchWalk.induct)
  case (2 out s order re nid queue)
  have "x \<in> set (fst (branchWalk out s (order @ [nid]) re (queue @ forwardTo out nid)))" if "x = nid"
    using that branchWalk_order [of "order @ [nid]"] by force
  moreover have "x \<in> set (fst (branchWalk out s order re queue))" if "x \<in> set order"
    using that branchWalk_order by blast
  ultimately show ?case using 2 by (auto simp: branchWalk.simps(2))
qed simp

lemma branchWalk_closed:
  "x \<in> set (fst (branchWalk out s order re queue)) - set order \<Longrightarrow> (x, y) \<in> fwd out \<Longrightarrow>
   y \<noteq> node_Join s \<Longrightarrow> y \<noteq> node_ID s \<Longrightarrow> y \<in> set (fst (branchWalk out s order re queue))"
proof (induction out s order re queue rule: branchWalk.induct)
  case (2 out s order re nid queue)
  show ?case
  proof (cases "nid = node_Join s \<or> nid \<in> set order \<or> nid = node_ID s")
    case True
    with 2 show ?thesis by (auto simp: branchWalk.simps(2) split: if_splits)
  next
    case False
    show ?thesis
    proof (cases "x = nid")
      case True
      then have "y \<in> set (queue @ forwardTo out nid)" using "2.prems" by (simp add: set_forwardTo)
      from branchWalk_queue [OF this] False "2.prems" show ?thesis
        by (simp add: branchWalk.simps(2))
    next
      case neq: False
      with False 2 show ?thesis by (auto simp: branchWalk.simps(2))
    qed
  qed
qed (simp add: branchWalk.simps)

lemma branchWalk_sound:
  "x \<in> set (fst (branchWalk out s order re queue)) \<Longrightarrow> x \<in> set order \<or>
     (\<exists>q \<in> set queue - {node_Join s, node_ID s}. (q, x) \<in> (innerFwd out s)\<^sup>*)"
proof (induction out s order re queue rule: branchWalk.induct)
  case (2 out s order re nid queue)
  show ?case
  proof (cases "nid = node_Join s \<or> nid \<in> set order \<or> nid = node_ID s")
    case True
    with 2 show ?thesis by (auto simp: branchWalk.simps(2) split: if_splits)
  next
    case False
    with 2 consider "x \<in> set order" | "x = nid"
      | q where "q \<in> set queue \<union> set (forwardTo out nid)" "q \<notin> {node_Join s, node_ID s}"
        "(q, x) \<in> (innerFwd out s)\<^sup>*"
      by (auto simp: branchWalk.simps(2))
    then show ?thesis
    proof cases
      case 3
      have "(nid, x) \<in> (innerFwd out s)\<^sup>*" if "q \<in> set (forwardTo out nid)"
      proof -
        have "(nid, q) \<in> innerFwd out s" using that 3 False by (auto simp: innerFwd_def set_forwardTo)
        with 3 show ?thesis by (meson converse_rtrancl_into_rtrancl)
      qed
      with 3 False show ?thesis by auto
    qed (use False in auto)
  qed
qed (simp add: branchWalk.simps)

lemma branchWalk_reenters:
  "node_ID s \<notin> set order \<Longrightarrow> node_ID s \<noteq> node_Join s \<Longrightarrow> snd (branchWalk out s order re queue) = False \<Longrightarrow>
     \<not> re \<and> node_ID s \<notin> set queue \<and>
     (\<forall>x \<in> set (fst (branchWalk out s order re queue)) - set order. (x, node_ID s) \<notin> fwd out)"
proof (induction out s order re queue rule: branchWalk.induct)
  case (2 out s order re nid queue)
  show ?case
  proof (cases "nid = node_Join s \<or> nid \<in> set order \<or> nid = node_ID s")
    case True
    with 2 show ?thesis by (auto simp: branchWalk.simps(2) split: if_splits)
  next
    case False
    let ?w = "branchWalk out s (order @ [nid]) re (queue @ forwardTo out nid)"
    have w: "branchWalk out s order re (nid # queue) = ?w" using False by (simp add: branchWalk.simps(2))
    have IH: "\<not> re \<and> node_ID s \<notin> set (queue @ forwardTo out nid) \<and>
        (\<forall>x \<in> set (fst ?w) - set (order @ [nid]). (x, node_ID s) \<notin> fwd out)"
      using 2 False w by auto
    then have "(nid, node_ID s) \<notin> fwd out" by (simp add: set_forwardTo)
    with IH w False show ?thesis by auto
  qed
qed (simp add: branchWalk.simps)

text \<open>The nodes of a branch are exactly those its route reaches without meeting split or join.\<close>

lemma br_nodes_buildBranch:
  "br_nodes (buildBranch out s tr) =
     (innerFwd out s)\<^sup>* `` ({tr_To tr} - {node_Join s, node_ID s})" (is "?N = ?R")
proof
  have N: "?N = set (fst (branchWalk out s [] False [tr_To tr]))"
    by (simp add: br_nodes_def buildBranch_def case_prod_beta)
  show "?N \<subseteq> ?R" using branchWalk_sound [of _ out s "[]" False "[tr_To tr]"] by (auto simp: N)
  have "innerFwd out s `` ?N \<subseteq> ?N"
    using branchWalk_closed [of _ out s "[]" False "[tr_To tr]"] by (auto simp: N innerFwd_def)
  then have "(innerFwd out s)\<^sup>* `` ?N = ?N" by (rule Image_closed_rtrancl)
  moreover have "{tr_To tr} - {node_Join s, node_ID s} \<subseteq> ?N"
    using branchWalk_queue [of "tr_To tr" "[tr_To tr]" s out "[]" False] by (auto simp: N)
  ultimately show "?R \<subseteq> ?N" by blast
qed

lemma buildBranch_reenters:
  assumes "node_ID s \<noteq> node_Join s" and "\<not> br_reentersSplit (buildBranch out s tr)"
  shows "tr_To tr \<noteq> node_ID s"
    and "x \<in> br_nodes (buildBranch out s tr) \<Longrightarrow> (x, node_ID s) \<notin> fwd out"
  using branchWalk_reenters [of s "[]" out False "[tr_To tr]"] assms
  by (auto simp: br_nodes_def buildBranch_def case_prod_beta)

lemma checkBranches_Nil:
  assumes "checkBranches b byID inc brs = []" and "i < length brs"
  shows "checkBranch b byID inc (brs ! i) (drop (Suc i) brs) = []"
  using assms
proof (induction brs arbitrary: i)
  case (Cons br brs)
  then show ?case by (cases i) auto
qed simp

lemma report_Nil:
  "report b reported xs = [] \<longleftrightarrow>
     (\<forall>(nid, from, fmt) \<in> set xs. from = node_ID (blk_split b) \<or> from \<in> blk_interior b \<or>
        nulKey nid from \<in> set reported)"
  by (induction b reported xs rule: report.induct) auto

end
