(* ===== verification/Join_Policy.thy ===== *)
theory Join_Policy
  imports Blocks
begin

text \<open>
  Join policies (workflow/joinpolicy.go): when a round of branches closes and with what verdict,
  and the validation rules of a join with a policy.
\<close>

section \<open>Closing a round\<close>

record roundTally =
  t_approved :: nat
  t_rejected :: nat
  t_cancelled :: nat
  t_expected :: int

definition complete :: "roundTally \<Rightarrow> bool" where
  "complete t =
     (let waiting = t_approved t + t_rejected t
      in waiting > 0 \<and> int (waiting + t_cancelled t) = t_expected t)"

fun closes :: "JoinPolicy \<Rightarrow> roundTally \<Rightarrow> bool \<times> Outcome" where
  "closes JoinAllApprove t =
     (if t_rejected t > 0 then (True, OutcomeRejected)
      else if complete t then (True, OutcomeApproved) else (False, OutcomeNone))"
| "closes JoinAnyApprove t =
     (if t_approved t > 0 then (True, OutcomeApproved)
      else if complete t then (True, OutcomeRejected) else (False, OutcomeNone))"
| "closes JoinCollect t = (complete t, OutcomeNone)"
| "closes _ t = (False, OutcomeNone)"

section \<open>Validation rules\<close>

definition reaches :: "string \<Rightarrow> string \<Rightarrow> Transition list \<Rightarrow> bool" where
  "reaches from to out = reachesLoop (map (\<lambda>t. (tr_From t, tr_To t)) out) to [from] [from]"

definition branchAnswers :: "Transition list \<Rightarrow> string \<Rightarrow> branch \<Rightarrow> Outcome \<Rightarrow> bool" where
  "branchAnswers out join br oc =
     list_ex (\<lambda>nid. list_ex (\<lambda>t. tr_To t = join \<and> tr_Outcome t = oc) (outOf out nid)) (br_order br)"

definition checkBranchOutcomes :: "block \<Rightarrow> Transition list \<Rightarrow> violation list" where
  "checkBranchOutcomes b out =
     concat (map (\<lambda>br.
       if \<not> branchAnswers out (blk_join b) br OutcomeApproved \<or>
          \<not> branchAnswers out (blk_join b) br OutcomeRejected
       then [(''%s %q: branch %q must declare both an approved and a rejected outcome entering join %q'',
              [S (label (node_Kind (blk_split b))), S (node_ID (blk_split b)), S (br_action br),
               S (blk_join b)])]
       else []) (blk_branches b))"

definition checkRejectedRoute :: "Node \<Rightarrow> Node \<Rightarrow> (string \<Rightarrow> Node option) \<Rightarrow> Transition list \<Rightarrow>
    violation list" where
  "checkRejectedRoute split join byID out =
     (case outOf out (node_ID join) of
        [t] \<Rightarrow>
          if node_Kind (nodeAt byID (tr_To t)) \<noteq> NodeDecision then []
          else if list_ex (\<lambda>r. tr_Guard r \<noteq> '''' \<and> reaches (tr_To r) (node_ID split) out)
                    (outOf out (tr_To t)) then []
          else [(''join node %q: under %s no guarded route of decision %q can go back to split %q'',
                 [S (node_ID join), S (policyText (node_JoinPolicy join)), S (tr_To t),
                  S (node_ID split)])]
      | _ \<Rightarrow> [])"

definition parallelPolicy :: "Definition \<Rightarrow> Node \<Rightarrow> violation list" where
  "parallelPolicy d n =
     (if node_Kind n \<noteq> NodeParallel then []
      else case nodeByID d (node_Join n) of
        None \<Rightarrow> []
      | Some join \<Rightarrow>
          if node_Kind join \<noteq> NodeJoin \<or> node_JoinPolicy join = JoinPolicyNone then []
          else checkBranchOutcomes (buildBlock n (outgoingByNode d)) (outgoingByNode d) @
            (if node_JoinPolicy join = JoinAllApprove \<or> node_JoinPolicy join = JoinAnyApprove
             then checkRejectedRoute n join (nodeByID d) (outgoingByNode d) else []))"

definition policyTarget :: "Definition \<Rightarrow> Node \<Rightarrow> Transition \<Rightarrow> violation list" where
  "policyTarget d n t =
     (case nodeByID d (tr_To t) of
        None \<Rightarrow> []
      | Some to \<Rightarrow>
          if node_JoinPolicy n = JoinCollect then
            (if IsAutomatic (node_Kind to) \<or> node_Terminal to
             then [(''join node %q: under %s its outgoing transition must reach a task node, got %q'',
                    [S (node_ID n), S (policyText (node_JoinPolicy n)), S (node_ID to)])] else [])
          else if node_JoinPolicy n = JoinAllApprove \<or> node_JoinPolicy n = JoinAnyApprove then
            (if node_Kind to \<noteq> NodeDecision
             then [(''join node %q: under %s its outgoing transition must reach a decision node, got %q'',
                    [S (node_ID n), S (policyText (node_JoinPolicy n)), S (node_ID to)])] else [])
          else [])"

definition nodePolicy :: "Definition \<Rightarrow> Node \<Rightarrow> violation list" where
  "nodePolicy d n =
     (if node_JoinPolicy n = JoinPolicyNone then []
      else if node_Kind n \<noteq> NodeJoin
      then [(''node %q: only a join may declare a join policy'', [S (node_ID n)])]
      else (if \<not> JoinPolicy_Valid (node_JoinPolicy n)
            then [(''join node %q: invalid join policy %q'',
                   [S (node_ID n), S (policyText (node_JoinPolicy n))])] else []) @
           concat (map (policyTarget d n) (TransitionsFrom d (node_ID n))))"

definition inclusivePolicy :: "Definition \<Rightarrow> Node \<Rightarrow> violation list" where
  "inclusivePolicy d n =
     (if node_Kind n \<noteq> NodeInclusive then []
      else case nodeByID d (node_Join n) of
        None \<Rightarrow> []
      | Some j \<Rightarrow>
          if node_Kind j = NodeJoin \<and> node_JoinPolicy j \<noteq> JoinPolicyNone
          then [(''join node %q: a join policy needs a parallel split, but inclusive split %q names it'',
                 [S (node_ID j), S (node_ID n)])]
          else [])"

fun outcomeRule :: "nat \<Rightarrow> Node \<Rightarrow> Transition \<Rightarrow> Outcome \<Rightarrow> violation list" where
  "outcomeRule i to tr OutcomeApproved = []"
| "outcomeRule i to tr OutcomeRejected =
     (if node_JoinPolicy to \<noteq> JoinCollect \<and> Canonical (tr_Comment tr) \<noteq> CommentRequired
      then [(''transition[%d]: a rejected outcome under %s must require a comment'',
             [I (int i), S (policyText (node_JoinPolicy to))])] else [])"
| "outcomeRule i to tr OutcomeNone =
     [(''transition[%d]: must declare an outcome: it enters join %q, which has a policy'',
       [I (int i), S (node_ID to)])]"
| "outcomeRule i to tr OutcomeUnanswered =
     [(''transition[%d]: invalid outcome %q'', [I (int i), S ''unanswered''])]"
| "outcomeRule i to tr (OutcomeOther s) =
     [(''transition[%d]: invalid outcome %q'', [I (int i), S s])]"

definition transitionPolicy :: "Definition \<Rightarrow> nat \<times> Transition \<Rightarrow> violation list" where
  "transitionPolicy d = (\<lambda>(i, tr).
     case nodeByID d (tr_To tr) of
       None \<Rightarrow> []
     | Some to \<Rightarrow>
         if node_Kind to \<noteq> NodeJoin \<or> node_JoinPolicy to = JoinPolicyNone then
           (if tr_Outcome tr \<noteq> OutcomeNone
            then [(''transition[%d]: must not declare an outcome: it does not enter a join with a policy'',
                   [I (int i)])] else [])
         else
           (case nodeByID d (tr_From tr) of
              None \<Rightarrow> []
            | Some from \<Rightarrow>
                if IsAutomatic (node_Kind from)
                then [(''transition[%d]: must leave a task node: it enters join %q, which has a policy, from %s %q'',
                       [I (int i), S (node_ID to), S (label (node_Kind from)), S (node_ID from)])]
                else []) @
           outcomeRule i to tr (tr_Outcome tr))"

definition validateJoinPolicies :: "Definition \<Rightarrow> violation list" where
  "validateJoinPolicies d =
     concat (map (parallelPolicy d) (d_Nodes d)) @
     concat (map (nodePolicy d) (d_Nodes d)) @
     concat (map (inclusivePolicy d) (d_Nodes d)) @
     concat (map (transitionPolicy d) (enumerate 0 (d_Transitions d)))"

section \<open>Verdicts\<close>

text \<open>Later answers of the same round: no count goes down and none exceeds the branches expected.\<close>

definition laterTally :: "roundTally \<Rightarrow> roundTally \<Rightarrow> bool" where
  "laterTally t t' \<longleftrightarrow> t_approved t \<le> t_approved t' \<and> t_rejected t \<le> t_rejected t' \<and> t_cancelled t \<le> t_cancelled t' \<and>
     t_expected t' = t_expected t \<and> int (t_approved t' + t_rejected t' + t_cancelled t') \<le> t_expected t'"

text \<open>A verdict does not depend on the answers that come after it.\<close>

lemma closes_stable:
  assumes "closes p t = (True, v)" and "laterTally t t'"
  shows "closes p t' = (True, v)"
  using assms by (cases p) (auto simp: laterTally_def complete_def Let_def split: if_splits)

text \<open>A round whose branches all answered or were cancelled, one answer at least, closes.\<close>

lemma closes_complete:
  assumes "p \<in> {JoinAllApprove, JoinAnyApprove, JoinCollect}" and "complete t"
  shows "fst (closes p t)"
  using assms by auto

text \<open>What each verdict means.\<close>

lemma closes_approved: "closes p t = (True, OutcomeApproved) \<longleftrightarrow>
    p = JoinAllApprove \<and> t_rejected t = 0 \<and> complete t \<or> p = JoinAnyApprove \<and> 0 < t_approved t"
  by (cases p) auto

lemma closes_rejected: "closes p t = (True, OutcomeRejected) \<longleftrightarrow>
    p = JoinAllApprove \<and> 0 < t_rejected t \<or> p = JoinAnyApprove \<and> t_approved t = 0 \<and> complete t"
  by (cases p) auto

end
