(* ===== verification/Validate.thy ===== *)
theory Validate
  imports Join_Policy
begin

text \<open>
  Definition.Validate (workflow/workflow.go), check by check in the order of the source. The
  result lists the violations; the empty list is the nil error. The lemmas turn an empty list
  into the facts the engine relies on.
\<close>

section \<open>The checks\<close>

fun checkEffectNames :: "arg \<Rightarrow> nat \<Rightarrow> string list \<Rightarrow> string list \<Rightarrow> violation list" where
  "checkEffectNames owner i seen [] = []"
| "checkEffectNames owner i seen (name # rest) =
     (if name = ''''
      then (''%s: effect[%d]: empty name'', [owner, I (int i)]) # checkEffectNames owner (i + 1) seen rest
      else (if name \<in> set seen then [(''%s: duplicate effect %q'', [owner, S name])] else []) @
           checkEffectNames owner (i + 1) (name # seen) rest)"

definition automaticNode :: "Node \<Rightarrow> violation list" where
  "automaticNode n =
     (let lbl = [S (label (node_Kind n)), S (node_ID n)] in
      if \<not> IsAutomatic (node_Kind n) then []
      else (if node_Start n then [(''%s %q: must not be a start node'', lbl)] else []) @
           (if node_Terminal n then [(''%s %q: must not be a terminal node'', lbl)] else []) @
           (if \<not> Eligibility_IsZero (node_Eligible n)
            then [(''%s %q: must not declare an eligibility'', lbl)] else []) @
           (if node_Deadline n \<noteq> 0 \<or> node_DeadlineRule n \<noteq> ''''
            then [(''%s %q: must not declare a deadline'', lbl)] else []) @
           (if node_OnExpire n \<noteq> '''' then [(''%s %q: must not declare on_expire'', lbl)] else []) @
           (if node_AssignRule n \<noteq> '''' then [(''%s %q: must not declare an assign rule'', lbl)] else []) @
           (if node_Effects n \<noteq> []
            then [(''%s %q: must not declare effects (declare them on its routes)'', lbl)] else []))"

fun kindText :: "NodeKind \<Rightarrow> string" where
  "kindText NodeTask = ''''"
| "kindText nodeTaskAlias = ''task''"
| "kindText NodeDecision = ''decision''"
| "kindText NodeParallel = ''parallel''"
| "kindText NodeInclusive = ''inclusive''"
| "kindText NodeJoin = ''join''"
| "kindText (NodeKindOther s) = s"

fun commentText :: "CommentPolicy \<Rightarrow> string" where
  "commentText CommentNone = ''''"
| "commentText commentPolicyNoneAlias = ''none''"
| "commentText CommentOptional = ''optional''"
| "commentText CommentRequired = ''required''"
| "commentText (CommentOther s) = s"

definition checkNode :: "nat \<Rightarrow> string list \<Rightarrow> Node \<Rightarrow> violation list" where
  "checkNode i seen n =
     (let nid = [S (node_ID n)] in
      (if node_ID n = '''' then [(''node[%d]: empty ID'', [I (int i)])]
       else if node_ID n \<in> set seen then [(''duplicate node ID %q'', nid)] else []) @
      (if \<not> NodeKind_Valid (node_Kind n)
       then [(''node %q: invalid kind %q'', nid @ [S (kindText (node_Kind n))])] else []) @
      (if node_Start n \<and> node_Terminal n
       then [(''node %q: cannot be both start and terminal'', nid)] else []) @
      (if node_Deadline n < 0 then [(''node %q: deadline must not be negative'', nid)] else []) @
      (if node_Deadline n \<noteq> 0 \<and> node_DeadlineRule n \<noteq> ''''
       then [(''node %q: must not declare both a deadline and a deadline rule'', nid)] else []) @
      (if node_Terminal n \<and> node_AssignRule n \<noteq> ''''
       then [(''node %q: must not declare an assign rule: a terminal node closes the case on entry'', nid)]
       else []) @
      checkEffectNames (Sprintf ''node %q'' nid) 0 [] (node_Effects n) @
      automaticNode n @
      (if node_Join n \<noteq> '''' \<and> \<not> IsSplit (node_Kind n)
       then [(''node %q: only a split may name a join'', nid)] else []))"

fun checkNodes :: "nat \<Rightarrow> string list \<Rightarrow> Node list \<Rightarrow> violation list" where
  "checkNodes i seen [] = []"
| "checkNodes i seen (n # ns) =
     checkNode i seen n @
     checkNodes (i + 1) (if node_ID n = '''' then seen else node_ID n # seen) ns"

definition checkCounts :: "Definition \<Rightarrow> violation list" where
  "checkCounts d =
     (let starts = countIf node_Start (d_Nodes d) in
      (if starts \<noteq> 1 then [(''exactly one start node is required, found %d'', [I (int starts)])] else []) @
      (if countIf node_Terminal (d_Nodes d) = 0
       then [(''at least one terminal node is required'', [])] else []))"

definition checkTransition :: "(string \<Rightarrow> Node option) \<Rightarrow> nat \<Rightarrow> string list \<Rightarrow> Transition \<Rightarrow>
    violation list" where
  "checkTransition byID i seen tr =
     (let ix = I (int i); from = byID (tr_From tr); to = byID (tr_To tr);
          fromNode = nodeAt byID (tr_From tr); toNode = nodeAt byID (tr_To tr);
          fromOK = (from \<noteq> None); toOK = (to \<noteq> None)
      in (if tr_Action tr = '''' then [(''transition[%d]: empty action'', [ix])] else []) @
         (if \<not> CommentPolicy_Valid (tr_Comment tr)
          then [(''transition[%d]: invalid comment policy %q'', [ix, S (commentText (tr_Comment tr))])]
          else []) @
         checkEffectNames (Sprintf ''transition[%d]'' [ix]) 0 [] (tr_Effects tr) @
         (if \<not> fromOK then [(''transition[%d]: unknown from node %q'', [ix, S (tr_From tr)])] else []) @
         (if \<not> toOK then [(''transition[%d]: unknown to node %q'', [ix, S (tr_To tr)])] else []) @
         (if fromOK \<and> node_Terminal fromNode
          then [(''transition[%d]: originates from terminal node %q'', [ix, S (tr_From tr)])] else []) @
         (if fromOK \<and> IsAutomatic (node_Kind fromNode) \<and> Canonical (tr_Comment tr) \<noteq> CommentNone
          then [(''transition[%d]: route from %s %q must not declare a comment policy'',
                 [ix, S (label (node_Kind fromNode)), S (tr_From tr)])] else []) @
         (if fromOK \<and> IsAutomatic (node_Kind fromNode) \<and> tr_Return tr
          then [(''transition[%d]: route from %s %q must not be a return transition'',
                 [ix, S (label (node_Kind fromNode)), S (tr_From tr)])] else []) @
         (if fromOK \<and> node_Kind fromNode = NodeParallel \<and> tr_Guard tr \<noteq> ''''
          then [(''transition[%d]: route from parallel split %q must not declare a guard'',
                 [ix, S (tr_From tr)])] else []) @
         (if toOK \<and> node_Terminal toNode \<and> tr_Return tr
          then [(''transition[%d]: return transition must not target terminal node %q'',
                 [ix, S (tr_To tr)])] else []) @
         (if toOK \<and> IsAutomatic (node_Kind toNode) \<and> tr_Return tr
          then [(''transition[%d]: return transition must target a task node, got %s %q'',
                 [ix, S (label (node_Kind toNode)), S (tr_To tr)])] else []) @
         (if nulKey (tr_From tr) (tr_Action tr) \<in> set seen
          then [(''ambiguous transition: duplicate (from=%q, action=%q)'',
                 [S (tr_From tr), S (tr_Action tr)])] else []))"

fun checkTransitions :: "(string \<Rightarrow> Node option) \<Rightarrow> nat \<Rightarrow> string list \<Rightarrow> Transition list \<Rightarrow>
    violation list" where
  "checkTransitions byID i seen [] = []"
| "checkTransitions byID i seen (tr # trs) =
     checkTransition byID i seen tr @
     checkTransitions byID (i + 1) (nulKey (tr_From tr) (tr_Action tr) # seen) trs"

definition checkOnExpire :: "Transition list \<Rightarrow> Node \<Rightarrow> violation list" where
  "checkOnExpire out n =
     (if node_OnExpire n = '''' \<or> IsAutomatic (node_Kind n) then []
      else case findTransition (outOf out (node_ID n)) (node_OnExpire n) of
        None \<Rightarrow> [(''node %q: on_expire %q is not an outgoing transition'',
                 [S (node_ID n), S (node_OnExpire n)])]
      | Some tr \<Rightarrow> if tr_Return tr
          then [(''node %q: on_expire %q must not be a return transition'',
                 [S (node_ID n), S (node_OnExpire n)])] else [])"

text \<open>
  The default route of a decision or an inclusive split: exactly one unguarded route, the last
  one. unguardedIdx is the position of the last unguarded route.
\<close>

definition unguardedIdx :: "Transition list \<Rightarrow> nat option" where
  "unguardedIdx routes = find (\<lambda>i. tr_Guard (routes ! i) = '''') (rev [0..<length routes])"

definition checkDefaultRoute :: "Node \<Rightarrow> Transition list \<Rightarrow> violation list" where
  "checkDefaultRoute n routes =
     (let lbl = S (label (node_Kind n));
          unguardedCount = countIf (\<lambda>t. tr_Guard t = '''') routes
      in if unguardedCount = 0
         then [(''%s %q: requires exactly one unguarded default route, found none'', [lbl, S (node_ID n)])]
         else if unguardedCount > 1
         then [(''%s %q: requires exactly one unguarded default route, found %d'',
                [lbl, S (node_ID n), I (int unguardedCount)])]
         else case unguardedIdx routes of
           None \<Rightarrow> []
         | Some i \<Rightarrow> if i \<noteq> length routes - 1
             then [(''%s %q: the unguarded default route (action %q) must be declared last'',
                    [lbl, S (node_ID n), S (tr_Action (routes ! i))])] else [])"

definition checkGateway :: "Transition list \<Rightarrow> Node \<Rightarrow> violation list" where
  "checkGateway out n =
     (let routes = outOf out (node_ID n) in
      if node_ID n = '''' \<or> \<not> IsAutomatic (node_Kind n) then []
      else if node_Kind n = NodeJoin then
        (if length routes \<noteq> 1
         then [(''join node %q: requires exactly one outgoing transition, found %d'',
                [S (node_ID n), I (int (length routes))])]
         else if tr_Guard (routes ! 0) \<noteq> ''''
         then [(''join node %q: its outgoing transition must not declare a guard'', [S (node_ID n)])]
         else [])
      else if length routes < 2
      then [(''%s %q: requires at least two outgoing routes, found %d'',
             [S (label (node_Kind n)), S (node_ID n), I (int (length routes))])]
      else if node_Kind n = NodeParallel then []
      else checkDefaultRoute n routes)"

definition gatewayAdjacency :: "Definition \<Rightarrow> string \<Rightarrow> string list" where
  "gatewayAdjacency d nid =
     map tr_To (filter (\<lambda>t. tr_From t = nid \<and>
        (case (nodeByID d (tr_From t), nodeByID d (tr_To t)) of
           (Some from, Some to) \<Rightarrow> IsAutomatic (node_Kind from) \<and> IsAutomatic (node_Kind to)
         | _ \<Rightarrow> False)) (d_Transitions d))"

definition gatewayNodes :: "Definition \<Rightarrow> string list" where
  "gatewayNodes d =
     map node_ID (filter (\<lambda>n. node_ID n \<noteq> '''' \<and> IsAutomatic (node_Kind n)) (d_Nodes d))"

text \<open>
  The source skips the search when no edge joins two automatic nodes; the search then finds
  nothing anyway.
\<close>

definition checkGatewayCycle :: "Definition \<Rightarrow> violation list" where
  "checkGatewayCycle d =
     (case detectGatewayCycle (gatewayNodes d) (gatewayAdjacency d) of
        None \<Rightarrow> []
      | Some cycle \<Rightarrow>
          [(''%s cycle detected: %s'',
            [S (if list_ex (\<lambda>nid. node_Kind (nodeAt (nodeByID d) nid) \<noteq> NodeDecision) cycle
                then ''gateway-only'' else ''decision-only''), Names cycle])])"

definition checkDeadEnd :: "Transition list \<Rightarrow> Node \<Rightarrow> violation list" where
  "checkDeadEnd out n =
     (if node_ID n = '''' \<or> node_Terminal n then []
      else if outOf out (node_ID n) = []
      then [(''node %q: non-terminal node has no outgoing transition (dead end)'', [S (node_ID n)])]
      else [])"

definition reachableFrom :: "Transition list \<Rightarrow> string \<Rightarrow> string list" where
  "reachableFrom out start = bfs (map (\<lambda>t. (tr_From t, tr_To t)) out) [start] [start]"

definition checkReachable :: "Definition \<Rightarrow> violation list" where
  "checkReachable d =
     (if countIf node_Start (d_Nodes d) \<noteq> 1 then []
      else case StartNode d of
        None \<Rightarrow> []
      | Some start \<Rightarrow>
          (let reachable = reachableFrom (outgoingByNode d) (node_ID start) in
           map (\<lambda>n. (''node %q: unreachable from start node'', [S (node_ID n)]))
             (filter (\<lambda>n. node_ID n \<noteq> '''' \<and> node_ID n \<notin> set reachable) (d_Nodes d))))"

definition Validate :: "Definition \<Rightarrow> violation list" where
  "Validate d =
     (if d_Name d = '''' then [(''name is required'', [])] else []) @
     (if d_Version d < 1 then [(''version must be >= 1, got %d'', [I (d_Version d)])] else []) @
     (if d_Nodes d = [] then [(''at least one node is required'', [])] else []) @
     checkNodes 0 [] (d_Nodes d) @
     checkCounts d @
     checkTransitions (nodeByID d) 0 [] (d_Transitions d) @
     concat (map (checkOnExpire (outgoingByNode d)) (d_Nodes d)) @
     concat (map (checkGateway (outgoingByNode d)) (d_Nodes d)) @
     checkGatewayCycle d @
     concat (map (checkDeadEnd (outgoingByNode d)) (d_Nodes d)) @
     checkReachable d @
     validateBlocks d @
     validateJoinPolicies d"

section \<open>What a valid definition is\<close>

text \<open>
  The declarative reading of the checks, without traversal order, indices or messages: the
  shape of the nodes and of the transitions, the routes of the automatic nodes, and the two
  global conditions on the graph.
\<close>

definition effectsOK :: "string list \<Rightarrow> bool" where
  "effectsOK effects \<longleftrightarrow> '''' \<notin> set effects \<and> distinct effects"

definition nodeOK :: "Node \<Rightarrow> bool" where
  "nodeOK n \<longleftrightarrow> node_ID n \<noteq> '''' \<and> NodeKind_Valid (node_Kind n) \<and>
     \<not> (node_Start n \<and> node_Terminal n) \<and> 0 \<le> node_Deadline n \<and>
     (node_Deadline n = 0 \<or> node_DeadlineRule n = '''') \<and>
     (node_Terminal n \<longrightarrow> node_AssignRule n = '''') \<and> effectsOK (node_Effects n) \<and>
     (IsAutomatic (node_Kind n) \<longrightarrow>
        \<not> node_Start n \<and> \<not> node_Terminal n \<and> Eligibility_IsZero (node_Eligible n) \<and>
        node_Deadline n = 0 \<and> node_DeadlineRule n = '''' \<and> node_OnExpire n = '''' \<and>
        node_AssignRule n = '''' \<and> node_Effects n = []) \<and>
     (node_Join n \<noteq> '''' \<longrightarrow> IsSplit (node_Kind n))"

definition nodesOK :: "Definition \<Rightarrow> bool" where
  "nodesOK d \<longleftrightarrow> distinct (map node_ID (d_Nodes d)) \<and> (\<forall>n \<in> set (d_Nodes d). nodeOK n) \<and>
     (\<exists>!i. i < length (d_Nodes d) \<and> node_Start (d_Nodes d ! i)) \<and>
     (\<exists>n \<in> set (d_Nodes d). node_Terminal n)"

definition transitionOK :: "Definition \<Rightarrow> Transition \<Rightarrow> bool" where
  "transitionOK d t \<longleftrightarrow> tr_Action t \<noteq> '''' \<and> CommentPolicy_Valid (tr_Comment t) \<and>
     effectsOK (tr_Effects t) \<and>
     (\<exists>from to. Definition_Node d (tr_From t) = Some from \<and> Definition_Node d (tr_To t) = Some to \<and>
        \<not> node_Terminal from \<and>
        (IsAutomatic (node_Kind from) \<longrightarrow> Canonical (tr_Comment t) = CommentNone \<and> \<not> tr_Return t) \<and>
        (node_Kind from = NodeParallel \<longrightarrow> tr_Guard t = '''') \<and>
        (tr_Return t \<longrightarrow> \<not> node_Terminal to \<and> \<not> IsAutomatic (node_Kind to)))"

definition transitionsOK :: "Definition \<Rightarrow> bool" where
  "transitionsOK d \<longleftrightarrow> (\<forall>t \<in> set (d_Transitions d). transitionOK d t) \<and>
     distinct (map (\<lambda>t. nulKey (tr_From t) (tr_Action t)) (d_Transitions d))"

text \<open>
  The routes of a node: what leaves a join, a split or a decision, that on_expire names a
  transition that is not a return, and that only terminal nodes have no way out.
\<close>

definition lastUnguarded :: "Transition list \<Rightarrow> bool" where
  "lastUnguarded routes \<longleftrightarrow>
     routes \<noteq> [] \<and> tr_Guard (last routes) = '''' \<and> (\<forall>t \<in> set (butlast routes). tr_Guard t \<noteq> '''')"

definition routesOK :: "Definition \<Rightarrow> Node \<Rightarrow> bool" where
  "routesOK d n \<longleftrightarrow> (let routes = TransitionsFrom d (node_ID n) in
     (node_Kind n = NodeJoin \<longrightarrow> (\<exists>t. routes = [t] \<and> tr_Guard t = '''')) \<and>
     (IsSplit (node_Kind n) \<or> node_Kind n = NodeDecision \<longrightarrow> 2 \<le> length routes) \<and>
     (node_Kind n = NodeDecision \<or> node_Kind n = NodeInclusive \<longrightarrow> lastUnguarded routes) \<and>
     (node_OnExpire n \<noteq> '''' \<and> \<not> IsAutomatic (node_Kind n) \<longrightarrow>
        (\<exists>t. findTransition routes (node_OnExpire n) = Some t \<and> \<not> tr_Return t)) \<and>
     (\<not> node_Terminal n \<longrightarrow> routes \<noteq> []))"

definition flow :: "Definition \<Rightarrow> (string \<times> string) set" where
  "flow d = (\<lambda>t. (tr_From t, tr_To t)) ` set (d_Transitions d)"

definition automaticAt :: "Definition \<Rightarrow> string \<Rightarrow> bool" where
  "automaticAt d nid \<longleftrightarrow> (\<exists>n. Definition_Node d nid = Some n \<and> IsAutomatic (node_Kind n))"

definition gatewayFlow :: "Definition \<Rightarrow> (string \<times> string) set" where
  "gatewayFlow d = {(x, y) \<in> flow d. automaticAt d x \<and> automaticAt d y}"

definition wellFormed :: "Definition \<Rightarrow> bool" where
  "wellFormed d \<longleftrightarrow> d_Name d \<noteq> '''' \<and> 1 \<le> d_Version d \<and> nodesOK d \<and> transitionsOK d \<and>
     (\<forall>n \<in> set (d_Nodes d). routesOK d n) \<and> acyclic (gatewayFlow d) \<and>
     (\<exists>start. StartNode d = Some start \<and>
        (\<forall>n \<in> set (d_Nodes d). (node_ID start, node_ID n) \<in> (flow d)\<^sup>*))"

section \<open>From the checks to the declarative reading\<close>

lemma checkEffectNames_Nil:
  "checkEffectNames owner i seen xs = [] \<longleftrightarrow> '''' \<notin> set xs \<and> distinct xs \<and> set xs \<inter> set seen = {}"
  by (induction owner i seen xs rule: checkEffectNames.induct) auto

lemma automaticNode_Nil:
  "automaticNode n = [] \<longleftrightarrow> (IsAutomatic (node_Kind n) \<longrightarrow>
     \<not> node_Start n \<and> \<not> node_Terminal n \<and> Eligibility_IsZero (node_Eligible n) \<and>
     node_Deadline n = 0 \<and> node_DeadlineRule n = '''' \<and> node_OnExpire n = '''' \<and>
     node_AssignRule n = '''' \<and> node_Effects n = [])"
  unfolding automaticNode_def Let_def by (cases "IsAutomatic (node_Kind n)") (simp_all, blast)

lemma reportIf_Nil: "(if b then [v] else []) = [] \<longleftrightarrow> \<not> b"
  by simp

lemma checkNode_Nil: "checkNode i seen n = [] \<longleftrightarrow> nodeOK n \<and> node_ID n \<notin> set seen"
proof -
  have ID: "(if node_ID n = '''' then [v] else if node_ID n \<in> set seen then [w] else []) = [] \<longleftrightarrow>
      node_ID n \<noteq> '''' \<and> node_ID n \<notin> set seen" for v w :: violation
    by simp
  show ?thesis
    unfolding checkNode_def Let_def nodeOK_def effectsOK_def append_is_Nil_conv automaticNode_Nil
      checkEffectNames_Nil reportIf_Nil ID
    by (simp add: not_less) blast
qed

lemma checkNodes_Nil:
  "checkNodes i seen ns = [] \<longleftrightarrow>
     (\<forall>n \<in> set ns. nodeOK n) \<and> distinct (map node_ID ns) \<and> node_ID ` set ns \<inter> set seen = {}"
proof (induction i seen ns rule: checkNodes.induct)
  case (2 i seen n ns)
  show ?case
  proof (cases "nodeOK n")
    case True
    then have "node_ID n \<noteq> ''''" by (simp add: nodeOK_def)
    with 2 True show ?thesis by (auto simp: checkNode_Nil)
  qed (auto simp: checkNode_Nil)
qed simp

lemma count_one_ex1: "countIf P xs = 1 \<longleftrightarrow> (\<exists>!i. i < length xs \<and> P (xs ! i))"
proof -
  have "countIf P xs = card {i. i < length xs \<and> P (xs ! i)}"
    by (simp add: countIf_def length_filter_conv_card)
  moreover have "(\<exists>x. {i. Q i} = {x}) \<longleftrightarrow> (\<exists>!i. Q i)" for Q :: "nat \<Rightarrow> bool"
    by (simp add: set_eq_iff Ex1_def) metis
  then have "card {i. Q i} = 1 \<longleftrightarrow> (\<exists>!i. Q i)" for Q :: "nat \<Rightarrow> bool"
    by (simp only: One_nat_def card_1_singleton_iff)
  ultimately show ?thesis by (simp only:)
qed

lemma checkCounts_Nil:
  "checkCounts d = [] \<longleftrightarrow> (\<exists>!i. i < length (d_Nodes d) \<and> node_Start (d_Nodes d ! i)) \<and>
     (\<exists>n \<in> set (d_Nodes d). node_Terminal n)"
  by (auto simp: checkCounts_def Let_def count_one_ex1 [symmetric] countIf_0)

lemma nodeByID_eq:
  assumes "distinct (map node_ID (d_Nodes d))" and "\<forall>n \<in> set (d_Nodes d). node_ID n \<noteq> ''''"
  shows "nodeByID d = Definition_Node d"
proof
  fix nid
  show "nodeByID d nid = Definition_Node d nid"
  proof (cases "nodeByID d nid")
    case None
    then have "\<forall>n \<in> set (d_Nodes d). node_ID n \<noteq> nid"
      using assms(2) by (auto simp: nodeByID_None)
    with None show ?thesis by (metis Definition_Node_Some not_Some_eq)
  next
    case (Some n)
    with nodeByID_Some [OF this] Definition_Node_mem [OF assms(1)] show ?thesis by auto
  qed
qed

lemma checkTransition_Nil:
  assumes "nodeByID d = Definition_Node d"
  shows "checkTransition (nodeByID d) i seen t = [] \<longleftrightarrow>
    transitionOK d t \<and> nulKey (tr_From t) (tr_Action t) \<notin> set seen"
  unfolding checkTransition_def Let_def append_is_Nil_conv assms checkEffectNames_Nil reportIf_Nil
    transitionOK_def effectsOK_def nodeAt_def
  by (cases "Definition_Node d (tr_From t)"; cases "Definition_Node d (tr_To t)") (simp_all, blast)

lemma checkTransitions_Nil:
  assumes "nodeByID d = Definition_Node d"
  shows "checkTransitions (nodeByID d) i seen ts = [] \<longleftrightarrow>
    (\<forall>t \<in> set ts. transitionOK d t) \<and> distinct (map (\<lambda>t. nulKey (tr_From t) (tr_Action t)) ts) \<and>
    (\<lambda>t. nulKey (tr_From t) (tr_Action t)) ` set ts \<inter> set seen = {}"
proof (induction ts arbitrary: i seen)
  case (Cons t ts)
  then show ?case by (auto simp: checkTransition_Nil [OF assms])
qed simp

lemma unguardedIdx_snoc:
  "unguardedIdx (xs @ [x]) =
     (if tr_Guard x = '''' then Some (length xs)
      else find (\<lambda>i. tr_Guard ((xs @ [x]) ! i) = '''') (rev [0..<length xs]))"
  by (simp add: unguardedIdx_def)

lemma checkDefaultRoute_Nil:
  assumes "routes \<noteq> []"
  shows "checkDefaultRoute n routes = [] \<longleftrightarrow> lastUnguarded routes"
proof -
  obtain xs x where routes: "routes = xs @ [x]" using assms by (metis rev_exhaust)
  show ?thesis
  proof (cases "tr_Guard x = ''''")
    case True
    then show ?thesis
      using countIf_0 [of "\<lambda>t. tr_Guard t = ''''" xs]
      by (auto simp: routes checkDefaultRoute_def lastUnguarded_def unguardedIdx_snoc Let_def)
  next
    case False
    have "checkDefaultRoute n routes \<noteq> []"
    proof (cases "countIf (\<lambda>t. tr_Guard t = '''') xs = 1")
      case True
      then obtain t where "t \<in> set xs" "tr_Guard t = ''''"
        using countIf_pos [of "\<lambda>t. tr_Guard t = ''''" xs] by auto
      then obtain k where "k < length xs" "tr_Guard (xs ! k) = ''''" by (metis in_set_conv_nth)
      then have "find (\<lambda>i. tr_Guard ((xs @ [x]) ! i) = '''') (rev [0..<length xs]) \<noteq> None"
        by (auto simp: find_None_iff nth_append)
      then obtain i where i: "find (\<lambda>i. tr_Guard ((xs @ [x]) ! i) = '''') (rev [0..<length xs]) = Some i"
        by blast
      then have "i \<in> set (rev [0..<length xs])" by (metis find_Some_iff nth_mem)
      with i True False show ?thesis
        by (simp add: routes checkDefaultRoute_def unguardedIdx_snoc Let_def)
    qed (use False in \<open>auto simp: routes checkDefaultRoute_def Let_def\<close>)
    with False show ?thesis by (simp add: routes lastUnguarded_def)
  qed
qed

lemma checkOnExpire_Nil:
  "checkOnExpire out n = [] \<longleftrightarrow> (node_OnExpire n \<noteq> '''' \<and> \<not> IsAutomatic (node_Kind n) \<longrightarrow>
     (\<exists>t. findTransition (outOf out (node_ID n)) (node_OnExpire n) = Some t \<and> \<not> tr_Return t))"
  by (auto simp: checkOnExpire_def split: option.splits)

lemma checkGateway_Nil:
  assumes "node_ID n \<noteq> ''''" and routes: "outOf out (node_ID n) = routes"
  shows "checkGateway out n = [] \<longleftrightarrow>
    (node_Kind n = NodeJoin \<longrightarrow> (\<exists>t. routes = [t] \<and> tr_Guard t = '''')) \<and>
    (IsSplit (node_Kind n) \<or> node_Kind n = NodeDecision \<longrightarrow> 2 \<le> length routes) \<and>
    (node_Kind n = NodeDecision \<or> node_Kind n = NodeInclusive \<longrightarrow> lastUnguarded routes)"
proof (cases "node_Kind n")
  case NodeJoin
  have "(if length routes \<noteq> 1 then [v] else if tr_Guard (routes ! 0) \<noteq> '''' then [w] else []) = [] \<longleftrightarrow>
      (\<exists>t. routes = [t] \<and> tr_Guard t = '''')" for v w :: violation
    by (cases routes; cases "tl routes") auto
  with NodeJoin assms show ?thesis by (simp add: checkGateway_def)
next
  case NodeDecision
  have "checkDefaultRoute n routes = [] \<longleftrightarrow> lastUnguarded routes" if "2 \<le> length routes"
    using that by (intro checkDefaultRoute_Nil) auto
  with NodeDecision assms show ?thesis by (auto simp: checkGateway_def not_less)
next
  case NodeInclusive
  have "checkDefaultRoute n routes = [] \<longleftrightarrow> lastUnguarded routes" if "2 \<le> length routes"
    using that by (intro checkDefaultRoute_Nil) auto
  with NodeInclusive assms show ?thesis by (auto simp: checkGateway_def not_less)
qed (use assms in \<open>auto simp: checkGateway_def\<close>)

lemma checkDeadEnd_Nil:
  "node_ID n \<noteq> '''' \<Longrightarrow> checkDeadEnd out n = [] \<longleftrightarrow> (\<not> node_Terminal n \<longrightarrow> outOf out (node_ID n) \<noteq> [])"
  by (simp add: checkDeadEnd_def)

lemma outgoing_all:
  assumes "nodeByID d = Definition_Node d" and "\<forall>t \<in> set (d_Transitions d). transitionOK d t"
  shows "outgoingByNode d = d_Transitions d"
  using assms by (auto simp: outgoingByNode_def transitionOK_def filter_id_conv)

lemma outOf_all: "outOf (d_Transitions d) nid = TransitionsFrom d nid"
  by (simp add: outOf_def TransitionsFrom_def)

lemma routes_Nil:
  assumes "\<forall>n \<in> set (d_Nodes d). nodeOK n" and out: "outgoingByNode d = d_Transitions d"
  shows "concat (map (checkOnExpire (outgoingByNode d)) (d_Nodes d)) = [] \<and>
     concat (map (checkGateway (outgoingByNode d)) (d_Nodes d)) = [] \<and>
     concat (map (checkDeadEnd (outgoingByNode d)) (d_Nodes d)) = [] \<longleftrightarrow>
     (\<forall>n \<in> set (d_Nodes d). routesOK d n)"
proof -
  have "checkOnExpire (d_Transitions d) n = [] \<and> checkGateway (d_Transitions d) n = [] \<and>
      checkDeadEnd (d_Transitions d) n = [] \<longleftrightarrow> routesOK d n" if "n \<in> set (d_Nodes d)" for n
  proof -
    have "node_ID n \<noteq> ''''" using assms that by (auto simp: nodeOK_def)
    then show ?thesis
      unfolding checkOnExpire_Nil checkGateway_Nil [OF \<open>node_ID n \<noteq> ''''\<close> outOf_all]
        checkDeadEnd_Nil [OF \<open>node_ID n \<noteq> ''''\<close>] outOf_all routesOK_def Let_def
      by blast
  qed
  then show ?thesis unfolding out by auto
qed

lemma edges_gatewayAdjacency:
  assumes "nodeByID d = Definition_Node d"
  shows "edges (gatewayAdjacency d) = gatewayFlow d"
proof -
  have "y \<in> set (gatewayAdjacency d x) \<longleftrightarrow> (x, y) \<in> gatewayFlow d" for x y
    unfolding gatewayAdjacency_def gatewayFlow_def flow_def automaticAt_def assms
    by (auto split: option.splits)
  then show ?thesis by (auto simp: edges_def)
qed

lemma gateway_cycle_Nil:
  assumes "nodeByID d = Definition_Node d" and "\<forall>n \<in> set (d_Nodes d). nodeOK n"
  shows "checkGatewayCycle d = [] \<longleftrightarrow> acyclic (gatewayFlow d)"
proof -
  have auto: "nid \<in> set (gatewayNodes d)" if "automaticAt d nid" for nid
    using that assms(2)
    by (force simp: automaticAt_def gatewayNodes_def nodeOK_def dest!: Definition_Node_Some)
  have closed: "set (gatewayAdjacency d x) \<subseteq> set (gatewayNodes d)" for x
  proof
    fix y assume "y \<in> set (gatewayAdjacency d x)"
    then have "(x, y) \<in> gatewayFlow d"
      unfolding edges_gatewayAdjacency [OF assms(1), symmetric] by (simp add: edges_def)
    then show "y \<in> set (gatewayNodes d)" by (auto simp: gatewayFlow_def intro: auto)
  qed
  have outside: "gatewayAdjacency d x = []" if "x \<notin> set (gatewayNodes d)" for x
  proof (rule ccontr)
    assume "gatewayAdjacency d x \<noteq> []"
    then obtain y where "y \<in> set (gatewayAdjacency d x)" by (metis list.set_intros(1) neq_Nil_conv)
    then have "(x, y) \<in> gatewayFlow d"
      unfolding edges_gatewayAdjacency [OF assms(1), symmetric] by (simp add: edges_def)
    with that show False by (auto simp: gatewayFlow_def intro: auto)
  qed
  have "checkGatewayCycle d = [] \<longleftrightarrow>
      detectGatewayCycle (gatewayNodes d) (gatewayAdjacency d) = None"
    by (simp add: checkGatewayCycle_def split: option.split)
  also have "\<dots> \<longleftrightarrow> acyclic (edges (gatewayAdjacency d))"
    by (rule detectGatewayCycle_None [OF closed outside])
  finally show ?thesis by (simp only: edges_gatewayAdjacency [OF assms(1)])
qed

lemma reachable_Nil:
  assumes "\<forall>n \<in> set (d_Nodes d). nodeOK n" and "outgoingByNode d = d_Transitions d"
    and one: "\<exists>!i. i < length (d_Nodes d) \<and> node_Start (d_Nodes d ! i)"
  shows "checkReachable d = [] \<longleftrightarrow> (\<exists>start. StartNode d = Some start \<and>
     (\<forall>n \<in> set (d_Nodes d). (node_ID start, node_ID n) \<in> (flow d)\<^sup>*))"
proof -
  have count: "countIf node_Start (d_Nodes d) = 1" using one by (simp only: count_one_ex1)
  then have "StartNode d \<noteq> None"
    using countIf_pos [of node_Start "d_Nodes d"] by (auto simp: StartNode_def find_None_iff)
  then obtain start where start: "StartNode d = Some start" by blast
  have "set (reachableFrom (d_Transitions d) (node_ID start)) = (flow d)\<^sup>* `` {node_ID start}"
    by (simp add: reachableFrom_def bfs_reachable flow_def)
  with start count assms(1) show ?thesis
    by (auto simp: checkReachable_def Let_def assms(2) nodeOK_def filter_empty_conv)
qed

text \<open>
  The validator accepts exactly the well-formed definitions whose blocks and join policies also
  pass their own rules.
\<close>

lemma Validate_wellFormed:
  "Validate d = [] \<longleftrightarrow> wellFormed d \<and> validateBlocks d = [] \<and> validateJoinPolicies d = []"
proof (cases "nodesOK d \<and> transitionsOK d")
  case True
  then have nodes: "\<forall>n \<in> set (d_Nodes d). nodeOK n" "distinct (map node_ID (d_Nodes d))"
    and trs: "\<forall>t \<in> set (d_Transitions d). transitionOK d t"
    and one: "\<exists>!i. i < length (d_Nodes d) \<and> node_Start (d_Nodes d ! i)"
    by (auto simp: nodesOK_def transitionsOK_def)
  have byID: "nodeByID d = Definition_Node d"
    using nodes by (intro nodeByID_eq) (auto simp: nodeOK_def)
  have out: "outgoingByNode d = d_Transitions d" by (rule outgoing_all [OF byID trs])
  have pre: "checkNodes 0 [] (d_Nodes d) = []" "checkCounts d = []"
    "checkTransitions (nodeByID d) 0 [] (d_Transitions d) = []" "d_Nodes d \<noteq> []"
    using True by (auto simp: nodesOK_def transitionsOK_def checkNodes_Nil checkCounts_Nil
      checkTransitions_Nil [OF byID])
  show ?thesis
    unfolding Validate_def append_is_Nil_conv reportIf_Nil wellFormed_def
      routes_Nil [OF nodes(1) out, symmetric] gateway_cycle_Nil [OF byID nodes(1), symmetric]
      reachable_Nil [OF nodes(1) out one, symmetric]
    using True pre by (simp add: not_less) blast
next
  case False
  have "nodesOK d \<and> transitionsOK d" if "Validate d = []"
  proof -
    from that have n: "checkNodes 0 [] (d_Nodes d) = []" and c: "checkCounts d = []"
      and t: "checkTransitions (nodeByID d) 0 [] (d_Transitions d) = []"
      unfolding Validate_def append_is_Nil_conv by blast+
    from n c have nodes: "nodesOK d" unfolding checkNodes_Nil checkCounts_Nil nodesOK_def by blast
    then have "nodeByID d = Definition_Node d"
      by (intro nodeByID_eq) (auto simp: nodesOK_def nodeOK_def)
    from t [unfolded checkTransitions_Nil [OF this]] nodes show ?thesis
      by (simp add: transitionsOK_def)
  qed
  with False show ?thesis by (auto simp: wellFormed_def)
qed

section \<open>Facts of a valid definition\<close>

lemma Validate_nodes:
  assumes "Validate d = []"
  shows "distinct (map node_ID (d_Nodes d))" and "n \<in> set (d_Nodes d) \<Longrightarrow> nodeOK n"
    and "n \<in> set (d_Nodes d) \<Longrightarrow> routesOK d n"
    and "t \<in> set (d_Transitions d) \<Longrightarrow> transitionOK d t"
  using assms by (auto simp: Validate_wellFormed wellFormed_def nodesOK_def transitionsOK_def)

lemma Validate_lookups:
  assumes "Validate d = []"
  shows "nodeByID d = Definition_Node d" and "outgoingByNode d = d_Transitions d"
proof -
  show byID: "nodeByID d = Definition_Node d"
    using Validate_nodes [OF assms] by (intro nodeByID_eq) (auto simp: nodeOK_def)
  show "outgoingByNode d = d_Transitions d"
    using Validate_nodes(4) [OF assms] by (intro outgoing_all [OF byID]) simp
qed

lemma Validate_transition:
  assumes "Validate d = []" and "t \<in> set (d_Transitions d)"
  obtains fr to where "Definition_Node d (tr_From t) = Some fr"
    and "Definition_Node d (tr_To t) = Some to" and "\<not> node_Terminal fr"
    and "IsAutomatic (node_Kind fr) \<Longrightarrow> Canonical (tr_Comment t) = CommentNone \<and> \<not> tr_Return t"
    and "node_Kind fr = NodeParallel \<Longrightarrow> tr_Guard t = ''''"
    and "tr_Return t \<Longrightarrow> \<not> node_Terminal to \<and> \<not> IsAutomatic (node_Kind to)"
  using Validate_nodes(4) [OF assms] unfolding transitionOK_def by blast

lemma Validate_start:
  assumes "Validate d = []"
  obtains start where "StartNode d = Some start" and "start \<in> set (d_Nodes d)"
    and "node_Start start" and "\<not> node_Terminal start" and "\<not> IsAutomatic (node_Kind start)"
proof -
  obtain start where start: "StartNode d = Some start"
    using assms by (auto simp: Validate_wellFormed wellFormed_def)
  then have "start \<in> set (d_Nodes d)" "node_Start start"
    by (auto simp: StartNode_def find_Some_iff)
  with start that Validate_nodes(2) [OF assms] show thesis by (auto simp: nodeOK_def)
qed

lemma Validate_actions_unique:
  assumes "Validate d = []" and "t \<in> set (d_Transitions d)" and "u \<in> set (d_Transitions d)"
    and "tr_From t = tr_From u" and "tr_Action t = tr_Action u"
  shows "t = u"
proof -
  have "inj_on (\<lambda>t. nulKey (tr_From t) (tr_Action t)) (set (d_Transitions d))"
    using assms(1) by (auto simp: Validate_wellFormed wellFormed_def transitionsOK_def distinct_map)
  then show ?thesis by (rule inj_onD) (use assms in auto)
qed

lemma Validate_split:
  assumes valid: "Validate d = []" and s: "s \<in> set (d_Nodes d)" "IsSplit (node_Kind s)"
  obtains j where "Definition_Node d (node_Join s) = Some j" and "node_Kind j = NodeJoin"
    and "node_Join s \<noteq> node_ID s"
    and "checkBlock (buildBlock s (d_Transitions d)) (Definition_Node d)
           (filter (\<lambda>t. \<not> tr_Return t) (d_Transitions d)) = []"
proof -
  note look = Validate_lookups [OF valid]
  have sID: "node_ID s \<noteq> ''''" using Validate_nodes(2) [OF valid s(1)] by (simp add: nodeOK_def)
  then have s': "s \<in> set (splitNodes d)" using s by (simp add: splitNodes_def)
  have vb: "validateBlocks d = []" using valid by (simp add: Validate_wellFormed)
  then have "splitViolation (Definition_Node d) s = []"
    using s' by (auto simp: validateBlocks_def Let_def look)
  then obtain j where j: "Definition_Node d (node_Join s) = Some j" "node_Kind j = NodeJoin"
    and "node_Join s \<noteq> ''''"
    by (auto simp: splitViolation_def Let_def split: if_splits option.splits)
  then have "namesJoin (nodeByID d) s" by (simp add: namesJoin_def look)
  then have "buildBlock s (d_Transitions d) \<in> set (blocksOf d)"
    using s' by (auto simp: blocksOf_def look)
  then have "checkBlock (buildBlock s (d_Transitions d)) (Definition_Node d)
      (filter (\<lambda>t. \<not> tr_Return t) (d_Transitions d)) = []"
    using vb by (auto simp: validateBlocks_def Let_def look)
  moreover have "node_Join s \<noteq> node_ID s"
    using j s Definition_Node_mem [OF Validate_nodes(1) [OF valid] s(1)] by auto
  ultimately show thesis using that j by blast
qed

section \<open>Blocks of a valid definition\<close>

text \<open>
  The region of a branch: the nodes a route of a split reaches by forward transitions before
  the join of that split.
\<close>

definition region :: "Definition \<Rightarrow> Node \<Rightarrow> Transition \<Rightarrow> string set" where
  "region d s tr = {x. tr_To tr \<noteq> node_Join s \<and>
     (tr_To tr, x) \<in> {(a, b) \<in> fwd (d_Transitions d). a \<noteq> node_Join s \<and> b \<noteq> node_Join s}\<^sup>*}"

lemma region_br_nodes:
  assumes valid: "Validate d = []" and s: "s \<in> set (d_Nodes d)" "IsSplit (node_Kind s)"
    and tr: "tr \<in> set (TransitionsFrom d (node_ID s))"
  shows "region d s tr = br_nodes (buildBranch (d_Transitions d) s tr)" (is "_ = ?N")
    and "buildBranch (d_Transitions d) s tr \<in> set (blk_branches (buildBlock s (d_Transitions d)))"
    and "node_ID s \<notin> region d s tr"
proof -
  obtain j where j: "node_Join s \<noteq> node_ID s"
    and chk: "checkBlock (buildBlock s (d_Transitions d)) (Definition_Node d)
           (filter (\<lambda>t. \<not> tr_Return t) (d_Transitions d)) = []"
    by (rule Validate_split [OF valid s])
  let ?out = "d_Transitions d" and ?b = "buildBlock s (d_Transitions d)"
  show br: "buildBranch ?out s tr \<in> set (blk_branches ?b)"
    using tr by (auto simp: buildBlock_def outOf_all)
  then obtain i where i: "i < length (blk_branches ?b)" "blk_branches ?b ! i = buildBranch ?out s tr"
    by (metis in_set_conv_nth)
  then have "\<not> br_reentersSplit (buildBranch ?out s tr)"
    using checkBranches_Nil [OF _ i(1)] chk
    by (fastforce simp: checkBlock_def checkBranch_def Let_def split: if_splits)
  note re = buildBranch_reenters [OF j [symmetric] this]
  have N: "?N = (innerFwd ?out s)\<^sup>* `` ({tr_To tr} - {node_Join s, node_ID s})"
    by (rule br_nodes_buildBranch)
  have "x \<in> ?N" if "(tr_To tr, x) \<in> {(a, b) \<in> fwd ?out. a \<noteq> node_Join s \<and> b \<noteq> node_Join s}\<^sup>*"
    and "tr_To tr \<noteq> node_Join s" for x
    using that
  proof (induction rule: rtrancl_induct)
    case base
    with re(1) show ?case by (auto simp: N)
  next
    case (step y z)
    then have y: "y \<in> ?N" "(y, z) \<in> fwd ?out" "y \<noteq> node_Join s" "z \<noteq> node_Join s" by auto
    with re(2) have "z \<noteq> node_ID s" by auto
    moreover have "y \<noteq> node_ID s"
    proof -
      from y(1) N obtain q where "q \<noteq> node_ID s" "(q, y) \<in> (innerFwd ?out s)\<^sup>*" by auto
      then show ?thesis by (auto elim: rtranclE simp: innerFwd_def)
    qed
    ultimately have "(y, z) \<in> innerFwd ?out s" using y by (auto simp: innerFwd_def)
    with y(1) show ?case unfolding N by (auto intro: rtrancl_into_rtrancl)
  qed
  moreover have "?N \<subseteq> region d s tr"
  proof -
    have "(innerFwd ?out s)\<^sup>* \<subseteq> {(a, b) \<in> fwd ?out. a \<noteq> node_Join s \<and> b \<noteq> node_Join s}\<^sup>*"
      by (rule rtrancl_mono) (auto simp: innerFwd_def)
    then show ?thesis by (auto simp: N region_def)
  qed
  ultimately show eq: "region d s tr = ?N" by (auto simp: region_def)
  show "node_ID s \<notin> region d s tr"
    unfolding eq N by (auto elim: rtranclE simp: innerFwd_def)
qed

lemma checkBlock_branch:
  assumes chk: "checkBlock b byID inc = []" and i: "i < length (blk_branches b)"
  shows "x \<in> br_nodes (blk_branches b ! i) \<Longrightarrow> \<not> node_Terminal (nodeAt byID x)"
    and "x \<in> br_nodes (blk_branches b ! i) \<Longrightarrow>
      x \<in> set (reachesJoin inc (blk_join b) (blk_branches b ! i))"
    and "i < k \<Longrightarrow> k < length (blk_branches b) \<Longrightarrow>
      br_nodes (blk_branches b ! i) \<inter> br_nodes (blk_branches b ! k) = {}"
proof -
  let ?br = "blk_branches b ! i"
  have c: "checkBranch b byID inc ?br (drop (Suc i) (blk_branches b)) = []"
    using chk checkBranches_Nil [OF _ i] by (simp add: checkBlock_def)
  show terminal: "\<not> node_Terminal (nodeAt byID x)" if "x \<in> br_nodes ?br" for x
    using c that by (auto simp: checkBranch_def Let_def br_nodes_def filter_empty_conv)
  show "x \<in> set (reachesJoin inc (blk_join b) ?br)" if "x \<in> br_nodes ?br"
    using c that terminal [OF that]
    by (auto simp: checkBranch_def Let_def br_nodes_def find_None_iff split: option.splits)
  assume k: "i < k" "k < length (blk_branches b)"
  then have "blk_branches b ! k \<in> set (drop (Suc i) (blk_branches b))"
    by (auto simp: in_set_conv_nth intro!: exI [of _ "k - Suc i"])
  then show "br_nodes ?br \<inter> br_nodes (blk_branches b ! k) = {}"
    using c by (auto simp: checkBranch_def Let_def br_nodes_def find_None_iff split: option.splits)
qed

lemma reachesJoin_fwd:
  assumes "x \<in> set (reachesJoin (filter (\<lambda>t. \<not> tr_Return t) ts) join br)"
  shows "(x, join) \<in> (fwd ts)\<^sup>+"
proof -
  let ?E = "map (\<lambda>t. (tr_To t, tr_From t))
    (filter (\<lambda>t. tr_From t \<in> br_nodes br) (filter (\<lambda>t. \<not> tr_Return t) ts))"
  have "(join, x) \<in> (set ?E)\<^sup>+"
    using assms bfs_sound [of ?E "[]" "[join]"] by (auto simp: reachesJoin_def)
  moreover have "set ?E \<subseteq> (fwd ts)\<inverse>" by (auto simp: fwd_def)
  ultimately have "(join, x) \<in> ((fwd ts)\<inverse>)\<^sup>+" using trancl_mono by blast
  then show ?thesis by (simp add: trancl_converse)
qed

lemma region_nodes:
  assumes valid: "Validate d = []" and s: "s \<in> set (d_Nodes d)" "IsSplit (node_Kind s)"
    and tr: "tr \<in> set (TransitionsFrom d (node_ID s))" and x: "x \<in> region d s tr"
  shows "\<exists>n. Definition_Node d x = Some n \<and> \<not> node_Terminal n"
    and "x \<noteq> node_ID s" and "x \<noteq> node_Join s" and "(x, node_Join s) \<in> (fwd (d_Transitions d))\<^sup>+"
proof -
  note reg = region_br_nodes [OF valid s tr]
  obtain j where chk: "checkBlock (buildBlock s (d_Transitions d)) (Definition_Node d)
           (filter (\<lambda>t. \<not> tr_Return t) (d_Transitions d)) = []"
    by (rule Validate_split [OF valid s])
  from reg(2) obtain i where i: "i < length (blk_branches (buildBlock s (d_Transitions d)))"
    "blk_branches (buildBlock s (d_Transitions d)) ! i = buildBranch (d_Transitions d) s tr"
    by (metis in_set_conv_nth)
  have terminal: "\<not> node_Terminal (nodeAt (Definition_Node d) x)"
    using checkBlock_branch(1) [OF chk i(1)] x i reg by simp
  show "(x, node_Join s) \<in> (fwd (d_Transitions d))\<^sup>+"
    using checkBlock_branch(2) [OF chk i(1)] x i reg
    by (intro reachesJoin_fwd) (simp add: buildBlock_def)
  then obtain y where "(x, y) \<in> fwd (d_Transitions d)" by (auto elim: converse_tranclE)
  then obtain t where "t \<in> set (d_Transitions d)" "tr_From t = x" by (auto simp: fwd_def)
  then obtain n where "Definition_Node d x = Some n" by (metis Validate_transition [OF valid])
  with terminal show "\<exists>n. Definition_Node d x = Some n \<and> \<not> node_Terminal n" by (simp add: nodeAt_def)
  show "x \<noteq> node_ID s" using x reg(3) by auto
  show "x \<noteq> node_Join s" using x by (auto simp: region_def elim: rtranclE)
qed

lemma region_disjoint:
  assumes valid: "Validate d = []" and s: "s \<in> set (d_Nodes d)" "IsSplit (node_Kind s)"
    and ik: "i < k" "k < length (TransitionsFrom d (node_ID s))"
  shows "region d s (TransitionsFrom d (node_ID s) ! i) \<inter>
         region d s (TransitionsFrom d (node_ID s) ! k) = {}"
proof -
  obtain j where chk: "checkBlock (buildBlock s (d_Transitions d)) (Definition_Node d)
           (filter (\<lambda>t. \<not> tr_Return t) (d_Transitions d)) = []"
    by (rule Validate_split [OF valid s])
  have brs: "blk_branches (buildBlock s (d_Transitions d)) =
      map (buildBranch (d_Transitions d) s) (TransitionsFrom d (node_ID s))"
    by (simp add: buildBlock_def outOf_all)
  have "TransitionsFrom d (node_ID s) ! i \<in> set (TransitionsFrom d (node_ID s))"
    "TransitionsFrom d (node_ID s) ! k \<in> set (TransitionsFrom d (node_ID s))"
    using ik by simp_all
  then show ?thesis
    using checkBlock_branch(3) [OF chk, of i k] ik region_br_nodes(1) [OF valid s]
    by (simp add: brs)
qed

lemma region_entry:
  assumes valid: "Validate d = []" and s: "s \<in> set (d_Nodes d)" "IsSplit (node_Kind s)"
    and t: "t \<in> set (d_Transitions d)" "\<not> tr_Return t"
    and into: "tr_To t = node_Join s \<or>
      (\<exists>tr \<in> set (TransitionsFrom d (node_ID s)). tr_To t \<in> region d s tr)"
  shows "tr_From t = node_ID s \<or>
      (\<exists>tr \<in> set (TransitionsFrom d (node_ID s)). tr_From t \<in> region d s tr)"
proof -
  let ?b = "buildBlock s (d_Transitions d)" and ?inc = "filter (\<lambda>t. \<not> tr_Return t) (d_Transitions d)"
  obtain j where chk: "checkBlock ?b (Definition_Node d) ?inc = []"
    by (rule Validate_split [OF valid s])
  have inner: "blk_interior ?b = (\<Union>tr \<in> set (TransitionsFrom d (node_ID s)). region d s tr)"
    using region_br_nodes(1) [OF valid s] by (simp add: blk_interior_def buildBlock_def outOf_all)
  have from_t: "tr_From t \<in> set (incomingFrom ?inc (tr_To t))"
    using t by (auto simp: incomingFrom_def)
  have "tr_To t = blk_join ?b \<or> tr_To t \<in> (\<Union>br \<in> set (blk_branches ?b). br_nodes br)"
    using into inner by (auto simp: buildBlock_def blk_interior_def)
  then obtain fmt where fmt: "(tr_To t, tr_From t, fmt) \<in> set (entries ?b ?inc)"
  proof (elim disjE)
    assume "tr_To t = blk_join ?b"
    with from_t show ?thesis
      by (intro that [of "''%s %q: its join %q is entered from %q outside the block''"])
        (simp add: entries_def)
  next
    assume "tr_To t \<in> (\<Union>br \<in> set (blk_branches ?b). br_nodes br)"
    then have "tr_To t \<in> set (concat (map br_order (blk_branches ?b)))" by (simp add: br_nodes_def)
    then have "(tr_To t, tr_From t, ''%s %q: node %q is entered from %q outside the block'') \<in>
        set (entries ?b ?inc)"
      using from_t unfolding entries_def set_append by (intro UnI1) (simp, blast)
    then show ?thesis by (rule that)
  qed
  have "report ?b [] (entries ?b ?inc) = []" using chk by (simp add: checkBlock_def)
  from bspec [OF this [unfolded report_Nil] fmt]
  have "tr_From t = node_ID (blk_split ?b) \<or> tr_From t \<in> blk_interior ?b" by simp
  then show ?thesis unfolding inner by (simp add: buildBlock_def)
qed

section \<open>Join policies of a valid definition\<close>

lemma enumerate_mem:
  assumes "x \<in> set xs"
  obtains i where "(i, x) \<in> set (enumerate n xs)"
proof -
  have "x \<in> snd ` set (enumerate n xs)" using assms by (simp flip: set_map)
  then show thesis using that by force
qed

text \<open>Every transition into a join with a policy leaves a task node and carries an answer.\<close>

lemma Validate_policy_transition:
  assumes valid: "Validate d = []" and t: "t \<in> set (d_Transitions d)"
    and to: "Definition_Node d (tr_To t) = Some j" "node_Kind j = NodeJoin"
      "node_JoinPolicy j \<noteq> JoinPolicyNone"
    and fr: "Definition_Node d (tr_From t) = Some n"
  shows "\<not> IsAutomatic (node_Kind n)" and "tr_Outcome t \<in> {OutcomeApproved, OutcomeRejected}"
proof -
  note look = Validate_lookups [OF valid]
  obtain i where "(i, t) \<in> set (enumerate 0 (d_Transitions d))"
    using t by (rule enumerate_mem)
  moreover have "validateJoinPolicies d = []" using valid by (simp add: Validate_wellFormed)
  ultimately have p: "transitionPolicy d (i, t) = []" by (auto simp: validateJoinPolicies_def)
  with to fr show "\<not> IsAutomatic (node_Kind n)"
    by (auto simp: transitionPolicy_def look split: if_splits)
  from p to fr have "outcomeRule i j t (tr_Outcome t) = []" by (auto simp: transitionPolicy_def look)
  then show "tr_Outcome t \<in> {OutcomeApproved, OutcomeRejected}" by (cases "tr_Outcome t") auto
qed

lemma Validate_no_outcome:
  assumes valid: "Validate d = []" and t: "t \<in> set (d_Transitions d)"
    and to: "Definition_Node d (tr_To t) = Some j" "node_Kind j \<noteq> NodeJoin \<or> node_JoinPolicy j = JoinPolicyNone"
  shows "tr_Outcome t = OutcomeNone"
proof -
  note look = Validate_lookups [OF valid]
  obtain i where "(i, t) \<in> set (enumerate 0 (d_Transitions d))"
    using t by (rule enumerate_mem)
  moreover have "validateJoinPolicies d = []" using valid by (simp add: Validate_wellFormed)
  ultimately have "transitionPolicy d (i, t) = []" by (auto simp: validateJoinPolicies_def)
  with to show ?thesis by (auto simp: transitionPolicy_def look split: if_splits)
qed

lemma Validate_policy:
  assumes valid: "Validate d = []" and n: "n \<in> set (d_Nodes d)" "node_JoinPolicy n \<noteq> JoinPolicyNone"
  shows "node_Kind n = NodeJoin" and "JoinPolicy_Valid (node_JoinPolicy n)"
proof -
  have "validateJoinPolicies d = []" using valid by (simp add: Validate_wellFormed)
  then have "nodePolicy d n = []" using n by (auto simp: validateJoinPolicies_def)
  with n show "node_Kind n = NodeJoin" and "JoinPolicy_Valid (node_JoinPolicy n)"
    by (auto simp: nodePolicy_def split: if_splits)
qed

end
