(* ===== verification/Samples.thy ===== *)
theory Samples
  imports Validate
begin

text \<open>
  A sample definition the witnesses run on: a request is drafted, goes through a parallel block
  with a verdict policy (finance and legal), and a decision after the join sends a rejected round
  back to the draft.
\<close>

definition taskNode :: "string \<Rightarrow> Node" where
  "taskNode nid = zeroNode\<lparr>node_ID := nid\<rparr>"

definition gatewayNode :: "string \<Rightarrow> NodeKind \<Rightarrow> Node" where
  "gatewayNode nid kind = zeroNode\<lparr>node_ID := nid, node_Kind := kind\<rparr>"

definition step :: "string \<Rightarrow> string \<Rightarrow> string \<Rightarrow> Transition" where
  "step from action to = zeroTransition\<lparr>tr_From := from, tr_Action := action, tr_To := to\<rparr>"

definition vote :: "string \<Rightarrow> string \<Rightarrow> string \<Rightarrow> Outcome \<Rightarrow> Transition" where
  "vote from action to oc =
     (step from action to)\<lparr>tr_Outcome := oc,
        tr_Comment := (if oc = OutcomeRejected then CommentRequired else CommentNone)\<rparr>"

definition reviewDef :: Definition where
  "reviewDef = \<lparr>d_Name = ''review'', d_Version = 1,
     d_Nodes =
       [(taskNode ''d'')\<lparr>node_Start := True\<rparr>,
        (gatewayNode ''s'' NodeParallel)\<lparr>node_Join := ''j''\<rparr>,
        taskNode ''f'', taskNode ''l'',
        (gatewayNode ''j'' NodeJoin)\<lparr>node_JoinPolicy := JoinAllApprove\<rparr>,
        gatewayNode ''x'' NodeDecision,
        (taskNode ''e'')\<lparr>node_Terminal := True\<rparr>],
     d_Transitions =
       [step ''d'' ''submit'' ''s'',
        step ''s'' ''fin'' ''f'', step ''s'' ''leg'' ''l'',
        vote ''f'' ''ok'' ''j'' OutcomeApproved, vote ''f'' ''no'' ''j'' OutcomeRejected,
        vote ''l'' ''ok'' ''j'' OutcomeApproved, vote ''l'' ''no'' ''j'' OutcomeRejected,
        step ''j'' ''joined'' ''x'',
        (step ''x'' ''back'' ''d'')\<lparr>tr_Guard := ''rejected''\<rparr>, step ''x'' ''done'' ''e'']\<rparr>"

lemma reviewDef_valid: "Validate reviewDef = []"
  by code_simp

end
