(* ===== verification/Case_Model.thy ===== *)
theory Case_Model
  imports Validate
begin

text \<open>
  The data of a running case (workflow/workflow.go, workflow/tokens.go, workflow/joinpolicy.go,
  workflow/operations.go): actors, cases, tokens, scopes, the event history and its
  kind-specific details. A nilable pointer is an option; a Go string type with named constants
  is a datatype with one constructor per constant and one for any other text.
\<close>

section \<open>Actors and events\<close>

datatype ActorKind =
    ActorKindNone | ActorHuman | ActorOperator | ActorSystem | ActorAPIClient | ActorAnonymous
  | ActorUnspecified | ActorKindOther string

fun ActorKind_Valid :: "ActorKind \<Rightarrow> bool" where
  "ActorKind_Valid ActorKindNone = False"
| "ActorKind_Valid (ActorKindOther s) = False"
| "ActorKind_Valid _ = True"

record Actor =
  ac_Kind :: ActorKind
  ac_ID :: string
  ac_ActingAs :: string
  ac_OnBehalfOf :: string
  ac_Via :: string

abbreviation zeroActor :: Actor where
  "zeroActor \<equiv> \<lparr>ac_Kind = ActorKindNone, ac_ID = '''', ac_ActingAs = '''', ac_OnBehalfOf = '''',
     ac_Via = ''''\<rparr>"

datatype EventKind =
    EventOpened | EventMoved | EventAssigned | EventUnassigned | EventClosed
  | EventStepSubmitted | EventNoRoute | EventFailed | EventSplit | EventWaiting | EventJoined
  | EventTokenCancelled | EventCancelled | EventDeadlineChanged | EventExpired
  | EventKindOther string

fun EventKind_Valid :: "EventKind \<Rightarrow> bool" where
  "EventKind_Valid (EventKindOther s) = False"
| "EventKind_Valid _ = True"

datatype FailureKind =
    FailureNoRoute | FailureGuardRejected | FailureConflict | FailureValidationFailed
  | FailureCommentRejected | FailureReturnNotVisited | FailureTransitionNotFound
  | FailureKindOther string

fun FailureKind_Valid :: "FailureKind \<Rightarrow> bool" where
  "FailureKind_Valid (FailureKindOther s) = False"
| "FailureKind_Valid _ = True"

section \<open>Join results\<close>

record BranchResult =
  bres_Token :: uuid
  bres_Outcome :: Outcome
  bres_Seq :: int

record JoinBranch =
  jb_Result :: BranchResult
  jb_Actor :: Actor
  jb_Comment :: string
  jb_Cause :: string

record JoinResult =
  jr_Scope :: uuid
  jr_JoinNode :: string
  jr_Policy :: JoinPolicy
  jr_Verdict :: Outcome
  jr_Seq :: int
  jr_Branches :: "JoinBranch list"

definition JoinResult_Count :: "JoinResult \<Rightarrow> Outcome \<Rightarrow> nat" where
  "JoinResult_Count r outcome = countIf (\<lambda>b. bres_Outcome (jb_Result b) = outcome) (jr_Branches r)"

section \<open>Cases, tokens, scopes\<close>

record Case =
  c_ID :: uuid
  c_Definition :: string
  c_Version :: int
  c_Tenant :: string
  c_Domain :: string
  c_ExternalID :: string
  c_Unit :: string
  c_State :: string
  c_Status :: Status
  c_AssignedTo :: string
  c_OpenedAt :: time
  c_ClosedAt :: "time option"
  c_DeadlineAt :: "time option"
  c_Revision :: int
  c_LastSeq :: int
  c_JoinResult :: "JoinResult option"

datatype TokenStatus =
    TokenActive | TokenWaiting | TokenConsumed | TokenCancelled | TokenStatusOther string

definition Live :: "TokenStatus \<Rightarrow> bool" where
  "Live s = (s = TokenActive \<or> s = TokenWaiting)"

record Token =
  tok_ID :: uuid
  tok_CaseID :: uuid
  tok_ScopeID :: uuid
  tok_Node :: string
  tok_Status :: TokenStatus
  tok_Eligible :: Eligibility
  tok_AssignedTo :: string
  tok_DeadlineAt :: "time option"
  tok_ExpiredDeadline :: "time option"
  tok_EnteredSeq :: int
  tok_EnteredAt :: time
  tok_EndedSeq :: int
  tok_EndedAt :: "time option"
  tok_Outcome :: Outcome

text \<open>A new active token at a node: every field the source leaves out has its zero value.\<close>

definition newToken :: "uuid \<Rightarrow> uuid \<Rightarrow> uuid \<Rightarrow> string \<Rightarrow> Token" where
  "newToken tid cid sid node =
     \<lparr>tok_ID = tid, tok_CaseID = cid, tok_ScopeID = sid, tok_Node = node,
      tok_Status = TokenActive, tok_Eligible = zeroEligibility, tok_AssignedTo = '''',
      tok_DeadlineAt = None, tok_ExpiredDeadline = None, tok_EnteredSeq = 0, tok_EnteredAt = 0,
      tok_EndedSeq = 0, tok_EndedAt = None, tok_Outcome = OutcomeNone\<rparr>"

datatype ScopeStatus = ScopeOpen | ScopeJoined | ScopeCancelled | ScopeClosed | ScopeStatusOther string

record Scope =
  sc_ID :: uuid
  sc_CaseID :: uuid
  sc_ParentID :: "uuid option"
  sc_SplitNode :: string
  sc_JoinNode :: string
  sc_Expected :: int
  sc_Status :: ScopeStatus
  sc_OpenedSeq :: int
  sc_ClosedSeq :: int

definition IsRoot :: "Scope \<Rightarrow> bool" where
  "IsRoot s = (sc_ParentID s = None)"

record WorkItem =
  wi_Case :: Case
  wi_Token :: Token

record JoinRecord =
  jrec_Scope :: Scope
  jrec_Tokens :: "Token list"
  jrec_Verdict :: Outcome
  jrec_Branches :: "BranchResult list"

section \<open>Event details\<close>

text \<open>
  Event.Detail is a JSON document. The engine writes one of the Go detail types below, so a
  detail is kept decoded: DetailAbsent is an empty slice, DetailEmpty the object without fields,
  and DetailMalformed a document json.Unmarshal rejects. A caller's raw document
  (FailureInput.Detail) is absent, an object, or anything else.
\<close>

datatype rawJSON = RawAbsent | RawObject string | RawOther string

definition isJSONObject :: "rawJSON \<Rightarrow> bool" where
  "isJSONObject raw = (case raw of RawObject _ \<Rightarrow> True | _ \<Rightarrow> False)"

record AssignmentDetail =
  ad_From :: string
  ad_To :: string
  ad_Reason :: string

record StepRecord =
  st_StepID :: string
  st_FormVersion :: int
  st_PayloadDigest :: string

record FailureDetail =
  fd_Kind :: FailureKind
  fd_Detail :: rawJSON

record SplitDetail =
  sd_Scope :: uuid
  sd_SplitNode :: string
  sd_Tokens :: "uuid list"

record JoinDetail =
  jd_Scope :: uuid
  jd_JoinNode :: string
  jd_Tokens :: "uuid list"
  jd_Policy :: JoinPolicy
  jd_Verdict :: Outcome
  jd_Branches :: "BranchResult list"

record DeadlineDetail =
  dd_From :: "time option"
  dd_To :: "time option"
  dd_Reason :: string

datatype Detail =
    DetailAbsent | DetailEmpty
  | DetailAssignment AssignmentDetail
  | DetailStep StepRecord
  | DetailFailure FailureDetail
  | DetailSplit SplitDetail
  | DetailWaiting Outcome
  | DetailJoin JoinDetail
  | DetailCancel string
  | DetailDeadline DeadlineDetail
  | DetailExpiry time
  | DetailCause string
  | DetailMalformed string

section \<open>Events\<close>

type_synonym digest = "nat list"

record Event =
  ev_ID :: uuid
  ev_CaseID :: uuid
  ev_Seq :: int
  ev_Kind :: EventKind
  ev_TokenID :: uuid
  ev_ScopeID :: uuid
  ev_FromState :: string
  ev_ToState :: string
  ev_Action :: string
  ev_DeadlineAt :: "time option"
  ev_Actor :: Actor
  ev_ActorID :: string
  ev_Tenant :: string
  ev_Comment :: string
  ev_OccurredAt :: time
  ev_SchemaVersion :: int
  ev_Detail :: Detail
  ev_RequestID :: string
  ev_TraceID :: string
  ev_SpanID :: string
  ev_PrevDigest :: "digest option"
  ev_Digest :: "digest option"

text \<open>An Event literal with every field at its zero value.\<close>

definition zeroEvent :: Event where
  "zeroEvent =
     \<lparr>ev_ID = uuidNil, ev_CaseID = uuidNil, ev_Seq = 0, ev_Kind = EventKindOther '''',
      ev_TokenID = uuidNil, ev_ScopeID = uuidNil, ev_FromState = '''', ev_ToState = '''',
      ev_Action = '''', ev_DeadlineAt = None, ev_Actor = zeroActor, ev_ActorID = '''',
      ev_Tenant = '''', ev_Comment = '''', ev_OccurredAt = 0, ev_SchemaVersion = 0,
      ev_Detail = DetailAbsent, ev_RequestID = '''', ev_TraceID = '''', ev_SpanID = '''',
      ev_PrevDigest = None, ev_Digest = None\<rparr>"

text \<open>The literal most events of the engine start from: a kind, a token and where it stands.\<close>

definition tokenEvent :: "EventKind \<Rightarrow> uuid \<Rightarrow> uuid \<Rightarrow> string \<Rightarrow> string \<Rightarrow> Event" where
  "tokenEvent kind tid sid from to =
     zeroEvent\<lparr>ev_Kind := kind, ev_TokenID := tid, ev_ScopeID := sid, ev_FromState := from,
       ev_ToState := to\<rparr>"

definition CurrentEventSchema :: int where
  "CurrentEventSchema = 5"

record EventDigest =
  ed_Seq :: int
  ed_PrevDigest :: "digest option"
  ed_Digest :: "digest option"
  ed_Recomputed :: "digest option"

record MoveResult =
  mr_Case :: Case
  mr_Events :: "Event list"
  mr_Joined :: "JoinRecord list"

section \<open>Paging\<close>

definition DefaultListLimit :: int where "DefaultListLimit = 20"
definition MaxListLimit :: int where "MaxListLimit = 1000"
definition MaxListOffset :: int where "MaxListOffset = 100000"

definition page :: "int \<Rightarrow> int \<Rightarrow> (int \<times> int) result" where
  "page limit offset =
     (if offset < 0 \<or> offset > MaxListOffset then Inl (Err ErrOffsetOutOfRange)
      else Inr (if limit \<le> 0 then DefaultListLimit
                else if limit > MaxListLimit then MaxListLimit else limit, offset))"

record InboxFilter =
  if_Tenant :: string
  if_Domain :: string
  if_States :: "string list"
  if_Eligibility :: "Eligibility list"
  if_AssignedTo :: string
  if_Unassigned :: bool
  if_Overdue :: bool
  if_Limit :: int
  if_Offset :: int

record ParticipationFilter =
  pf_Tenant :: string
  pf_ActorID :: string
  pf_Limit :: int
  pf_Offset :: int

record OverdueCursor =
  oc_DeadlineAt :: time
  oc_TokenID :: uuid

record OverdueFilter =
  of_Tenant :: string
  of_Limit :: int
  of_Before :: time
  of_After :: "OverdueCursor option"

definition OverdueFilter_Page :: "OverdueFilter \<Rightarrow> int" where
  "OverdueFilter_Page f = (case page (of_Limit f) 0 of Inl _ \<Rightarrow> 0 | Inr (limit, _) \<Rightarrow> limit)"

definition OverdueCursor_of :: "WorkItem \<Rightarrow> OverdueCursor option" where
  "OverdueCursor_of w =
     map_option (\<lambda>d. \<lparr>oc_DeadlineAt = d, oc_TokenID = tok_ID (wi_Token w)\<rparr>) (tok_DeadlineAt (wi_Token w))"

section \<open>Actor resolution\<close>

definition resolveActor :: "Actor \<Rightarrow> string \<Rightarrow> Actor result" where
  "resolveActor actor actorID =
     (if ac_ID actor \<noteq> '''' \<and> actorID \<noteq> '''' \<and> actorID \<noteq> ac_ID actor then Inl (Err ErrInvalidActor)
      else
        let actor = (if ac_ID actor = '''' then actor\<lparr>ac_ID := actorID\<rparr> else actor);
            actor = (if ac_Kind actor = ActorKindNone then actor\<lparr>ac_Kind := ActorHuman\<rparr> else actor)
        in if \<not> ActorKind_Valid (ac_Kind actor) \<or> ac_Kind actor = ActorUnspecified
           then Inl (Err ErrInvalidActor)
           else if ac_Kind actor = ActorSystem \<and> ac_ID actor = '''' then Inl (Err ErrInvalidActor)
           else Inr actor)"

definition checkRevision :: "Case \<Rightarrow> int option \<Rightarrow> unit result" where
  "checkRevision c expected =
     (case expected of
        None \<Rightarrow> Inr ()
      | Some r \<Rightarrow> requireR (r = c_Revision c) (Err ErrConflict))"

section \<open>Lemmas\<close>

lemma Live_simps [simp]:
  "Live TokenActive" "Live TokenWaiting" "\<not> Live TokenConsumed" "\<not> Live TokenCancelled"
  "\<not> Live (TokenStatusOther s)"
  by (simp_all add: Live_def)

lemma newToken_simps [simp]:
  "tok_ID (newToken tid cid sid n) = tid" "tok_CaseID (newToken tid cid sid n) = cid"
  "tok_ScopeID (newToken tid cid sid n) = sid" "tok_Node (newToken tid cid sid n) = n"
  "tok_Status (newToken tid cid sid n) = TokenActive"
  by (simp_all add: newToken_def)

lemma tokenEvent_simps [simp]:
  "ev_Kind (tokenEvent k t s a b) = k" "ev_TokenID (tokenEvent k t s a b) = t"
  "ev_ScopeID (tokenEvent k t s a b) = s" "ev_FromState (tokenEvent k t s a b) = a"
  "ev_ToState (tokenEvent k t s a b) = b" "ev_Detail (tokenEvent k t s a b) = DetailAbsent"
  by (simp_all add: tokenEvent_def zeroEvent_def)

lemma resolveActor_Inr:
  assumes "resolveActor actor actorID = Inr a"
  shows "ActorKind_Valid (ac_Kind a)" and "ac_Kind a \<noteq> ActorUnspecified" and "ac_Kind a \<noteq> ActorKindNone"
    and "ac_Kind a = ActorSystem \<Longrightarrow> ac_ID a \<noteq> ''''"
    and "ac_ID a = (if ac_ID actor = '''' then actorID else ac_ID actor)"
  using assms by (auto simp: resolveActor_def Let_def split: if_splits)

lemma resolveActor_idem: "resolveActor actor actorID = Inr a \<Longrightarrow> resolveActor a '''' = Inr a"
  by (auto simp: resolveActor_def Let_def split: if_splits)

lemma page_bounds:
  "page limit offset = Inr (l, off) \<Longrightarrow> 1 \<le> l \<and> l \<le> MaxListLimit \<and> 0 \<le> off \<and> off \<le> MaxListOffset"
  by (auto simp: page_def DefaultListLimit_def MaxListLimit_def MaxListOffset_def split: if_splits)

end
