(* ===== verification/Engine_Core.thy ===== *)
theory Engine_Core
  imports Case_Model "HOL-Library.AList"
begin

text \<open>
  The engine's configuration and registries (workflow/engine.go): the Repository port, the
  consumer's functions, Register, RegisterGuard, and the lookups every operation starts with.
  The database is a type variable: the engine only reaches it through the Repository and the
  consumer's functions.
\<close>

section \<open>Ports\<close>

text \<open>
  One field per method of the Repository interface. A read returns its answer; a write also
  returns the database it leaves. Create, Update and AppendEvent write back into the value the
  caller passed (the revision, the digests), so they return it.
\<close>

record 'db repository =
  r_Create :: "Case \<Rightarrow> ('db, Case) action"
  r_GetByID :: "uuid \<Rightarrow> 'db \<Rightarrow> Case result"
  r_GetByExternalID :: "string \<Rightarrow> string \<Rightarrow> string \<Rightarrow> 'db \<Rightarrow> Case result"
  r_Update :: "Case \<Rightarrow> int \<Rightarrow> ('db, Case) action"
  r_AppendEvent :: "Event \<Rightarrow> ('db, Event) action"
  r_ListEvents :: "uuid \<Rightarrow> 'db \<Rightarrow> Event list result"
  r_ListWorkItems :: "InboxFilter \<Rightarrow> 'db \<Rightarrow> WorkItem list result"
  r_ListOverdue :: "OverdueFilter \<Rightarrow> 'db \<Rightarrow> WorkItem list result"
  r_AdvanceLastSeq :: "uuid \<Rightarrow> ('db, Case) action"
  r_ListParticipated :: "ParticipationFilter \<Rightarrow> 'db \<Rightarrow> Case list result"
  r_ListEventDigests :: "uuid \<Rightarrow> 'db \<Rightarrow> EventDigest list result"
  r_CreateScope :: "Scope \<Rightarrow> ('db, unit) action"
  r_UpdateScope :: "Scope \<Rightarrow> ('db, unit) action"
  r_ListScopes :: "uuid \<Rightarrow> 'db \<Rightarrow> Scope list result"
  r_CreateToken :: "Token \<Rightarrow> ('db, unit) action"
  r_UpdateToken :: "Token \<Rightarrow> ('db, unit) action"
  r_ListTokens :: "uuid \<Rightarrow> 'db \<Rightarrow> Token list result"

text \<open>
  A guard, a join check and an assignee resolver read the caller's transaction; a deadline
  resolver reads only its input. Dispatch of the effect sink may write.
\<close>

type_synonym 'db guard = "'db \<Rightarrow> Case \<Rightarrow> bool result"

record DueInput =
  due_Rule :: string
  due_From :: time
  due_Case :: Case
  due_Token :: Token

record AssignInput =
  as_Rule :: string
  as_Case :: Case
  as_Token :: Token
  as_Node :: Node
  as_History :: "Event list"

record 'db effectSink =
  sink_HasEffect :: "string \<Rightarrow> bool"
  sink_CheckDB :: "'db \<Rightarrow> unit result"
  sink_Dispatch :: "Definition \<Rightarrow> Case \<Rightarrow> Event list \<Rightarrow> ('db, unit) action"

record 'db config =
  cfg_TraceIDs :: "(string \<Rightarrow> string \<times> string) option"
  cfg_JoinCheck :: "('db \<Rightarrow> JoinRecord \<Rightarrow> unit result) option"
  cfg_Deadlines :: "(DueInput \<Rightarrow> time result) option"
  cfg_Assignees :: "('db \<Rightarrow> AssignInput \<Rightarrow> string result) option"

record 'db engine =
  eng_repo :: "'db repository"
  eng_traceIDs :: "(string \<Rightarrow> string \<times> string) option"
  eng_joinCheck :: "('db \<Rightarrow> JoinRecord \<Rightarrow> unit result) option"
  eng_deadlines :: "(DueInput \<Rightarrow> time result) option"
  eng_assignees :: "('db \<Rightarrow> AssignInput \<Rightarrow> string result) option"
  eng_definitions :: "(string \<times> Definition) list"
  eng_latest :: "(string \<times> Definition) list"
  eng_guards :: "(string \<times> 'db guard) list"
  eng_effectSink :: "'db effectSink option"

text \<open>
  What one call sees besides the database: the clock (read once per call), the identifiers of
  its context, and the UUIDs it draws, in order.
\<close>

record call =
  cl_now :: time
  cl_requestID :: string
  cl_span :: string
  cl_uuid :: "nat \<Rightarrow> uuid"

section \<open>Registration\<close>

definition checkEffects :: "'db engine \<Rightarrow> Definition \<Rightarrow> unit result" where
  "checkEffects e d =
     (case filter (\<lambda>name. case eng_effectSink e of None \<Rightarrow> True | Some s \<Rightarrow> \<not> sink_HasEffect s name)
             (EffectNames d) of
        [] \<Rightarrow> Inr ()
      | _ \<Rightarrow> Inl (Err ErrUnknownEffect))"

definition Register :: "Definition \<Rightarrow> 'db engine \<Rightarrow> 'db engine result" where
  "Register d e =
     bindR (requireR (Validate d = []) (Err ErrInvalidDefinition)) (\<lambda>_.
     bindR (checkEffects e d) (\<lambda>_.
     bindR (requireR (DeadlineRules d = [] \<or> eng_deadlines e \<noteq> None) (Err ErrUnknownDeadlineRule)) (\<lambda>_.
     bindR (requireR (AssignRules d = [] \<or> eng_assignees e \<noteq> None) (Err ErrUnknownAssignRule)) (\<lambda>_.
     Inr (e\<lparr>eng_definitions := AList.update (Key d) d (eng_definitions e),
            eng_latest :=
              (case map_of (eng_latest e) (d_Name d) of
                 None \<Rightarrow> AList.update (d_Name d) d (eng_latest e)
               | Some cur \<Rightarrow>
                   if d_Version d > d_Version cur then AList.update (d_Name d) d (eng_latest e)
                   else eng_latest e)\<rparr>)))))"

definition RegisterGuard :: "string \<Rightarrow> 'db guard option \<Rightarrow> 'db engine \<Rightarrow> 'db engine result" where
  "RegisterGuard name fn e =
     (if name = '''' then Inl (ErrText ''workflow: register guard: name is required'')
      else case fn of
        None \<Rightarrow> Inl (ErrText ''workflow: register guard: fn is required'')
      | Some f \<Rightarrow> Inr (e\<lparr>eng_guards := AList.update name f (eng_guards e)\<rparr>))"

text \<open>New: definitions that fail to register are logged and skipped.\<close>

definition New :: "'db repository \<Rightarrow> 'db config \<Rightarrow> 'db effectSink option \<Rightarrow> Definition list \<Rightarrow> 'db engine" where
  "New repo cfg sink pendingDefs =
     foldl (\<lambda>e d. case Register d e of Inl _ \<Rightarrow> e | Inr e' \<Rightarrow> e')
       \<lparr>eng_repo = repo, eng_traceIDs = cfg_TraceIDs cfg, eng_joinCheck = cfg_JoinCheck cfg,
        eng_deadlines = cfg_Deadlines cfg, eng_assignees = cfg_Assignees cfg,
        eng_definitions = [], eng_latest = [], eng_guards = [], eng_effectSink = sink\<rparr>
       pendingDefs"

definition Definitions :: "'db engine \<Rightarrow> Definition list" where
  "Definitions e = sort_key (\<lambda>d. (d_Name d, d_Version d)) (map snd (eng_definitions e))"

definition resolveDefinition :: "'db engine \<Rightarrow> string \<Rightarrow> int \<Rightarrow> Definition result" where
  "resolveDefinition e name version =
     (case (if version > 0 then map_of (eng_definitions e) (name @ ''@'' @ showInt version)
            else map_of (eng_latest e) name) of
        None \<Rightarrow> Inl (Err ErrDefinitionNotRegistered)
      | Some d \<Rightarrow> Inr d)"

definition lookupGuard :: "'db engine \<Rightarrow> string \<Rightarrow> 'db guard result" where
  "lookupGuard e name =
     (case map_of (eng_guards e) name of
        None \<Rightarrow> Inl (Err ErrGuardNotRegistered)
      | Some fn \<Rightarrow> Inr fn)"

section \<open>Consumer calls\<close>

definition checkEffectDB :: "'db engine \<Rightarrow> Definition \<Rightarrow> 'db \<Rightarrow> unit result" where
  "checkEffectDB e d db =
     (case eng_effectSink e of
        None \<Rightarrow> Inr ()
      | Some s \<Rightarrow> if EffectNames d = [] then Inr () else sink_CheckDB s db)"

definition dispatch :: "'db engine \<Rightarrow> Definition \<Rightarrow> Case \<Rightarrow> Event list \<Rightarrow> ('db, unit) action" where
  "dispatch e d c events =
     (case eng_effectSink e of
        None \<Rightarrow> returnA ()
      | Some s \<Rightarrow> sink_Dispatch s d c events)"

definition evalGuard :: "'db engine \<Rightarrow> 'db \<Rightarrow> string \<Rightarrow> Case \<Rightarrow> bool result" where
  "evalGuard e db name c = bindR (lookupGuard e name) (\<lambda>fn. fn db c)"

fun resolveRoute :: "'db engine \<Rightarrow> 'db \<Rightarrow> Transition list \<Rightarrow> Case \<Rightarrow> Transition result" where
  "resolveRoute e db [] c = Inl (Err ErrNoRoute)"
| "resolveRoute e db (route # routes) c =
     (if tr_Guard route = '''' then Inr route
      else bindR (evalGuard e db (tr_Guard route) c) (\<lambda>ok.
             if ok then Inr route else resolveRoute e db routes c))"

definition deadlineFor :: "'db engine \<Rightarrow> Node \<Rightarrow> time \<Rightarrow> Case \<Rightarrow> Token \<Rightarrow> time option result" where
  "deadlineFor e n from c tok =
     (if node_DeadlineRule n \<noteq> '''' then
        (case eng_deadlines e of
           None \<Rightarrow> Inl (Err ErrUnknownDeadlineRule)
         | Some due \<Rightarrow>
             bindR (due \<lparr>due_Rule = node_DeadlineRule n, due_From = from, due_Case = c,
                         due_Token = tok\<rparr>) (\<lambda>t. Inr (Some t)))
      else if node_Deadline n > 0 then Inr (Some (from + node_Deadline n))
      else Inr None)"

definition resolvedEligibility :: "Node \<Rightarrow> string \<Rightarrow> Eligibility" where
  "resolvedEligibility n caseUnit =
     (if Eligibility_IsZero (node_Eligible n) then zeroEligibility
      else \<lparr>el_Position = el_Position (node_Eligible n),
            el_Unit = ResolveUnit (node_Eligible n) caseUnit\<rparr>)"

section \<open>Lemmas on the registries\<close>

text \<open>
  The registry invariant: every stored definition passed Validate, is filed under its own key,
  and the entry a bare name points at has the highest version filed under that name.
\<close>

definition registryOK :: "'db engine \<Rightarrow> bool" where
  "registryOK e \<longleftrightarrow>
     (\<forall>k d. map_of (eng_definitions e) k = Some d \<longrightarrow> k = Key d \<and> Validate d = []) \<and>
     (\<forall>n d. map_of (eng_latest e) n = Some d \<longrightarrow> n = d_Name d \<and> Validate d = [] \<and>
        (\<exists>d'. map_of (eng_definitions e) (Key d) = Some d')) \<and>
     (\<forall>k d. map_of (eng_definitions e) k = Some d \<longrightarrow>
        (\<exists>cur. map_of (eng_latest e) (d_Name d) = Some cur \<and> d_Version d \<le> d_Version cur))"

lemma map_of_update: "map_of (AList.update k v al) = (map_of al)(k \<mapsto> v)"
  by (rule update_conv')

lemma Register_Inr:
  assumes "Register d e = Inr e'"
  shows "Validate d = []" and "checkEffects e d = Inr ()"
    and "DeadlineRules d = [] \<or> eng_deadlines e \<noteq> None"
    and "AssignRules d = [] \<or> eng_assignees e \<noteq> None"
    and "map_of (eng_definitions e') = (map_of (eng_definitions e))(Key d \<mapsto> d)"
    and "map_of (eng_latest e') =
      (case map_of (eng_latest e) (d_Name d) of
         None \<Rightarrow> (map_of (eng_latest e))(d_Name d \<mapsto> d)
       | Some cur \<Rightarrow> if d_Version d > d_Version cur then (map_of (eng_latest e))(d_Name d \<mapsto> d)
           else map_of (eng_latest e))"
  using assms by (auto simp: Register_def map_of_update split: option.splits)

lemma registryOK_definition:
  "registryOK e \<Longrightarrow> map_of (eng_definitions e) k = Some d \<Longrightarrow> k = Key d \<and> Validate d = []"
  unfolding registryOK_def by blast

lemma registryOK_latest:
  "registryOK e \<Longrightarrow> map_of (eng_latest e) n = Some d \<Longrightarrow>
     n = d_Name d \<and> Validate d = [] \<and> (\<exists>d'. map_of (eng_definitions e) (Key d) = Some d')"
  unfolding registryOK_def by blast

lemma registryOK_highest:
  "registryOK e \<Longrightarrow> map_of (eng_definitions e) k = Some d \<Longrightarrow>
     \<exists>cur. map_of (eng_latest e) (d_Name d) = Some cur \<and> d_Version d \<le> d_Version cur"
  unfolding registryOK_def by blast

lemma Register_registryOK:
  assumes ok: "registryOK e" and reg: "Register d e = Inr e'"
  shows "registryOK e'"
proof -
  note r = Register_Inr [OF reg]
  have key: "k = Key x \<and> Validate x = []" if "map_of (eng_definitions e') k = Some x" for k x
    using that registryOK_definition [OF ok, of k x] r(1) by (simp add: r(5) split: if_splits)
  moreover have "n = d_Name x \<and> Validate x = [] \<and> (\<exists>d'. map_of (eng_definitions e') (Key x) = Some d')"
    if n: "map_of (eng_latest e') n = Some x" for n x
  proof (cases "map_of (eng_latest e) n = Some x")
    case True
    then show ?thesis using registryOK_latest [OF ok True] by (simp add: r(5))
  next
    case False
    then have "n = d_Name d \<and> x = d" using n by (simp add: r(6) split: option.splits if_splits)
    then show ?thesis using r(1) by (simp add: r(5))
  qed
  moreover have "\<exists>cur. map_of (eng_latest e') (d_Name x) = Some cur \<and> d_Version x \<le> d_Version cur"
    if x: "map_of (eng_definitions e') k = Some x" for k x
  proof (cases "k = Key d")
    case True
    then have "x = d" using x by (simp add: r(5))
    then show ?thesis by (auto simp: r(6) split: option.splits)
  next
    case False
    then have "map_of (eng_definitions e) k = Some x" using x by (simp add: r(5))
    from registryOK_highest [OF ok this]
    obtain cur where "map_of (eng_latest e) (d_Name x) = Some cur" "d_Version x \<le> d_Version cur"
      by blast
    then show ?thesis by (auto simp: r(6) split: option.splits)
  qed
  ultimately show ?thesis unfolding registryOK_def by blast
qed

lemma New_registryOK: "registryOK (New repo cfg sink defs)"
proof -
  have step: "registryOK e \<Longrightarrow>
      registryOK (foldl (\<lambda>e d. case Register d e of Inl _ \<Rightarrow> e | Inr e' \<Rightarrow> e') e defs)" for e :: "'a engine"
    by (induction defs arbitrary: e) (auto split: sum.splits intro: Register_registryOK)
  show ?thesis unfolding New_def by (rule step) (simp add: registryOK_def)
qed

lemma RegisterGuard_registryOK:
  "registryOK e \<Longrightarrow> RegisterGuard name fn e = Inr e' \<Longrightarrow> registryOK e'"
proof -
  assume ok: "registryOK e" and "RegisterGuard name fn e = Inr e'"
  then obtain gs where "e' = e\<lparr>eng_guards := gs\<rparr>"
    by (auto simp: RegisterGuard_def split: if_splits option.splits)
  with ok show ?thesis unfolding registryOK_def by simp
qed

lemma resolveDefinition_Inr:
  assumes ok: "registryOK e" and res: "resolveDefinition e name version = Inr d"
  shows "Validate d = []" and "d_Name d = name" and "0 < version \<Longrightarrow> d_Version d = version"
proof -
  have "Validate d = [] \<and> d_Name d = name \<and> (0 < version \<longrightarrow> d_Version d = version)"
  proof (cases "0 < version")
    case True
    with res have m: "map_of (eng_definitions e) (name @ ''@'' @ showInt version) = Some d"
      by (auto simp: resolveDefinition_def split: option.splits)
    from registryOK_definition [OF ok this]
    have "name @ ''@'' @ showInt version = Key d" "Validate d = []" by simp_all
    from this(1) have "Key \<lparr>d_Name = name, d_Version = version, d_Nodes = [], d_Transitions = []\<rparr> = Key d"
      by (simp add: Key_def)
    from Key_inj [OF this] have "name = d_Name d" "version = d_Version d" by simp_all
    with \<open>Validate d = []\<close> show ?thesis by simp
  next
    case False
    with res have "map_of (eng_latest e) name = Some d"
      by (auto simp: resolveDefinition_def split: option.splits)
    from registryOK_latest [OF ok this] False show ?thesis by simp
  qed
  then show "Validate d = []" and "d_Name d = name" and "0 < version \<Longrightarrow> d_Version d = version" by auto
qed

text \<open>An unguarded route ends the search, so a decision of a valid definition always has a route.\<close>

lemma resolveRoute_mem: "resolveRoute e db routes c = Inr r \<Longrightarrow> r \<in> set routes"
  by (induction routes) (auto split: if_splits)

lemma resolveRoute_not_NoRoute:
  assumes "lastUnguarded routes" and "resolveRoute e db routes c = Inl err"
  shows "\<exists>r \<in> set routes. tr_Guard r \<noteq> '''' \<and> evalGuard e db (tr_Guard r) c = Inl err"
  using assms
proof (induction routes)
  case (Cons r routes)
  show ?case
  proof (cases "tr_Guard r = '''' \<or> evalGuard e db (tr_Guard r) c = Inl err")
    case True
    with Cons show ?thesis by auto
  next
    case False
    with Cons.prems have rest: "resolveRoute e db routes c = Inl err"
      by (auto simp: bindR_eq_Inl split: if_splits)
    from False Cons.prems(1) have "routes \<noteq> []" by (auto simp: lastUnguarded_def)
    with Cons.prems(1) have "lastUnguarded routes" by (auto simp: lastUnguarded_def)
    with Cons.IH rest show ?thesis by auto
  qed
qed (simp add: lastUnguarded_def)

text \<open>What a lookup finds in an engine built by New.\<close>

lemma New_resolve:
  assumes "resolveDefinition (New repo cfg sink defs) name version = Inr d"
  shows "Validate d = [] \<and> d_Name d = name \<and> (0 < version \<longrightarrow> d_Version d = version) \<and>
    (version \<le> 0 \<longrightarrow> (\<forall>k d'. map_of (eng_definitions (New repo cfg sink defs)) k = Some d' \<longrightarrow> d_Name d' = name \<longrightarrow>
       d_Version d' \<le> d_Version d))"
proof -
  note ok = New_registryOK [of repo cfg sink defs]
  have "d_Version d' \<le> d_Version d" if "version \<le> 0" "map_of (eng_definitions (New repo cfg sink defs)) k = Some d'" "d_Name d' = name" for k d'
  proof -
    have "map_of (eng_latest (New repo cfg sink defs)) name = Some d"
      using assms that(1) by (auto simp: resolveDefinition_def split: option.splits)
    with registryOK_highest [OF ok that(2)] that(3) show ?thesis by auto
  qed
  with resolveDefinition_Inr [OF ok assms] show ?thesis by blast
qed

lemma resolveDefinition_guards: "resolveDefinition (e\<lparr>eng_guards := gs\<rparr>) = resolveDefinition e"
  by (intro ext) (simp add: resolveDefinition_def)

end
