(* ===== verification/Events.thy ===== *)
theory Events
  imports Engine_Core
begin

text \<open>
  Appending, reading and verifying the event history (workflow/events.go).
\<close>

section \<open>Appending\<close>

definition withDetail :: "Detail \<Rightarrow> Detail" where
  "withDetail detail = (if detail = DetailAbsent then DetailEmpty else detail)"

text \<open>The fields appendEvent stamps; n is the position of the UUID it draws.\<close>

definition stampEvent :: "'db engine \<Rightarrow> call \<Rightarrow> nat \<Rightarrow> Case \<Rightarrow> Event \<Rightarrow> Event" where
  "stampEvent e cl n c evt =
     (let (traceID, spanID) =
        (case eng_traceIDs e of
           None \<Rightarrow> (ev_TraceID evt, ev_SpanID evt)
         | Some f \<Rightarrow> f (cl_span cl))
      in evt\<lparr>ev_ID := cl_uuid cl n, ev_CaseID := c_ID c, ev_Tenant := c_Tenant c,
             ev_ActorID := ac_ID (ev_Actor evt), ev_RequestID := cl_requestID cl,
             ev_TraceID := traceID, ev_SpanID := spanID, ev_SchemaVersion := CurrentEventSchema,
             ev_Detail := withDetail (ev_Detail evt)\<rparr>)"

definition appendEvent :: "'db engine \<Rightarrow> call \<Rightarrow> nat \<Rightarrow> Case \<Rightarrow> Event \<Rightarrow> ('db, Event) action" where
  "appendEvent e cl n c evt = r_AppendEvent (eng_repo e) (stampEvent e cl n c evt)"

section \<open>Reading\<close>

definition upcastEvent :: "Event \<Rightarrow> Event" where
  "upcastEvent evt =
     (let actor = ev_Actor evt;
          actor = (if ac_Kind actor = ActorKindNone then actor\<lparr>ac_Kind := ActorUnspecified\<rparr> else actor);
          actor = (if ac_ID actor = '''' then actor\<lparr>ac_ID := ev_ActorID evt\<rparr> else actor)
      in evt\<lparr>ev_SchemaVersion := (if ev_SchemaVersion evt < 1 then 1 else ev_SchemaVersion evt),
             ev_Actor := actor, ev_ActorID := ac_ID actor,
             ev_Detail := withDetail (ev_Detail evt),
             ev_TokenID := (if ev_TokenID evt = uuidNil then ev_CaseID evt else ev_TokenID evt),
             ev_ScopeID := (if ev_ScopeID evt = uuidNil then ev_CaseID evt else ev_ScopeID evt)\<rparr>)"

definition upcastEvents :: "Event list \<Rightarrow> Event list result" where
  "upcastEvents events =
     (if list_ex (\<lambda>evt. ev_SchemaVersion evt > CurrentEventSchema) events
      then Inl (Err ErrUnsupportedEventSchema) else Inr (map upcastEvent events))"

definition listEvents :: "'db engine \<Rightarrow> 'db \<Rightarrow> uuid \<Rightarrow> Event list result" where
  "listEvents e db caseID = bindR (r_ListEvents (eng_repo e) caseID db) upcastEvents"

section \<open>The hash chain\<close>

text \<open>bytes.Equal does not tell a nil slice from an empty one.\<close>

definition bytesOf :: "digest option \<Rightarrow> digest" where
  "bytesOf b = (case b of None \<Rightarrow> [] | Some x \<Rightarrow> x)"

text \<open>The loop of VerifyChain: the first link that fails, with its Seq and the reason.\<close>

fun verifyLinks :: "digest option \<Rightarrow> bool \<Rightarrow> EventDigest list \<Rightarrow> (int \<times> string) option" where
  "verifyLinks prev chained [] = None"
| "verifyLinks prev chained (l # ls) =
     (if ed_Digest l = None then
        (if chained then Some (ed_Seq l, ''event has no digest after the chain started'')
         else if ed_PrevDigest l \<noteq> None then Some (ed_Seq l, ''event has a prev_digest but no digest'')
         else verifyLinks prev chained ls)
      else if bytesOf (ed_PrevDigest l) \<noteq> bytesOf prev
      then Some (ed_Seq l, ''prev_digest does not match the previous event'')
      else if bytesOf (ed_Recomputed l) \<noteq> bytesOf (ed_Digest l)
      then Some (ed_Seq l, ''digest does not match the event's content'')
      else verifyLinks (ed_Digest l) True ls)"

definition VerifyChain :: "'db engine \<Rightarrow> 'db \<Rightarrow> uuid \<Rightarrow> unit result" where
  "VerifyChain e db caseID =
     bindR (r_GetByID (eng_repo e) caseID db) (\<lambda>_.
     bindR (r_ListEventDigests (eng_repo e) caseID db) (\<lambda>links.
     case verifyLinks None False links of
       None \<Rightarrow> Inr ()
     | Some _ \<Rightarrow> Inl (Err ErrChainBroken)))"

section \<open>Lemmas\<close>

lemma withDetail_idem [simp]: "withDetail (withDetail d) = withDetail d"
  by (simp add: withDetail_def)

lemma stampEvent_simps [simp]:
  "ev_Seq (stampEvent e cl n c evt) = ev_Seq evt"
  "ev_Kind (stampEvent e cl n c evt) = ev_Kind evt"
  "ev_CaseID (stampEvent e cl n c evt) = c_ID c"
  "ev_TokenID (stampEvent e cl n c evt) = ev_TokenID evt"
  "ev_ScopeID (stampEvent e cl n c evt) = ev_ScopeID evt"
  "ev_FromState (stampEvent e cl n c evt) = ev_FromState evt"
  "ev_ToState (stampEvent e cl n c evt) = ev_ToState evt"
  "ev_Actor (stampEvent e cl n c evt) = ev_Actor evt"
  "ev_SchemaVersion (stampEvent e cl n c evt) = CurrentEventSchema"
  by (simp_all add: stampEvent_def case_prod_beta)

text \<open>Upcasting twice is upcasting once: a stored row may be read any number of times.\<close>

lemma upcastEvent_idem: "upcastEvent (upcastEvent evt) = upcastEvent evt"
  by (simp add: upcastEvent_def Let_def withDetail_def)

text \<open>An event the engine appends reads back as it was written, digests apart.\<close>

lemma upcastEvent_stamp:
  assumes "ac_Kind (ev_Actor evt) \<noteq> ActorKindNone" "ev_TokenID evt \<noteq> uuidNil" "ev_ScopeID evt \<noteq> uuidNil"
  shows "upcastEvent (stampEvent e cl n c evt) = stampEvent e cl n c evt"
  using assms
  by (simp add: upcastEvent_def stampEvent_def Let_def case_prod_beta withDetail_def CurrentEventSchema_def)

end
