(* ===== verification/Case_Run.thy ===== *)
theory Case_Run
  imports Events
begin

text \<open>
  Planning one engine call (workflow/run.go, the routing half of workflow/joinpolicy.go and
  workflow/assignrule.go): the working copy of a case, the elementary changes, and routing a
  token through decisions, splits and joins until it rests. A Go pointer to a token or scope of
  the run is its ID or its current value; writing through the pointer replaces the entry.
\<close>

section \<open>The working copy\<close>

record caseRun =
  run_c :: Case
  run_d :: Definition
  run_tokens :: "Token list"
  run_scopes :: "Scope list"
  run_created :: "uuid list"
  run_changed :: "uuid list"
  run_now :: time
  run_actor :: Actor
  run_baseSeq :: int
  run_events :: "Event list"
  run_joined :: "JoinRecord list"
  run_gatewaySteps :: nat
  run_joinResults :: "(uuid \<times> JoinResult) list"
  run_history :: "Event list option"
  run_drawn :: nat

text \<open>run_drawn counts the UUIDs the call has drawn.\<close>

definition touch :: "caseRun \<Rightarrow> uuid \<Rightarrow> caseRun" where
  "touch r uid =
     (if uid \<in> set (run_created r) then r else r\<lparr>run_changed := uid # run_changed r\<rparr>)"

definition putToken :: "caseRun \<Rightarrow> Token \<Rightarrow> caseRun" where
  "putToken r t = r\<lparr>run_tokens := replaceBy tok_ID t (run_tokens r)\<rparr>"

definition putScope :: "caseRun \<Rightarrow> Scope \<Rightarrow> caseRun" where
  "putScope r s = r\<lparr>run_scopes := replaceBy sc_ID s (run_scopes r)\<rparr>"

definition run_scope :: "caseRun \<Rightarrow> uuid \<Rightarrow> Scope option" where
  "run_scope r uid = lookupBy sc_ID uid (run_scopes r)"

definition run_token :: "caseRun \<Rightarrow> uuid \<Rightarrow> Token option" where
  "run_token r uid = lookupBy tok_ID uid (run_tokens r)"

definition fillToken :: "Definition \<Rightarrow> string \<Rightarrow> Token \<Rightarrow> Token option" where
  "fillToken d unit t =
     (if tok_Status t \<noteq> TokenActive \<or> \<not> Eligibility_IsZero (tok_Eligible t) then None
      else case Definition_Node d (tok_Node t) of
        None \<Rightarrow> None
      | Some n \<Rightarrow> if Eligibility_IsZero (node_Eligible n) then None
                 else Some (t\<lparr>tok_Eligible := resolvedEligibility n unit\<rparr>))"

definition fillEligibility :: "caseRun \<Rightarrow> caseRun" where
  "fillEligibility r =
     (let fill = fillToken (run_d r) (c_Unit (run_c r)) in
      r\<lparr>run_tokens := map (\<lambda>t. case fill t of None \<Rightarrow> t | Some t' \<Rightarrow> t') (run_tokens r),
        run_changed := map tok_ID (filter (\<lambda>t. fill t \<noteq> None \<and> tok_ID t \<notin> set (run_created r)) (run_tokens r)) @
          run_changed r\<rparr>)"

definition loadRun :: "'db engine \<Rightarrow> 'db \<Rightarrow> Case \<Rightarrow> Definition \<Rightarrow> caseRun result" where
  "loadRun e db c d =
     bindR (r_ListTokens (eng_repo e) (c_ID c) db) (\<lambda>tokens.
     bindR (r_ListScopes (eng_repo e) (c_ID c) db) (\<lambda>scopes.
     if tokens = [] \<and> c_Status c = StatusOpen then Inl (Err ErrCaseWithoutTokens)
     else Inr (fillEligibility
       \<lparr>run_c = c, run_d = d, run_tokens = tokens, run_scopes = scopes, run_created = [],
        run_changed = [], run_now = 0, run_actor = zeroActor, run_baseSeq = c_LastSeq c,
        run_events = [], run_joined = [], run_gatewaySteps = 0, run_joinResults = [],
        run_history = None, run_drawn = 0\<rparr>)))"

definition beginRun :: "caseRun \<Rightarrow> time \<Rightarrow> Actor \<Rightarrow> caseRun" where
  "beginRun r now actor = r\<lparr>run_now := now, run_actor := actor\<rparr>"

definition active :: "caseRun \<Rightarrow> Token list" where
  "active r = sort_key tok_EnteredSeq (filter (\<lambda>t. tok_Status t = TokenActive) (run_tokens r))"

definition pick :: "caseRun \<Rightarrow> uuid \<Rightarrow> Token result" where
  "pick r uid =
     (if uid = uuidNil then
        (case active r of
           [t] \<Rightarrow> Inr t
         | [] \<Rightarrow> Inl (Err ErrTokenNotFound)
         | _ \<Rightarrow> Inl (Err ErrTokenRequired))
      else case lookupBy tok_ID uid (active r) of
             Some t \<Rightarrow> Inr t
           | None \<Rightarrow> Inl (Err ErrTokenNotFound))"

definition snapshot :: "caseRun \<Rightarrow> Token \<Rightarrow> string \<Rightarrow> Case" where
  "snapshot r tok node =
     (run_c r)\<lparr>c_State := node, c_AssignedTo := tok_AssignedTo tok,
       c_DeadlineAt := tok_DeadlineAt tok, c_JoinResult := map_of (run_joinResults r) (tok_ID tok)\<rparr>"

definition addToken :: "caseRun \<Rightarrow> Token \<Rightarrow> caseRun" where
  "addToken r t = r\<lparr>run_tokens := run_tokens r @ [t], run_created := tok_ID t # run_created r\<rparr>"

definition addScope :: "caseRun \<Rightarrow> Scope \<Rightarrow> caseRun" where
  "addScope r s = r\<lparr>run_scopes := run_scopes r @ [s], run_created := sc_ID s # run_created r\<rparr>"

definition nextSeq :: "caseRun \<Rightarrow> int" where
  "nextSeq r = run_baseSeq r + int (length (run_events r)) + 1"

definition emit :: "caseRun \<Rightarrow> Event \<Rightarrow> caseRun" where
  "emit r evt =
     r\<lparr>run_events := run_events r @
         [evt\<lparr>ev_Seq := nextSeq r, ev_OccurredAt := run_now r, ev_Actor := run_actor r\<rparr>]\<rparr>"

text \<open>emit returns the Seq it assigned, which is nextSeq of the run it was given.\<close>

definition endToken :: "caseRun \<Rightarrow> Token \<Rightarrow> TokenStatus \<Rightarrow> int \<Rightarrow> caseRun" where
  "endToken r tok status seq =
     touch (putToken r (tok\<lparr>tok_Status := status, tok_EndedSeq := seq, tok_EndedAt := Some (run_now r),
       tok_AssignedTo := '''', tok_DeadlineAt := None, tok_ExpiredDeadline := None\<rparr>)) (tok_ID tok)"

definition endScope :: "caseRun \<Rightarrow> Scope \<Rightarrow> ScopeStatus \<Rightarrow> int \<Rightarrow> caseRun" where
  "endScope r s status seq =
     touch (putScope r (s\<lparr>sc_Status := status, sc_ClosedSeq := seq\<rparr>)) (sc_ID s)"

definition maxGatewaySteps :: nat where
  "maxGatewaySteps = 256"

definition maxDecisionHops :: nat where
  "maxDecisionHops = 32"

definition gatewayStep :: "caseRun \<Rightarrow> caseRun result" where
  "gatewayStep r =
     (if run_gatewaySteps r + 1 > maxGatewaySteps then Inl (Err ErrTooManyDecisionHops)
      else Inr (r\<lparr>run_gatewaySteps := run_gatewaySteps r + 1\<rparr>))"

definition draw :: "call \<Rightarrow> caseRun \<Rightarrow> uuid" where
  "draw cl r = cl_uuid cl (run_drawn r)"

section \<open>Assign rules\<close>

definition fullHistory :: "'db engine \<Rightarrow> 'db \<Rightarrow> caseRun \<Rightarrow> (Event list \<times> caseRun) result" where
  "fullHistory e db r =
     bindR (case run_history r of
              None \<Rightarrow> listEvents e db (c_ID (run_c r))
            | Some stored \<Rightarrow> Inr stored) (\<lambda>stored.
     Inr (stored @ map (\<lambda>ev. ev\<lparr>ev_CaseID := c_ID (run_c r), ev_Tenant := c_Tenant (run_c r),
            ev_ActorID := ac_ID (ev_Actor ev), ev_SchemaVersion := CurrentEventSchema,
            ev_Detail := withDetail (ev_Detail ev)\<rparr>) (run_events r),
          r\<lparr>run_history := Some stored\<rparr>))"

definition applyAssignRule :: "'db engine \<Rightarrow> 'db \<Rightarrow> caseRun \<Rightarrow> Token \<Rightarrow> Node \<Rightarrow> caseRun result" where
  "applyAssignRule e db r tok n =
     (if node_AssignRule n = '''' then Inr r
      else case eng_assignees e of
        None \<Rightarrow> Inl (Err ErrUnknownAssignRule)
      | Some assignee \<Rightarrow>
          bindR (fullHistory e db r) (\<lambda>(history, r).
          bindR (assignee db \<lparr>as_Rule = node_AssignRule n, as_Case = run_c r, as_Token = tok,
                   as_Node = n, as_History = history\<rparr>) (\<lambda>to.
          if to = '''' then Inr r
          else Inr (emit (putToken r (tok\<lparr>tok_AssignedTo := to\<rparr>))
            ((tokenEvent EventAssigned (tok_ID tok) (tok_ScopeID tok) (node_ID n) (node_ID n))
              \<lparr>ev_Detail := DetailAssignment \<lparr>ad_From = '''', ad_To = to,
                 ad_Reason = ''assign_rule:'' @ node_AssignRule n\<rparr>\<rparr>)))))"

section \<open>Closing the case\<close>

definition closeCase :: "caseRun \<Rightarrow> Token \<Rightarrow> Node \<Rightarrow> string \<Rightarrow> caseRun result" where
  "closeCase r tok node action =
     (if tok_ScopeID tok \<noteq> c_ID (run_c r)
      then Inl (ErrText ''token reached a terminal node inside a block'')
      else
        let seq = nextSeq r;
            r = emit r ((tokenEvent EventClosed (tok_ID tok) (tok_ScopeID tok) (node_ID node) (node_ID node))
                  \<lparr>ev_Action := action\<rparr>);
            r = endToken r tok TokenConsumed seq;
            r = (case run_scope r (c_ID (run_c r)) of
                   None \<Rightarrow> r
                 | Some root \<Rightarrow> endScope r root ScopeClosed seq)
        in Inr (r\<lparr>run_c := (run_c r)\<lparr>c_Status := StatusClosed, c_ClosedAt := Some (run_now r),
                     c_State := node_ID node\<rparr>\<rparr>))"

section \<open>Joins\<close>

text \<open>
  childOnPath walks up the parents. Each step reaches another scope of the run, so the number
  of scopes bounds the walk as long as the parent links have no cycle.
\<close>

primrec childOnPath :: "nat \<Rightarrow> caseRun \<Rightarrow> Scope \<Rightarrow> uuid \<Rightarrow> Scope option" where
  "childOnPath 0 r s ancestor = None"
| "childOnPath (Suc f) r s ancestor =
     (if sc_Status s \<noteq> ScopeOpen then None
      else case sc_ParentID s of
        None \<Rightarrow> None
      | Some p \<Rightarrow> if p = ancestor then Some s
          else (case run_scope r p of None \<Rightarrow> None | Some s' \<Rightarrow> childOnPath f r s' ancestor))"

definition nestedScopes :: "caseRun \<Rightarrow> uuid \<Rightarrow> (Scope \<times> uuid) list" where
  "nestedScopes r sid =
     concat (map (\<lambda>s. if sc_Status s \<noteq> ScopeOpen then []
        else case childOnPath (length (run_scopes r)) r s sid of
               None \<Rightarrow> []
             | Some child \<Rightarrow> [(s, sc_ID child)]) (run_scopes r))"

definition sortTokens :: "Token list \<Rightarrow> Token list" where
  "sortTokens tokens = sort_key (\<lambda>t. (tok_EnteredSeq t, tok_ID t)) tokens"

text \<open>
  The cancellation loop of closeBranches over the pending tokens: the run, the children already
  reported, and the branch results so far.
\<close>

fun cancelPending :: "(uuid \<times> uuid) list \<Rightarrow> string \<Rightarrow> Token list \<Rightarrow> caseRun \<Rightarrow> uuid list \<Rightarrow>
    BranchResult list \<Rightarrow> (caseRun \<times> BranchResult list) result" where
  "cancelPending branchOf reason [] r reported branches = Inr (r, branches)"
| "cancelPending branchOf reason (p # ps) r reported branches =
     (case run_token r (tok_ID p) of
        None \<Rightarrow> Inl panic
      | Some t \<Rightarrow>
          let seq = nextSeq r;
              r = emit r ((tokenEvent EventTokenCancelled (tok_ID t) (tok_ScopeID t) (tok_Node t) (tok_Node t))
                    \<lparr>ev_Detail := DetailCancel reason\<rparr>);
              r = endToken r t TokenCancelled seq
          in case map_of branchOf (tok_ScopeID t) of
               None \<Rightarrow> cancelPending branchOf reason ps r reported branches
             | Some child \<Rightarrow>
                 if child \<in> set reported then cancelPending branchOf reason ps r reported branches
                 else cancelPending branchOf reason ps r (child # reported)
                        (branches @ [\<lparr>bres_Token = tok_ID t, bres_Outcome = OutcomeUnanswered, bres_Seq = seq\<rparr>]))"

definition ownBranch :: "uuid \<Rightarrow> Token \<Rightarrow> BranchResult list" where
  "ownBranch sid t =
     (if tok_ScopeID t \<noteq> sid then []
      else case tok_Status t of
        TokenWaiting \<Rightarrow> [\<lparr>bres_Token = tok_ID t, bres_Outcome = tok_Outcome t, bres_Seq = tok_EnteredSeq t\<rparr>]
      | TokenCancelled \<Rightarrow> [\<lparr>bres_Token = tok_ID t, bres_Outcome = OutcomeUnanswered, bres_Seq = tok_EndedSeq t\<rparr>]
      | _ \<Rightarrow> [])"

definition pendingTokens :: "caseRun \<Rightarrow> uuid \<Rightarrow> Token list" where
  "pendingTokens r sid =
     (let branchOf = map (\<lambda>(s, child). (sc_ID s, child)) (nestedScopes r sid) in
      sortTokens (filter (\<lambda>t. tok_ScopeID t = sid \<and> tok_Status t = TokenActive \<or>
        map_of branchOf (tok_ScopeID t) \<noteq> None \<and> Live (tok_Status t)) (run_tokens r)))"

definition closeBranches :: "caseRun \<Rightarrow> Scope \<Rightarrow> JoinPolicy \<Rightarrow>
    (caseRun \<times> BranchResult list \<times> Scope list) result" where
  "closeBranches r scope policy =
     (let nested = nestedScopes r (sc_ID scope);
          branchOf = map (\<lambda>(s, child). (sc_ID s, child)) nested
      in bindR (cancelPending branchOf (''join_policy:'' @ policyText policy)
                  (pendingTokens r (sc_ID scope)) r [] [])
           (\<lambda>(r, branches).
              Inr (r, sort_key bres_Seq
                       (branches @ concat (map (ownBranch (sc_ID scope)) (run_tokens r))),
                   map fst nested)))"

text \<open>The loop of tryJoin over the tokens of the scope: who waits, and the tally.\<close>

fun tallyTokens :: "JoinPolicy \<Rightarrow> uuid \<Rightarrow> Token list \<Rightarrow> Token list \<Rightarrow> roundTally \<Rightarrow>
    (Token list \<times> roundTally) result" where
  "tallyTokens policy sid [] waiting tally = Inr (waiting, tally)"
| "tallyTokens policy sid (t # ts) waiting tally =
     (if tok_ScopeID t \<noteq> sid then tallyTokens policy sid ts waiting tally
      else case tok_Status t of
        TokenWaiting \<Rightarrow>
          (case tok_Outcome t of
             OutcomeApproved \<Rightarrow> tallyTokens policy sid ts (waiting @ [t])
               (tally\<lparr>t_approved := t_approved tally + 1\<rparr>)
           | OutcomeRejected \<Rightarrow> tallyTokens policy sid ts (waiting @ [t])
               (tally\<lparr>t_rejected := t_rejected tally + 1\<rparr>)
           | _ \<Rightarrow> if policy \<noteq> JoinPolicyNone then Inl (Err ErrInvalidOutcome)
                 else tallyTokens policy sid ts (waiting @ [t]) tally)
      | TokenCancelled \<Rightarrow> tallyTokens policy sid ts waiting (tally\<lparr>t_cancelled := t_cancelled tally + 1\<rparr>)
      | _ \<Rightarrow> tallyTokens policy sid ts waiting tally)"

definition joinFires :: "JoinPolicy \<Rightarrow> Token list \<Rightarrow> roundTally \<Rightarrow> bool \<times> Outcome" where
  "joinFires policy waiting tally =
     (if policy = JoinPolicyNone
      then (waiting \<noteq> [] \<and> int (length waiting + t_cancelled tally) = t_expected tally, OutcomeNone)
      else closes policy tally)"

text \<open>The waiting tokens are read again before they are consumed: the round may have moved on.\<close>

fun consumeAll :: "uuid list \<Rightarrow> int \<Rightarrow> caseRun \<Rightarrow> Token list \<Rightarrow> (caseRun \<times> Token list) result" where
  "consumeAll [] seq r done = Inr (r, done)"
| "consumeAll (uid # uids) seq r done =
     (case run_token r uid of
        None \<Rightarrow> Inl panic
      | Some t \<Rightarrow>
          let r = endToken r t TokenConsumed seq
          in case run_token r uid of
               None \<Rightarrow> Inl panic
             | Some t' \<Rightarrow> consumeAll uids seq r (done @ [t']))"

definition cancelScopes :: "caseRun \<Rightarrow> Scope list \<Rightarrow> int \<Rightarrow> caseRun" where
  "cancelScopes r nested seq = foldl (\<lambda>r s. endScope r s ScopeCancelled seq) r nested"

definition noteJoinResult :: "caseRun \<Rightarrow> uuid \<Rightarrow> Scope \<Rightarrow> JoinPolicy \<Rightarrow> Outcome \<Rightarrow> int \<Rightarrow>
    BranchResult list \<Rightarrow> caseRun" where
  "noteJoinResult r next scope policy verdict seq branches =
     r\<lparr>run_joinResults := (next,
         \<lparr>jr_Scope = sc_ID scope, jr_JoinNode = sc_JoinNode scope, jr_Policy = policy,
          jr_Verdict = verdict, jr_Seq = seq,
          jr_Branches = map (\<lambda>b. \<lparr>jb_Result = b, jb_Actor = zeroActor, jb_Comment = '''',
             jb_Cause = ''''\<rparr>) branches\<rparr>) # run_joinResults r\<rparr>"

text \<open>
  Routing is recursive: split, arrive and tryJoin call route again. They take the routing
  function as a parameter here; route below ties the knot.
\<close>

type_synonym router = "caseRun \<Rightarrow> uuid \<Rightarrow> Transition \<Rightarrow> string \<Rightarrow> nat \<Rightarrow> caseRun result"

text \<open>
  Firing a join, up to the routing of the token it creates: close the round under a policy,
  consume the waiting tokens, mark the scopes, ask the join check, and add the new token to the
  parent scope.
\<close>

definition closeRound :: "caseRun \<Rightarrow> Scope \<Rightarrow> JoinPolicy \<Rightarrow> (caseRun \<times> BranchResult list \<times> Scope list) result" where
  "closeRound r scope policy =
     (if policy = JoinPolicyNone then Inr (r, [], []) else closeBranches r scope policy)"

definition consumeRound :: "call \<Rightarrow> caseRun \<Rightarrow> Scope \<Rightarrow> Node \<Rightarrow> Token list \<Rightarrow> Outcome \<Rightarrow> BranchResult list \<Rightarrow>
    Scope list \<Rightarrow> (caseRun \<times> uuid \<times> JoinRecord) result" where
  "consumeRound cl r scope join waiting verdict branches nested =
     (let next = draw cl r;
          r = r\<lparr>run_drawn := run_drawn r + 1\<rparr>;
          seq = nextSeq r;
          r = emit r ((tokenEvent EventJoined next (sc_ID scope) (node_ID join) (node_ID join))
                \<lparr>ev_Detail := DetailJoin \<lparr>jd_Scope = sc_ID scope, jd_JoinNode = node_ID join,
                   jd_Tokens = map tok_ID waiting, jd_Policy = node_JoinPolicy join,
                   jd_Verdict = verdict, jd_Branches = branches\<rparr>\<rparr>)
      in bindR (consumeAll (map tok_ID waiting) seq r []) (\<lambda>(r, consumed).
         let scope = scope\<lparr>sc_Status := ScopeJoined, sc_ClosedSeq := seq\<rparr>;
             r = touch (putScope (cancelScopes r nested seq) scope) (sc_ID scope)
         in Inr (r, next, \<lparr>jrec_Scope = scope, jrec_Tokens = consumed, jrec_Verdict = verdict,
                           jrec_Branches = branches\<rparr>)))"

definition checkJoin :: "'db engine \<Rightarrow> 'db \<Rightarrow> JoinRecord \<Rightarrow> unit result" where
  "checkJoin e db jrec =
     (case eng_joinCheck e of
        None \<Rightarrow> Inr ()
      | Some check \<Rightarrow>
          (case check db jrec of
             Inl err \<Rightarrow> Inl (ErrWrap (Err ErrJoinRejected) err)
           | Inr u \<Rightarrow> Inr ()))"

definition joinPlan :: "'db engine \<Rightarrow> call \<Rightarrow> 'db \<Rightarrow> caseRun \<Rightarrow> Scope \<Rightarrow> Node option \<Rightarrow> Token list \<Rightarrow>
    Outcome \<Rightarrow> (caseRun \<times> uuid \<times> Transition) result" where
  "joinPlan e cl db r scope joinNode waiting verdict =
     bindR (gatewayStep r) (\<lambda>r.
     case joinNode of
       None \<Rightarrow> Inl (ErrText ''join node not found in definition'')
     | Some join \<Rightarrow>
       (case TransitionsFrom (run_d r) (node_ID join) of
          [out] \<Rightarrow>
            bindR (closeRound r scope (node_JoinPolicy join)) (\<lambda>(r, branches, nested).
            case sc_ParentID scope of
              None \<Rightarrow> Inl panic
            | Some parent \<Rightarrow>
                bindR (consumeRound cl r scope join waiting verdict branches nested) (\<lambda>(r, next, jrec).
                bindR (checkJoin e db jrec) (\<lambda>_.
                let r = addToken (r\<lparr>run_joined := run_joined r @ [jrec]\<rparr>)
                          (newToken next (c_ID (run_c r)) parent (node_ID join));
                    r = (if node_JoinPolicy join = JoinPolicyNone then r
                         else noteJoinResult r next scope (node_JoinPolicy join) verdict
                                (sc_ClosedSeq (jrec_Scope jrec)) branches)
                in Inr (r, next, out))))
        | _ \<Rightarrow> Inl (ErrText ''join node: outgoing transitions, want 1'')))"

definition fireJoin :: "router \<Rightarrow> 'db engine \<Rightarrow> call \<Rightarrow> 'db \<Rightarrow> caseRun \<Rightarrow> Scope \<Rightarrow> Node option \<Rightarrow>
    Token list \<Rightarrow> Outcome \<Rightarrow> caseRun result" where
  "fireJoin rec e cl db r scope joinNode waiting verdict =
     bindR (joinPlan e cl db r scope joinNode waiting verdict) (\<lambda>(r, next, out). rec r next out '''' 0)"

definition tryJoin :: "router \<Rightarrow> 'db engine \<Rightarrow> call \<Rightarrow> 'db \<Rightarrow> caseRun \<Rightarrow> Scope \<Rightarrow> caseRun result" where
  "tryJoin rec e cl db r scope =
     (if sc_Status scope \<noteq> ScopeOpen then Inr r
      else
        let joinNode = Definition_Node (run_d r) (sc_JoinNode scope);
            policy = (case joinNode of None \<Rightarrow> JoinPolicyNone | Some j \<Rightarrow> node_JoinPolicy j)
        in bindR (tallyTokens policy (sc_ID scope) (run_tokens r) []
             \<lparr>t_approved = 0, t_rejected = 0, t_cancelled = 0, t_expected = sc_Expected scope\<rparr>)
             (\<lambda>(waiting, tally).
           if \<not> fst (joinFires policy waiting tally) then Inr r
           else fireJoin rec e cl db r scope joinNode waiting (snd (joinFires policy waiting tally))))"

definition arrive :: "router \<Rightarrow> 'db engine \<Rightarrow> call \<Rightarrow> 'db \<Rightarrow> caseRun \<Rightarrow> Token \<Rightarrow> Node \<Rightarrow> Outcome \<Rightarrow>
    caseRun result" where
  "arrive rec e cl db r tok node outcome =
     (case run_scope r (tok_ScopeID tok) of
        None \<Rightarrow> Inl (ErrText ''token arrived at a join outside its block'')
      | Some scope \<Rightarrow>
          if sc_JoinNode scope \<noteq> node_ID node
          then Inl (ErrText ''token arrived at a join outside its block'')
          else
            let r = putToken r (tok\<lparr>tok_Status := TokenWaiting, tok_Outcome := outcome\<rparr>);
                r = emit r ((tokenEvent EventWaiting (tok_ID tok) (tok_ScopeID tok) (node_ID node) (node_ID node))
                      \<lparr>ev_Detail := (if outcome = OutcomeNone then DetailAbsent else DetailWaiting outcome)\<rparr>)
            in tryJoin rec e cl db r scope)"

section \<open>Splits\<close>

text \<open>The routes of an inclusive split whose guard passes, and its unguarded default routes.\<close>

fun passing :: "'db engine \<Rightarrow> 'db \<Rightarrow> Case \<Rightarrow> Transition list \<Rightarrow> (Transition list \<times> Transition list) result" where
  "passing e db c [] = Inr ([], [])"
| "passing e db c (t # ts) =
     (if tr_Guard t = '''' then
        bindR (passing e db c ts) (\<lambda>(taken, fallback). Inr (taken, t # fallback))
      else bindR (evalGuard e db (tr_Guard t) c) (\<lambda>ok.
           bindR (passing e db c ts) (\<lambda>(taken, fallback).
           Inr (if ok then t # taken else taken, fallback))))"

definition takenRoutes :: "'db engine \<Rightarrow> 'db \<Rightarrow> caseRun \<Rightarrow> Token \<Rightarrow> Node \<Rightarrow> Transition list result" where
  "takenRoutes e db r tok node =
     (let routes = TransitionsFrom (run_d r) (node_ID node) in
      if node_Kind node = NodeParallel then Inr routes
      else bindR (passing e db (snapshot r tok (node_ID node)) routes) (\<lambda>(taken, fallback).
             Inr (if taken = [] then fallback else taken)))"

fun splitBranches :: "router \<Rightarrow> caseRun \<Rightarrow> (Token \<times> Transition) list \<Rightarrow> caseRun result" where
  "splitBranches rec r [] = Inr r"
| "splitBranches rec r ((b, tr) # rest) =
     bindR (rec (addToken r b) (tok_ID b) tr '''' 0) (\<lambda>r. splitBranches rec r rest)"

definition openSplit :: "'db engine \<Rightarrow> call \<Rightarrow> 'db \<Rightarrow> caseRun \<Rightarrow> Token \<Rightarrow> Node \<Rightarrow>
    (caseRun \<times> (Token \<times> Transition) list) result" where
  "openSplit e cl db r tok node =
     bindR (gatewayStep r) (\<lambda>r.
     bindR (takenRoutes e db r tok node) (\<lambda>taken.
     if taken = [] then Inl (Err ErrNoRoute)
     else
       let sid = draw cl r;
           scope = \<lparr>sc_ID = sid, sc_CaseID = c_ID (run_c r), sc_ParentID = Some (tok_ScopeID tok),
                    sc_SplitNode = node_ID node, sc_JoinNode = node_Join node,
                    sc_Expected = int (length taken), sc_Status = ScopeOpen,
                    sc_OpenedSeq = nextSeq r, sc_ClosedSeq = 0\<rparr>;
           ids = map (\<lambda>i. cl_uuid cl (run_drawn r + 1 + i)) [0..<length taken];
           branches = map (\<lambda>uid. newToken uid (c_ID (run_c r)) sid (node_ID node)) ids;
           r = r\<lparr>run_drawn := run_drawn r + 1 + length taken\<rparr>;
           seq = nextSeq r;
           r = emit r ((tokenEvent EventSplit (tok_ID tok) (tok_ScopeID tok) (node_ID node) (node_ID node))
                 \<lparr>ev_Detail := DetailSplit \<lparr>sd_Scope = sid, sd_SplitNode = node_ID node, sd_Tokens = ids\<rparr>\<rparr>);
           r = endToken r tok TokenConsumed seq;
           r = addScope r scope
       in Inr (r, zip branches taken)))"

definition split :: "router \<Rightarrow> 'db engine \<Rightarrow> call \<Rightarrow> 'db \<Rightarrow> caseRun \<Rightarrow> Token \<Rightarrow> Node \<Rightarrow> caseRun result" where
  "split rec e cl db r tok node =
     bindR (openSplit e cl db r tok node) (\<lambda>(r, branches). splitBranches rec r branches)"

section \<open>Routing\<close>

text \<open>The end of a hop on a task node: eligibility, deadline and assign rule.\<close>

definition restAt :: "'db engine \<Rightarrow> 'db \<Rightarrow> caseRun \<Rightarrow> Token \<Rightarrow> Node \<Rightarrow> nat \<Rightarrow> caseRun result" where
  "restAt e db r tok next hop =
     (let tok = tok\<lparr>tok_Status := TokenActive, tok_Eligible := resolvedEligibility next (c_Unit (run_c r))\<rparr>
      in bindR (deadlineFor e next (run_now r) (run_c r) tok) (\<lambda>deadline.
         let tok = tok\<lparr>tok_DeadlineAt := deadline\<rparr>;
             r = putToken r tok;
             r = r\<lparr>run_events := (run_events r)[hop := (run_events r ! hop)\<lparr>ev_DeadlineAt := deadline\<rparr>]\<rparr>
         in applyAssignRule e db r tok next))"

text \<open>One turn of the loop of route, on the token tid; hops counts the turns before it.\<close>

definition moveTo :: "caseRun \<Rightarrow> Token \<Rightarrow> Node \<Rightarrow> Token" where
  "moveTo r tok next =
     tok\<lparr>tok_Node := node_ID next, tok_EnteredSeq := nextSeq r, tok_EnteredAt := run_now r,
       tok_AssignedTo := '''', tok_DeadlineAt := None, tok_ExpiredDeadline := None,
       tok_Eligible := zeroEligibility\<rparr>"

definition hop :: "caseRun \<Rightarrow> Token \<Rightarrow> Node \<Rightarrow> Transition \<Rightarrow> string \<Rightarrow> caseRun" where
  "hop r tok next tr comment =
     touch (putToken (emit r ((tokenEvent EventMoved (tok_ID tok) (tok_ScopeID tok) (tok_Node tok) (node_ID next))
         \<lparr>ev_Action := tr_Action tr, ev_Comment := comment\<rparr>)) (moveTo r tok next)) (tok_ID tok)"

definition routeStep :: "router \<Rightarrow> 'db engine \<Rightarrow> call \<Rightarrow> 'db \<Rightarrow> router" where
  "routeStep rec e cl db r tid tr comment hops =
     (case Definition_Node (run_d r) (tr_To tr) of
        None \<Rightarrow> Inl (ErrText ''destination node not found in definition'')
      | Some next \<Rightarrow>
          (case run_token r tid of
             None \<Rightarrow> Inl panic
           | Some tok0 \<Rightarrow>
               (let at = length (run_events r);
                    tok = moveTo r tok0 next;
                    r = hop r tok0 next tr comment
                in if node_Kind next = NodeDecision then
                     (if hops + 1 \<ge> maxDecisionHops then Inl (Err ErrTooManyDecisionHops)
                      else bindR (resolveRoute e db (TransitionsFrom (run_d r) (node_ID next))
                                    (snapshot r tok (node_ID next)))
                             (\<lambda>route. rec r tid route '''' (hops + 1)))
                   else if IsSplit (node_Kind next) then split rec e cl db r tok next
                   else if node_Kind next = NodeJoin then arrive rec e cl db r tok next (tr_Outcome tr)
                   else if node_Terminal next then closeCase r tok next (tr_Action tr)
                   else restAt e db r tok next at)))"

primrec routeF :: "nat \<Rightarrow> 'db engine \<Rightarrow> call \<Rightarrow> 'db \<Rightarrow> router" where
  "routeF 0 e cl db = (\<lambda>r tid tr comment hops. Inl (ErrText ''fuel''))"
| "routeF (Suc f) e cl db = routeStep (routeF f e cl db) e cl db"

text \<open>
  Every recursive call takes one more decision hop (at most 32 in a row) or one more gateway
  step (at most 256 in a call), so this many nested calls never run out.
\<close>

definition routeFuel :: nat where
  "routeFuel = 33 * 259"

definition route :: "'db engine \<Rightarrow> call \<Rightarrow> 'db \<Rightarrow> router" where
  "route e cl db = routeF routeFuel e cl db"

section \<open>Projection and writing\<close>

definition earliest :: "time option \<Rightarrow> time option \<Rightarrow> time option" where
  "earliest acc d =
     (case d of None \<Rightarrow> acc
      | Some x \<Rightarrow> (case acc of None \<Rightarrow> Some x | Some y \<Rightarrow> if x < y then Some x else Some y))"

definition project :: "caseRun \<Rightarrow> caseRun" where
  "project r =
     (let c = run_c r in
      if c_Status c \<noteq> StatusOpen
      then r\<lparr>run_c := c\<lparr>c_AssignedTo := '''', c_DeadlineAt := None\<rparr>\<rparr>
      else
        let act = active r;
            c = c\<lparr>c_State := '''', c_AssignedTo := ''''\<rparr>;
            c = (case act of [t] \<Rightarrow> c\<lparr>c_State := tok_Node t, c_AssignedTo := tok_AssignedTo t\<rparr> | _ \<Rightarrow> c)
        in r\<lparr>run_c := c\<lparr>c_DeadlineAt := foldl earliest None (map tok_DeadlineAt act)\<rparr>\<rparr>)"

definition writeScope :: "'db engine \<Rightarrow> caseRun \<Rightarrow> Scope \<Rightarrow> ('db, unit) action" where
  "writeScope e r s =
     (if sc_ID s \<in> set (run_created r) then r_CreateScope (eng_repo e) s
      else if sc_ID s \<in> set (run_changed r) then r_UpdateScope (eng_repo e) s
      else returnA ())"

definition writeToken :: "'db engine \<Rightarrow> caseRun \<Rightarrow> Token \<Rightarrow> ('db, unit) action" where
  "writeToken e r t =
     (if tok_ID t \<in> set (run_created r) then r_CreateToken (eng_repo e) t
      else if tok_ID t \<in> set (run_changed r) then r_UpdateToken (eng_repo e) t
      else returnA ())"

definition writeState :: "'db engine \<Rightarrow> caseRun \<Rightarrow> ('db, unit) action" where
  "writeState e r =
     bindA (forA (writeScope e r) (run_scopes r)) (\<lambda>_. forA (writeToken e r) (run_tokens r))"

fun appendEvents :: "'db engine \<Rightarrow> call \<Rightarrow> Case \<Rightarrow> nat \<Rightarrow> Event list \<Rightarrow> ('db, Event list) action" where
  "appendEvents e cl c n [] = returnA []"
| "appendEvents e cl c n (evt # evts) =
     bindA (appendEvent e cl n c evt) (\<lambda>evt'.
     bindA (appendEvents e cl c (n + 1) evts) (\<lambda>evts'. returnA (evt' # evts')))"

text \<open>persist returns the case as written, with its new revision, and the events as appended.\<close>

definition persist :: "'db engine \<Rightarrow> call \<Rightarrow> caseRun \<Rightarrow> ('db, Case \<times> Event list) action" where
  "persist e cl r =
     (let r = project r;
          c = (run_c r)\<lparr>c_LastSeq := run_baseSeq r + int (length (run_events r))\<rparr>
      in bindA (r_Update (eng_repo e) c (run_baseSeq r)) (\<lambda>c'.
         bindA (writeState e r) (\<lambda>_.
         bindA (appendEvents e cl c' (run_drawn r) (run_events r)) (\<lambda>appended.
         returnA (c', appended)))))"

end
