(* ===== verification/Route_Fixpoint.thy ===== *)
theory Route_Fixpoint
  imports Case_Run
begin

text \<open>
  The fuel of route never runs out: route satisfies the recursion equation of the Go function
  on every run, whatever the definition. The lemmas also say what each elementary change leaves
  alone.
\<close>

section \<open>What the elementary changes leave alone\<close>

lemma touch_simps [simp]:
  "run_c (touch r u) = run_c r" "run_d (touch r u) = run_d r"
  "run_tokens (touch r u) = run_tokens r" "run_scopes (touch r u) = run_scopes r"
  "run_created (touch r u) = run_created r" "run_now (touch r u) = run_now r"
  "run_actor (touch r u) = run_actor r" "run_baseSeq (touch r u) = run_baseSeq r"
  "run_events (touch r u) = run_events r" "run_joined (touch r u) = run_joined r"
  "run_gatewaySteps (touch r u) = run_gatewaySteps r"
  "run_joinResults (touch r u) = run_joinResults r" "run_history (touch r u) = run_history r"
  "run_drawn (touch r u) = run_drawn r"
  by (simp_all add: touch_def)

lemma putToken_simps [simp]:
  "run_c (putToken r t) = run_c r" "run_d (putToken r t) = run_d r"
  "run_scopes (putToken r t) = run_scopes r" "run_created (putToken r t) = run_created r"
  "run_changed (putToken r t) = run_changed r" "run_now (putToken r t) = run_now r"
  "run_actor (putToken r t) = run_actor r" "run_baseSeq (putToken r t) = run_baseSeq r"
  "run_events (putToken r t) = run_events r" "run_joined (putToken r t) = run_joined r"
  "run_gatewaySteps (putToken r t) = run_gatewaySteps r"
  "run_joinResults (putToken r t) = run_joinResults r"
  "run_history (putToken r t) = run_history r" "run_drawn (putToken r t) = run_drawn r"
  by (simp_all add: putToken_def)

lemma putScope_simps [simp]:
  "run_c (putScope r s) = run_c r" "run_d (putScope r s) = run_d r"
  "run_tokens (putScope r s) = run_tokens r" "run_created (putScope r s) = run_created r"
  "run_changed (putScope r s) = run_changed r" "run_now (putScope r s) = run_now r"
  "run_actor (putScope r s) = run_actor r" "run_baseSeq (putScope r s) = run_baseSeq r"
  "run_events (putScope r s) = run_events r" "run_joined (putScope r s) = run_joined r"
  "run_gatewaySteps (putScope r s) = run_gatewaySteps r"
  "run_joinResults (putScope r s) = run_joinResults r"
  "run_history (putScope r s) = run_history r" "run_drawn (putScope r s) = run_drawn r"
  by (simp_all add: putScope_def)

lemma addToken_simps [simp]:
  "run_c (addToken r t) = run_c r" "run_d (addToken r t) = run_d r"
  "run_scopes (addToken r t) = run_scopes r" "run_changed (addToken r t) = run_changed r"
  "run_now (addToken r t) = run_now r" "run_actor (addToken r t) = run_actor r"
  "run_baseSeq (addToken r t) = run_baseSeq r" "run_events (addToken r t) = run_events r"
  "run_joined (addToken r t) = run_joined r"
  "run_gatewaySteps (addToken r t) = run_gatewaySteps r"
  "run_joinResults (addToken r t) = run_joinResults r"
  "run_history (addToken r t) = run_history r" "run_drawn (addToken r t) = run_drawn r"
  by (simp_all add: addToken_def)

lemma addScope_simps [simp]:
  "run_c (addScope r s) = run_c r" "run_d (addScope r s) = run_d r"
  "run_tokens (addScope r s) = run_tokens r" "run_changed (addScope r s) = run_changed r"
  "run_now (addScope r s) = run_now r" "run_actor (addScope r s) = run_actor r"
  "run_baseSeq (addScope r s) = run_baseSeq r" "run_events (addScope r s) = run_events r"
  "run_joined (addScope r s) = run_joined r"
  "run_gatewaySteps (addScope r s) = run_gatewaySteps r"
  "run_joinResults (addScope r s) = run_joinResults r"
  "run_history (addScope r s) = run_history r" "run_drawn (addScope r s) = run_drawn r"
  by (simp_all add: addScope_def)

lemma emit_simps [simp]:
  "run_c (emit r e) = run_c r" "run_d (emit r e) = run_d r"
  "run_tokens (emit r e) = run_tokens r" "run_scopes (emit r e) = run_scopes r"
  "run_created (emit r e) = run_created r" "run_changed (emit r e) = run_changed r"
  "run_now (emit r e) = run_now r" "run_actor (emit r e) = run_actor r"
  "run_baseSeq (emit r e) = run_baseSeq r" "run_joined (emit r e) = run_joined r"
  "run_gatewaySteps (emit r e) = run_gatewaySteps r"
  "run_joinResults (emit r e) = run_joinResults r" "run_history (emit r e) = run_history r"
  "run_drawn (emit r e) = run_drawn r"
  by (simp_all add: emit_def)

lemma endToken_simps [simp]:
  "run_c (endToken r t st q) = run_c r" "run_d (endToken r t st q) = run_d r"
  "run_scopes (endToken r t st q) = run_scopes r"
  "run_created (endToken r t st q) = run_created r" "run_now (endToken r t st q) = run_now r"
  "run_actor (endToken r t st q) = run_actor r" "run_baseSeq (endToken r t st q) = run_baseSeq r"
  "run_events (endToken r t st q) = run_events r" "run_joined (endToken r t st q) = run_joined r"
  "run_gatewaySteps (endToken r t st q) = run_gatewaySteps r"
  "run_joinResults (endToken r t st q) = run_joinResults r"
  "run_history (endToken r t st q) = run_history r" "run_drawn (endToken r t st q) = run_drawn r"
  by (simp_all add: endToken_def)

lemma endScope_simps [simp]:
  "run_c (endScope r s st q) = run_c r" "run_d (endScope r s st q) = run_d r"
  "run_tokens (endScope r s st q) = run_tokens r"
  "run_created (endScope r s st q) = run_created r" "run_now (endScope r s st q) = run_now r"
  "run_actor (endScope r s st q) = run_actor r" "run_baseSeq (endScope r s st q) = run_baseSeq r"
  "run_events (endScope r s st q) = run_events r" "run_joined (endScope r s st q) = run_joined r"
  "run_gatewaySteps (endScope r s st q) = run_gatewaySteps r"
  "run_joinResults (endScope r s st q) = run_joinResults r"
  "run_history (endScope r s st q) = run_history r" "run_drawn (endScope r s st q) = run_drawn r"
  by (simp_all add: endScope_def)

lemma hop_simps [simp]:
  "run_c (hop r t n tr cm) = run_c r" "run_d (hop r t n tr cm) = run_d r"
  "run_scopes (hop r t n tr cm) = run_scopes r" "run_created (hop r t n tr cm) = run_created r"
  "run_now (hop r t n tr cm) = run_now r" "run_actor (hop r t n tr cm) = run_actor r"
  "run_baseSeq (hop r t n tr cm) = run_baseSeq r" "run_joined (hop r t n tr cm) = run_joined r"
  "run_gatewaySteps (hop r t n tr cm) = run_gatewaySteps r"
  "run_joinResults (hop r t n tr cm) = run_joinResults r"
  "run_history (hop r t n tr cm) = run_history r" "run_drawn (hop r t n tr cm) = run_drawn r"
  by (simp_all add: hop_def)

lemma noteJoinResult_simps [simp]:
  "run_c (noteJoinResult r u s p v q b) = run_c r"
  "run_d (noteJoinResult r u s p v q b) = run_d r"
  "run_tokens (noteJoinResult r u s p v q b) = run_tokens r"
  "run_scopes (noteJoinResult r u s p v q b) = run_scopes r"
  "run_created (noteJoinResult r u s p v q b) = run_created r"
  "run_changed (noteJoinResult r u s p v q b) = run_changed r"
  "run_now (noteJoinResult r u s p v q b) = run_now r"
  "run_actor (noteJoinResult r u s p v q b) = run_actor r"
  "run_baseSeq (noteJoinResult r u s p v q b) = run_baseSeq r"
  "run_events (noteJoinResult r u s p v q b) = run_events r"
  "run_joined (noteJoinResult r u s p v q b) = run_joined r"
  "run_gatewaySteps (noteJoinResult r u s p v q b) = run_gatewaySteps r"
  "run_history (noteJoinResult r u s p v q b) = run_history r"
  "run_drawn (noteJoinResult r u s p v q b) = run_drawn r"
  by (simp_all add: noteJoinResult_def)

lemma beginRun_simps [simp]:
  "run_c (beginRun r n a) = run_c r" "run_d (beginRun r n a) = run_d r"
  "run_tokens (beginRun r n a) = run_tokens r" "run_scopes (beginRun r n a) = run_scopes r"
  "run_created (beginRun r n a) = run_created r" "run_changed (beginRun r n a) = run_changed r"
  "run_baseSeq (beginRun r n a) = run_baseSeq r" "run_events (beginRun r n a) = run_events r"
  "run_joined (beginRun r n a) = run_joined r"
  "run_gatewaySteps (beginRun r n a) = run_gatewaySteps r"
  "run_joinResults (beginRun r n a) = run_joinResults r"
  "run_history (beginRun r n a) = run_history r" "run_drawn (beginRun r n a) = run_drawn r"
  by (simp_all add: beginRun_def)

lemma fillEligibility_simps [simp]:
  "run_c (fillEligibility r) = run_c r" "run_d (fillEligibility r) = run_d r"
  "run_scopes (fillEligibility r) = run_scopes r"
  "run_created (fillEligibility r) = run_created r" "run_now (fillEligibility r) = run_now r"
  "run_actor (fillEligibility r) = run_actor r" "run_baseSeq (fillEligibility r) = run_baseSeq r"
  "run_events (fillEligibility r) = run_events r" "run_joined (fillEligibility r) = run_joined r"
  "run_gatewaySteps (fillEligibility r) = run_gatewaySteps r"
  "run_joinResults (fillEligibility r) = run_joinResults r"
  "run_history (fillEligibility r) = run_history r" "run_drawn (fillEligibility r) = run_drawn r"
  by (simp_all add: fillEligibility_def Let_def)

lemma cancelScopes_simps [simp]:
  "run_c (cancelScopes r ns q) = run_c r" "run_d (cancelScopes r ns q) = run_d r"
  "run_tokens (cancelScopes r ns q) = run_tokens r"
  "run_created (cancelScopes r ns q) = run_created r" "run_now (cancelScopes r ns q) = run_now r"
  "run_actor (cancelScopes r ns q) = run_actor r"
  "run_baseSeq (cancelScopes r ns q) = run_baseSeq r"
  "run_events (cancelScopes r ns q) = run_events r"
  "run_joined (cancelScopes r ns q) = run_joined r"
  "run_gatewaySteps (cancelScopes r ns q) = run_gatewaySteps r"
  "run_joinResults (cancelScopes r ns q) = run_joinResults r"
  "run_history (cancelScopes r ns q) = run_history r"
  "run_drawn (cancelScopes r ns q) = run_drawn r"
  unfolding cancelScopes_def by (induction ns arbitrary: r) simp_all

text \<open>
  The loops inside a join and the assign rule change tokens, the change marks, the planned
  events and the history read, and nothing else.
\<close>

definition tokenFrame :: "caseRun \<Rightarrow> caseRun \<Rightarrow> bool" where
  "tokenFrame r r' \<longleftrightarrow> (\<exists>ts ch es hs. r' = r\<lparr>run_tokens := ts, run_changed := ch, run_events := es,
     run_history := hs\<rparr>)"

lemma tokenFrame_refl [simp]: "tokenFrame r r"
  unfolding tokenFrame_def
  by (intro exI [of _ "run_tokens r"] exI [of _ "run_changed r"] exI [of _ "run_events r"]
      exI [of _ "run_history r"]) simp

lemma tokenFrame_trans: "tokenFrame r r' \<Longrightarrow> tokenFrame r' r'' \<Longrightarrow> tokenFrame r r''"
  by (fastforce simp: tokenFrame_def)

lemma tokenFrame_touch: "tokenFrame r (touch r u)"
  unfolding tokenFrame_def touch_def
  by (intro exI [of _ "run_tokens r"] exI [of _ "run_changed (touch r u)"] exI [of _ "run_events r"]
      exI [of _ "run_history r"]) (simp add: touch_def)

lemma tokenFrame_putToken: "tokenFrame r (putToken r t)"
  unfolding tokenFrame_def putToken_def
  by (intro exI [of _ "replaceBy tok_ID t (run_tokens r)"] exI [of _ "run_changed r"]
      exI [of _ "run_events r"] exI [of _ "run_history r"]) simp

lemma tokenFrame_emit: "tokenFrame r (emit r e)"
  unfolding tokenFrame_def
  by (intro exI [of _ "run_tokens r"] exI [of _ "run_changed r"] exI [of _ "run_events (emit r e)"]
      exI [of _ "run_history r"]) (simp add: emit_def)

lemma tokenFrame_history: "tokenFrame r (r\<lparr>run_history := h\<rparr>)"
  unfolding tokenFrame_def
  by (intro exI [of _ "run_tokens r"] exI [of _ "run_changed r"] exI [of _ "run_events r"]
      exI [of _ h]) simp

lemma tokenFrame_endToken: "tokenFrame r (endToken r t st q)"
  unfolding endToken_def by (rule tokenFrame_trans [OF tokenFrame_putToken tokenFrame_touch])

lemma tokenFrame_fields:
  assumes "tokenFrame r r'"
  shows "run_c r' = run_c r" and "run_d r' = run_d r" and "run_scopes r' = run_scopes r"
    and "run_created r' = run_created r" and "run_now r' = run_now r" and "run_actor r' = run_actor r"
    and "run_baseSeq r' = run_baseSeq r" and "run_joined r' = run_joined r"
    and "run_gatewaySteps r' = run_gatewaySteps r" and "run_joinResults r' = run_joinResults r"
    and "run_drawn r' = run_drawn r"
  using assms by (auto simp: tokenFrame_def)

lemma cancelPending_frame:
  "cancelPending bo reason ps r rep bs = Inr (r', bs') \<Longrightarrow> tokenFrame r r'"
proof (induction bo reason ps r rep bs rule: cancelPending.induct)
  case (2 bo reason p ps r rep bs)
  then obtain t where t: "run_token r (tok_ID p) = Some t" by (auto split: option.splits)
  let ?r = "endToken (emit r ((tokenEvent EventTokenCancelled (tok_ID t) (tok_ScopeID t) (tok_Node t) (tok_Node t))
      \<lparr>ev_Detail := DetailCancel reason\<rparr>)) t TokenCancelled (nextSeq r)"
  have "tokenFrame r ?r" by (rule tokenFrame_trans [OF tokenFrame_emit tokenFrame_endToken])
  moreover have "tokenFrame ?r r'"
    using 2 t by (auto simp: Let_def split: option.splits if_splits)
  ultimately show ?case by (rule tokenFrame_trans)
qed simp

lemma consumeAll_frame:
  "consumeAll ids q r dn = Inr (r', dn') \<Longrightarrow> tokenFrame r r' \<and> run_events r' = run_events r"
proof (induction ids q r dn rule: consumeAll.induct)
  case (2 uid uids q r dn)
  then obtain t where t: "run_token r uid = Some t" by (auto split: option.splits)
  have "tokenFrame (endToken r t TokenConsumed q) r' \<and> run_events r' = run_events r"
    using 2 t by (auto simp: Let_def split: option.splits)
  with tokenFrame_trans [OF tokenFrame_endToken] show ?case by blast
qed simp

lemma closeBranches_frame: "closeBranches r s p = Inr (r', bs, ns) \<Longrightarrow> tokenFrame r r'"
  by (auto simp: closeBranches_def Let_def dest: cancelPending_frame)

lemma applyAssignRule_frame: "applyAssignRule e db r t n = Inr r' \<Longrightarrow> tokenFrame r r'"
proof -
  assume "applyAssignRule e db r t n = Inr r'"
  then consider "r' = r" | h where "r' = r\<lparr>run_history := h\<rparr>"
    | h t' ev where "r' = emit (putToken (r\<lparr>run_history := h\<rparr>) t') ev"
    by (auto simp: applyAssignRule_def fullHistory_def split: if_splits option.splits)
  then show ?thesis
    by cases (auto intro: tokenFrame_history tokenFrame_trans [OF tokenFrame_history
        tokenFrame_trans [OF tokenFrame_putToken tokenFrame_emit]])
qed

section \<open>Gateway steps only grow\<close>

definition steps_mono :: "router \<Rightarrow> bool" where
  "steps_mono rec \<longleftrightarrow> (\<forall>r tid tr cm h r'. rec r tid tr cm h = Inr r' \<longrightarrow>
     run_gatewaySteps r \<le> run_gatewaySteps r')"

lemma steps_monoD: "steps_mono rec \<Longrightarrow> rec r tid tr cm h = Inr r' \<Longrightarrow> run_gatewaySteps r \<le> run_gatewaySteps r'"
  by (auto simp: steps_mono_def)

lemma gatewayStep_Inr:
  "gatewayStep r = Inr r' \<longleftrightarrow> run_gatewaySteps r < maxGatewaySteps \<and>
     r' = r\<lparr>run_gatewaySteps := run_gatewaySteps r + 1\<rparr>"
  by (auto simp: gatewayStep_def)

lemma closeCase_steps: "closeCase r tok n a = Inr r' \<Longrightarrow> run_gatewaySteps r' = run_gatewaySteps r"
  by (auto simp: closeCase_def Let_def split: if_splits option.splits)

lemma restAt_steps: "restAt e db r tok n at = Inr r' \<Longrightarrow> run_gatewaySteps r' = run_gatewaySteps r"
  by (auto simp: restAt_def Let_def dest!: applyAssignRule_frame dest: tokenFrame_fields(9))

lemma closeRound_frame: "closeRound r s p = Inr (r', bs, ns) \<Longrightarrow> tokenFrame r r'"
  by (auto simp: closeRound_def split: if_splits dest: closeBranches_frame)

text \<open>A join that fires, step by step.\<close>

lemma joinPlan_Inr:
  assumes "joinPlan e cl db r s jn w v = Inr (r', next, out)"
  obtains j r1 r2 bs ns parent r3 jrec where
    "jn = Some j" and "run_gatewaySteps r < maxGatewaySteps"
    and "r1 = r\<lparr>run_gatewaySteps := run_gatewaySteps r + 1\<rparr>"
    and "TransitionsFrom (run_d r) (node_ID j) = [out]"
    and "closeRound r1 s (node_JoinPolicy j) = Inr (r2, bs, ns)"
    and "sc_ParentID s = Some parent"
    and "consumeRound cl r2 s j w v bs ns = Inr (r3, next, jrec)"
    and "checkJoin e db jrec = Inr ()"
    and "r' = (if node_JoinPolicy j = JoinPolicyNone then id
       else (\<lambda>r. noteJoinResult r next s (node_JoinPolicy j) v (sc_ClosedSeq (jrec_Scope jrec)) bs))
      (addToken (r3\<lparr>run_joined := run_joined r3 @ [jrec]\<rparr>) (newToken next (c_ID (run_c r3)) parent (node_ID j)))"
  using assms that unfolding joinPlan_def Let_def
  by (auto simp: gatewayStep_Inr split: option.splits list.splits)

lemma consumeRound_Inr:
  assumes "consumeRound cl r s j w v bs ns = Inr (r', next, jrec)"
  obtains r1 consumed where
    "next = draw cl r"
    and "consumeAll (map tok_ID w) (nextSeq r) (emit (r\<lparr>run_drawn := run_drawn r + 1\<rparr>)
       ((tokenEvent EventJoined (draw cl r) (sc_ID s) (node_ID j) (node_ID j))
          \<lparr>ev_Detail := DetailJoin \<lparr>jd_Scope = sc_ID s, jd_JoinNode = node_ID j,
             jd_Tokens = map tok_ID w, jd_Policy = node_JoinPolicy j, jd_Verdict = v,
             jd_Branches = bs\<rparr>\<rparr>)) [] = Inr (r1, consumed)"
    and "r' = touch (putScope (cancelScopes r1 ns (nextSeq r))
       (s\<lparr>sc_Status := ScopeJoined, sc_ClosedSeq := nextSeq r\<rparr>)) (sc_ID s)"
    and "jrec = \<lparr>jrec_Scope = s\<lparr>sc_Status := ScopeJoined, sc_ClosedSeq := nextSeq r\<rparr>,
       jrec_Tokens = consumed, jrec_Verdict = v, jrec_Branches = bs\<rparr>"
  using assms that unfolding consumeRound_def Let_def by (auto simp: nextSeq_def)

lemma consumeRound_steps:
  "consumeRound cl r s j w v bs ns = Inr (r', next, jrec) \<Longrightarrow> run_gatewaySteps r' = run_gatewaySteps r"
  by (erule consumeRound_Inr) (auto dest!: consumeAll_frame dest: tokenFrame_fields(9))

lemma joinPlan_steps:
  assumes "joinPlan e cl db r s jn w v = Inr (r', next, out)"
  shows "run_gatewaySteps r < maxGatewaySteps" and "run_gatewaySteps r' = Suc (run_gatewaySteps r)"
  using assms
  by (auto elim!: joinPlan_Inr dest!: closeRound_frame consumeRound_steps dest: tokenFrame_fields(9))

lemma openSplit_Inr:
  assumes "openSplit e cl db r tok node = Inr (r', pairs)"
  obtains r1 taken sid ids where
    "run_gatewaySteps r < maxGatewaySteps"
    and "r1 = r\<lparr>run_gatewaySteps := run_gatewaySteps r + 1\<rparr>"
    and "takenRoutes e db r1 tok node = Inr taken" and "taken \<noteq> []"
    and "sid = draw cl r" and "ids = map (\<lambda>i. cl_uuid cl (run_drawn r + 1 + i)) [0..<length taken]"
    and "pairs = zip (map (\<lambda>uid. newToken uid (c_ID (run_c r)) sid (node_ID node)) ids) taken"
    and "r' = addScope (endToken (emit (r1\<lparr>run_drawn := run_drawn r + 1 + length taken\<rparr>)
        ((tokenEvent EventSplit (tok_ID tok) (tok_ScopeID tok) (node_ID node) (node_ID node))
           \<lparr>ev_Detail := DetailSplit \<lparr>sd_Scope = sid, sd_SplitNode = node_ID node, sd_Tokens = ids\<rparr>\<rparr>))
        tok TokenConsumed (nextSeq r))
       \<lparr>sc_ID = sid, sc_CaseID = c_ID (run_c r), sc_ParentID = Some (tok_ScopeID tok),
        sc_SplitNode = node_ID node, sc_JoinNode = node_Join node,
        sc_Expected = int (length taken), sc_Status = ScopeOpen,
        sc_OpenedSeq = nextSeq r, sc_ClosedSeq = 0\<rparr>"
  using assms that unfolding openSplit_def Let_def
  by (auto simp: gatewayStep_Inr draw_def nextSeq_def split: if_splits)

lemma openSplit_steps:
  assumes "openSplit e cl db r tok node = Inr (r', pairs)"
  shows "run_gatewaySteps r < maxGatewaySteps" and "run_gatewaySteps r' = Suc (run_gatewaySteps r)"
  using assms by (auto elim!: openSplit_Inr)

lemma splitBranches_steps:
  "steps_mono rec \<Longrightarrow> splitBranches rec r ps = Inr r' \<Longrightarrow> run_gatewaySteps r \<le> run_gatewaySteps r'"
proof (induction ps arbitrary: r)
  case (Cons p ps)
  obtain b tr where p: "p = (b, tr)" by fastforce
  with Cons.prems(2) obtain r1 where r1: "rec (addToken r b) (tok_ID b) tr '''' 0 = Inr r1"
    and rest: "splitBranches rec r1 ps = Inr r'" by auto
  have "run_gatewaySteps r \<le> run_gatewaySteps r1" using steps_monoD [OF Cons.prems(1) r1] by simp
  also have "\<dots> \<le> run_gatewaySteps r'" by (rule Cons.IH [OF Cons.prems(1) rest])
  finally show ?case .
qed simp

definition joinPolicyAt :: "Definition \<Rightarrow> Scope \<Rightarrow> JoinPolicy" where
  "joinPolicyAt d s =
     (case Definition_Node d (sc_JoinNode s) of None \<Rightarrow> JoinPolicyNone | Some j \<Rightarrow> node_JoinPolicy j)"

definition tallyOf :: "caseRun \<Rightarrow> Scope \<Rightarrow> (Token list \<times> roundTally) result" where
  "tallyOf r s =
     tallyTokens (joinPolicyAt (run_d r) s) (sc_ID s) (run_tokens r) []
       \<lparr>t_approved = 0, t_rejected = 0, t_cancelled = 0, t_expected = sc_Expected s\<rparr>"

lemma tryJoin_unfold:
  "tryJoin rec e cl db r s =
     (if sc_Status s \<noteq> ScopeOpen then Inr r
      else bindR (tallyOf r s) (\<lambda>(waiting, tally).
        if \<not> fst (joinFires (joinPolicyAt (run_d r) s) waiting tally) then Inr r
        else fireJoin rec e cl db r s (Definition_Node (run_d r) (sc_JoinNode s)) waiting
               (snd (joinFires (joinPolicyAt (run_d r) s) waiting tally))))"
  by (simp only: tryJoin_def Let_def tallyOf_def joinPolicyAt_def)

lemma tryJoin_Inr:
  assumes "tryJoin rec e cl db r s = Inr r'"
  obtains (idle) "r' = r"
  | (fire) waiting tally where "sc_Status s = ScopeOpen" and "tallyOf r s = Inr (waiting, tally)"
      and "fst (joinFires (joinPolicyAt (run_d r) s) waiting tally)"
      and "fireJoin rec e cl db r s (Definition_Node (run_d r) (sc_JoinNode s)) waiting
             (snd (joinFires (joinPolicyAt (run_d r) s) waiting tally)) = Inr r'"
proof (cases "sc_Status s = ScopeOpen")
  case False
  with assms idle show thesis by (simp add: tryJoin_unfold)
next
  case True
  with assms obtain waiting tally where t: "tallyOf r s = Inr (waiting, tally)"
    by (auto simp: tryJoin_unfold)
  show thesis
  proof (cases "fst (joinFires (joinPolicyAt (run_d r) s) waiting tally)")
    case False
    with assms True t idle show thesis by (simp add: tryJoin_unfold)
  next
    case fires: True
    with assms True t fire show thesis by (simp add: tryJoin_unfold)
  qed
qed

lemma tryJoin_steps:
  assumes "steps_mono rec" and "tryJoin rec e cl db r s = Inr r'"
  shows "run_gatewaySteps r \<le> run_gatewaySteps r'"
proof -
  from assms(2) consider "r' = r" | jn w v where "fireJoin rec e cl db r s jn w v = Inr r'"
    by (elim tryJoin_Inr) blast+
  then show ?thesis
  proof cases
    case 2
    then obtain r1 nx out where "joinPlan e cl db r s jn w v = Inr (r1, nx, out)"
      and "rec r1 nx out '''' 0 = Inr r'" by (auto simp: fireJoin_def)
    with joinPlan_steps(2) steps_monoD [OF assms(1)] show ?thesis by fastforce
  qed simp
qed

lemma routeStep_mono:
  assumes mono: "steps_mono rec"
  shows "steps_mono (routeStep rec e cl db)"
  unfolding steps_mono_def
proof (intro allI impI)
  fix r tid tr cm h r'
  assume "routeStep rec e cl db r tid tr cm h = Inr r'"
  then obtain nx tok0 where
    "(\<exists>route. rec (hop r tok0 nx tr cm) tid route '''' (h + 1) = Inr r') \<or>
     split rec e cl db (hop r tok0 nx tr cm) (moveTo r tok0 nx) nx = Inr r' \<or>
     arrive rec e cl db (hop r tok0 nx tr cm) (moveTo r tok0 nx) nx (tr_Outcome tr) = Inr r' \<or>
     closeCase (hop r tok0 nx tr cm) (moveTo r tok0 nx) nx (tr_Action tr) = Inr r' \<or>
     restAt e db (hop r tok0 nx tr cm) (moveTo r tok0 nx) nx (length (run_events r)) = Inr r'"
    unfolding routeStep_def Let_def by (auto split: option.splits if_splits)
  then show "run_gatewaySteps r \<le> run_gatewaySteps r'"
  proof (elim disjE exE)
    fix route assume "rec (hop r tok0 nx tr cm) tid route '''' (h + 1) = Inr r'"
    from steps_monoD [OF mono this] show ?thesis by simp
  next
    assume "split rec e cl db (hop r tok0 nx tr cm) (moveTo r tok0 nx) nx = Inr r'"
    then show ?thesis
      by (auto simp: split_def dest!: openSplit_steps(2) splitBranches_steps [OF mono])
  next
    assume "arrive rec e cl db (hop r tok0 nx tr cm) (moveTo r tok0 nx) nx (tr_Outcome tr) = Inr r'"
    then show ?thesis
      by (auto simp: arrive_def Let_def dest!: tryJoin_steps [OF mono] split: option.splits if_splits)
  next
    assume "closeCase (hop r tok0 nx tr cm) (moveTo r tok0 nx) nx (tr_Action tr) = Inr r'"
    from closeCase_steps [OF this] show ?thesis by simp
  next
    assume "restAt e db (hop r tok0 nx tr cm) (moveTo r tok0 nx) nx (length (run_events r)) = Inr r'"
    from restAt_steps [OF this] show ?thesis by simp
  qed
qed

lemma routeF_mono: "steps_mono (routeF f e cl db)"
  by (induction f) (simp_all add: routeStep_mono, simp add: steps_mono_def)

section \<open>The recursion equation of route\<close>

text \<open>
  The rank of a call: how many gateway steps and decision hops may still follow. Every
  recursive call has a smaller rank.
\<close>

definition rank :: "caseRun \<Rightarrow> nat \<Rightarrow> nat" where
  "rank r h = (257 - run_gatewaySteps r) * 33 + (32 - h)"

definition agree :: "nat \<Rightarrow> router \<Rightarrow> router \<Rightarrow> bool" where
  "agree n rec1 rec2 \<longleftrightarrow> (\<forall>r tid tr cm h. rank r h < n \<longrightarrow> rec1 r tid tr cm h = rec2 r tid tr cm h)"

lemma agreeD: "agree n rec1 rec2 \<Longrightarrow> rank r h < n \<Longrightarrow> rec1 r tid tr cm h = rec2 r tid tr cm h"
  by (simp add: agree_def)

lemma rank_gateway:
  assumes "run_gatewaySteps r < maxGatewaySteps" and "Suc (run_gatewaySteps r) \<le> run_gatewaySteps r'"
  shows "rank r' 0 < rank r h"
proof -
  have "(257 - run_gatewaySteps r') * 33 + 33 \<le> (257 - run_gatewaySteps r) * 33"
    using assms by (simp add: maxGatewaySteps_def)
  then show ?thesis by (simp add: rank_def)
qed

lemma rank_decision: "h + 1 < maxDecisionHops \<Longrightarrow> run_gatewaySteps r' = run_gatewaySteps r \<Longrightarrow> rank r' (h + 1) < rank r h"
  by (simp add: rank_def maxDecisionHops_def)

lemma splitBranches_cong:
  assumes agree: "agree n rec1 rec2" and mono: "steps_mono rec1"
    and rank: "\<And>r'. run_gatewaySteps r \<le> run_gatewaySteps r' \<Longrightarrow> rank r' 0 < n"
  shows "splitBranches rec1 r ps = splitBranches rec2 r ps"
  using rank
proof (induction ps arbitrary: r)
  case (Cons p ps)
  obtain b tr where p: "p = (b, tr)" by fastforce
  have eq: "rec1 (addToken r b) (tok_ID b) tr '''' 0 = rec2 (addToken r b) (tok_ID b) tr '''' 0"
    by (rule agreeD [OF agree]) (simp add: Cons.prems)
  show ?case
  proof (cases "rec1 (addToken r b) (tok_ID b) tr '''' 0")
    case (Inl err)
    with p show ?thesis by (simp add: eq [symmetric])
  next
    case (Inr r1)
    have "run_gatewaySteps r \<le> run_gatewaySteps r1" using steps_monoD [OF mono Inr] by simp
    then have "splitBranches rec1 r1 ps = splitBranches rec2 r1 ps"
      using Cons.prems by (intro Cons.IH) simp
    with Inr p show ?thesis by (simp add: eq [symmetric])
  qed
qed simp

lemma split_cong:
  assumes agree: "agree (rank r h) rec1 rec2" and mono: "steps_mono rec1"
    and steps: "run_gatewaySteps r0 = run_gatewaySteps r"
  shows "split rec1 e cl db r0 tok n = split rec2 e cl db r0 tok n"
proof (cases "openSplit e cl db r0 tok n")
  case (Inr p)
  obtain r1 ps where p: "p = (r1, ps)" by fastforce
  note st = openSplit_steps [OF Inr [unfolded p]]
  have "splitBranches rec1 r1 ps = splitBranches rec2 r1 ps"
  proof (rule splitBranches_cong [OF agree mono])
    fix r' :: caseRun assume "run_gatewaySteps r1 \<le> run_gatewaySteps r'"
    then show "rank r' 0 < rank r h" using st steps by (intro rank_gateway) auto
  qed
  with Inr p show ?thesis by (simp add: split_def)
qed (simp add: split_def)

lemma tryJoin_cong:
  assumes agree: "agree (rank r h) rec1 rec2" and steps: "run_gatewaySteps r0 = run_gatewaySteps r"
  shows "tryJoin rec1 e cl db r0 s = tryJoin rec2 e cl db r0 s"
proof -
  have eq: "fireJoin rec1 e cl db r0 s jn w v = fireJoin rec2 e cl db r0 s jn w v" for jn w v
  proof (cases "joinPlan e cl db r0 s jn w v")
    case (Inr p)
    obtain r1 nx out where p: "p = (r1, nx, out)" by (metis prod.exhaust)
    note st = joinPlan_steps [OF Inr [unfolded p]]
    have "rec1 r1 nx out '''' 0 = rec2 r1 nx out '''' 0"
      by (rule agreeD [OF agree]) (use st steps in \<open>auto intro: rank_gateway\<close>)
    with Inr p show ?thesis by (simp add: fireJoin_def)
  qed (simp add: fireJoin_def)
  show ?thesis unfolding tryJoin_unfold
    by (cases "tallyOf r0 s") (auto intro: eq)
qed

lemma arrive_cong:
  assumes agree: "agree (rank r h) rec1 rec2" and steps: "run_gatewaySteps r0 = run_gatewaySteps r"
  shows "arrive rec1 e cl db r0 tok n oc = arrive rec2 e cl db r0 tok n oc"
proof -
  have "tryJoin rec1 e cl db (emit (putToken r0 t) ev) s = tryJoin rec2 e cl db (emit (putToken r0 t) ev) s"
    for t ev s by (rule tryJoin_cong [OF agree]) (simp add: steps)
  then show ?thesis unfolding arrive_def Let_def by (auto split: option.split)
qed

lemma routeStep_cong:
  assumes agree: "agree (rank r h) rec1 rec2" and mono: "steps_mono rec1"
  shows "routeStep rec1 e cl db r tid tr cm h = routeStep rec2 e cl db r tid tr cm h"
proof -
  have sp: "split rec1 e cl db (hop r t0 n tr cm) t n = split rec2 e cl db (hop r t0 n tr cm) t n" for t0 t n
    by (rule split_cong [OF agree mono]) simp
  have ar: "arrive rec1 e cl db (hop r t0 n tr cm) t n oc =
      arrive rec2 e cl db (hop r t0 n tr cm) t n oc" for t0 t n oc
    by (rule arrive_cong [OF agree]) simp
  have "bindR m (\<lambda>rt. rec1 (hop r t0 n tr cm) tid rt '''' (h + 1)) =
      bindR m (\<lambda>rt. rec2 (hop r t0 n tr cm) tid rt '''' (h + 1))"
    if "\<not> maxDecisionHops \<le> h + 1" for t0 n m
    by (cases m) (use that in \<open>auto intro!: agreeD [OF agree] rank_decision simp del: One_nat_def add_Suc_right\<close>)
  then show ?thesis
    unfolding routeStep_def Let_def
    by (auto intro: sp ar split: option.split simp del: One_nat_def add_Suc_right)
qed

lemma routeF_stable: "rank r h < n \<Longrightarrow> routeF n e cl db r tid tr cm h = routeF (Suc n) e cl db r tid tr cm h"
proof (induction n arbitrary: r tid tr cm h)
  case (Suc n)
  have "agree (rank r h) (routeF n e cl db) (routeF (Suc n) e cl db)"
    unfolding agree_def
  proof (intro allI impI)
    fix r' tid' tr' cm' h'
    assume "rank r' h' < rank r h"
    then have "rank r' h' < n" using Suc.prems by simp
    then show "routeF n e cl db r' tid' tr' cm' h' = routeF (Suc n) e cl db r' tid' tr' cm' h'"
      by (rule Suc.IH)
  qed
  then show ?case
    unfolding routeF.simps(2) [of "Suc n"] unfolding routeF.simps(2) [of n]
    by (rule routeStep_cong [OF _ routeF_mono, unfolded routeF.simps(2)])
qed simp

lemma route_unfold: "route e cl db r tid tr cm h = routeStep (route e cl db) e cl db r tid tr cm h"
proof -
  have fuel: "routeFuel = Suc (33 * 259 - 1)" by (simp add: routeFuel_def)
  have "routeF (33 * 259 - 1) e cl db = routeF (Suc (33 * 259 - 1)) e cl db"
    by (intro ext routeF_stable) (simp add: rank_def)
  then show ?thesis unfolding route_def fuel by (subst routeF.simps(2)) simp
qed

lemma route_fix: "route e cl db = routeStep (route e cl db) e cl db"
  by (intro ext) (rule route_unfold)

end
