(* ===== verification/Route_Steps.thy ===== *)
theory Route_Steps
  imports Route_Fixpoint
begin

text \<open>
  Routing as a transition system. The recursion of route, split and tryJoin is a stack of
  pending work: a token to move along a transition, or a branch a split has still to add. advance
  is one turn of the loop of route; planStep runs the top of the stack. A call of route that
  succeeds is a run of planStep that empties the stack, and one that fails stops at a turn that
  fails; invariants of routing are proved step by step.
\<close>

section \<open>Pending work\<close>

datatype task = Go uuid Transition string nat | Branch Token Transition

fun taskRun :: "router \<Rightarrow> caseRun \<Rightarrow> task list \<Rightarrow> caseRun result" where
  "taskRun rec r [] = Inr r"
| "taskRun rec r (Go tid tr comment hops # ts) =
     bindR (rec r tid tr comment hops) (\<lambda>r. taskRun rec r ts)"
| "taskRun rec r (Branch b tr # ts) =
     bindR (rec (addToken r b) (tok_ID b) tr '''' 0) (\<lambda>r. taskRun rec r ts)"

definition joinStep :: "'db engine \<Rightarrow> call \<Rightarrow> 'db \<Rightarrow> caseRun \<Rightarrow> Scope \<Rightarrow> (caseRun \<times> task list) result" where
  "joinStep e cl db r s =
     (if sc_Status s \<noteq> ScopeOpen then Inr (r, [])
      else bindR (tallyOf r s) (\<lambda>(waiting, tally).
        if \<not> fst (joinFires (joinPolicyAt (run_d r) s) waiting tally) then Inr (r, [])
        else bindR (joinPlan e cl db r s (Definition_Node (run_d r) (sc_JoinNode s)) waiting
               (snd (joinFires (joinPolicyAt (run_d r) s) waiting tally)))
               (\<lambda>(r, next, out). Inr (r, [Go next out '''' 0]))))"

definition arriveStep :: "'db engine \<Rightarrow> call \<Rightarrow> 'db \<Rightarrow> caseRun \<Rightarrow> Token \<Rightarrow> Node \<Rightarrow> Outcome \<Rightarrow>
    (caseRun \<times> task list) result" where
  "arriveStep e cl db r tok node outcome =
     (case run_scope r (tok_ScopeID tok) of
        None \<Rightarrow> Inl (ErrText ''token arrived at a join outside its block'')
      | Some scope \<Rightarrow>
          if sc_JoinNode scope \<noteq> node_ID node
          then Inl (ErrText ''token arrived at a join outside its block'')
          else joinStep e cl db
            (emit (putToken r (tok\<lparr>tok_Status := TokenWaiting, tok_Outcome := outcome\<rparr>))
              ((tokenEvent EventWaiting (tok_ID tok) (tok_ScopeID tok) (node_ID node) (node_ID node))
                 \<lparr>ev_Detail := (if outcome = OutcomeNone then DetailAbsent else DetailWaiting outcome)\<rparr>))
            scope)"

definition enterNode :: "'db engine \<Rightarrow> call \<Rightarrow> 'db \<Rightarrow> caseRun \<Rightarrow> Token \<Rightarrow> Node \<Rightarrow> Transition \<Rightarrow> nat \<Rightarrow> nat \<Rightarrow>
    (caseRun \<times> task list) result" where
  "enterNode e cl db r tok next tr hops at =
     (if node_Kind next = NodeDecision then
        (if hops + 1 \<ge> maxDecisionHops then Inl (Err ErrTooManyDecisionHops)
         else bindR (resolveRoute e db (TransitionsFrom (run_d r) (node_ID next))
                       (snapshot r tok (node_ID next)))
                (\<lambda>route. Inr (r, [Go (tok_ID tok) route '''' (hops + 1)])))
      else if IsSplit (node_Kind next) then
        bindR (openSplit e cl db r tok next) (\<lambda>(r, branches). Inr (r, map (\<lambda>(b, tr). Branch b tr) branches))
      else if node_Kind next = NodeJoin then arriveStep e cl db r tok next (tr_Outcome tr)
      else if node_Terminal next then bindR (closeCase r tok next (tr_Action tr)) (\<lambda>r. Inr (r, []))
      else bindR (restAt e db r tok next at) (\<lambda>r. Inr (r, [])))"

definition advance :: "'db engine \<Rightarrow> call \<Rightarrow> 'db \<Rightarrow> caseRun \<Rightarrow> uuid \<Rightarrow> Transition \<Rightarrow> string \<Rightarrow> nat \<Rightarrow>
    (caseRun \<times> task list) result" where
  "advance e cl db r tid tr comment hops =
     (case Definition_Node (run_d r) (tr_To tr) of
        None \<Rightarrow> Inl (ErrText ''destination node not found in definition'')
      | Some next \<Rightarrow>
          (case run_token r tid of
             None \<Rightarrow> Inl panic
           | Some tok \<Rightarrow> enterNode e cl db (hop r tok next tr comment) (moveTo r tok next) next tr hops
               (length (run_events r))))"

section \<open>route is a run of the stack\<close>

lemma taskRun_Branches: "taskRun rec r (map (\<lambda>(b, tr). Branch b tr) ps) = splitBranches rec r ps"
  by (induction ps arbitrary: r) (auto simp: case_prod_beta)

lemma bindR_assoc: "bindR (bindR m f) g = bindR m (\<lambda>x. bindR (f x) g)"
  by (cases m) auto

lemma bindR_Inr_right: "bindR m (\<lambda>x. Inr x) = m"
  by (cases m) auto

lemma joinStep_tryJoin:
  "bindR (joinStep e cl db r s) (\<lambda>(r, ts). taskRun rec r ts) = tryJoin rec e cl db r s"
proof (cases "sc_Status s = ScopeOpen")
  case True
  have "bindR (joinPlan e cl db r s jn w v) (\<lambda>x. bindR (case x of (r, next, out) \<Rightarrow> Inr (r, [Go next out '''' 0]))
      (\<lambda>(r, ts). taskRun rec r ts)) = fireJoin rec e cl db r s jn w v" for jn w v
    by (cases "joinPlan e cl db r s jn w v") (auto simp: fireJoin_def bindR_Inr_right)
  with True show ?thesis
    by (cases "tallyOf r s") (auto simp: joinStep_def tryJoin_unfold bindR_assoc)
qed (simp add: joinStep_def tryJoin_unfold)

lemma arriveStep_arrive:
  "bindR (arriveStep e cl db r tok n oc) (\<lambda>(r, ts). taskRun rec r ts) = arrive rec e cl db r tok n oc"
  unfolding arriveStep_def arrive_def Let_def
  by (cases "run_scope r (tok_ScopeID tok)") (auto simp: joinStep_tryJoin)

lemma routeStep_advance:
  "routeStep rec e cl db r tid tr cm h =
     bindR (advance e cl db r tid tr cm h) (\<lambda>(r, ts). taskRun rec r ts)"
proof (cases "Definition_Node (run_d r) (tr_To tr)")
  case (Some nx)
  show ?thesis
  proof (cases "run_token r tid")
    case tok: (Some tok)
    have tid: "tok_ID (moveTo r tok nx) = tid"
      using lookupBy_Some_mem [of tok_ID tid] tok by (auto simp: run_token_def moveTo_def)
    let ?r = "hop r tok nx tr cm" and ?t = "moveTo r tok nx"
    have sp: "split rec e cl db ?r ?t nx =
        bindR (bindR (openSplit e cl db ?r ?t nx) (\<lambda>(r, branches). Inr (r, map (\<lambda>(b, tr). Branch b tr) branches)))
          (\<lambda>(r, ts). taskRun rec r ts)"
      by (cases "openSplit e cl db ?r ?t nx") (auto simp: split_def taskRun_Branches)
    have unit: "m = bindR (bindR m (\<lambda>r. Inr (r, []))) (\<lambda>(r, ts). taskRun rec r ts)" for m
      by (cases m) auto
    have dec: "bindR m (\<lambda>route. rec ?r tid route '''' (h + 1)) =
        bindR (bindR m (\<lambda>route. Inr (?r, [Go (tok_ID ?t) route '''' (h + 1)]))) (\<lambda>(r, ts). taskRun rec r ts)" for m
      by (cases m) (auto simp: tid bindR_Inr_right)
    show ?thesis
      unfolding routeStep_def advance_def enterNode_def Let_def Some tok option.case
      using sp unit [of "closeCase ?r ?t nx (tr_Action tr)"] unit [of "restAt e db ?r ?t nx (length (run_events r))"]
        dec arriveStep_arrive [of e cl db ?r ?t nx "tr_Outcome tr" rec]
      by simp
  qed (simp add: routeStep_def advance_def Some)
qed (simp add: routeStep_def advance_def)

lemma route_advance:
  "route e cl db r tid tr cm h =
     bindR (advance e cl db r tid tr cm h) (\<lambda>(r, ts). taskRun (route e cl db) r ts)"
  by (subst route_unfold) (rule routeStep_advance)

section \<open>The step relation\<close>

text \<open>One step of planning: run the turn on top of the stack, or add the next branch.\<close>

inductive planStep :: "'db engine \<Rightarrow> call \<Rightarrow> 'db \<Rightarrow> caseRun \<times> task list \<Rightarrow> caseRun \<times> task list \<Rightarrow> bool"
  for e cl db where
  turn: "advance e cl db r tid tr comment hops = Inr (r', ts) \<Longrightarrow>
    planStep e cl db (r, Go tid tr comment hops # st) (r', ts @ st)"
| branch: "planStep e cl db (r, Branch b tr # st) (addToken r b, Go (tok_ID b) tr '''' 0 # st)"

inductive_cases planStepE: "planStep e cl db (r, st) cfg"

text \<open>A turn that fails.\<close>

definition planFails :: "'db engine \<Rightarrow> call \<Rightarrow> 'db \<Rightarrow> caseRun \<times> task list \<Rightarrow> error \<Rightarrow> bool" where
  "planFails e cl db cfg err \<longleftrightarrow> (\<exists>r tid tr comment hops st. cfg = (r, Go tid tr comment hops # st) \<and>
     advance e cl db r tid tr comment hops = Inl err)"

abbreviation planSteps :: "'db engine \<Rightarrow> call \<Rightarrow> 'db \<Rightarrow> caseRun \<times> task list \<Rightarrow> caseRun \<times> task list \<Rightarrow> bool" where
  "planSteps e cl db \<equiv> (planStep e cl db)\<^sup>*\<^sup>*"

definition rec_steps :: "'db engine \<Rightarrow> call \<Rightarrow> 'db \<Rightarrow> router \<Rightarrow> bool" where
  "rec_steps e cl db rec \<longleftrightarrow> (\<forall>r tid tr cm h r' st. rec r tid tr cm h = Inr r' \<longrightarrow>
     planSteps e cl db (r, Go tid tr cm h # st) (r', st))"

lemma rec_stepsD:
  "rec_steps e cl db rec \<Longrightarrow> rec r tid tr cm h = Inr r' \<Longrightarrow>
   planSteps e cl db (r, Go tid tr cm h # st) (r', st)"
  unfolding rec_steps_def by blast

lemma taskRun_steps:
  assumes rec: "rec_steps e cl db rec"
  shows "taskRun rec r ts = Inr r' \<Longrightarrow> planSteps e cl db (r, ts @ st) (r', st)"
proof (induction ts arbitrary: r)
  case (Cons t ts)
  show ?case
  proof (cases t)
    case (Go tid tr cm h)
    with Cons.prems obtain r1 where r1: "rec r tid tr cm h = Inr r1"
      and rest: "taskRun rec r1 ts = Inr r'" by auto
    from rec_stepsD [OF rec r1, of "ts @ st"] Cons.IH [OF rest] Go show ?thesis by simp
  next
    case (Branch b tr)
    with Cons.prems obtain r1 where r1: "rec (addToken r b) (tok_ID b) tr '''' 0 = Inr r1"
      and rest: "taskRun rec r1 ts = Inr r'" by auto
    have "planSteps e cl db (r, Branch b tr # ts @ st) (r1, ts @ st)"
      by (rule converse_rtranclp_into_rtranclp [OF planStep.branch rec_stepsD [OF rec r1]])
    with Cons.IH [OF rest] Branch show ?thesis by simp
  qed
qed simp

lemma routeF_steps: "rec_steps e cl db (routeF f e cl db)"
proof (induction f)
  case 0
  show ?case by (simp add: rec_steps_def)
next
  case (Suc f)
  show ?case unfolding rec_steps_def
  proof (intro allI impI)
    fix r tid tr cm h r' st
    assume "routeF (Suc f) e cl db r tid tr cm h = Inr r'"
    then obtain r1 ts where adv: "advance e cl db r tid tr cm h = Inr (r1, ts)"
      and run: "taskRun (routeF f e cl db) r1 ts = Inr r'"
      by (auto simp: routeStep_advance)
    show "planSteps e cl db (r, Go tid tr cm h # st) (r', st)"
      by (rule converse_rtranclp_into_rtranclp [OF planStep.turn [OF adv] taskRun_steps [OF Suc.IH run]])
  qed
qed

text \<open>A call of route that succeeds.\<close>

lemma route_steps:
  "route e cl db r tid tr cm h = Inr r' \<Longrightarrow> planSteps e cl db (r, Go tid tr cm h # st) (r', st)"
  unfolding route_def by (rule rec_stepsD [OF routeF_steps])

text \<open>A call of route that fails, and the turn it fails at.\<close>

definition rec_fails :: "'db engine \<Rightarrow> call \<Rightarrow> 'db \<Rightarrow> router \<Rightarrow> nat \<Rightarrow> bool" where
  "rec_fails e cl db rec n \<longleftrightarrow> (\<forall>r tid tr cm h err st. rank r h < n \<longrightarrow> rec r tid tr cm h = Inl err \<longrightarrow>
     (\<exists>cfg. planSteps e cl db (r, Go tid tr cm h # st) cfg \<and> planFails e cl db cfg err))"

lemma rec_failsD:
  "rec_fails e cl db rec n \<Longrightarrow> rank r h < n \<Longrightarrow> rec r tid tr cm h = Inl err \<Longrightarrow>
   \<exists>cfg. planSteps e cl db (r, Go tid tr cm h # st) cfg \<and> planFails e cl db cfg err"
  unfolding rec_fails_def by blast

text \<open>What a turn leaves to do: one more turn of lower rank, or the branches of a split.\<close>

definition lowerTasks :: "nat \<Rightarrow> caseRun \<Rightarrow> task list \<Rightarrow> bool" where
  "lowerTasks n r ts \<longleftrightarrow> (\<exists>tid tr cm h. ts = [Go tid tr cm h] \<and> rank r h < n) \<or>
     (\<forall>t \<in> set ts. \<exists>b tr. t = Branch b tr) \<and> (ts \<noteq> [] \<longrightarrow> 33 * (257 - run_gatewaySteps r) + 32 < n)"

lemma branches_fail:
  assumes rec: "rec_fails e cl db rec n" and ok: "rec_steps e cl db rec" and mono: "steps_mono rec"
  shows "taskRun rec r ts = Inl err \<Longrightarrow> \<forall>t \<in> set ts. \<exists>b tr. t = Branch b tr \<Longrightarrow>
    ts \<noteq> [] \<longrightarrow> 33 * (257 - run_gatewaySteps r) + 32 < n \<Longrightarrow>
    \<exists>cfg. planSteps e cl db (r, ts @ st) cfg \<and> planFails e cl db cfg err"
proof (induction ts arbitrary: r)
  case (Cons t ts)
  from Cons.prems(2) obtain b tr where t: "t = Branch b tr" by auto
  have n: "33 * (257 - run_gatewaySteps r) + 32 < n" using Cons.prems(3) by simp
  then have rank: "rank (addToken r b) 0 < n" by (simp add: rank_def)
  show ?case
  proof (cases "rec (addToken r b) (tok_ID b) tr '''' 0")
    case (Inl err')
    with t Cons.prems(1) have "rec (addToken r b) (tok_ID b) tr '''' 0 = Inl err" by simp
    from rec_failsD [OF rec rank this] obtain cfg
      where "planSteps e cl db (addToken r b, Go (tok_ID b) tr '''' 0 # ts @ st) cfg"
        and "planFails e cl db cfg err" by blast
    then show ?thesis
      unfolding t append_Cons by (blast intro: converse_rtranclp_into_rtranclp planStep.branch)
  next
    case (Inr r1)
    have "run_gatewaySteps r \<le> run_gatewaySteps r1" using steps_monoD [OF mono Inr] by simp
    then have "33 * (257 - run_gatewaySteps r1) + 32 < n" using n by simp
    moreover have "taskRun rec r1 ts = Inl err" using t Cons.prems(1) Inr by simp
    ultimately obtain cfg where cfg: "planSteps e cl db (r1, ts @ st) cfg" "planFails e cl db cfg err"
      using Cons.IH [of r1] Cons.prems(2) by auto
    have "planSteps e cl db (r, Branch b tr # ts @ st) (r1, ts @ st)"
      by (rule converse_rtranclp_into_rtranclp [OF planStep.branch rec_stepsD [OF ok Inr]])
    with cfg show ?thesis unfolding t append_Cons by (blast intro: rtranclp_trans)
  qed
qed simp

lemma taskRun_fails:
  assumes rec: "rec_fails e cl db rec n" and ok: "rec_steps e cl db rec" and mono: "steps_mono rec"
    and run: "taskRun rec r ts = Inl err" and lower: "lowerTasks n r ts"
  shows "\<exists>cfg. planSteps e cl db (r, ts @ st) cfg \<and> planFails e cl db cfg err"
  using lower unfolding lowerTasks_def
proof
  assume "\<exists>tid tr cm h. ts = [Go tid tr cm h] \<and> rank r h < n"
  then obtain tid tr cm h where ts: "ts = [Go tid tr cm h]" and rank: "rank r h < n" by blast
  with run have "rec r tid tr cm h = Inl err" by (simp add: bindR_eq_Inl)
  from rec_failsD [OF rec rank this] ts show ?thesis by simp
qed (use branches_fail [OF rec ok mono run] in blast)

lemma joinStep_lower:
  assumes "joinStep e cl db r s = Inr (r', ts)" and "run_gatewaySteps r = run_gatewaySteps r0"
  shows "lowerTasks (rank r0 h) r' ts"
proof (cases "ts = []")
  case False
  then obtain jn w v nx out where plan: "joinPlan e cl db r s jn w v = Inr (r', nx, out)"
    and ts: "ts = [Go nx out '''' 0]"
    using assms(1) by (auto simp: joinStep_def split: if_splits)
  have "rank r' 0 < rank r0 h"
    using joinPlan_steps [OF plan] assms(2) by (intro rank_gateway) auto
  with ts show ?thesis by (simp add: lowerTasks_def)
qed (simp add: lowerTasks_def)

lemma advance_lower:
  assumes "advance e cl db r tid tr cm h = Inr (r', ts)"
  shows "lowerTasks (rank r h) r' ts"
proof -
  from assms obtain nx tok where
    enter: "enterNode e cl db (hop r tok nx tr cm) (moveTo r tok nx) nx tr h (length (run_events r)) = Inr (r', ts)"
    by (auto simp: advance_def split: option.splits)
  let ?r = "hop r tok nx tr cm"
  consider route where "r' = ?r" "ts = [Go (tok_ID (moveTo r tok nx)) route '''' (h + 1)]" "h + 1 < maxDecisionHops"
    | bs where "openSplit e cl db ?r (moveTo r tok nx) nx = Inr (r', bs)" "ts = map (\<lambda>(b, tr). Branch b tr) bs"
    | "arriveStep e cl db ?r (moveTo r tok nx) nx (tr_Outcome tr) = Inr (r', ts)"
    | "ts = []"
    using enter unfolding enterNode_def by (auto split: if_splits)
  then show ?thesis
  proof cases
    case (1 route)
    have "rank r' (h + 1) < rank r h" using 1 by (intro rank_decision) simp_all
    with 1 show ?thesis by (simp add: lowerTasks_def)
  next
    case (2 bs)
    note st = openSplit_steps [OF 2(1)]
    have "rank r' 0 < rank r h" using st by (intro rank_gateway) simp_all
    then have "33 * (257 - run_gatewaySteps r') + 32 < rank r h" by (simp add: rank_def)
    with 2 show ?thesis by (auto simp: lowerTasks_def)
  next
    case 3
    then obtain r1 s where "joinStep e cl db r1 s = Inr (r', ts)" "run_gatewaySteps r1 = run_gatewaySteps r"
      by (auto simp: arriveStep_def split: option.splits if_splits)
    then show ?thesis by (rule joinStep_lower)
  qed (simp add: lowerTasks_def)
qed

lemma routeF_fails: "rec_fails e cl db (routeF f e cl db) f"
proof (induction f)
  case (Suc f)
  show ?case unfolding rec_fails_def
  proof (intro allI impI)
    fix r tid tr cm h err st
    assume rank: "rank r h < Suc f" and fail: "routeF (Suc f) e cl db r tid tr cm h = Inl err"
    show "\<exists>cfg. planSteps e cl db (r, Go tid tr cm h # st) cfg \<and> planFails e cl db cfg err"
    proof (cases "advance e cl db r tid tr cm h")
      case (Inl err')
      with fail have "advance e cl db r tid tr cm h = Inl err" by (simp add: routeStep_advance)
      then have "planFails e cl db (r, Go tid tr cm h # st) err" by (auto simp: planFails_def)
      then show ?thesis by blast
    next
      case (Inr p)
      obtain r1 ts where p: "p = (r1, ts)" by fastforce
      have run: "taskRun (routeF f e cl db) r1 ts = Inl err"
        using fail Inr p by (simp add: routeStep_advance)
      have "lowerTasks f r1 ts"
        using advance_lower [OF Inr [unfolded p]] rank by (fastforce simp: lowerTasks_def)
      from taskRun_fails [OF Suc.IH routeF_steps routeF_mono run this]
      obtain cfg where "planSteps e cl db (r1, ts @ st) cfg" "planFails e cl db cfg err" by blast
      with planStep.turn [OF Inr [unfolded p], of st] show ?thesis
        by (blast intro: converse_rtranclp_into_rtranclp)
    qed
  qed
qed (simp add: rec_fails_def)

lemma route_fails:
  assumes "route e cl db r tid tr cm h = Inl err"
  obtains cfg where "planSteps e cl db (r, Go tid tr cm h # st) cfg" and "planFails e cl db cfg err"
proof -
  have "rank r h < routeFuel" by (simp add: rank_def routeFuel_def)
  from rec_failsD [OF routeF_fails this assms [unfolded route_def]] that show thesis by blast
qed

text \<open>The routing a join starts, as CancelToken does.\<close>

lemma tryJoin_steps':
  assumes "tryJoin (route e cl db) e cl db r s = Inr r'"
  obtains r1 ts where "joinStep e cl db r s = Inr (r1, ts)" and "planSteps e cl db (r1, ts) (r', [])"
proof -
  have rec: "rec_steps e cl db (route e cl db)" unfolding route_def by (rule routeF_steps)
  from assms joinStep_tryJoin [of e cl db r s "route e cl db"] obtain r1 ts
    where "joinStep e cl db r s = Inr (r1, ts)" and run: "taskRun (route e cl db) r1 ts = Inr r'"
    by (cases "joinStep e cl db r s") auto
  with taskRun_steps [OF rec run, of "[]"] that show thesis by simp
qed

text \<open>Invariants of the stack are invariants of routing.\<close>

lemma planSteps_invariant:
  assumes "planSteps e cl db cfg cfg'" and "P cfg"
    and "\<And>cfg cfg'. P cfg \<Longrightarrow> planStep e cl db cfg cfg' \<Longrightarrow> P cfg'"
  shows "P cfg'"
  using assms by (induction rule: rtranclp_induct) auto

end
