(* ===== verification/Join_Facts.thy ===== *)
theory Join_Facts
  imports Route_Steps
begin

text \<open>
  What the loops inside a join compute: the tally of a scope, the tokens and scopes below it,
  and the tokens after a cancellation or a consumption.
\<close>

section \<open>Ending tokens\<close>

definition ended :: "time \<Rightarrow> TokenStatus \<Rightarrow> int \<Rightarrow> Token \<Rightarrow> Token" where
  "ended now status seq t =
     t\<lparr>tok_Status := status, tok_EndedSeq := seq, tok_EndedAt := Some now, tok_AssignedTo := '''',
       tok_DeadlineAt := None, tok_ExpiredDeadline := None\<rparr>"

lemma ended_simps [simp]:
  "tok_ID (ended now st q t) = tok_ID t" "tok_ScopeID (ended now st q t) = tok_ScopeID t"
  "tok_CaseID (ended now st q t) = tok_CaseID t" "tok_Node (ended now st q t) = tok_Node t"
  "tok_Status (ended now st q t) = st" "tok_Outcome (ended now st q t) = tok_Outcome t"
  by (simp_all add: ended_def)

lemma endToken_tokens:
  "run_tokens (endToken r t st q) = replaceBy tok_ID (ended (run_now r) st q t) (run_tokens r)"
  by (simp add: endToken_def ended_def putToken_def)

lemma replaceBy_map:
  assumes "distinct (map tok_ID ts)" and "t \<in> set ts"
  shows "replaceBy tok_ID (ended now st q t) ts =
    map (\<lambda>x. if tok_ID x = tok_ID t then ended now st q x else x) ts"
proof -
  have "x = t" if "x \<in> set ts" "tok_ID x = tok_ID t" for x
    using assms that by (auto simp: distinct_map dest: inj_onD)
  then show ?thesis by (auto simp: replaceBy_def)
qed

text \<open>
  A token map that ends some of the tokens and leaves the others alone. Every change to the
  tokens of a round is one.
\<close>

definition endsTokens :: "(Token \<Rightarrow> Token) \<Rightarrow> TokenStatus \<Rightarrow> uuid set \<Rightarrow> bool" where
  "endsTokens f st ids \<longleftrightarrow> (\<forall>t. if tok_ID t \<in> ids then \<exists>now q. f t = ended now st q t else f t = t)"

lemma endsTokens_simps:
  assumes "endsTokens f st ids"
  shows "tok_ID (f t) = tok_ID t" and "tok_ScopeID (f t) = tok_ScopeID t" and "tok_Node (f t) = tok_Node t"
    and "tok_Outcome (f t) = tok_Outcome t"
    and "tok_Status (f t) = (if tok_ID t \<in> ids then st else tok_Status t)"
    and "tok_ID t \<notin> ids \<Longrightarrow> f t = t"
proof -
  have c: "if tok_ID t \<in> ids then \<exists>now q. f t = ended now st q t else f t = t"
    using assms unfolding endsTokens_def by blast
  then show "tok_ID (f t) = tok_ID t" "tok_ScopeID (f t) = tok_ScopeID t" "tok_Node (f t) = tok_Node t"
    "tok_Outcome (f t) = tok_Outcome t"
    "tok_Status (f t) = (if tok_ID t \<in> ids then st else tok_Status t)"
    "tok_ID t \<notin> ids \<Longrightarrow> f t = t"
    by (cases "tok_ID t \<in> ids"; force)+
qed

lemma endsTokens_id: "endsTokens (\<lambda>t. t) st {}"
  by (simp add: endsTokens_def)

lemma endsTokens_step:
  assumes "endsTokens f st ids" and "uid \<notin> ids"
  shows "endsTokens (\<lambda>x. f (if tok_ID x = uid then ended now st q x else x)) st (insert uid ids)"
  using assms by (auto simp: endsTokens_def)

lemma cancelPending_tokens:
  assumes "cancelPending bo reason ps r rep bs = Inr (r', bs')"
    and "distinct (map tok_ID (run_tokens r))" and "distinct (map tok_ID ps)"
  shows "\<exists>f. endsTokens f TokenCancelled (tok_ID ` set ps) \<and> run_tokens r' = map f (run_tokens r)"
  using assms
proof (induction bo reason ps r rep bs rule: cancelPending.induct)
  case (1 bo reason r rep bs)
  then show ?case using endsTokens_id by fastforce
next
  case (2 bo reason p ps r rep bs)
  then obtain t where t: "run_token r (tok_ID p) = Some t" by (auto split: option.splits)
  then have tm: "t \<in> set (run_tokens r)" and tid: "tok_ID t = tok_ID p"
    by (auto simp: run_token_def dest: lookupBy_Some_mem)
  define r1 where "r1 = endToken (emit r ((tokenEvent EventTokenCancelled (tok_ID t) (tok_ScopeID t)
      (tok_Node t) (tok_Node t))\<lparr>ev_Detail := DetailCancel reason\<rparr>)) t TokenCancelled (nextSeq r)"
  let ?g = "\<lambda>x. if tok_ID x = tok_ID p then ended (run_now r) TokenCancelled (nextSeq r) x else x"
  have r1: "run_tokens r1 = map ?g (run_tokens r)"
    using replaceBy_map [OF 2(5) tm] by (simp add: r1_def endToken_tokens tid)
  have d1: "distinct (map tok_ID (run_tokens r1))"
  proof -
    have "map tok_ID (run_tokens r1) = map tok_ID (run_tokens r)" by (simp add: r1)
    with 2(5) show ?thesis by simp
  qed
  have "\<exists>rep' bs'' . cancelPending bo reason ps r1 rep' bs'' = Inr (r', bs')"
    using 2(4) t by (auto simp: Let_def r1_def split: option.splits if_splits)
  then have "\<exists>f. endsTokens f TokenCancelled (tok_ID ` set ps) \<and> run_tokens r' = map f (run_tokens r1)"
    using "2.IH" t d1 2(6) 2(4) by (auto simp: Let_def r1_def split: option.splits if_splits)
  then obtain f where f: "endsTokens f TokenCancelled (tok_ID ` set ps)" "run_tokens r' = map f (run_tokens r1)"
    by blast
  have "tok_ID p \<notin> tok_ID ` set ps" using 2(6) by simp
  from endsTokens_step [OF f(1) this, of "run_now r" "nextSeq r"] f(2) r1
  show ?case by (intro exI [of _ "\<lambda>x. f (?g x)"]) (simp add: comp_def)
qed

lemma consumeAll_tokens:
  assumes "consumeAll ids q r dn = Inr (r', dn')"
    and "distinct (map tok_ID (run_tokens r))" and "distinct ids"
  shows "\<exists>f. endsTokens f TokenConsumed (set ids) \<and> run_tokens r' = map f (run_tokens r)"
  using assms
proof (induction ids q r dn rule: consumeAll.induct)
  case (1 q r dn)
  then show ?case using endsTokens_id by fastforce
next
  case (2 uid uids q r dn)
  then obtain t where t: "run_token r uid = Some t" by (auto split: option.splits)
  then have tm: "t \<in> set (run_tokens r)" and tid: "tok_ID t = uid"
    by (auto simp: run_token_def dest: lookupBy_Some_mem)
  define r1 where "r1 = endToken r t TokenConsumed q"
  let ?g = "\<lambda>x. if tok_ID x = uid then ended (run_now r) TokenConsumed q x else x"
  have r1: "run_tokens r1 = map ?g (run_tokens r)"
    using replaceBy_map [OF 2(3) tm] by (simp add: r1_def endToken_tokens tid)
  have d1: "distinct (map tok_ID (run_tokens r1))"
  proof -
    have "map tok_ID (run_tokens r1) = map tok_ID (run_tokens r)" by (simp add: r1)
    with 2(3) show ?thesis by simp
  qed
  have "\<exists>f. endsTokens f TokenConsumed (set uids) \<and> run_tokens r' = map f (run_tokens r1)"
    using "2.IH" [OF t _ _ _ d1 [unfolded r1_def]] 2(2,4) t
    by (auto simp: Let_def r1_def split: option.splits)
  then obtain f where f: "endsTokens f TokenConsumed (set uids)" "run_tokens r' = map f (run_tokens r1)"
    by blast
  have "uid \<notin> set uids" using 2(4) by simp
  from endsTokens_step [OF f(1) this, of "run_now r" q] f(2) r1
  show ?case by (intro exI [of _ "\<lambda>x. f (?g x)"]) (simp add: comp_def)
qed

section \<open>The tally\<close>

lemma tallyTokens_Inr:
  assumes "tallyTokens policy sid ts w ty = Inr (w', ty')"
  shows "w' = w @ filter (\<lambda>t. tok_ScopeID t = sid \<and> tok_Status t = TokenWaiting) ts"
    and "t_cancelled ty' = t_cancelled ty + countIf (\<lambda>t. tok_ScopeID t = sid \<and> tok_Status t = TokenCancelled) ts"
    and "t_approved ty' = t_approved ty +
      countIf (\<lambda>t. tok_ScopeID t = sid \<and> tok_Status t = TokenWaiting \<and> tok_Outcome t = OutcomeApproved) ts"
    and "t_rejected ty' = t_rejected ty +
      countIf (\<lambda>t. tok_ScopeID t = sid \<and> tok_Status t = TokenWaiting \<and> tok_Outcome t = OutcomeRejected) ts"
    and "t_expected ty' = t_expected ty"
    and "policy \<noteq> JoinPolicyNone \<Longrightarrow> \<forall>t \<in> set ts. tok_ScopeID t = sid \<and> tok_Status t = TokenWaiting \<longrightarrow>
      tok_Outcome t \<in> {OutcomeApproved, OutcomeRejected}"
proof -
  have "w' = w @ filter (\<lambda>t. tok_ScopeID t = sid \<and> tok_Status t = TokenWaiting) ts \<and>
    t_cancelled ty' = t_cancelled ty + countIf (\<lambda>t. tok_ScopeID t = sid \<and> tok_Status t = TokenCancelled) ts \<and>
    t_approved ty' = t_approved ty +
      countIf (\<lambda>t. tok_ScopeID t = sid \<and> tok_Status t = TokenWaiting \<and> tok_Outcome t = OutcomeApproved) ts \<and>
    t_rejected ty' = t_rejected ty +
      countIf (\<lambda>t. tok_ScopeID t = sid \<and> tok_Status t = TokenWaiting \<and> tok_Outcome t = OutcomeRejected) ts \<and>
    t_expected ty' = t_expected ty \<and>
    (policy \<noteq> JoinPolicyNone \<longrightarrow> (\<forall>t \<in> set ts. tok_ScopeID t = sid \<and> tok_Status t = TokenWaiting \<longrightarrow>
      tok_Outcome t \<in> {OutcomeApproved, OutcomeRejected}))"
    using assms
  proof (induction ts arbitrary: w ty)
    case (Cons t ts)
    show ?case
    proof (cases "tok_ScopeID t = sid")
      case False
      with Cons.prems Cons.IH [of w ty] show ?thesis by simp
    next
      case sid: True
      show ?thesis
      proof (cases "tok_Status t")
        case TokenWaiting
        then show ?thesis
          using Cons.prems sid Cons.IH [of "w @ [t]" "ty\<lparr>t_approved := t_approved ty + 1\<rparr>"]
            Cons.IH [of "w @ [t]" "ty\<lparr>t_rejected := t_rejected ty + 1\<rparr>"] Cons.IH [of "w @ [t]" ty]
          by (cases "tok_Outcome t") (auto split: if_splits)
      next
        case TokenCancelled
        then show ?thesis
          using Cons.prems sid Cons.IH [of w "ty\<lparr>t_cancelled := t_cancelled ty + 1\<rparr>"] by simp
      qed (use Cons.prems sid Cons.IH [of w ty] in simp_all)
    qed
  qed simp
  then show "w' = w @ filter (\<lambda>t. tok_ScopeID t = sid \<and> tok_Status t = TokenWaiting) ts"
    and "t_cancelled ty' = t_cancelled ty + countIf (\<lambda>t. tok_ScopeID t = sid \<and> tok_Status t = TokenCancelled) ts"
    and "t_approved ty' = t_approved ty +
      countIf (\<lambda>t. tok_ScopeID t = sid \<and> tok_Status t = TokenWaiting \<and> tok_Outcome t = OutcomeApproved) ts"
    and "t_rejected ty' = t_rejected ty +
      countIf (\<lambda>t. tok_ScopeID t = sid \<and> tok_Status t = TokenWaiting \<and> tok_Outcome t = OutcomeRejected) ts"
    and "t_expected ty' = t_expected ty"
    and "policy \<noteq> JoinPolicyNone \<Longrightarrow> \<forall>t \<in> set ts. tok_ScopeID t = sid \<and> tok_Status t = TokenWaiting \<longrightarrow>
      tok_Outcome t \<in> {OutcomeApproved, OutcomeRejected}"
    by blast+
qed

section \<open>The scopes below a scope\<close>

lemma childOnPath_mono:
  "childOnPath f r s a = Some c \<Longrightarrow> f \<le> f' \<Longrightarrow> childOnPath f' r s a = Some c"
proof (induction f arbitrary: s f')
  case (Suc f)
  then obtain g where f': "f' = Suc g" and "f \<le> g" by (cases f') auto
  with Suc show ?case by (auto split: if_splits option.splits)
qed simp

lemma run_scope_Some: "run_scope r u = Some s \<Longrightarrow> s \<in> set (run_scopes r) \<and> sc_ID s = u"
  by (auto simp: run_scope_def dest: lookupBy_Some_mem)

lemma run_scope_mem:
  "distinct (map sc_ID (run_scopes r)) \<Longrightarrow> s \<in> set (run_scopes r) \<Longrightarrow> run_scope r (sc_ID s) = Some s"
  by (auto simp: run_scope_def intro: lookupBy_mem)

text \<open>Parents open before their children: what makes the walk to an ancestor end.\<close>

definition parentsBefore :: "caseRun \<Rightarrow> bool" where
  "parentsBefore r \<longleftrightarrow> distinct (map sc_ID (run_scopes r)) \<and>
     (\<forall>s \<in> set (run_scopes r). \<forall>p. sc_ParentID s = Some p \<longrightarrow>
        (\<exists>q \<in> set (run_scopes r). sc_ID q = p \<and> sc_OpenedSeq q < sc_OpenedSeq s))"

lemma childOnPath_fuel:
  assumes pb: "parentsBefore r" and some: "childOnPath f r s a = Some c" and s: "s \<in> set (run_scopes r)"
  shows "childOnPath (length (run_scopes r)) r s a = Some c"
proof -
  let ?below = "\<lambda>s. card {q \<in> set (run_scopes r). sc_OpenedSeq q \<le> sc_OpenedSeq s}"
  have "childOnPath (?below s) r s a = Some c"
    using some s
  proof (induction f arbitrary: s)
    case (Suc f)
    have "s \<in> {q \<in> set (run_scopes r). sc_OpenedSeq q \<le> sc_OpenedSeq s}" using Suc.prems by simp
    then have "0 < ?below s" by (auto simp: card_gt_0_iff)
    then obtain n where n: "?below s = Suc n" by (cases "?below s") auto
    show ?case
    proof (cases "sc_ParentID s")
      case (Some p)
      then obtain q where q: "q \<in> set (run_scopes r)" "sc_ID q = p" "sc_OpenedSeq q < sc_OpenedSeq s"
        using pb Suc.prems(2) unfolding parentsBefore_def by blast
      have rq: "run_scope r p = Some q"
        using run_scope_mem [of r q] pb q by (simp add: parentsBefore_def)
      have "{x \<in> set (run_scopes r). sc_OpenedSeq x \<le> sc_OpenedSeq q} \<subset>
          {x \<in> set (run_scopes r). sc_OpenedSeq x \<le> sc_OpenedSeq s}"
        using q Suc.prems(2) by force
      then have "?below q < ?below s" by (intro psubset_card_mono) auto
      then have "?below q \<le> n" using n by simp
      have op: "sc_Status s = ScopeOpen" using Suc.prems(1) by (simp split: if_splits)
      show ?thesis
      proof (cases "p = a")
        case True
        with Suc.prems(1) Some op show ?thesis unfolding n by simp
      next
        case False
        with Suc.prems(1) Some op rq have "childOnPath f r q a = Some c" by simp
        from childOnPath_mono [OF Suc.IH [OF this q(1)] \<open>?below q \<le> n\<close>]
        show ?thesis using False Some op rq unfolding n by simp
      qed
    qed (use Suc.prems in \<open>simp split: if_splits\<close>)
  qed simp
  moreover have "?below s \<le> length (run_scopes r)"
    by (rule order_trans [OF card_mono card_length]) auto
  ultimately show ?thesis by (rule childOnPath_mono)
qed

text \<open>The open scopes strictly inside scope sid, as closeBranches collects them.\<close>

definition nestedIDs :: "caseRun \<Rightarrow> uuid \<Rightarrow> uuid set" where
  "nestedIDs r sid = sc_ID ` set (map fst (nestedScopes r sid))"

lemma nestedScopes_mem:
  "(s, c) \<in> set (nestedScopes r sid) \<longleftrightarrow> s \<in> set (run_scopes r) \<and> sc_Status s = ScopeOpen \<and>
     (\<exists>ch. childOnPath (length (run_scopes r)) r s sid = Some ch \<and> c = sc_ID ch)"
  unfolding nestedScopes_def
  by (simp add: image_iff Bex_def eq_commute [of "Some _"] split: option.splits) blast

lemma nestedIDs_iff:
  assumes "distinct (map sc_ID (run_scopes r))" and "s \<in> set (run_scopes r)"
  shows "sc_ID s \<in> nestedIDs r sid \<longleftrightarrow> sc_Status s = ScopeOpen \<and>
    childOnPath (length (run_scopes r)) r s sid \<noteq> None"
proof
  assume "sc_ID s \<in> nestedIDs r sid"
  then obtain x c where x: "(x, c) \<in> set (nestedScopes r sid)" and sx: "sc_ID s = sc_ID x"
    unfolding nestedIDs_def by force
  from x have "x \<in> set (run_scopes r)" by (simp add: nestedScopes_mem)
  with assms sx have "x = s" by (metis distinct_map inj_onD)
  with x show "sc_Status s = ScopeOpen \<and> childOnPath (length (run_scopes r)) r s sid \<noteq> None"
    by (auto simp: nestedScopes_mem)
next
  assume "sc_Status s = ScopeOpen \<and> childOnPath (length (run_scopes r)) r s sid \<noteq> None"
  with assms(2) obtain c where "(s, c) \<in> set (nestedScopes r sid)" by (auto simp: nestedScopes_mem)
  then show "sc_ID s \<in> nestedIDs r sid" unfolding nestedIDs_def by force
qed

lemma nestedIDs_scope: "u \<in> nestedIDs r sid \<Longrightarrow> \<exists>s \<in> set (run_scopes r). sc_ID s = u \<and> sc_Status s = ScopeOpen"
  by (auto simp: nestedIDs_def nestedScopes_mem)

text \<open>An open scope is inside sid exactly when its parent is sid or is inside sid.\<close>

lemma nestedIDs_step:
  assumes pb: "parentsBefore r" and s: "s \<in> set (run_scopes r)" "sc_Status s = ScopeOpen" "sc_ParentID s = Some p"
  shows "sc_ID s \<in> nestedIDs r sid \<longleftrightarrow> p = sid \<or> p \<in> nestedIDs r sid"
proof -
  have dist: "distinct (map sc_ID (run_scopes r))" using pb by (simp add: parentsBefore_def)
  obtain q where q: "q \<in> set (run_scopes r)" "sc_ID q = p" using pb s unfolding parentsBefore_def by blast
  have rq: "run_scope r p = Some q" using run_scope_mem [OF dist q(1)] q(2) by simp
  obtain n where n: "length (run_scopes r) = Suc n" using s(1) by (cases "run_scopes r") auto
  have walk: "childOnPath (Suc f) r s sid = (if p = sid then Some s else childOnPath f r q sid)" for f
    using s rq by simp
  have openq: "childOnPath (Suc n) r q sid \<noteq> None \<Longrightarrow> sc_Status q = ScopeOpen"
    by (auto split: if_splits)
  have "childOnPath (Suc n) r s sid \<noteq> None \<longleftrightarrow> p = sid \<or> childOnPath (Suc n) r q sid \<noteq> None"
  proof
    assume "childOnPath (Suc n) r s sid \<noteq> None"
    then show "p = sid \<or> childOnPath (Suc n) r q sid \<noteq> None"
      unfolding walk using childOnPath_mono [of n r q sid _ "Suc n"]
      by (metis le_SucI not_None_eq order_refl)
  next
    assume "p = sid \<or> childOnPath (Suc n) r q sid \<noteq> None"
    then have "childOnPath (Suc (Suc n)) r s sid \<noteq> None" unfolding walk [of "Suc n"] by (metis option.distinct(1))
    then obtain c where "childOnPath (Suc (Suc n)) r s sid = Some c" by blast
    from childOnPath_fuel [OF pb this s(1)] n show "childOnPath (Suc n) r s sid \<noteq> None" by simp
  qed
  with openq show ?thesis
    unfolding nestedIDs_iff [OF dist s(1)] nestedIDs_iff [OF dist q(1), unfolded q(2)] n using s(2) by blast
qed

lemma nestedIDs_root: "s \<in> set (run_scopes r) \<Longrightarrow> distinct (map sc_ID (run_scopes r)) \<Longrightarrow> sc_ParentID s = None \<Longrightarrow>
    sc_ID s \<notin> nestedIDs r sid"
  using nestedIDs_iff [of r s sid] by (cases "length (run_scopes r)") auto

end
