(* ===== verification/Scope_Tree.thy ===== *)
theory Scope_Tree
  imports Join_Facts "HOL-Library.Multiset"
begin

text \<open>
  The tree of scopes and the tokens in it, as an invariant on a list of scopes and a list of
  tokens, and how the changes of a run act on it: a token that only moves, a token that arrives
  at its join, a split, a join, and the end of the root scope. The changes are stated on the
  lists, so the same lemmas serve every operation of the engine.
\<close>

section \<open>The invariant\<close>

definition openScope :: "Scope \<Rightarrow> bool" where
  "openScope s \<longleftrightarrow> sc_Status s = ScopeOpen"

definition openChild :: "uuid \<Rightarrow> Scope \<Rightarrow> bool" where
  "openChild u q \<longleftrightarrow> sc_ParentID q = Some u \<and> openScope q"

definition inScope :: "uuid \<Rightarrow> Token \<Rightarrow> bool" where
  "inScope u t \<longleftrightarrow> tok_ScopeID t = u \<and> tok_Status t \<noteq> TokenConsumed"

definition activeIn :: "uuid \<Rightarrow> Token \<Rightarrow> bool" where
  "activeIn u t \<longleftrightarrow> tok_ScopeID t = u \<and> tok_Status t = TokenActive"

text \<open>The shape: one root, parents open before and close after their children.\<close>

definition treeShape :: "uuid \<Rightarrow> int \<Rightarrow> Scope list \<Rightarrow> bool" where
  "treeShape cid seq ss \<longleftrightarrow> distinct (map sc_ID ss) \<and>
     (\<forall>s \<in> set ss. sc_ParentID s = None \<longleftrightarrow> sc_ID s = cid) \<and>
     (\<exists>s \<in> set ss. sc_ID s = cid) \<and>
     (\<forall>s \<in> set ss. sc_OpenedSeq s < seq) \<and>
     (\<forall>s \<in> set ss. \<forall>p. sc_ParentID s = Some p \<longrightarrow>
        (\<exists>q \<in> set ss. sc_ID q = p \<and> sc_OpenedSeq q < sc_OpenedSeq s \<and> (openScope s \<longrightarrow> openScope q)))"

text \<open>Every token is in a scope, and a live token is in an open one.\<close>

definition tokensPlaced :: "Scope list \<Rightarrow> Token list \<Rightarrow> bool" where
  "tokensPlaced ss A \<longleftrightarrow> distinct (map tok_ID A) \<and>
     (\<forall>t \<in> set A. \<exists>s \<in> set ss. sc_ID s = tok_ScopeID t \<and> (Live (tok_Status t) \<longrightarrow> openScope s))"

text \<open>
  Expected counts the branches of an open scope: its tokens that no split or join consumed, and
  its open child scopes, each of which stands for the branch it was split from.
\<close>

definition branchCount :: "Scope list \<Rightarrow> Token list \<Rightarrow> uuid \<Rightarrow> nat" where
  "branchCount ss A u = countIf (inScope u) A + countIf (openChild u) ss"

definition counted :: "Scope list \<Rightarrow> Token list \<Rightarrow> bool" where
  "counted ss A \<longleftrightarrow> (\<forall>s \<in> set ss. openScope s \<longrightarrow> sc_Expected s = int (branchCount ss A (sc_ID s)))"

text \<open>An open scope outside X has work left: an active token or an open child.\<close>

definition alive :: "uuid set \<Rightarrow> Scope list \<Rightarrow> Token list \<Rightarrow> bool" where
  "alive X ss A \<longleftrightarrow> (\<forall>s \<in> set ss. openScope s \<longrightarrow> sc_ID s \<notin> X \<longrightarrow>
     (\<exists>t \<in> set A. activeIn (sc_ID s) t) \<or> (\<exists>q \<in> set ss. openChild (sc_ID s) q))"

definition treeInv :: "uuid set \<Rightarrow> uuid \<Rightarrow> int \<Rightarrow> Scope list \<Rightarrow> Token list \<Rightarrow> bool" where
  "treeInv X cid seq ss A \<longleftrightarrow> treeShape cid seq ss \<and> tokensPlaced ss A \<and> counted ss A \<and> alive X ss A"

lemma treeInvI:
  "treeShape cid seq ss \<Longrightarrow> tokensPlaced ss A \<Longrightarrow> counted ss A \<Longrightarrow> alive X ss A \<Longrightarrow> treeInv X cid seq ss A"
  by (simp add: treeInv_def)

lemma treeInvD:
  assumes "treeInv X cid seq ss A"
  shows "treeShape cid seq ss" and "tokensPlaced ss A" and "counted ss A" and "alive X ss A"
  using assms by (simp_all add: treeInv_def)

section \<open>The shape\<close>

lemma treeShape_mono: "treeShape cid seq ss \<Longrightarrow> seq \<le> seq' \<Longrightarrow> treeShape cid seq' ss"
  unfolding treeShape_def by (meson order_less_le_trans)

lemma treeShape_distinct: "treeShape cid seq ss \<Longrightarrow> distinct (map sc_ID ss)"
  by (simp add: treeShape_def)

lemma treeShape_eq:
  assumes "treeShape cid seq ss" and "s \<in> set ss" and "q \<in> set ss" and "sc_ID s = sc_ID q"
  shows "s = q"
  using assms by (auto simp: treeShape_def distinct_map dest: inj_onD)

lemma treeShape_root:
  assumes "treeShape cid seq ss"
  obtains s where "s \<in> set ss" and "sc_ID s = cid" and "sc_ParentID s = None"
  using assms unfolding treeShape_def by metis

lemma treeShape_parent:
  assumes "treeShape cid seq ss" and "s \<in> set ss" and "sc_ParentID s = Some p"
  obtains q where "q \<in> set ss" and "sc_ID q = p" and "sc_OpenedSeq q < sc_OpenedSeq s"
    and "openScope s \<Longrightarrow> openScope q"
  using assms unfolding treeShape_def by meson

lemma treeShape_parentsBefore: "treeShape cid seq (run_scopes r) \<Longrightarrow> parentsBefore r"
  unfolding treeShape_def parentsBefore_def by meson

text \<open>Induction from the root down.\<close>

lemma treeShape_induct [consumes 2, case_names scope]:
  assumes shape: "treeShape cid seq ss" and s: "s \<in> set ss"
    and step: "\<And>s. s \<in> set ss \<Longrightarrow> (\<And>q. q \<in> set ss \<Longrightarrow> sc_ParentID s = Some (sc_ID q) \<Longrightarrow> P q) \<Longrightarrow> P s"
  shows "P s"
  using s
proof (induction "card {q \<in> set ss. sc_OpenedSeq q < sc_OpenedSeq s}" arbitrary: s rule: less_induct)
  case less
  show ?case
  proof (rule step [OF less.prems])
    fix q assume q: "q \<in> set ss" "sc_ParentID s = Some (sc_ID q)"
    obtain q' where q': "q' \<in> set ss" "sc_ID q' = sc_ID q" "sc_OpenedSeq q' < sc_OpenedSeq s"
      by (rule treeShape_parent [OF shape less.prems q(2)])
    with treeShape_eq [OF shape] q have lt: "sc_OpenedSeq q < sc_OpenedSeq s" by metis
    have "q \<in> {x \<in> set ss. sc_OpenedSeq x < sc_OpenedSeq s} - {x \<in> set ss. sc_OpenedSeq x < sc_OpenedSeq q}"
      using q lt by simp
    then have "{x \<in> set ss. sc_OpenedSeq x < sc_OpenedSeq q} \<subset> {x \<in> set ss. sc_OpenedSeq x < sc_OpenedSeq s}"
      using lt by fastforce
    then show "P q" by (intro less.hyps psubset_card_mono q(1)) simp_all
  qed
qed

lemma treeShape_root_only:
  assumes shape: "treeShape cid seq ss" and none: "\<And>q. q \<in> set ss \<Longrightarrow> \<not> openChild cid q"
    and s: "s \<in> set ss" and "openScope s"
  shows "sc_ID s = cid"
  using shape s \<open>openScope s\<close>
proof (induction rule: treeShape_induct)
  case (scope s)
  show ?case
  proof (cases "sc_ParentID s")
    case None
    with shape scope.hyps show ?thesis by (auto simp: treeShape_def)
  next
    case (Some p)
    then obtain q where q: "q \<in> set ss" "sc_ID q = p" "openScope q"
      using treeShape_parent [OF shape scope.hyps] scope.prems by metis
    with scope.IH Some have "p = cid" by blast
    with none [OF scope.hyps] Some scope.prems show ?thesis by (simp add: openChild_def)
  qed
qed

lemma treeShape_root_open:
  assumes shape: "treeShape cid seq ss" and s: "s \<in> set ss" and "openScope s"
  shows "\<exists>r \<in> set ss. sc_ID r = cid \<and> openScope r"
  using shape s \<open>openScope s\<close>
proof (induction rule: treeShape_induct)
  case (scope s)
  show ?case
  proof (cases "sc_ParentID s")
    case None
    with shape scope.hyps scope.prems show ?thesis by (auto simp: treeShape_def)
  next
    case (Some p)
    then obtain q where "q \<in> set ss" "sc_ID q = p" "openScope q"
      using treeShape_parent [OF shape scope.hyps] scope.prems by metis
    with scope.IH Some show ?thesis by blast
  qed
qed

text \<open>Changing the status of scopes keeps the shape as long as no open scope loses its parent.\<close>

lemma treeShape_map:
  assumes shape: "treeShape cid seq ss"
    and g: "\<And>s. s \<in> set ss \<Longrightarrow> sc_ID (g s) = sc_ID s \<and> sc_ParentID (g s) = sc_ParentID s \<and> sc_OpenedSeq (g s) = sc_OpenedSeq s"
    and keep: "\<And>s q. s \<in> set ss \<Longrightarrow> q \<in> set ss \<Longrightarrow> openScope (g s) \<Longrightarrow> sc_ParentID s = Some (sc_ID q) \<Longrightarrow>
      openScope s \<and> openScope q \<Longrightarrow> openScope (g q)"
    and reopen: "\<And>s. s \<in> set ss \<Longrightarrow> openScope (g s) \<Longrightarrow> openScope s"
  shows "treeShape cid seq (map g ss)"
proof -
  have ids: "map sc_ID (map g ss) = map sc_ID ss" using g by simp
  have root: "\<exists>s \<in> set (map g ss). sc_ID s = cid" using g treeShape_root [OF shape] by (metis image_eqI set_map)
  have parents: "\<exists>q \<in> set (map g ss). sc_ID q = p \<and> sc_OpenedSeq q < sc_OpenedSeq (g s) \<and> (openScope (g s) \<longrightarrow> openScope q)"
    if s: "s \<in> set ss" "sc_ParentID (g s) = Some p" for s p
  proof -
    have "sc_ParentID s = Some p" using g s by simp
    then obtain q where q: "q \<in> set ss" "sc_ID q = p" "sc_OpenedSeq q < sc_OpenedSeq s" "openScope s \<Longrightarrow> openScope q"
      using treeShape_parent [OF shape s(1)] by metis
    have "openScope (g q)" if "openScope (g s)"
      using keep [OF s(1) q(1) that] reopen [OF s(1) that] q(2,4) \<open>sc_ParentID s = Some p\<close> by simp
    with g [OF q(1)] g [OF s(1)] q show ?thesis by (intro bexI [of _ "g q"]) auto
  qed
  have "distinct (map sc_ID (map g ss))" unfolding ids by (rule treeShape_distinct [OF shape])
  then show ?thesis
    unfolding treeShape_def using shape g root parents by (auto simp: treeShape_def)
qed

section \<open>Tokens that keep their place\<close>

text \<open>The invariant reads a token's ID, scope and status, and not its place in the list.\<close>

definition samePlace :: "Token \<Rightarrow> Token \<Rightarrow> bool" where
  "samePlace t t' \<longleftrightarrow> tok_ID t' = tok_ID t \<and> tok_ScopeID t' = tok_ScopeID t \<and> tok_Status t' = tok_Status t"

lemma countIf_mset: "mset xs = mset ys \<Longrightarrow> countIf P xs = countIf P ys"
proof -
  assume "mset xs = mset ys"
  then have "mset (filter P xs) = mset (filter P ys)" by simp
  then show ?thesis unfolding countIf_def by (rule mset_eq_length)
qed

lemma treeInv_perm:
  assumes "mset A = mset A'"
  shows "treeInv X cid seq ss A = treeInv X cid seq ss A'"
proof -
  have "set A = set A'" using assms by (metis set_mset_mset)
  moreover have "distinct (map tok_ID A) = distinct (map tok_ID A')"
    by (rule mset_eq_imp_distinct_iff) (simp add: assms)
  moreover have "countIf (inScope u) A = countIf (inScope u) A'" for u by (rule countIf_mset [OF assms])
  ultimately show ?thesis
    unfolding treeInv_def tokensPlaced_def counted_def alive_def branchCount_def by (simp only:)
qed

lemma countIf_map_same: "(\<And>x. x \<in> set xs \<Longrightarrow> P (f x) = P x) \<Longrightarrow> countIf P (map f xs) = countIf P xs"
  unfolding countIf_map by (rule countIf_cong) simp

lemma treeInv_same:
  assumes inv: "treeInv X cid seq ss A" and f: "\<And>t. t \<in> set A \<Longrightarrow> samePlace t (f t)"
  shows "treeInv X cid seq ss (map f A)"
proof -
  have ids: "map tok_ID (map f A) = map tok_ID A" using f by (simp add: samePlace_def)
  have "countIf (inScope u) (map f A) = countIf (inScope u) A" for u
    using f by (intro countIf_map_same) (simp add: inScope_def samePlace_def)
  then have cnt: "counted ss (map f A)"
    using treeInvD(3) [OF inv] by (simp add: counted_def branchCount_def)
  have "distinct (map tok_ID (map f A))"
    unfolding ids using treeInvD(2) [OF inv] by (simp add: tokensPlaced_def)
  then have placed: "tokensPlaced ss (map f A)"
    using treeInvD(2) [OF inv] f unfolding tokensPlaced_def samePlace_def by auto
  have "alive X ss (map f A)"
    using treeInvD(4) [OF inv] f unfolding alive_def activeIn_def samePlace_def by fastforce
  with cnt placed treeInvD(1) [OF inv] show ?thesis by (simp add: treeInv_def)
qed

lemma treeInv_seq: "treeInv X cid seq ss A \<Longrightarrow> seq \<le> seq' \<Longrightarrow> treeInv X cid seq' ss A"
  unfolding treeInv_def using treeShape_mono by blast

lemma treeInv_exempt: "treeInv X cid seq ss A \<Longrightarrow> X \<subseteq> Y \<Longrightarrow> treeInv Y cid seq ss A"
  unfolding treeInv_def alive_def by blast

section \<open>A token that leaves the active ones\<close>

text \<open>
  An active token that starts waiting at its join, or is cancelled, still counts; only its own
  scope may have run out of work.
\<close>

lemma treeInv_quiet:
  assumes inv: "treeInv X cid seq ss A" and t: "t \<in> set A" "tok_Status t = TokenActive"
    and t': "tok_ID t' = tok_ID t" "tok_ScopeID t' = tok_ScopeID t"
      "tok_Status t' = TokenWaiting \<or> tok_Status t' = TokenCancelled"
  shows "treeInv (insert (tok_ScopeID t) X) cid seq ss (replaceBy tok_ID t' A)"
proof -
  have dist: "distinct (map tok_ID A)" using treeInvD(2) [OF inv] by (simp add: tokensPlaced_def)
  have set': "set (replaceBy tok_ID t' A) = insert t' {x \<in> set A. tok_ID x \<noteq> tok_ID t}"
    using set_replaceBy [of tok_ID t' A] t t' by simp
  have "countIf (inScope u) (replaceBy tok_ID t' A) = countIf (inScope u) A" for u
    using countIf_replaceBy [OF dist t(1), of t' "inScope u"] t t' by (auto simp: inScope_def split: if_splits)
  then have cnt: "counted ss (replaceBy tok_ID t' A)"
    using treeInvD(3) [OF inv] by (simp add: counted_def branchCount_def)
  obtain s where s: "s \<in> set ss" "sc_ID s = tok_ScopeID t" "openScope s"
    using treeInvD(2) [OF inv] t by (auto simp: tokensPlaced_def Live_def)
  have placed: "tokensPlaced ss (replaceBy tok_ID t' A)"
    using treeInvD(2) [OF inv] dist s t' unfolding tokensPlaced_def set' by auto
  have eq: "x = t" if "x \<in> set A" "tok_ID x = tok_ID t" for x
    using that t dist by (auto simp: distinct_map dest: inj_onD)
  have "alive (insert (tok_ScopeID t) X) ss (replaceBy tok_ID t' A)"
    unfolding alive_def
  proof (intro ballI impI)
    fix q assume q: "q \<in> set ss" "openScope q" "sc_ID q \<notin> insert (tok_ScopeID t) X"
    then consider x where "x \<in> set A" "activeIn (sc_ID q) x" | "\<exists>y \<in> set ss. openChild (sc_ID q) y"
      using treeInvD(4) [OF inv] unfolding alive_def by blast
    then show "(\<exists>x \<in> set (replaceBy tok_ID t' A). activeIn (sc_ID q) x) \<or> (\<exists>y \<in> set ss. openChild (sc_ID q) y)"
    proof cases
      case (1 x)
      then have "tok_ID x \<noteq> tok_ID t" using eq [of x] q(3) by (auto simp: activeIn_def)
      with 1 set' show ?thesis by blast
    qed blast
  qed
  with cnt placed treeInvD(1) [OF inv] show ?thesis by (simp add: treeInv_def)
qed

text \<open>A scope with an active token or an open child needs no exemption.\<close>

lemma treeInv_settle:
  assumes inv: "treeInv (insert u X) cid seq ss A"
    and work: "(\<exists>t \<in> set A. activeIn u t) \<or> (\<exists>q \<in> set ss. openChild u q)"
  shows "treeInv X cid seq ss A"
  using assms unfolding treeInv_def alive_def by (metis insert_iff)

lemma branchCount_split:
  assumes "\<forall>t \<in> set A. tok_ScopeID t = u \<longrightarrow> tok_Status t \<in> {TokenActive, TokenWaiting, TokenConsumed, TokenCancelled}"
  shows "branchCount ss A u = countIf (activeIn u) A +
    countIf (\<lambda>t. tok_ScopeID t = u \<and> tok_Status t = TokenWaiting) A +
    countIf (\<lambda>t. tok_ScopeID t = u \<and> tok_Status t = TokenCancelled) A + countIf (openChild u) ss"
proof -
  have "countIf (inScope u) A = countIf (activeIn u) A +
    countIf (\<lambda>t. tok_ScopeID t = u \<and> tok_Status t = TokenWaiting) A +
    countIf (\<lambda>t. tok_ScopeID t = u \<and> tok_Status t = TokenCancelled) A"
    using assms by (induction A) (auto simp: inScope_def activeIn_def)
  then show ?thesis by (simp add: branchCount_def)
qed

section \<open>A split\<close>

text \<open>
  The token t is consumed; the new scope q is a child of its scope and holds one active token for
  each route taken.
\<close>

lemma treeInv_split:
  assumes inv: "treeInv {} cid seq ss A" and t: "t \<in> set A" "tok_Status t = TokenActive"
    and t': "tok_ID t' = tok_ID t" "tok_ScopeID t' = tok_ScopeID t" "tok_Status t' = TokenConsumed"
    and q: "sc_ID q \<notin> sc_ID ` set ss" "sc_ParentID q = Some (tok_ScopeID t)" "sc_OpenedSeq q = seq"
      "openScope q" "sc_Expected q = int (length bs)" "bs \<noteq> []"
    and bs: "distinct (map tok_ID bs)" "tok_ID ` set bs \<inter> tok_ID ` set A = {}"
      "\<forall>b \<in> set bs. tok_ScopeID b = sc_ID q \<and> tok_Status b = TokenActive"
  shows "treeInv {} cid (seq + 1) (ss @ [q]) (replaceBy tok_ID t' A @ bs)"
proof -
  note shape = treeInvD(1) [OF inv]
  let ?A = "replaceBy tok_ID t' A"
  have dist: "distinct (map tok_ID A)" using treeInvD(2) [OF inv] by (simp add: tokensPlaced_def)
  have set': "set ?A = insert t' {x \<in> set A. tok_ID x \<noteq> tok_ID t}"
    using set_replaceBy [of tok_ID t' A] t t' by simp
  have eq: "x = t" if "x \<in> set A" "tok_ID x = tok_ID t" for x
    using that t dist by (auto simp: distinct_map dest: inj_onD)
  obtain s where s: "s \<in> set ss" "sc_ID s = tok_ScopeID t" "openScope s"
    using treeInvD(2) [OF inv] t by (auto simp: tokensPlaced_def Live_def)
  have nq: "sc_ID x \<noteq> sc_ID q" if "x \<in> set ss" for x using q(1) imageI [OF that, of sc_ID] by metis
  have np: "sc_ParentID x \<noteq> Some (sc_ID q)" if "x \<in> set ss" for x
    using treeShape_parent [OF shape that] nq by metis
  have qcid: "sc_ID q \<noteq> cid" using q(1) treeShape_root [OF shape] by (metis image_eqI)
  have shape': "treeShape cid (seq + 1) (ss @ [q])"
    using shape q s qcid unfolding treeShape_def by (auto 0 3 simp: less_Suc_eq)
  have placed: "tokensPlaced (ss @ [q]) (?A @ bs)"
  proof -
    have "distinct (map tok_ID (?A @ bs))" using dist bs by auto
    moreover have "\<exists>s \<in> set (ss @ [q]). sc_ID s = tok_ScopeID x \<and> (Live (tok_Status x) \<longrightarrow> openScope s)"
      if "x \<in> set (?A @ bs)" for x
    proof (cases "x \<in> set bs")
      case True
      with bs q show ?thesis by auto
    next
      case False
      with that set' have "x = t' \<or> x \<in> set A" by auto
      then show ?thesis using treeInvD(2) [OF inv] s t' by (auto simp: tokensPlaced_def)
    qed
    ultimately show ?thesis by (simp add: tokensPlaced_def)
  qed
  have cntA: "countIf (inScope u) ?A + (if u = tok_ScopeID t then 1 else 0) = countIf (inScope u) A" for u
    using countIf_replaceBy [OF dist t(1), of t' "inScope u"] t t' by (auto simp: inScope_def split: if_splits)
  have cntB: "countIf (inScope u) bs = (if u = sc_ID q then length bs else 0)" for u
    using bs(3) by (induction bs) (auto simp: inScope_def)
  have cntq: "countIf (openChild u) [q] = (if u = tok_ScopeID t then 1 else 0)" for u
    using q by (simp add: openChild_def)
  have zero: "countIf (inScope (sc_ID q)) A = 0" "countIf (openChild (sc_ID q)) ss = 0"
    using treeInvD(2) [OF inv] nq np by (auto simp: countIf_0 inScope_def openChild_def tokensPlaced_def)
  have "branchCount (ss @ [q]) (?A @ bs) u = (if u = sc_ID q then length bs else branchCount ss A u)" for u
    using cntA [of u] cntB [of u] cntq [of u] zero nq [OF s(1)] s(2)
    by (auto simp: branchCount_def simp del: countIf_Cons split: if_splits)
  then have cnt: "counted (ss @ [q]) (?A @ bs)"
    using treeInvD(3) [OF inv] q nq by (auto simp: counted_def)
  have "alive {} (ss @ [q]) (?A @ bs)"
    unfolding alive_def
  proof (intro ballI impI)
    fix x assume x: "x \<in> set (ss @ [q])" "openScope x"
    consider "x = q" | "x \<in> set ss" "sc_ID x = tok_ScopeID t" | "x \<in> set ss" "sc_ID x \<noteq> tok_ScopeID t"
      using x by auto
    then show "(\<exists>y \<in> set (?A @ bs). activeIn (sc_ID x) y) \<or> (\<exists>y \<in> set (ss @ [q]). openChild (sc_ID x) y)"
    proof cases
      case 1
      with q bs show ?thesis by (cases bs) (auto simp: activeIn_def)
    next
      case 2
      with q show ?thesis by (auto simp: openChild_def)
    next
      case 3
      then consider y where "y \<in> set A" "activeIn (sc_ID x) y" | "\<exists>y \<in> set ss. openChild (sc_ID x) y"
        using treeInvD(4) [OF inv] x unfolding alive_def by blast
      then show ?thesis
      proof cases
        case (1 y)
        with 3 eq [of y] have "tok_ID y \<noteq> tok_ID t" by (auto simp: activeIn_def)
        with 1 set' show ?thesis by auto
      qed auto
    qed
  qed
  with shape' placed cnt show ?thesis by (rule treeInvI)
qed

section \<open>The end of the root scope\<close>

text \<open>The token t of the root scope is consumed: it was the only live one, so the tree ends with it.\<close>

lemma root_alone:
  assumes inv: "treeInv X cid seq ss A" and root: "root \<in> set ss" "sc_ID root = cid" "sc_Expected root = 1"
    and t: "t \<in> set A" "tok_Status t = TokenActive" "tok_ScopeID t = cid"
  shows "\<forall>s \<in> set ss. openScope s \<longrightarrow> sc_ID s = cid" and "\<forall>x \<in> set A. Live (tok_Status x) \<longrightarrow> x = t"
proof -
  note shape = treeInvD(1) [OF inv]
  obtain s where "s \<in> set ss" "sc_ID s = cid" "openScope s"
    using treeInvD(2) [OF inv] t by (auto simp: tokensPlaced_def Live_def)
  with treeShape_eq [OF shape _ root(1)] root(2) have "openScope root" by metis
  with treeInvD(3) [OF inv] root have one: "branchCount ss A cid = 1" by (simp add: counted_def)
  have "0 < countIf (inScope cid) A" using t by (auto simp: countIf_pos inScope_def)
  with one have "countIf (openChild cid) ss = 0" and single: "countIf (inScope cid) A = 1"
    by (auto simp: branchCount_def)
  then have "\<not> openChild cid q" if "q \<in> set ss" for q using that by (auto simp: countIf_0)
  with treeShape_root_only [OF shape] show only: "\<forall>s \<in> set ss. openScope s \<longrightarrow> sc_ID s = cid" by blast
  show "\<forall>x \<in> set A. Live (tok_Status x) \<longrightarrow> x = t"
  proof (intro ballI impI)
    fix x assume x: "x \<in> set A" "Live (tok_Status x)"
    then have "tok_ScopeID x = cid"
      using treeInvD(2) [OF inv] only by (metis tokensPlaced_def)
    then have "x \<in> set (filter (inScope cid) A)" "t \<in> set (filter (inScope cid) A)"
      using x t by (auto simp: inScope_def Live_def)
    moreover obtain y where "filter (inScope cid) A = [y]"
      using single unfolding countIf_def by (metis One_nat_def length_0_conv length_Suc_conv)
    ultimately show "x = t" by simp
  qed
qed

text \<open>With every open scope and every live token ended, nothing is left to count.\<close>

lemma treeInv_ended:
  assumes shape: "treeShape cid seq ss" and placed: "tokensPlaced ss A"
    and g: "\<And>s. s \<in> set ss \<Longrightarrow> sc_ID (g s) = sc_ID s \<and> sc_ParentID (g s) = sc_ParentID s \<and>
      sc_OpenedSeq (g s) = sc_OpenedSeq s \<and> \<not> openScope (g s)"
    and f: "\<And>t. t \<in> set A \<Longrightarrow> tok_ID (f t) = tok_ID t \<and> tok_ScopeID (f t) = tok_ScopeID t \<and>
      \<not> Live (tok_Status (f t))"
  shows "treeInv X cid seq (map g ss) (map f A)"
proof (rule treeInvI)
  show "treeShape cid seq (map g ss)" by (rule treeShape_map [OF shape]) (use g in auto)
  have ids: "map tok_ID (map f A) = map tok_ID A" using f by simp
  then have "distinct (map tok_ID (map f A))" using placed unfolding ids by (simp add: tokensPlaced_def)
  then show "tokensPlaced (map g ss) (map f A)"
    using placed f g unfolding tokensPlaced_def by simp metis
qed (use g in \<open>auto simp: counted_def alive_def\<close>)

section \<open>A join\<close>

text \<open>
  The scope s joins. N are the open scopes below it, which end with it: the waiting tokens of s
  are consumed, what else is live in s or below is cancelled, and a new token continues in the
  parent scope.
\<close>

definition closedUnder :: "Scope list \<Rightarrow> uuid \<Rightarrow> uuid set \<Rightarrow> bool" where
  "closedUnder ss u N \<longleftrightarrow>
     (\<forall>q \<in> set ss. \<forall>p. openScope q \<longrightarrow> sc_ParentID q = Some p \<longrightarrow> (sc_ID q \<in> N \<longleftrightarrow> p = u \<or> p \<in> N)) \<and>
     (\<forall>q \<in> set ss. sc_ID q \<in> N \<longrightarrow> openScope q \<and> sc_ParentID q \<noteq> None)"

lemma closedUnder_after:
  assumes shape: "treeShape cid seq ss" and N: "closedUnder ss (sc_ID s) N"
    and s: "s \<in> set ss" and q: "q \<in> set ss" "sc_ID q \<in> N"
  shows "sc_OpenedSeq s < sc_OpenedSeq q"
  using shape q
proof (induction rule: treeShape_induct)
  case (scope q)
  from N scope have op: "openScope q" "sc_ParentID q \<noteq> None" by (auto simp: closedUnder_def)
  then obtain p where p: "sc_ParentID q = Some p" by blast
  with N scope op have "p = sc_ID s \<or> p \<in> N" unfolding closedUnder_def by blast
  moreover obtain x where x: "x \<in> set ss" "sc_ID x = p" "sc_OpenedSeq x < sc_OpenedSeq q"
    by (rule treeShape_parent [OF shape scope.hyps p])
  ultimately consider "x = s" | "sc_ID x \<in> N" using treeShape_eq [OF shape x(1) s] by metis
  then show ?case
  proof cases
    case 2
    with scope.IH [OF x(1)] p x(2,3) show ?thesis by simp
  qed (use x in simp)
qed

lemma treeInv_join:
  assumes inv: "treeInv {sc_ID s} cid seq ss A"
    and s: "s \<in> set ss" "openScope s" "sc_ParentID s = Some p"
    and N: "closedUnder ss (sc_ID s) N"
    and f: "\<And>t. t \<in> set A \<Longrightarrow> tok_ID (f t) = tok_ID t \<and> tok_ScopeID (f t) = tok_ScopeID t \<and>
      (if tok_ScopeID t \<in> insert (sc_ID s) N then \<not> Live (tok_Status (f t)) else f t = t)"
    and g: "\<And>q. q \<in> set ss \<Longrightarrow> if sc_ID q \<in> insert (sc_ID s) N
      then sc_ID (g q) = sc_ID q \<and> sc_ParentID (g q) = sc_ParentID q \<and> sc_OpenedSeq (g q) = sc_OpenedSeq q \<and>
        \<not> openScope (g q)
      else g q = q"
    and n: "tok_ID n \<notin> tok_ID ` set A" "tok_ScopeID n = p" "tok_Status n = TokenActive"
  shows "treeInv {} cid seq (map g ss) (n # map f A)"
proof -
  note shape = treeInvD(1) [OF inv]
  let ?C = "insert (sc_ID s) N"
  have g': "sc_ID (g q) = sc_ID q" "sc_ParentID (g q) = sc_ParentID q" "sc_OpenedSeq (g q) = sc_OpenedSeq q"
    "openScope (g q) \<longleftrightarrow> openScope q \<and> sc_ID q \<notin> ?C" if "q \<in> set ss" for q
    using g [OF that] by (auto split: if_splits)
  have gid: "g q = q" if "q \<in> set ss" "sc_ID q \<notin> ?C" for q
    using g [OF that(1)] that(2) by simp
  obtain P where P: "P \<in> set ss" "sc_ID P = p" "sc_OpenedSeq P < sc_OpenedSeq s" "openScope P"
    using treeShape_parent [OF shape s(1,3)] s(2) by metis
  have pC: "p \<notin> ?C"
    using closedUnder_after [OF shape N s(1) P(1)] P treeShape_eq [OF shape P(1) s(1)] by auto
  have child: "sc_ID q \<in> ?C \<longleftrightarrow> q = s \<or> a \<in> ?C" if "q \<in> set ss" "openScope q" "sc_ParentID q = Some a" for q a
    using N that treeShape_eq [OF shape that(1) s(1)] s(3) pC unfolding closedUnder_def by auto
  have shape': "treeShape cid seq (map g ss)"
  proof (rule treeShape_map [OF shape])
    fix q x assume a: "q \<in> set ss" "x \<in> set ss" "openScope (g q)" "sc_ParentID q = Some (sc_ID x)"
      "openScope q \<and> openScope x"
    then have "sc_ID x \<notin> ?C" using child [OF a(1) _ a(4)] g'(4) [OF a(1)] by blast
    with a g'(4) [OF a(2)] show "openScope (g x)" by blast
  qed (use g' in auto)
  have placed: "tokensPlaced (map g ss) (n # map f A)"
  proof -
    have ids: "map tok_ID (map f A) = map tok_ID A" using f by simp
    have d: "distinct (map tok_ID (n # map f A))"
      unfolding list.map(2) ids using treeInvD(2) [OF inv] n(1) by (simp add: tokensPlaced_def)
    have "\<exists>q \<in> set (map g ss). sc_ID q = tok_ScopeID (f t) \<and> (Live (tok_Status (f t)) \<longrightarrow> openScope q)"
      if t: "t \<in> set A" for t
    proof -
      obtain q where q: "q \<in> set ss" "sc_ID q = tok_ScopeID t" "Live (tok_Status t) \<longrightarrow> openScope q"
        using treeInvD(2) [OF inv] t by (auto simp: tokensPlaced_def)
      have "Live (tok_Status (f t)) \<longrightarrow> openScope (g q)"
        using f [OF t] q g'(4) [OF q(1)] by (auto split: if_splits)
      with q f [OF t] g'(1) [OF q(1)] show ?thesis by (intro bexI [of _ "g q"]) auto
    qed
    moreover have "\<exists>q \<in> set (map g ss). sc_ID q = tok_ScopeID n \<and> openScope q"
    proof (rule bexI [of _ "g P"])
      show "sc_ID (g P) = tok_ScopeID n \<and> openScope (g P)" using P gid [OF P(1)] pC n(2) by simp
    qed (use P in simp)
    ultimately show ?thesis using d unfolding tokensPlaced_def by auto
  qed
  have tok: "inScope a (f t) \<longleftrightarrow> inScope a t" "activeIn a (f t) \<longleftrightarrow> activeIn a t"
    if "t \<in> set A" "a \<notin> ?C" for a t
    using f [OF that(1)] that(2) by (auto simp: inScope_def activeIn_def split: if_splits)
  have opn: "openChild a (g q) \<longleftrightarrow> openChild a q \<and> q \<noteq> s" if "q \<in> set ss" "a \<notin> ?C" for q a
    using child [OF that(1)] g' [OF that(1)] that(2) unfolding openChild_def by (metis insertI1)
  have ch: "countIf (openChild a) (map g ss) + (if a = p then 1 else 0) = countIf (openChild a) ss" if "a \<notin> ?C" for a
  proof -
    have "countIf (openChild a) (map g ss) = countIf (\<lambda>q. openChild a q \<and> q \<noteq> s) ss"
      unfolding countIf_map by (rule countIf_cong) (use opn [OF _ that] in simp)
    moreover have "countIf (\<lambda>q. openChild a q \<and> \<not> q \<noteq> s) ss = (if a = p then 1 else 0)"
    proof -
      have "distinct ss" using shape by (simp add: treeShape_def distinct_map)
      then have "countIf (\<lambda>q. q = s) ss = 1"
        using s(1) unfolding countIf_def by (induction ss) (auto simp: filter_empty_conv)
      moreover have "countIf (\<lambda>q. openChild a q \<and> \<not> q \<noteq> s) ss = countIf (\<lambda>q. q = s \<and> a = p) ss"
        using s by (intro countIf_cong) (auto simp: openChild_def)
      ultimately show ?thesis by (auto simp: countIf_0)
    qed
    ultimately show ?thesis using countIf_split [of "openChild a" ss "\<lambda>q. q \<noteq> s"] by simp
  qed
  have tc: "countIf (inScope a) (n # map f A) = (if a = p then 1 else 0) + countIf (inScope a) A"
    if "a \<notin> ?C" for a
  proof -
    have "countIf (inScope a) (map f A) = countIf (inScope a) A"
      by (rule countIf_map_same) (use tok(1) [OF _ that] in simp)
    then show ?thesis using n by (simp add: inScope_def)
  qed
  have bc: "branchCount (map g ss) (n # map f A) a = branchCount ss A a" if "a \<notin> ?C" for a
    unfolding branchCount_def tc [OF that] using ch [OF that] by simp
  have cnt: "counted (map g ss) (n # map f A)"
    using treeInvD(3) [OF inv] g' gid bc by (auto simp: counted_def)
  have "alive {} (map g ss) (n # map f A)"
    unfolding alive_def
  proof (intro ballI impI)
    fix y assume "y \<in> set (map g ss)" "openScope y"
    then obtain x where x: "x \<in> set ss" "y = x" "openScope x" "sc_ID x \<notin> ?C"
      using g'(4) gid by auto
    then consider t where "t \<in> set A" "activeIn (sc_ID x) t" | q where "q \<in> set ss" "openChild (sc_ID x) q"
      using treeInvD(4) [OF inv] unfolding alive_def by blast
    then show "(\<exists>t \<in> set (n # map f A). activeIn (sc_ID y) t) \<or> (\<exists>q \<in> set (map g ss). openChild (sc_ID y) q)"
    proof cases
      case (1 t)
      with tok(2) x show ?thesis by auto
    next
      case (2 q)
      show ?thesis
      proof (cases "q = s")
        case True
        with 2 s n x show ?thesis by (auto simp: openChild_def activeIn_def)
      next
        case False
        with opn [OF 2(1) x(4)] 2 x show ?thesis by auto
      qed
    qed
  qed
  with shape' placed cnt show ?thesis by (rule treeInvI)
qed

section \<open>Work left\<close>

text \<open>While any scope is open, some token is active: take the scope opened last.\<close>

lemma treeInv_active:
  assumes inv: "treeInv {} cid seq ss A" and s: "s \<in> set ss" "openScope s"
  shows "\<exists>t \<in> set A. tok_Status t = TokenActive"
proof -
  let ?O = "{q \<in> set ss. openScope q}"
  have "finite ?O" "?O \<noteq> {}" using s by auto
  then obtain m where m: "m \<in> ?O" and max: "\<forall>q \<in> ?O. sc_OpenedSeq q \<le> sc_OpenedSeq m"
    using Max_in [of "sc_OpenedSeq ` ?O"] Max_ge [of "sc_OpenedSeq ` ?O"] by fastforce
  have "\<not> openChild (sc_ID m) q" if q: "q \<in> set ss" for q
  proof
    assume c: "openChild (sc_ID m) q"
    then obtain x where "x \<in> set ss" "sc_ID x = sc_ID m" "sc_OpenedSeq x < sc_OpenedSeq q"
      using treeShape_parent [OF treeInvD(1) [OF inv] q] by (metis openChild_def)
    with treeShape_eq [OF treeInvD(1) [OF inv]] m have "sc_OpenedSeq m < sc_OpenedSeq q" by auto
    with max c q show False by (auto simp: openChild_def)
  qed
  with treeInvD(4) [OF inv] m show ?thesis by (auto simp: alive_def activeIn_def)
qed

end
