(* ===== verification/Run_Invariant.thy ===== *)
theory Run_Invariant
  imports Scope_Tree
begin

text \<open>
  The invariant of a case while a call plans its change, and that every step of routing keeps it:
  the scopes form a tree, every token has a place in it, an open scope counts its branches and has
  work left, waiting tokens wait at their own join with a usable outcome, and every active token
  that is not being routed rests on a task node. The tokens a split has still to add count as if
  they were there.
\<close>

section \<open>The invariant\<close>

fun pendTokens :: "task list \<Rightarrow> Token list" where
  "pendTokens [] = []"
| "pendTokens (Go tid tr cm h # ts) = pendTokens ts"
| "pendTokens (Branch b tr # ts) = b # pendTokens ts"

definition allTokens :: "caseRun \<Rightarrow> task list \<Rightarrow> Token list" where
  "allTokens r st = run_tokens r @ pendTokens st"

definition transit :: "task list \<Rightarrow> uuid set" where
  "transit st = {tid. \<exists>tr cm h. Go tid tr cm h \<in> set st}"

text \<open>A task node: neither automatic nor terminal.\<close>

definition restsAt :: "Definition \<Rightarrow> string \<Rightarrow> bool" where
  "restsAt d nid \<longleftrightarrow> (\<exists>n. Definition_Node d nid = Some n \<and> \<not> IsAutomatic (node_Kind n) \<and> \<not> node_Terminal n)"

definition tokenOK :: "Definition \<Rightarrow> uuid \<Rightarrow> Scope list \<Rightarrow> Token \<Rightarrow> bool" where
  "tokenOK d cid ss t \<longleftrightarrow> tok_CaseID t = cid \<and>
     tok_Status t \<in> {TokenActive, TokenWaiting, TokenConsumed, TokenCancelled} \<and>
     (tok_Status t = TokenWaiting \<longrightarrow> (\<exists>s \<in> set ss. sc_ID s = tok_ScopeID t \<and> sc_ParentID s \<noteq> None \<and>
        tok_Node t = sc_JoinNode s \<and>
        (joinPolicyAt d s \<noteq> JoinPolicyNone \<longrightarrow> tok_Outcome t \<in> {OutcomeApproved, OutcomeRejected})))"

definition scopeOK :: "Definition \<Rightarrow> uuid \<Rightarrow> Scope \<Rightarrow> bool" where
  "scopeOK d cid s \<longleftrightarrow> sc_CaseID s = cid \<and> 1 \<le> sc_Expected s \<and>
     sc_Status s \<in> {ScopeOpen, ScopeJoined, ScopeCancelled, ScopeClosed} \<and>
     (sc_ParentID s = None \<longrightarrow> sc_Expected s = 1 \<and> sc_JoinNode s = '''') \<and>
     (sc_ParentID s \<noteq> None \<longrightarrow> (\<exists>n \<in> set (d_Nodes d). IsSplit (node_Kind n) \<and>
        sc_SplitNode s = node_ID n \<and> sc_JoinNode s = node_Join n))"

definition freshIDs :: "call \<Rightarrow> nat \<Rightarrow> Scope list \<Rightarrow> Token list \<Rightarrow> bool" where
  "freshIDs cl n ss A \<longleftrightarrow> inj (cl_uuid cl) \<and>
     (\<forall>k \<ge> n. cl_uuid cl k \<notin> tok_ID ` set A \<and> cl_uuid cl k \<notin> sc_ID ` set ss)"

text \<open>The case is open exactly while its root scope is.\<close>

definition caseOK :: "Case \<Rightarrow> Scope list \<Rightarrow> bool" where
  "caseOK c ss \<longleftrightarrow> (\<forall>s \<in> set ss. sc_ID s = c_ID c \<longrightarrow> (openScope s \<longleftrightarrow> c_Status c = StatusOpen))"

definition coreInv :: "uuid set \<Rightarrow> call \<Rightarrow> caseRun \<Rightarrow> Token list \<Rightarrow> bool" where
  "coreInv X cl r A \<longleftrightarrow> Validate (run_d r) = [] \<and> freshIDs cl (run_drawn r) (run_scopes r) A \<and>
     treeInv X (c_ID (run_c r)) (nextSeq r) (run_scopes r) A \<and>
     (\<forall>t \<in> set A. tokenOK (run_d r) (c_ID (run_c r)) (run_scopes r) t) \<and>
     (\<forall>s \<in> set (run_scopes r). scopeOK (run_d r) (c_ID (run_c r)) s) \<and>
     caseOK (run_c r) (run_scopes r)"

definition restInv :: "caseRun \<Rightarrow> uuid set \<Rightarrow> bool" where
  "restInv r moving \<longleftrightarrow> (\<forall>t \<in> set (run_tokens r). tok_Status t = TokenActive \<longrightarrow> tok_ID t \<notin> moving \<longrightarrow>
     restsAt (run_d r) (tok_Node t))"

definition taskOK :: "caseRun \<Rightarrow> task \<Rightarrow> bool" where
  "taskOK r tk \<longleftrightarrow> (case tk of
     Go tid tr cm h \<Rightarrow> tr \<in> set (d_Transitions (run_d r)) \<and>
       (\<exists>t \<in> set (run_tokens r). tok_ID t = tid \<and> tok_Status t = TokenActive)
   | Branch b tr \<Rightarrow> tr \<in> set (d_Transitions (run_d r)) \<and> automaticAt (run_d r) (tr_From tr) \<and>
       tok_Status b = TokenActive)"

definition isBranch :: "task \<Rightarrow> bool" where
  "isBranch tk \<longleftrightarrow> (case tk of Go _ _ _ _ \<Rightarrow> False | Branch _ _ \<Rightarrow> True)"

text \<open>
  Only the first transition of a call leaves a task node; all others leave an automatic node. The
  task on top may move a token, the others are branches.
\<close>

definition stackInv :: "caseRun \<Rightarrow> task list \<Rightarrow> bool" where
  "stackInv r st \<longleftrightarrow> (\<forall>tk \<in> set st. taskOK r tk) \<and> (\<forall>tk \<in> set (tl st). isBranch tk) \<and>
     (\<forall>tid tr cm h ts. st = Go tid tr cm h # ts \<longrightarrow> ts \<noteq> [] \<longrightarrow> automaticAt (run_d r) (tr_From tr))"

definition runInv :: "call \<Rightarrow> caseRun \<times> task list \<Rightarrow> bool" where
  "runInv cl = (\<lambda>(r, st). coreInv {} cl r (allTokens r st) \<and> restInv r (transit st) \<and> stackInv r st)"

section \<open>Stacks\<close>

lemma pendTokens_append [simp]: "pendTokens (xs @ ys) = pendTokens xs @ pendTokens ys"
  by (induction xs rule: pendTokens.induct) auto

lemma pendTokens_map [simp]: "pendTokens (map (\<lambda>(b, tr). Branch b tr) ps) = map fst ps"
  by (induction ps) auto

lemma pendTokens_mem: "b \<in> set (pendTokens st) \<longleftrightarrow> (\<exists>tr. Branch b tr \<in> set st)"
  by (induction st rule: pendTokens.induct) auto

lemma pendTokens_active: "stackInv r st \<Longrightarrow> b \<in> set (pendTokens st) \<Longrightarrow> tok_Status b = TokenActive"
  by (fastforce simp: pendTokens_mem stackInv_def taskOK_def)

lemma transit_branches: "\<forall>tk \<in> set st. isBranch tk \<Longrightarrow> transit st = {}"
  by (fastforce simp: transit_def isBranch_def)

lemma transit_Go: "\<forall>tk \<in> set st. isBranch tk \<Longrightarrow> transit (Go tid tr cm h # st) = {tid}"
  using transit_branches [of st] by (auto simp: transit_def)

lemma stackInv_Go:
  assumes "stackInv r (Go tid tr cm h # st)"
  shows "tr \<in> set (d_Transitions (run_d r))" and "\<forall>tk \<in> set st. isBranch tk"
    and "\<forall>tk \<in> set st. taskOK r tk" and "st \<noteq> [] \<Longrightarrow> automaticAt (run_d r) (tr_From tr)"
    and "\<exists>t \<in> set (run_tokens r). tok_ID t = tid \<and> tok_Status t = TokenActive"
  using assms by (auto simp: stackInv_def taskOK_def)

text \<open>Branches only depend on the definition.\<close>

lemma taskOK_branch: "isBranch tk \<Longrightarrow> taskOK r tk \<Longrightarrow> run_d r' = run_d r \<Longrightarrow> taskOK r' tk"
  by (cases tk) (auto simp: taskOK_def isBranch_def)

lemma stackInv_branches:
  assumes "\<forall>tk \<in> set st. isBranch tk \<and> taskOK r tk" and "run_d r' = run_d r"
  shows "stackInv r' st"
  using assms taskOK_branch by (cases st) (auto simp: stackInv_def isBranch_def)

lemma stackInv_GoI:
  assumes "\<forall>tk \<in> set st. isBranch tk \<and> taskOK r tk" and "run_d r' = run_d r"
    and "tr \<in> set (d_Transitions (run_d r))" and "automaticAt (run_d r) (tr_From tr)"
    and "\<exists>t \<in> set (run_tokens r'). tok_ID t = tid \<and> tok_Status t = TokenActive"
  shows "stackInv r' (Go tid tr cm h # st)"
  using assms taskOK_branch by (auto simp: stackInv_def) (auto simp: taskOK_def)

section \<open>Frames\<close>

text \<open>Planning only appends events, so the next Seq only grows.\<close>

definition grows :: "caseRun \<Rightarrow> caseRun \<Rightarrow> bool" where
  "grows r r' \<longleftrightarrow> run_baseSeq r' = run_baseSeq r \<and> length (run_events r) \<le> length (run_events r')"

lemma grows_nextSeq: "grows r r' \<Longrightarrow> nextSeq r \<le> nextSeq r'"
  by (simp add: grows_def nextSeq_def)

lemma grows_trans: "grows r r' \<Longrightarrow> grows r' r'' \<Longrightarrow> grows r r''"
  by (simp add: grows_def)

lemma grows_refl [simp]: "grows r r"
  by (simp add: grows_def)

lemma emit_events [simp]: "length (run_events (emit r e)) = Suc (length (run_events r))"
  by (simp add: emit_def)

lemma hop_events [simp]: "length (run_events (hop r t n tr cm)) = Suc (length (run_events r))"
  by (simp add: hop_def)

lemma cancelPending_grows: "cancelPending bo reason ps r rep bs = Inr (r', bs') \<Longrightarrow> grows r r'"
proof (induction bo reason ps r rep bs rule: cancelPending.induct)
  case (2 bo reason p ps r rep bs)
  then obtain t where t: "run_token r (tok_ID p) = Some t" by (auto split: option.splits)
  let ?r = "endToken (emit r ((tokenEvent EventTokenCancelled (tok_ID t) (tok_ScopeID t) (tok_Node t) (tok_Node t))
      \<lparr>ev_Detail := DetailCancel reason\<rparr>)) t TokenCancelled (nextSeq r)"
  have "grows r ?r" by (simp add: grows_def)
  moreover have "grows ?r r'" using 2 t by (auto simp: Let_def split: option.splits if_splits)
  ultimately show ?case by (rule grows_trans)
qed simp

lemma closeRound_grows: "closeRound r s p = Inr (r', bs, ns) \<Longrightarrow> grows r r'"
  by (auto simp: closeRound_def closeBranches_def Let_def split: if_splits dest: cancelPending_grows)

lemma consumeRound_grows: "consumeRound cl r s j w v bs ns = Inr (r', nx, jrec) \<Longrightarrow> grows r r'"
  by (erule consumeRound_Inr) (auto simp: grows_def dest!: consumeAll_frame dest: tokenFrame_fields(7))

lemma consumeRound_fields:
  assumes "consumeRound cl r s j w v bs ns = Inr (r', nx, jrec)"
  shows "run_c r' = run_c r" and "run_d r' = run_d r" and "run_drawn r' = Suc (run_drawn r)" and "nx = draw cl r"
  using assms by (auto elim!: consumeRound_Inr dest!: consumeAll_frame dest: tokenFrame_fields)

text \<open>A token that is replaced by another with its ID.\<close>

lemma replaceBy_replaceBy:
  "key y = key z \<Longrightarrow> replaceBy key z (replaceBy key y xs) = replaceBy key z xs"
  by (simp add: replaceBy_def)

lemma replaceBy_append: "replaceBy key y (xs @ ys) = replaceBy key y xs @ replaceBy key y ys"
  by (simp add: replaceBy_def)

lemma allTokens_replace:
  assumes "distinct (map tok_ID (allTokens r st))" and "tok_ID t \<in> tok_ID ` set (run_tokens r)"
  shows "replaceBy tok_ID t (allTokens r st) = replaceBy tok_ID t (run_tokens r) @ pendTokens st"
proof -
  have "tok_ID t \<notin> tok_ID ` set (pendTokens st)" using assms by (auto simp: allTokens_def)
  then show ?thesis by (simp add: allTokens_def replaceBy_append replaceBy_absent)
qed

lemma restAt_Inr:
  assumes "restAt e db r tok n at = Inr r'"
  obtains t where "tok_ID t = tok_ID tok" and "tok_ScopeID t = tok_ScopeID tok" and "tok_CaseID t = tok_CaseID tok"
    and "tok_Node t = tok_Node tok" and "tok_Status t = TokenActive"
    and "run_tokens r' = replaceBy tok_ID t (run_tokens r)"
    and "run_c r' = run_c r" and "run_d r' = run_d r" and "run_scopes r' = run_scopes r"
    and "run_drawn r' = run_drawn r" and "run_created r' = run_created r" and "run_changed r' = run_changed r"
    and "grows r r'"
proof -
  obtain deadline where
    a: "applyAssignRule e db ((putToken r (tok\<lparr>tok_Status := TokenActive,
         tok_Eligible := resolvedEligibility n (c_Unit (run_c r)), tok_DeadlineAt := deadline\<rparr>))
       \<lparr>run_events := (run_events r)[at := (run_events r ! at)\<lparr>ev_DeadlineAt := deadline\<rparr>]\<rparr>)
       (tok\<lparr>tok_Status := TokenActive, tok_Eligible := resolvedEligibility n (c_Unit (run_c r)),
         tok_DeadlineAt := deadline\<rparr>) n = Inr r'" (is "applyAssignRule e db ?r ?t n = _")
    using assms by (auto simp: restAt_def Let_def)
  from a consider "r' = ?r" | h where "r' = ?r\<lparr>run_history := h\<rparr>"
    | h to ev where "r' = emit (putToken (?r\<lparr>run_history := h\<rparr>) (?t\<lparr>tok_AssignedTo := to\<rparr>)) ev"
    by (auto simp: applyAssignRule_def fullHistory_def split: if_splits option.splits)
  then show thesis
  proof cases
    case 1
    with that [of ?t] show ?thesis by (simp add: putToken_def grows_def)
  next
    case 2
    with that [of ?t] show ?thesis by (simp add: putToken_def grows_def)
  next
    case 3
    with that [of "?t\<lparr>tok_AssignedTo := to\<rparr>"] show ?thesis
      by (simp add: putToken_def grows_def replaceBy_replaceBy)
  qed
qed

section \<open>Moving a token\<close>

lemma coreInvD:
  assumes "coreInv X cl r A"
  shows "Validate (run_d r) = []" and "freshIDs cl (run_drawn r) (run_scopes r) A"
    and "treeInv X (c_ID (run_c r)) (nextSeq r) (run_scopes r) A"
    and "\<forall>t \<in> set A. tokenOK (run_d r) (c_ID (run_c r)) (run_scopes r) t"
    and "\<forall>s \<in> set (run_scopes r). scopeOK (run_d r) (c_ID (run_c r)) s"
    and "caseOK (run_c r) (run_scopes r)"
  using assms by (simp_all add: coreInv_def)

lemma coreInvI:
  assumes "Validate d = []" and "freshIDs cl n ss A" and "treeInv X cid q ss A"
    and "\<forall>t \<in> set A. tokenOK d cid ss t" and "\<forall>s \<in> set ss. scopeOK d cid s" and "caseOK c ss"
    and "run_d r = d" and "run_drawn r = n" and "run_scopes r = ss" and "run_c r = c" and "c_ID c = cid"
    and "q \<le> nextSeq r"
  shows "coreInv X cl r A"
  using assms treeInv_seq by (auto simp: coreInv_def)

lemma coreInv_distinct: "coreInv X cl r A \<Longrightarrow> distinct (map tok_ID A)"
  using treeInvD(2) [OF coreInvD(3)] by (auto simp: tokensPlaced_def)

lemma coreInv_perm:
  assumes "mset A = mset A'" and "coreInv X cl r A"
  shows "coreInv X cl r A'"
proof -
  have s: "set A = set A'" using assms(1) by (metis set_mset_mset)
  show ?thesis
    using assms(2) treeInv_perm [OF assms(1)] unfolding coreInv_def freshIDs_def s by simp
qed

text \<open>An active token changes everything but its ID, scope, case and status.\<close>

lemma coreInv_move:
  assumes core: "coreInv X cl r A" and t: "t \<in> set A" "tok_Status t = TokenActive"
    and t': "tok_ID t' = tok_ID t" "tok_ScopeID t' = tok_ScopeID t" "tok_CaseID t' = tok_CaseID t"
      "tok_Status t' = TokenActive"
    and r': "run_c r' = run_c r" "run_d r' = run_d r" "run_scopes r' = run_scopes r"
      "run_drawn r' = run_drawn r" "grows r r'"
  shows "coreInv X cl r' (replaceBy tok_ID t' A)"
proof -
  note c = coreInvD [OF core]
  have eq: "x = t" if "x \<in> set A" "tok_ID x = tok_ID t" for x
    using that t coreInv_distinct [OF core] by (metis distinct_map inj_onD)
  have rep: "replaceBy tok_ID t' A = map (\<lambda>x. if tok_ID x = tok_ID t' then t' else x) A"
    by (simp add: replaceBy_def)
  have "treeInv X (c_ID (run_c r)) (nextSeq r) (run_scopes r) (replaceBy tok_ID t' A)"
    unfolding rep
  proof (rule treeInv_same [OF c(3)])
    fix x assume x: "x \<in> set A"
    show "samePlace x (if tok_ID x = tok_ID t' then t' else x)"
    proof (cases "tok_ID x = tok_ID t'")
      case True
      with eq [OF x] t' have "x = t" by simp
      with t t' show ?thesis by (simp add: samePlace_def)
    qed (simp add: samePlace_def)
  qed
  then have "treeInv X (c_ID (run_c r)) (nextSeq r') (run_scopes r) (replaceBy tok_ID t' A)"
    using treeInv_seq grows_nextSeq r'(5) by blast
  moreover have "tokenOK (run_d r) (c_ID (run_c r)) (run_scopes r) x" if "x \<in> set (replaceBy tok_ID t' A)" for x
  proof (cases "x = t'")
    case True
    with c(4) t t' show ?thesis by (auto simp: tokenOK_def)
  next
    case False
    with that set_replaceBy [of tok_ID t' A] t t' have "x \<in> set A" by auto
    with c(4) show ?thesis by blast
  qed
  moreover have "freshIDs cl (run_drawn r) (run_scopes r) (replaceBy tok_ID t' A)"
    using c(2) by (simp add: freshIDs_def)
  ultimately show ?thesis using c by (simp add: coreInv_def r')
qed

lemma restInv_replace:
  assumes rest: "restInv r (insert (tok_ID t) moving)" and tok: "run_tokens r' = replaceBy tok_ID t (run_tokens r)"
    and d: "run_d r' = run_d r" and at: "tok_Status t = TokenActive \<Longrightarrow> tok_ID t \<notin> moving' \<Longrightarrow> restsAt (run_d r) (tok_Node t)"
    and sub: "moving \<subseteq> moving'"
  shows "restInv r' moving'"
  unfolding restInv_def d tok
proof (intro ballI impI)
  fix x assume x: "x \<in> set (replaceBy tok_ID t (run_tokens r))" "tok_Status x = TokenActive" "tok_ID x \<notin> moving'"
  show "restsAt (run_d r) (tok_Node x)"
  proof (cases "x = t")
    case True
    with at x show ?thesis by simp
  next
    case False
    with x(1) have "x \<in> set (run_tokens r)" "tok_ID x \<noteq> tok_ID t" by (auto simp: replaceBy_def split: if_splits)
    with rest x sub show ?thesis by (auto simp: restInv_def)
  qed
qed

lemma moveTo_simps [simp]:
  "tok_ID (moveTo r t n) = tok_ID t" "tok_ScopeID (moveTo r t n) = tok_ScopeID t"
  "tok_CaseID (moveTo r t n) = tok_CaseID t" "tok_Status (moveTo r t n) = tok_Status t"
  "tok_Node (moveTo r t n) = node_ID n"
  by (simp_all add: moveTo_def)

lemma hop_tokens: "run_tokens (hop r t n tr cm) = replaceBy tok_ID (moveTo r t n) (run_tokens r)"
  by (simp add: hop_def putToken_def)

lemma hop_grows: "grows r (hop r t n tr cm)"
  by (simp add: grows_def)

lemma run_token_Some: "run_token r u = Some t \<Longrightarrow> t \<in> set (run_tokens r) \<and> tok_ID t = u"
  by (auto simp: run_token_def dest: lookupBy_Some_mem)

section \<open>A split\<close>

lemma takenRoutes_mem:
  assumes "takenRoutes e db r tok n = Inr taken"
  shows "set taken \<subseteq> set (TransitionsFrom (run_d r) (node_ID n))"
proof -
  have "passing e db c ts = Inr (tk, fb) \<Longrightarrow> set tk \<subseteq> set ts \<and> set fb \<subseteq> set ts" for c ts tk fb
    by (induction ts arbitrary: tk fb) (fastforce split: if_splits)+
  with assms show ?thesis by (fastforce simp: takenRoutes_def Let_def split: if_splits)
qed


lemma automaticAt_node: "Definition_Node d nid = Some n \<Longrightarrow> IsAutomatic (node_Kind n) \<Longrightarrow> automaticAt d nid"
  by (auto simp: automaticAt_def)

lemma coreInv_openSplit:
  assumes core: "coreInv {} cl r A" and tok: "tok \<in> set A" "tok_Status tok = TokenActive"
    and n: "n \<in> set (d_Nodes (run_d r))" "IsSplit (node_Kind n)"
    and sp: "openSplit e cl db r tok n = Inr (r', ps)"
  shows "coreInv {} cl r' (replaceBy tok_ID (ended (run_now r) TokenConsumed (nextSeq r) tok) A @ map fst ps)"
    and "run_tokens r' = replaceBy tok_ID (ended (run_now r) TokenConsumed (nextSeq r) tok) (run_tokens r)"
    and "run_d r' = run_d r"
    and "\<forall>p \<in> set ps. snd p \<in> set (TransitionsFrom (run_d r) (node_ID n)) \<and> tok_Status (fst p) = TokenActive"
proof -
  note c = coreInvD [OF core]
  from sp obtain r1 taken sid ids where
    taken: "takenRoutes e db r1 tok n = Inr taken" "taken \<noteq> []" and r1: "r1 = r\<lparr>run_gatewaySteps := run_gatewaySteps r + 1\<rparr>"
    and sid: "sid = draw cl r" and ids: "ids = map (\<lambda>i. cl_uuid cl (run_drawn r + 1 + i)) [0..<length taken]"
    and ps: "ps = zip (map (\<lambda>uid. newToken uid (c_ID (run_c r)) sid (node_ID n)) ids) taken"
    and r': "r' = addScope (endToken (emit (r1\<lparr>run_drawn := run_drawn r + 1 + length taken\<rparr>)
        ((tokenEvent EventSplit (tok_ID tok) (tok_ScopeID tok) (node_ID n) (node_ID n))
           \<lparr>ev_Detail := DetailSplit \<lparr>sd_Scope = sid, sd_SplitNode = node_ID n, sd_Tokens = ids\<rparr>\<rparr>))
        tok TokenConsumed (nextSeq r))
       \<lparr>sc_ID = sid, sc_CaseID = c_ID (run_c r), sc_ParentID = Some (tok_ScopeID tok),
        sc_SplitNode = node_ID n, sc_JoinNode = node_Join n,
        sc_Expected = int (length taken), sc_Status = ScopeOpen,
        sc_OpenedSeq = nextSeq r, sc_ClosedSeq = 0\<rparr>" (is "_ = addScope _ ?q")
    by (rule openSplit_Inr) blast
  let ?t = "ended (run_now r) TokenConsumed (nextSeq r) tok"
  have len: "length ids = length taken" by (simp add: ids)
  have fstps: "map fst ps = map (\<lambda>uid. newToken uid (c_ID (run_c r)) sid (node_ID n)) ids"
    using len by (simp add: ps)
  show toks: "run_tokens r' = replaceBy tok_ID ?t (run_tokens r)" and d: "run_d r' = run_d r"
    by (simp_all add: r' r1 endToken_tokens)
  show "\<forall>p \<in> set ps. snd p \<in> set (TransitionsFrom (run_d r) (node_ID n)) \<and> tok_Status (fst p) = TokenActive"
    using takenRoutes_mem [OF taken(1)] by (auto simp: ps r1 elim!: in_set_zipE)
  have inj: "inj (cl_uuid cl)" and fr: "\<And>k. run_drawn r \<le> k \<Longrightarrow> cl_uuid cl k \<notin> tok_ID ` set A \<and> cl_uuid cl k \<notin> sc_ID ` set (run_scopes r)"
    using c(2) by (auto simp: freshIDs_def)
  have scopes: "run_scopes r' = run_scopes r @ [?q]" by (simp add: r' r1 addScope_def)
  have drawn: "run_drawn r' = run_drawn r + 1 + length taken" by (simp add: r')
  have tids: "tok_ID ` set (map fst ps) = (\<lambda>i. cl_uuid cl (run_drawn r + 1 + i)) ` {0..<length taken}"
    unfolding fstps by (simp add: ids image_image)
  have tree: "treeInv {} (c_ID (run_c r)) (nextSeq r + 1) (run_scopes r @ [?q]) (replaceBy tok_ID ?t A @ map fst ps)"
  proof (rule treeInv_split [OF c(3) tok])
    show "distinct (map tok_ID (map fst ps))"
      unfolding fstps by (simp add: ids distinct_map comp_def inj_on_def inj_eq [OF inj])
    show "tok_ID ` set (map fst ps) \<inter> tok_ID ` set A = {}"
      unfolding tids disjoint_iff using fr by (metis (no_types, lifting) imageE le_add1 trans_le_add1)
    show "sc_ID ?q \<notin> sc_ID ` set (run_scopes r)" using fr [of "run_drawn r"] by (simp add: sid draw_def)
    show "sc_Expected ?q = int (length (map fst ps))" by (simp add: fstps len)
    show "map fst ps \<noteq> []" using taken(2) len by (simp add: fstps) auto
  qed (auto simp: fstps openScope_def)
  have seq: "nextSeq r' = nextSeq r + 1"
    by (simp add: r' r1 nextSeq_def)
  have tokOK: "tokenOK (run_d r) (c_ID (run_c r)) (run_scopes r @ [?q]) t"
    if t: "t \<in> set (replaceBy tok_ID ?t A @ map fst ps)" for t
  proof -
    consider "t = ?t" | "t \<in> set A" | "t \<in> set (map fst ps)"
      using t set_replaceBy [of tok_ID ?t A] tok by auto
    then show ?thesis
    proof cases
      case 1
      with c(4) tok show ?thesis by (auto simp: tokenOK_def)
    next
      case 2
      with c(4) show ?thesis by (fastforce simp: tokenOK_def)
    next
      case 3
      then show ?thesis by (auto simp: fstps tokenOK_def)
    qed
  qed
  have "freshIDs cl (run_drawn r') (run_scopes r @ [?q]) (replaceBy tok_ID ?t A @ map fst ps)"
    unfolding freshIDs_def drawn set_append image_Un tids
    using inj fr by (auto simp: sid draw_def inj_eq [OF inj])
  moreover have "caseOK (run_c r) (run_scopes r @ [?q])"
  proof -
    obtain root where "root \<in> set (run_scopes r)" "sc_ID root = c_ID (run_c r)"
      using treeInvD(1) [OF c(3)] by (auto simp: treeShape_def)
    then have "sid \<noteq> c_ID (run_c r)" using fr [of "run_drawn r"] unfolding sid draw_def by (metis imageI le_refl)
    then show ?thesis using c(6) by (auto simp: caseOK_def)
  qed
  moreover have "\<forall>s \<in> set (run_scopes r @ [?q]). scopeOK (run_d r) (c_ID (run_c r)) s"
    using c(5) n taken(2) by (auto simp: scopeOK_def Suc_le_eq)
  moreover have "run_c r' = run_c r" by (simp add: r' r1)
  ultimately show "coreInv {} cl r' (replaceBy tok_ID ?t A @ map fst ps)"
    using c(1) tree tokOK unfolding coreInv_def scopes d seq by simp
qed

section \<open>The end of a case\<close>

lemma key_image_map: "(\<And>x. x \<in> set xs \<Longrightarrow> key (f x) = key x) \<Longrightarrow> key ` set (map f xs) = key ` set xs"
  by (simp add: image_image cong: image_cong)

lemma replaceBy_ended:
  assumes "distinct (map tok_ID ts)" and "t \<in> set ts"
  shows "replaceBy tok_ID (ended now st q t) ts = map (\<lambda>x. if x = t then ended now st q x else x) ts"
  unfolding replaceBy_map [OF assms] by (rule map_cong) (use assms in \<open>auto simp: distinct_map dest: inj_onD\<close>)

lemma coreInv_closeCase:
  assumes core: "coreInv {} cl r A" and tok: "tok \<in> set A" "tok_Status tok = TokenActive"
    and mem: "tok \<in> set (run_tokens r)"
    and close: "closeCase r tok n a = Inr r'"
  shows "coreInv {} cl r' (replaceBy tok_ID (ended (run_now r) TokenConsumed (nextSeq r) tok) A)"
    and "run_tokens r' = replaceBy tok_ID (ended (run_now r) TokenConsumed (nextSeq r) tok) (run_tokens r)"
    and "run_d r' = run_d r" and "\<forall>t \<in> set A. Live (tok_Status t) \<longrightarrow> t = tok"
proof -
  note c = coreInvD [OF core]
  note shape = treeInvD(1) [OF c(3)]
  let ?cid = "c_ID (run_c r)" and ?t = "ended (run_now r) TokenConsumed (nextSeq r) tok"
  let ?r = "endToken (emit r ((tokenEvent EventClosed (tok_ID tok) (tok_ScopeID tok) (node_ID n) (node_ID n))
      \<lparr>ev_Action := a\<rparr>)) tok TokenConsumed (nextSeq r)"
  have sid: "tok_ScopeID tok = ?cid" using close by (auto simp: closeCase_def split: if_splits)
  obtain root where root: "root \<in> set (run_scopes r)" "sc_ID root = ?cid" "sc_ParentID root = None"
    by (rule treeShape_root [OF shape])
  have rs: "run_scope ?r ?cid = Some root"
    using run_scope_mem [of ?r root] root treeShape_distinct [OF shape] by simp
  let ?root = "root\<lparr>sc_Status := ScopeClosed, sc_ClosedSeq := nextSeq r\<rparr>"
  have r': "r' = (endScope ?r root ScopeClosed (nextSeq r))
     \<lparr>run_c := (run_c r)\<lparr>c_Status := StatusClosed, c_ClosedAt := Some (run_now r), c_State := node_ID n\<rparr>\<rparr>"
    using close sid rs by (simp add: closeCase_def Let_def)
  show "run_tokens r' = replaceBy tok_ID ?t (run_tokens r)" and "run_d r' = run_d r"
    by (simp_all add: r' endToken_tokens)
  have one: "sc_Expected root = 1" using c(5) root by (simp add: scopeOK_def)
  note alone = root_alone [OF c(3) root(1,2) one tok sid]
  from alone(2) show "\<forall>t \<in> set A. Live (tok_Status t) \<longrightarrow> t = tok" .
  define g where "g = (\<lambda>s. if sc_ID s = ?cid then ?root else s)"
  have scopes: "run_scopes r' = map g (run_scopes r)"
    by (simp add: r' endScope_def putScope_def replaceBy_def g_def root(2))
  have gs: "s \<in> set (run_scopes r) \<Longrightarrow> sc_ID s = ?cid \<Longrightarrow> s = root" for s
    using treeShape_eq [OF shape _ root(1)] root(2) by auto
  let ?f = "\<lambda>x. if x = tok then ended (run_now r) TokenConsumed (nextSeq r) x else x"
  have A: "replaceBy tok_ID ?t A = map ?f A"
    by (rule replaceBy_ended [OF coreInv_distinct [OF core] tok(1)])
  have "treeInv {} ?cid (nextSeq r) (map g (run_scopes r)) (map ?f A)"
  proof (rule treeInv_ended [OF shape treeInvD(2) [OF c(3)]])
    fix s assume s: "s \<in> set (run_scopes r)"
    show "sc_ID (g s) = sc_ID s \<and> sc_ParentID (g s) = sc_ParentID s \<and> sc_OpenedSeq (g s) = sc_OpenedSeq s \<and> \<not> openScope (g s)"
      using gs [OF s] alone(1) s by (auto simp: g_def openScope_def)
  next
    fix t assume t: "t \<in> set A"
    show "tok_ID (?f t) = tok_ID t \<and> tok_ScopeID (?f t) = tok_ScopeID t \<and> \<not> Live (tok_Status (?f t))"
      using alone(2) t by auto
  qed
  have "nextSeq r \<le> nextSeq r'" by (simp add: r' nextSeq_def)
  note seq = this and tree = \<open>treeInv {} ?cid (nextSeq r) (map g (run_scopes r)) (map ?f A)\<close>
  have gid: "sc_ID (g s) = sc_ID s" if "s \<in> set (run_scopes r)" for s
    using gs [OF that] by (auto simp: g_def)
  have "tokenOK (run_d r) ?cid (map g (run_scopes r)) (?f t)" if t: "t \<in> set A" for t
  proof -
    have "\<not> Live (tok_Status (?f t))" using alone(2) t by auto
    with c(4) t show ?thesis by (auto simp: tokenOK_def Live_def)
  qed
  then have "\<forall>t \<in> set (map ?f A). tokenOK (run_d r) ?cid (map g (run_scopes r)) t"
    unfolding set_map by blast
  moreover have "\<forall>s \<in> set (map g (run_scopes r)). scopeOK (run_d r) ?cid s"
    using c(5) root by (auto simp: g_def scopeOK_def)
  moreover have "caseOK (run_c r') (map g (run_scopes r))"
    by (auto simp: caseOK_def g_def r' openScope_def)
  moreover have "freshIDs cl (run_drawn r') (map g (run_scopes r)) (map ?f A)"
  proof -
    have "tok_ID ` set (map ?f A) = tok_ID ` set A" by (rule key_image_map) simp
    moreover have "sc_ID ` set (map g (run_scopes r)) = sc_ID ` set (run_scopes r)"
      by (rule key_image_map) (rule gid)
    ultimately show ?thesis using c(2) unfolding freshIDs_def by (simp add: r')
  qed
  moreover have "c_ID (run_c r') = ?cid" by (simp add: r')
  ultimately show "coreInv {} cl r' (replaceBy tok_ID ?t A)"
    unfolding A using coreInvI [OF c(1) _ tree _ _ _ \<open>run_d r' = run_d r\<close> refl scopes refl _ seq] by blast
qed

end
