(* ===== verification/Join_Invariant.thy ===== *)
theory Join_Invariant
  imports Run_Invariant
begin

text \<open>
  A join keeps the invariant of a run: one that does not fire leaves its scope with work, and one
  that fires closes its scope, everything below it and nothing else, and hands one token to the
  parent scope.
\<close>

section \<open>The scopes and tokens a firing join ends\<close>

lemma nestedScopes_fst:
  "map fst (nestedScopes r sid) =
     filter (\<lambda>s. sc_Status s = ScopeOpen \<and> childOnPath (length (run_scopes r)) r s sid \<noteq> None) (run_scopes r)"
proof -
  have "map fst (concat (map (\<lambda>s. if sc_Status s \<noteq> ScopeOpen then []
          else case F s of None \<Rightarrow> [] | Some child \<Rightarrow> [(s, sc_ID child)]) xs)) =
        filter (\<lambda>s. sc_Status s = ScopeOpen \<and> F s \<noteq> None) xs" for F :: "Scope \<Rightarrow> Scope option" and xs
    by (induction xs) (auto split: option.splits)
  then show ?thesis by (simp add: nestedScopes_def)
qed

lemma branchOf_None:
  "map_of (map (\<lambda>(s, child). (sc_ID s, child)) (nestedScopes r sid)) u = None \<longleftrightarrow> u \<notin> nestedIDs r sid"
  by (force simp: map_of_eq_None_iff nestedIDs_def image_iff)

lemma pendingTokens_mem:
  "t \<in> set (pendingTokens r sid) \<longleftrightarrow> t \<in> set (run_tokens r) \<and>
     (tok_ScopeID t = sid \<and> tok_Status t = TokenActive \<or> tok_ScopeID t \<in> nestedIDs r sid \<and> Live (tok_Status t))"
  using branchOf_None [of r sid "tok_ScopeID t"] by (auto simp: pendingTokens_def sortTokens_def Let_def)

lemma pendingTokens_distinct:
  assumes "distinct (map tok_ID (run_tokens r))"
  shows "distinct (map tok_ID (pendingTokens r sid))"
proof -
  have "mset (pendingTokens r sid) = mset (filter (\<lambda>t. tok_ScopeID t = sid \<and> tok_Status t = TokenActive \<or>
      map_of (map (\<lambda>(s, child). (sc_ID s, child)) (nestedScopes r sid)) (tok_ScopeID t) \<noteq> None \<and>
      Live (tok_Status t)) (run_tokens r))" (is "_ = mset ?F")
    by (simp add: pendingTokens_def sortTokens_def Let_def)
  then have "mset (map tok_ID (pendingTokens r sid)) = mset (map tok_ID ?F)" by (simp only: mset_map)
  moreover have "distinct (map tok_ID ?F)" using assms by (rule distinct_map_filter)
  ultimately show ?thesis using mset_eq_imp_distinct_iff by blast
qed

definition closedIDs :: "caseRun \<Rightarrow> Scope \<Rightarrow> JoinPolicy \<Rightarrow> uuid set" where
  "closedIDs r s p = (if p = JoinPolicyNone then {} else nestedIDs r (sc_ID s))"

lemma closeRound_tokens:
  assumes close: "closeRound r s p = Inr (r', bs, ns)" and dist: "distinct (map tok_ID (run_tokens r))"
  obtains f where "endsTokens f TokenCancelled (tok_ID ` {t \<in> set (run_tokens r). p \<noteq> JoinPolicyNone \<and>
      (activeIn (sc_ID s) t \<or> tok_ScopeID t \<in> closedIDs r s p \<and> Live (tok_Status t))})"
    and "run_tokens r' = map f (run_tokens r)"
    and "sc_ID ` set ns = closedIDs r s p"
    and "set ns \<subseteq> set (run_scopes r)" and "distinct (map sc_ID (run_scopes r)) \<Longrightarrow> distinct (map sc_ID ns)"
proof (cases "p = JoinPolicyNone")
  case True
  with close have "r' = r" "ns = []" by (auto simp: closeRound_def)
  with True that [of "\<lambda>t. t"] endsTokens_id show thesis by (simp add: closedIDs_def)
next
  case False
  with close obtain bs' where
    cp: "cancelPending (map (\<lambda>(s, child). (sc_ID s, child)) (nestedScopes r (sc_ID s)))
       (''join_policy:'' @ policyText p) (pendingTokens r (sc_ID s)) r [] [] = Inr (r', bs')"
    and ns: "ns = map fst (nestedScopes r (sc_ID s))"
    by (auto simp: closeRound_def closeBranches_def Let_def)
  have ids: "tok_ID ` set (pendingTokens r (sc_ID s)) = tok_ID ` {t \<in> set (run_tokens r). p \<noteq> JoinPolicyNone \<and>
      (activeIn (sc_ID s) t \<or> tok_ScopeID t \<in> closedIDs r s p \<and> Live (tok_Status t))}"
    using False by (auto simp: pendingTokens_mem activeIn_def closedIDs_def)
  obtain f where "endsTokens f TokenCancelled (tok_ID ` set (pendingTokens r (sc_ID s)))"
    and "run_tokens r' = map f (run_tokens r)"
    using cancelPending_tokens [OF cp dist pendingTokens_distinct [OF dist]] by blast
  moreover have "sc_ID ` set ns = closedIDs r s p" using False by (simp add: ns closedIDs_def nestedIDs_def)
  ultimately show thesis
    using that [of f] ns unfolding ids nestedScopes_fst by (auto intro: distinct_map_filter)
qed

lemma cancelScopes_scopes:
  assumes "distinct (map sc_ID ns)"
  shows "run_scopes (cancelScopes r ns q) =
    map (\<lambda>x. case lookupBy sc_ID (sc_ID x) ns of None \<Rightarrow> x
             | Some n \<Rightarrow> n\<lparr>sc_Status := ScopeCancelled, sc_ClosedSeq := q\<rparr>) (run_scopes r)"
  using assms
proof (induction ns arbitrary: r)
  case Nil
  then show ?case by (simp add: cancelScopes_def)
next
  case (Cons n ns)
  have "cancelScopes r (n # ns) q = cancelScopes (endScope r n ScopeCancelled q) ns q"
    by (simp add: cancelScopes_def)
  moreover have "lookupBy sc_ID (sc_ID n) ns = None" using Cons.prems by (simp add: lookupBy_None)
  ultimately show ?case
    using Cons by (auto simp: endScope_def putScope_def replaceBy_def comp_def split: option.split)
qed

text \<open>The scopes after a join: the scope itself joined, the scopes below it cancelled.\<close>

definition joinScopes :: "Scope \<Rightarrow> Scope list \<Rightarrow> int \<Rightarrow> Scope \<Rightarrow> Scope" where
  "joinScopes s ns q x =
     (if sc_ID x = sc_ID s then s\<lparr>sc_Status := ScopeJoined, sc_ClosedSeq := q\<rparr>
      else case lookupBy sc_ID (sc_ID x) ns of None \<Rightarrow> x
           | Some n \<Rightarrow> n\<lparr>sc_Status := ScopeCancelled, sc_ClosedSeq := q\<rparr>)"

lemma consumeRound_state:
  assumes cr: "consumeRound cl r s j w v bs ns = Inr (r', nx, jrec)"
    and dist: "distinct (map tok_ID (run_tokens r))" "distinct (map tok_ID w)" "distinct (map sc_ID ns)"
  obtains f where "endsTokens f TokenConsumed (tok_ID ` set w)" and "run_tokens r' = map f (run_tokens r)"
    and "run_scopes r' = map (joinScopes s ns (nextSeq r)) (run_scopes r)"
proof -
  from cr obtain r1 cs where
    ca: "consumeAll (map tok_ID w) (nextSeq r) (emit (r\<lparr>run_drawn := run_drawn r + 1\<rparr>)
       ((tokenEvent EventJoined (draw cl r) (sc_ID s) (node_ID j) (node_ID j))
          \<lparr>ev_Detail := DetailJoin \<lparr>jd_Scope = sc_ID s, jd_JoinNode = node_ID j,
             jd_Tokens = map tok_ID w, jd_Policy = node_JoinPolicy j, jd_Verdict = v,
             jd_Branches = bs\<rparr>\<rparr>)) [] = Inr (r1, cs)"
    and r': "r' = touch (putScope (cancelScopes r1 ns (nextSeq r))
       (s\<lparr>sc_Status := ScopeJoined, sc_ClosedSeq := nextSeq r\<rparr>)) (sc_ID s)"
    by (rule consumeRound_Inr) blast
  have "distinct (map tok_ID (run_tokens (emit (r\<lparr>run_drawn := run_drawn r + 1\<rparr>) ev)))" for ev
    using dist(1) by simp
  from consumeAll_tokens [OF ca this dist(2)] obtain f where
    f: "endsTokens f TokenConsumed (set (map tok_ID w))" "run_tokens r1 = map f (run_tokens r)" by auto
  have "run_scopes r1 = run_scopes r"
    using tokenFrame_fields(3) [of _ r1] consumeAll_frame [OF ca] by fastforce
  then have "run_scopes r' = map (joinScopes s ns (nextSeq r)) (run_scopes r)"
    by (auto simp: r' putScope_def replaceBy_def cancelScopes_scopes [OF dist(3)] joinScopes_def
        split: option.split dest: lookupBy_Some_mem)
  with f that [of f] show thesis by (simp add: r')
qed

lemma joinScopes_simps:
  assumes "distinct (map sc_ID ss)" and "s \<in> set ss" and "set ns \<subseteq> set ss" and x: "x \<in> set ss"
  shows "sc_ID (joinScopes s ns q x) = sc_ID x" and "sc_ParentID (joinScopes s ns q x) = sc_ParentID x"
    and "sc_OpenedSeq (joinScopes s ns q x) = sc_OpenedSeq x" and "sc_JoinNode (joinScopes s ns q x) = sc_JoinNode x"
    and "sc_SplitNode (joinScopes s ns q x) = sc_SplitNode x" and "sc_Expected (joinScopes s ns q x) = sc_Expected x"
    and "sc_CaseID (joinScopes s ns q x) = sc_CaseID x"
    and "sc_ID x \<in> insert (sc_ID s) (sc_ID ` set ns) \<Longrightarrow> sc_Status (joinScopes s ns q x) \<in> {ScopeJoined, ScopeCancelled}"
    and "sc_ID x \<notin> insert (sc_ID s) (sc_ID ` set ns) \<Longrightarrow> joinScopes s ns q x = x"
proof -
  have eq: "n = x" if "n \<in> set ss" "sc_ID n = sc_ID x" for n
    using that x assms(1) by (metis distinct_map inj_onD)
  have n: "n = x" if "lookupBy sc_ID (sc_ID x) ns = Some n" for n
    using lookupBy_Some_mem [OF that] eq assms(3) by blast
  have s: "s = x" if "sc_ID x = sc_ID s" using eq [OF assms(2)] that by simp
  show "sc_ID (joinScopes s ns q x) = sc_ID x" "sc_ParentID (joinScopes s ns q x) = sc_ParentID x"
    "sc_OpenedSeq (joinScopes s ns q x) = sc_OpenedSeq x" "sc_JoinNode (joinScopes s ns q x) = sc_JoinNode x"
    "sc_SplitNode (joinScopes s ns q x) = sc_SplitNode x" "sc_Expected (joinScopes s ns q x) = sc_Expected x"
    "sc_CaseID (joinScopes s ns q x) = sc_CaseID x"
    using n s by (auto simp: joinScopes_def split: option.split)
  show "sc_ID x \<in> insert (sc_ID s) (sc_ID ` set ns) \<Longrightarrow> sc_Status (joinScopes s ns q x) \<in> {ScopeJoined, ScopeCancelled}"
    using lookupBy_None [of sc_ID "sc_ID x" ns] by (auto simp: joinScopes_def split: option.split)
  show "sc_ID x \<notin> insert (sc_ID s) (sc_ID ` set ns) \<Longrightarrow> joinScopes s ns q x = x"
    using lookupBy_None [of sc_ID "sc_ID x" ns] by (auto simp: joinScopes_def split: option.split)
qed

lemma nestedIDs_closedUnder:
  assumes shape: "treeShape cid seq (run_scopes r)"
  shows "closedUnder (run_scopes r) sid (nestedIDs r sid)"
  unfolding closedUnder_def
proof (intro conjI ballI allI impI)
  note pb = treeShape_parentsBefore [OF shape] and dist = treeShape_distinct [OF shape]
  fix q p assume "q \<in> set (run_scopes r)" "openScope q" "sc_ParentID q = Some p"
  then show "sc_ID q \<in> nestedIDs r sid \<longleftrightarrow> p = sid \<or> p \<in> nestedIDs r sid"
    using nestedIDs_step [OF pb] by (simp add: openScope_def)
next
  note dist = treeShape_distinct [OF shape]
  fix q assume q: "q \<in> set (run_scopes r)" "sc_ID q \<in> nestedIDs r sid"
  then show "openScope q" using nestedIDs_iff [OF dist q(1)] by (simp add: openScope_def)
  show "sc_ParentID q \<noteq> None" using nestedIDs_root [OF q(1) dist] q(2) by blast
qed

section \<open>A join that fires\<close>

text \<open>What a firing needs: a plain join only fires on a complete round, and a join with a policy
  only while no split of the same call has branches left to add.\<close>

definition readyToFire :: "caseRun \<Rightarrow> Scope \<Rightarrow> Token list \<Rightarrow> JoinPolicy \<Rightarrow> bool" where
  "readyToFire r s A p \<longleftrightarrow>
     (if p = JoinPolicyNone then (\<forall>t \<in> set A. \<not> activeIn (sc_ID s) t) \<and> (\<forall>q \<in> set (run_scopes r). \<not> openChild (sc_ID s) q)
      else A = run_tokens r)"

lemma joinPlan_state:
  assumes plan: "joinPlan e cl db r s jn w v = Inr (r', nx, out)" and jn: "jn = Some j"
    and dist: "distinct (map tok_ID (run_tokens r))" "distinct (map sc_ID (run_scopes r))"
    and w: "w = filter (\<lambda>t. tok_ScopeID t = sc_ID s \<and> tok_Status t = TokenWaiting) (run_tokens r)"
  obtains f1 f2 ns q p where
    "endsTokens f1 TokenCancelled (tok_ID ` {t \<in> set (run_tokens r). node_JoinPolicy j \<noteq> JoinPolicyNone \<and>
       (activeIn (sc_ID s) t \<or> tok_ScopeID t \<in> closedIDs r s (node_JoinPolicy j) \<and> Live (tok_Status t))})"
    and "endsTokens f2 TokenConsumed (tok_ID ` set w)"
    and "sc_ID ` set ns = closedIDs r s (node_JoinPolicy j)" and "set ns \<subseteq> set (run_scopes r)"
    and "sc_ParentID s = Some p" and "nx = cl_uuid cl (run_drawn r)"
    and "run_tokens r' = map (f2 \<circ> f1) (run_tokens r) @ [newToken nx (c_ID (run_c r)) p (node_ID j)]"
    and "run_scopes r' = map (joinScopes s ns q) (run_scopes r)"
    and "run_d r' = run_d r" and "run_c r' = run_c r" and "run_drawn r' = Suc (run_drawn r)" and "grows r r'"
    and "TransitionsFrom (run_d r) (node_ID j) = [out]"
proof -
  from plan jn obtain r1 r2 bs ns p r3 jrec where
    r1: "r1 = r\<lparr>run_gatewaySteps := run_gatewaySteps r + 1\<rparr>" and out: "TransitionsFrom (run_d r) (node_ID j) = [out]"
    and close: "closeRound r1 s (node_JoinPolicy j) = Inr (r2, bs, ns)" and p: "sc_ParentID s = Some p"
    and cons: "consumeRound cl r2 s j w v bs ns = Inr (r3, nx, jrec)"
    and r': "r' = (if node_JoinPolicy j = JoinPolicyNone then id
       else (\<lambda>r. noteJoinResult r nx s (node_JoinPolicy j) v (sc_ClosedSeq (jrec_Scope jrec)) bs))
      (addToken (r3\<lparr>run_joined := run_joined r3 @ [jrec]\<rparr>) (newToken nx (c_ID (run_c r3)) p (node_ID j)))"
    by (auto elim!: joinPlan_Inr)
  have fr2: "tokenFrame r1 r2" by (rule closeRound_frame [OF close])
  have dist1: "distinct (map tok_ID (run_tokens r1))" using dist(1) by (simp add: r1)
  have closed: "closedIDs r1 s pol = closedIDs r s pol" for pol
  proof -
    have "childOnPath n r1 x a = childOnPath n r x a" for n x a
      by (induction n arbitrary: x) (auto simp: r1 run_scope_def split: option.split)
    then show ?thesis by (simp add: closedIDs_def nestedIDs_def nestedScopes_def r1)
  qed
  obtain f1 where f1: "endsTokens f1 TokenCancelled (tok_ID ` {t \<in> set (run_tokens r). node_JoinPolicy j \<noteq> JoinPolicyNone \<and>
       (activeIn (sc_ID s) t \<or> tok_ScopeID t \<in> closedIDs r s (node_JoinPolicy j) \<and> Live (tok_Status t))})"
    and t2: "run_tokens r2 = map f1 (run_tokens r)" and ns: "sc_ID ` set ns = closedIDs r s (node_JoinPolicy j)"
      "set ns \<subseteq> set (run_scopes r)" "distinct (map sc_ID ns)"
    using closeRound_tokens [OF close dist1] dist(2) unfolding closed by (auto simp: r1)
  have dist2: "distinct (map tok_ID (run_tokens r2))"
  proof -
    have "map tok_ID (run_tokens r2) = map tok_ID (run_tokens r)"
      using endsTokens_simps(1) [OF f1] by (simp add: t2)
    with dist(1) show ?thesis by simp
  qed
  have distw: "distinct (map tok_ID w)" unfolding w using dist(1) by (rule distinct_map_filter)
  obtain f2 where f2: "endsTokens f2 TokenConsumed (tok_ID ` set w)" and t3: "run_tokens r3 = map f2 (run_tokens r2)"
    and s3: "run_scopes r3 = map (joinScopes s ns (nextSeq r2)) (run_scopes r2)"
    by (rule consumeRound_state [OF cons dist2 distw ns(3)])
  note cf = consumeRound_fields [OF cons] and tf = tokenFrame_fields [OF fr2]
  have c3: "run_c r3 = run_c r" "run_d r3 = run_d r" "run_drawn r3 = Suc (run_drawn r)" "nx = cl_uuid cl (run_drawn r)"
    using cf tf by (simp_all add: r1 draw_def)
  have grows: "grows r r'"
  proof -
    have "grows r r1" by (simp add: r1 grows_def)
    moreover have "grows r3 r'" by (simp add: r' grows_def)
    ultimately show ?thesis using closeRound_grows [OF close] consumeRound_grows [OF cons] grows_trans by blast
  qed
  show thesis
  proof (rule that [OF f1 f2 ns(1,2) p c3(4)])
    show "run_tokens r' = map (f2 \<circ> f1) (run_tokens r) @ [newToken nx (c_ID (run_c r)) p (node_ID j)]"
      using t3 t2 c3 by (simp add: r' addToken_def)
    show "run_scopes r' = map (joinScopes s ns (nextSeq r2)) (run_scopes r)"
      using s3 tf(3) by (simp add: r' r1)
  qed (use c3 grows out in \<open>simp_all add: r'\<close>)
qed

lemma endsTokens_CaseID: "endsTokens f st ids \<Longrightarrow> tok_CaseID (f t) = tok_CaseID t"
  unfolding endsTokens_def by (cases "tok_ID t \<in> ids") (metis ended_simps(3), metis)

lemma coreInv_fire:
  assumes core: "coreInv {sc_ID s} cl r A" and A: "A = run_tokens r @ pd" and pd: "\<forall>t \<in> set pd. tok_Status t = TokenActive"
    and s: "s \<in> set (run_scopes r)" "openScope s" and ready: "readyToFire r s A (node_JoinPolicy j)"
    and w: "w = filter (\<lambda>t. tok_ScopeID t = sc_ID s \<and> tok_Status t = TokenWaiting) (run_tokens r)"
    and plan: "joinPlan e cl db r s (Some j) w v = Inr (r', nx, out)"
  shows "coreInv {} cl r' (run_tokens r' @ pd)" and "run_d r' = run_d r"
    and "out \<in> set (TransitionsFrom (run_d r) (node_ID j))"
    and "\<exists>t \<in> set (run_tokens r'). tok_ID t = nx \<and> tok_Status t = TokenActive"
    and "restInv r M \<Longrightarrow> restInv r' (insert nx M)"
proof -
  note c = coreInvD [OF core]
  note shape = treeInvD(1) [OF c(3)]
  have distS: "distinct (map sc_ID (run_scopes r))" by (rule treeShape_distinct [OF shape])
  have distA: "distinct (map tok_ID A)" by (rule coreInv_distinct [OF core])
  then have distT: "distinct (map tok_ID (run_tokens r))" by (simp add: A)
  let ?pol = "node_JoinPolicy j" and ?cid = "c_ID (run_c r)"
  let ?N = "closedIDs r s ?pol"
  let ?P1 = "{t \<in> set (run_tokens r). ?pol \<noteq> JoinPolicyNone \<and> (activeIn (sc_ID s) t \<or> tok_ScopeID t \<in> ?N \<and> Live (tok_Status t))}"
  obtain f1 f2 ns q p where f1: "endsTokens f1 TokenCancelled (tok_ID ` ?P1)"
    and f2: "endsTokens f2 TokenConsumed (tok_ID ` set w)"
    and ns: "sc_ID ` set ns = ?N" "set ns \<subseteq> set (run_scopes r)"
    and p: "sc_ParentID s = Some p" and nx: "nx = cl_uuid cl (run_drawn r)"
    and toks: "run_tokens r' = map (f2 \<circ> f1) (run_tokens r) @ [newToken nx ?cid p (node_ID j)]"
    and scopes: "run_scopes r' = map (joinScopes s ns q) (run_scopes r)"
    and d: "run_d r' = run_d r" and cc: "run_c r' = run_c r" and drawn: "run_drawn r' = Suc (run_drawn r)" and gr: "grows r r'"
    and out: "TransitionsFrom (run_d r) (node_ID j) = [out]"
    by (rule joinPlan_state [OF plan refl distT distS w]) blast
  let ?f = "f2 \<circ> f1" and ?g = "joinScopes s ns q" and ?n = "newToken nx ?cid p (node_ID j)"
  note e1 = endsTokens_simps [OF f1] and e2 = endsTokens_simps [OF f2]
  note gs = joinScopes_simps [OF distS s(1) ns(2), where q = q, unfolded ns(1)]
  have mem: "tok_ID t \<in> tok_ID ` Y \<longleftrightarrow> t \<in> Y" if "t \<in> set A" "Y \<subseteq> set (run_tokens r)" for t Y
  proof (rule inj_on_image_mem_iff)
    show "inj_on tok_ID (set A)" using distA by (simp add: distinct_map)
    show "t \<in> set A" by (rule that(1))
    show "Y \<subseteq> set A" using that(2) by (auto simp: A)
  qed
  have wsub: "set w \<subseteq> set (run_tokens r)" by (auto simp: w)
  have P1: "?P1 \<subseteq> set (run_tokens r)" by blast
  have fid: "tok_ID (?f t) = tok_ID t" "tok_ScopeID (?f t) = tok_ScopeID t" "tok_Node (?f t) = tok_Node t"
    "tok_CaseID (?f t) = tok_CaseID t" for t
    by (simp_all add: e1 e2 endsTokens_CaseID [OF f1] endsTokens_CaseID [OF f2])
  have fst: "tok_Status (?f t) = (if t \<in> set w then TokenConsumed else if t \<in> ?P1 then TokenCancelled else tok_Status t)"
    if "t \<in> set A" for t
    by (simp only: comp_apply e1(1,5) e2(5) mem [OF that wsub] mem [OF that P1])
  have fsame: "?f t = t" if "t \<in> set A" "t \<notin> set w" "t \<notin> ?P1" for t
  proof -
    have "f1 t = t" by (rule e1(6)) (use mem [OF that(1) P1] that(3) in simp)
    moreover have "f2 t = t" by (rule e2(6)) (use mem [OF that(1) wsub] that(2) in simp)
    ultimately show ?thesis by simp
  qed
  have N: "closedUnder (run_scopes r) (sc_ID s) ?N"
  proof (cases "?pol = JoinPolicyNone")
    case True
    with ready show ?thesis by (auto simp: closedUnder_def closedIDs_def readyToFire_def openChild_def)
  next
    case False
    with nestedIDs_closedUnder [OF shape] show ?thesis by (simp add: closedIDs_def)
  qed
  have live: "\<not> Live (tok_Status (?f t))" if t: "t \<in> set A" and C: "tok_ScopeID t \<in> insert (sc_ID s) ?N" for t
  proof (cases "Live (tok_Status t)")
    case True
    have "t \<in> set w \<or> t \<in> ?P1"
    proof (cases "?pol = JoinPolicyNone")
      case none: True
      with ready t C True have "tok_ScopeID t = sc_ID s" "tok_Status t = TokenWaiting"
        by (auto simp: readyToFire_def closedIDs_def activeIn_def Live_def)
      with t A pd w show ?thesis by auto
    next
      case False
      with ready A have "t \<in> set (run_tokens r)" using t by (simp add: readyToFire_def)
      with C True False show ?thesis by (auto simp: w activeIn_def Live_def)
    qed
    with fst [OF t] show ?thesis by (auto split: if_splits)
  next
    case False
    with fst [OF t] show ?thesis by (auto split: if_splits)
  qed
  have keep: "?f t = t" if t: "t \<in> set A" and C: "tok_ScopeID t \<notin> insert (sc_ID s) ?N" for t
    by (rule fsame [OF t]) (use C in \<open>auto simp: w activeIn_def\<close>)
  have tree: "treeInv {} ?cid (nextSeq r) (map ?g (run_scopes r)) (?n # map ?f A)"
  proof (rule treeInv_join [OF c(3) s p N])
    fix t assume "t \<in> set A"
    then show "tok_ID (?f t) = tok_ID t \<and> tok_ScopeID (?f t) = tok_ScopeID t \<and>
      (if tok_ScopeID t \<in> insert (sc_ID s) ?N then \<not> Live (tok_Status (?f t)) else ?f t = t)"
      using fid live keep by presburger
  next
    fix x assume x: "x \<in> set (run_scopes r)"
    show "if sc_ID x \<in> insert (sc_ID s) ?N
      then sc_ID (?g x) = sc_ID x \<and> sc_ParentID (?g x) = sc_ParentID x \<and> sc_OpenedSeq (?g x) = sc_OpenedSeq x \<and> \<not> openScope (?g x)
      else ?g x = x"
      using gs [OF x] by (auto simp: openScope_def)
  qed (use c(2) nx in \<open>auto simp: freshIDs_def\<close>)
  have fpd: "map ?f pd = pd"
  proof (rule map_idI)
    fix t assume t: "t \<in> set pd"
    then have "t \<notin> set (run_tokens r)" using distA A by auto
    with t A fsame [of t] wsub show "?f t = t" by auto
  qed
  have perm: "mset (?n # map ?f A) = mset (run_tokens r' @ pd)"
    unfolding toks A map_append fpd by simp
  have tok': "tokenOK (run_d r) ?cid (map ?g (run_scopes r)) t" if t: "t \<in> set (?n # map ?f A)" for t
  proof (cases "t = ?n")
    case True
    then show ?thesis by (simp add: tokenOK_def)
  next
    case False
    with t obtain x where x: "x \<in> set A" "t = ?f x" by auto
    note ok = c(4) [rule_format, OF x(1)]
    show ?thesis
    proof (cases "tok_Status t = TokenWaiting")
      case True
      then have "t = x" using fst [OF x(1)] fsame [OF x(1)] x(2) by (auto split: if_splits)
      with True ok obtain y where y: "y \<in> set (run_scopes r)" "sc_ID y = tok_ScopeID t" "sc_ParentID y \<noteq> None"
        "tok_Node t = sc_JoinNode y" "joinPolicyAt (run_d r) y \<noteq> JoinPolicyNone \<longrightarrow> tok_Outcome t \<in> {OutcomeApproved, OutcomeRejected}"
        by (auto simp: tokenOK_def)
      have "joinPolicyAt (run_d r) (?g y) = joinPolicyAt (run_d r) y" using gs(4) [OF y(1)] by (simp add: joinPolicyAt_def)
      then have "\<exists>z \<in> set (map ?g (run_scopes r)). sc_ID z = tok_ScopeID t \<and> sc_ParentID z \<noteq> None \<and> tok_Node t = sc_JoinNode z \<and>
          (joinPolicyAt (run_d r) z \<noteq> JoinPolicyNone \<longrightarrow> tok_Outcome t \<in> {OutcomeApproved, OutcomeRejected})"
        using y gs [OF y(1)] by (intro bexI [of _ "?g y"]) auto
      with ok True \<open>t = x\<close> show ?thesis by (auto simp: tokenOK_def)
    next
      case False
      have st: "tok_Status t \<in> {TokenActive, TokenWaiting, TokenConsumed, TokenCancelled}"
        using ok fst [OF x(1)] x(2) by (auto simp: tokenOK_def)
      have cid: "tok_CaseID t = ?cid" using ok fid(4) [of x] x(2) by (simp add: tokenOK_def)
      show ?thesis unfolding tokenOK_def using st cid False by simp
    qed
  qed
  have scope': "\<forall>x \<in> set (map ?g (run_scopes r)). scopeOK (run_d r) ?cid x"
  proof
    fix y assume "y \<in> set (map ?g (run_scopes r))"
    then obtain x where x: "x \<in> set (run_scopes r)" "y = ?g x" by auto
    have "sc_Status y \<in> {ScopeOpen, ScopeJoined, ScopeCancelled, ScopeClosed}"
      using gs(8,9) [OF x(1)] c(5) x by (cases "sc_ID x \<in> insert (sc_ID s) ?N") (auto simp: scopeOK_def)
    with c(5) x gs [OF x(1)] show "scopeOK (run_d r) ?cid y" by (simp add: scopeOK_def)
  qed
  have case': "caseOK (run_c r) (map ?g (run_scopes r))"
  proof -
    have "?g x = x" if "x \<in> set (run_scopes r)" "sc_ID x = ?cid" for x
    proof (rule gs(9) [OF that(1)])
      have root: "sc_ParentID x = None" using shape that by (auto simp: treeShape_def)
      then have "sc_ID x \<notin> ?N" using N that(1) by (auto simp: closedUnder_def)
      moreover have "sc_ID x \<noteq> sc_ID s" using treeShape_eq [OF shape that(1) s(1)] root p by auto
      ultimately show "sc_ID x \<notin> insert (sc_ID s) ?N" by simp
    qed
    moreover have "sc_ID (?g x) = sc_ID x" if "x \<in> set (run_scopes r)" for x by (rule gs(1) [OF that])
    ultimately show ?thesis using c(6) by (auto simp: caseOK_def)
  qed
  have fresh: "freshIDs cl (Suc (run_drawn r)) (map ?g (run_scopes r)) (?n # map ?f A)"
  proof -
    have "tok_ID ` set (map ?f A) = tok_ID ` set A" by (rule key_image_map) (rule fid(1))
    moreover have "sc_ID ` set (map ?g (run_scopes r)) = sc_ID ` set (run_scopes r)"
      by (rule key_image_map) (rule gs(1))
    moreover have "inj (cl_uuid cl)" using c(2) by (simp add: freshIDs_def)
    ultimately show ?thesis using c(2) unfolding freshIDs_def by (simp add: nx inj_eq)
  qed
  show "coreInv {} cl r' (run_tokens r' @ pd)"
  proof (rule coreInv_perm [OF perm])
    show "coreInv {} cl r' (?n # map ?f A)"
      by (rule coreInvI [OF c(1) fresh tree _ scope' case' d drawn scopes cc refl grows_nextSeq [OF gr]])
        (use tok' in blast)
  qed
  show "run_d r' = run_d r" by (rule d)
  show "out \<in> set (TransitionsFrom (run_d r) (node_ID j))" by (simp add: out)
  show "\<exists>t \<in> set (run_tokens r'). tok_ID t = nx \<and> tok_Status t = TokenActive" by (simp add: toks)
  show "restInv r' (insert nx M)" if rest: "restInv r M"
    unfolding restInv_def d
  proof (intro ballI impI)
    fix t assume t: "t \<in> set (run_tokens r')" "tok_Status t = TokenActive" "tok_ID t \<notin> insert nx M"
    then obtain x where x: "x \<in> set (run_tokens r)" "t = ?f x" by (auto simp: toks)
    then have xA: "x \<in> set A" by (simp add: A)
    have "t = x" using t(2) fst [OF xA] fsame [OF xA] x(2) by (auto split: if_splits)
    with rest x t show "restsAt (run_d r) (tok_Node t)" by (simp add: restInv_def)
  qed
qed

section \<open>Counting the round\<close>

lemma tallyOf_counts:
  assumes core: "coreInv X cl r A" and A: "A = run_tokens r @ pd" and pd: "\<forall>t \<in> set pd. tok_Status t = TokenActive"
    and s: "s \<in> set (run_scopes r)" "openScope s" and ty: "tallyOf r s = Inr (w, ty)"
  shows "w = filter (\<lambda>t. tok_ScopeID t = sc_ID s \<and> tok_Status t = TokenWaiting) (run_tokens r)"
    and "t_expected ty = sc_Expected s"
    and "sc_Expected s = int (length w + t_cancelled ty +
      (countIf (activeIn (sc_ID s)) A + countIf (openChild (sc_ID s)) (run_scopes r)))"
    and "joinPolicyAt (run_d r) s \<noteq> JoinPolicyNone \<Longrightarrow> t_approved ty + t_rejected ty = length w"
proof -
  note c = coreInvD [OF core] and t = tallyTokens_Inr [OF ty [unfolded tallyOf_def], simplified]
  let ?w = "\<lambda>t. tok_ScopeID t = sc_ID s \<and> tok_Status t = TokenWaiting"
    and ?c = "\<lambda>t. tok_ScopeID t = sc_ID s \<and> tok_Status t = TokenCancelled"
  show w: "w = filter ?w (run_tokens r)" by (rule t(1))
  show "t_expected ty = sc_Expected s" by (rule t(5))
  have "countIf ?w pd = 0" "countIf ?c pd = 0" using pd by (auto simp: countIf_0)
  then have wc: "countIf ?w A = length w" "countIf ?c A = t_cancelled ty"
    by (simp_all add: A w t(2)) (simp add: countIf_def)
  have "branchCount (run_scopes r) A (sc_ID s) = countIf (activeIn (sc_ID s)) A + length w + t_cancelled ty +
      countIf (openChild (sc_ID s)) (run_scopes r)"
    unfolding wc [symmetric] by (rule branchCount_split) (use c(4) in \<open>auto simp: tokenOK_def\<close>)
  moreover have "sc_Expected s = int (branchCount (run_scopes r) A (sc_ID s))"
    using treeInvD(3) [OF c(3)] s by (simp add: counted_def)
  ultimately show "sc_Expected s = int (length w + t_cancelled ty +
      (countIf (activeIn (sc_ID s)) A + countIf (openChild (sc_ID s)) (run_scopes r)))" by simp
  show "t_approved ty + t_rejected ty = length w" if pol: "joinPolicyAt (run_d r) s \<noteq> JoinPolicyNone"
  proof -
    have oc: "\<forall>t \<in> set (run_tokens r). ?w t \<longrightarrow> tok_Outcome t \<in> {OutcomeApproved, OutcomeRejected}"
      using t(6) pol by blast
    have "countIf ?w (run_tokens r) = countIf (\<lambda>t. ?w t \<and> tok_Outcome t = OutcomeApproved) (run_tokens r) +
        countIf (\<lambda>t. ?w t \<and> tok_Outcome t \<noteq> OutcomeApproved) (run_tokens r)" by (rule countIf_split)
    moreover have "countIf (\<lambda>t. ?w t \<and> tok_Outcome t \<noteq> OutcomeApproved) (run_tokens r) =
        countIf (\<lambda>t. ?w t \<and> tok_Outcome t = OutcomeRejected) (run_tokens r)"
      by (rule countIf_cong) (use oc in auto)
    ultimately show ?thesis using t(3,4) by (simp add: w countIf_def conj_assoc)
  qed
qed

text \<open>A round that is complete closes, whatever the policy of the join.\<close>

lemma joinFires_complete:
  assumes "p = JoinPolicyNone \<or> JoinPolicy_Valid p" and "p \<noteq> JoinPolicyNone \<Longrightarrow> t_approved ty + t_rejected ty = length w"
    and "w \<noteq> []" and "int (length w + t_cancelled ty) = t_expected ty"
  shows "fst (joinFires p w ty)"
proof (cases "p = JoinPolicyNone")
  case False
  with assms have "complete ty" by (auto simp: complete_def)
  with False assms(1) show ?thesis by (cases p) (auto simp: joinFires_def)
qed (use assms in \<open>simp add: joinFires_def\<close>)

lemma joinFires_plain:
  "fst (joinFires JoinPolicyNone w ty) \<longleftrightarrow> w \<noteq> [] \<and> int (length w + t_cancelled ty) = t_expected ty"
  by (simp add: joinFires_def)

lemma scopeOK_join:
  assumes "Validate d = []" and "scopeOK d cid s" and "sc_ParentID s \<noteq> None"
  obtains j where "Definition_Node d (sc_JoinNode s) = Some j" and "node_Kind j = NodeJoin" and "node_ID j = sc_JoinNode s"
    and "joinPolicyAt d s = node_JoinPolicy j" and "joinPolicyAt d s = JoinPolicyNone \<or> JoinPolicy_Valid (joinPolicyAt d s)"
proof -
  from assms obtain n where n: "n \<in> set (d_Nodes d)" "IsSplit (node_Kind n)" "sc_JoinNode s = node_Join n"
    by (auto simp: scopeOK_def)
  obtain j where j: "Definition_Node d (node_Join n) = Some j" "node_Kind j = NodeJoin"
    by (rule Validate_split [OF assms(1) n(1,2)])
  have "JoinPolicyNone = node_JoinPolicy j \<or> JoinPolicy_Valid (node_JoinPolicy j)"
    using Validate_policy(2) [OF assms(1)] Definition_Node_Some [OF j(1)] by metis
  with j n(3) Definition_Node_Some [OF j(1)] that [of j] show thesis by (auto simp: joinPolicyAt_def)
qed

theorem coreInv_joinStep:
  assumes core: "coreInv {sc_ID s} cl r A" and A: "A = run_tokens r @ pd" and pd: "\<forall>t \<in> set pd. tok_Status t = TokenActive"
    and s: "s \<in> set (run_scopes r)" "openScope s" "sc_ParentID s \<noteq> None"
    and work: "(\<exists>t \<in> set A. tok_ScopeID t = sc_ID s \<and> Live (tok_Status t)) \<or> (\<exists>q \<in> set (run_scopes r). openChild (sc_ID s) q)"
    and pol: "joinPolicyAt (run_d r) s \<noteq> JoinPolicyNone \<longrightarrow> pd = []"
    and step: "joinStep e cl db r s = Inr (r', ts)"
  shows "coreInv {} cl r' (run_tokens r' @ pd)" and "run_d r' = run_d r"
    and "restInv r M \<Longrightarrow> restInv r' (transit ts \<union> M)"
    and "ts = [] \<or> (\<exists>nx out. ts = [Go nx out '''' 0] \<and> out \<in> set (d_Transitions (run_d r)) \<and>
      automaticAt (run_d r) (tr_From out) \<and> (\<exists>t \<in> set (run_tokens r'). tok_ID t = nx \<and> tok_Status t = TokenActive))"
proof -
  let ?p = "joinPolicyAt (run_d r) s" and ?sid = "sc_ID s"
  note c = coreInvD [OF core]
  obtain j where j: "Definition_Node (run_d r) (sc_JoinNode s) = Some j" "node_Kind j = NodeJoin" "node_ID j = sc_JoinNode s"
    "?p = node_JoinPolicy j" and valid: "?p = JoinPolicyNone \<or> JoinPolicy_Valid ?p"
    by (rule scopeOK_join [OF c(1) c(5) [rule_format, OF s(1)] s(3)])
  from step s(2) obtain w ty where ty: "tallyOf r s = Inr (w, ty)"
    by (auto simp: joinStep_def openScope_def)
  note n = tallyOf_counts [OF core A pd s(1,2) ty]
  have "coreInv {} cl r' (run_tokens r' @ pd) \<and> run_d r' = run_d r \<and> (restInv r M \<longrightarrow> restInv r' (transit ts \<union> M)) \<and>
    (ts = [] \<or> (\<exists>nx out. ts = [Go nx out '''' 0] \<and> out \<in> set (d_Transitions (run_d r)) \<and>
      automaticAt (run_d r) (tr_From out) \<and> (\<exists>t \<in> set (run_tokens r'). tok_ID t = nx \<and> tok_Status t = TokenActive)))"
  proof (cases "fst (joinFires ?p w ty)")
    case False
    with step s(2) ty have r': "r' = r" "ts = []" by (auto simp: joinStep_def openScope_def)
    have "(\<exists>t \<in> set A. activeIn ?sid t) \<or> (\<exists>q \<in> set (run_scopes r). openChild ?sid q)"
    proof (rule ccontr)
      assume "\<not> ?thesis"
      then have none: "countIf (activeIn ?sid) A = 0" "countIf (openChild ?sid) (run_scopes r) = 0"
        and act: "\<forall>t \<in> set A. \<not> activeIn ?sid t" and ch: "\<forall>q \<in> set (run_scopes r). \<not> openChild ?sid q"
        by (auto simp: countIf_0)
      from work ch act obtain t where t: "t \<in> set A" "tok_ScopeID t = ?sid" "tok_Status t = TokenWaiting"
        by (auto simp: Live_def activeIn_def)
      with A pd n(1) have "w \<noteq> []" by (auto simp: filter_empty_conv)
      moreover have "int (length w + t_cancelled ty) = t_expected ty" using n(2,3) none by simp
      ultimately show False using joinFires_complete [OF valid n(4)] False by blast
    qed
    then have tree: "treeInv {} (c_ID (run_c r)) (nextSeq r) (run_scopes r) A"
      by (rule treeInv_settle [OF c(3)])
    have "coreInv {} cl r A"
      by (rule coreInvI [OF c(1,2) tree c(4-6) refl refl refl refl refl order_refl])
    then show ?thesis using r' A by (simp add: transit_def)
  next
    case True
    with step s(2) ty j obtain nx out where plan: "joinPlan e cl db r s (Some j) w (snd (joinFires ?p w ty)) = Inr (r', nx, out)"
      and ts: "ts = [Go nx out '''' 0]"
      by (cases "joinPlan e cl db r s (Some j) w (snd (joinFires ?p w ty))") (auto simp: joinStep_def openScope_def)
    have ready: "readyToFire r s A (node_JoinPolicy j)"
    proof (cases "node_JoinPolicy j = JoinPolicyNone")
      case none: True
      have "fst (joinFires JoinPolicyNone w ty)" using True unfolding j(4) none .
      then have "int (length w + t_cancelled ty) = t_expected ty" by (simp add: joinFires_plain)
      with n(2,3) have "countIf (activeIn ?sid) A = 0" "countIf (openChild ?sid) (run_scopes r) = 0" by auto
      with none show ?thesis by (simp add: readyToFire_def countIf_0)
    next
      case False
      with pol j(4) A show ?thesis by (simp add: readyToFire_def)
    qed
    note fire = coreInv_fire [OF core A pd s(1,2) ready n(1) plan]
    have auto: "automaticAt (run_d r) (tr_From out)"
      using automaticAt_node [OF j(1)] fire(3) j(2,3) by (simp add: TransitionsFrom_mem IsAutomatic_def)
    have out: "out \<in> set (d_Transitions (run_d r))" using fire(3) by (simp add: TransitionsFrom_mem)
    have "transit ts \<union> M = insert nx M" using ts by (auto simp: transit_def)
    then show ?thesis using fire auto out ts by simp
  qed
  then show "coreInv {} cl r' (run_tokens r' @ pd)" and "run_d r' = run_d r"
    and "restInv r M \<Longrightarrow> restInv r' (transit ts \<union> M)"
    and "ts = [] \<or> (\<exists>nx out. ts = [Go nx out '''' 0] \<and> out \<in> set (d_Transitions (run_d r)) \<and>
      automaticAt (run_d r) (tr_From out) \<and> (\<exists>t \<in> set (run_tokens r'). tok_ID t = nx \<and> tok_Status t = TokenActive))"
    by blast+
qed

end
