(* ===== verification/Route_Invariant.thy ===== *)
theory Route_Invariant
  imports Join_Invariant
begin

text \<open>
  Routing keeps the invariant of a run: every turn of the loop of route, and every branch a split
  adds, takes a run with its pending work that satisfies runInv to one that does. Hence a call of
  route or tryJoin that succeeds leaves a run in which the tree of scopes accounts for every
  token, every open scope has an active token left to move it, and every active token rests on a
  task node.
\<close>

section \<open>A token that stops moving\<close>

text \<open>An active token that starts to wait, or is cancelled: its scope may have no work left.\<close>

lemma coreInv_quiet:
  assumes core: "coreInv X cl r A" and t: "t \<in> set A" "tok_Status t = TokenActive"
    and t': "tok_ID t' = tok_ID t" "tok_ScopeID t' = tok_ScopeID t"
      "tok_Status t' = TokenWaiting \<or> tok_Status t' = TokenCancelled"
    and ok: "tokenOK (run_d r) (c_ID (run_c r)) (run_scopes r) t'"
    and r': "run_c r' = run_c r" "run_d r' = run_d r" "run_scopes r' = run_scopes r"
      "run_drawn r' = run_drawn r" "grows r r'"
  shows "coreInv (insert (tok_ScopeID t) X) cl r' (replaceBy tok_ID t' A)"
proof -
  note c = coreInvD [OF core]
  have "\<forall>x \<in> set (replaceBy tok_ID t' A). tokenOK (run_d r) (c_ID (run_c r)) (run_scopes r) x"
    using ok c(4) by (auto simp: replaceBy_def)
  moreover have "freshIDs cl (run_drawn r) (run_scopes r) (replaceBy tok_ID t' A)"
    using c(2) by (simp add: freshIDs_def)
  ultimately show ?thesis
    using coreInvI [OF c(1) _ treeInv_quiet [OF c(3) t t'] _ c(5,6) r'(2,4,3,1) refl grows_nextSeq [OF r'(5)]] by blast
qed

lemma run_token_eq:
  assumes "coreInv X cl r (run_tokens r @ pd)" and "t \<in> set (run_tokens r)"
  shows "run_token r (tok_ID t) = Some t"
proof -
  have "distinct (map tok_ID (run_tokens r))" using coreInv_distinct [OF assms(1)] by simp
  with assms(2) show ?thesis by (auto simp: run_token_def intro: lookupBy_mem)
qed

section \<open>Entering a node\<close>

lemma arriveStep_runInv:
  assumes core: "coreInv {} cl r (allTokens r st)" and tok: "tok \<in> set (run_tokens r)" "tok_Status tok = TokenActive"
    and n: "Definition_Node (run_d r) (tr_To tr) = Some n" "node_Kind n = NodeJoin" "tok_Node tok = node_ID n"
    and rest: "restInv r {tok_ID tok}" and st: "\<forall>tk \<in> set st. isBranch tk \<and> taskOK r tk"
    and tr: "tr \<in> set (d_Transitions (run_d r))" "st \<noteq> [] \<Longrightarrow> automaticAt (run_d r) (tr_From tr)"
    and step: "arriveStep e cl db r tok n (tr_Outcome tr) = Inr (r', ts)"
  shows "runInv cl (r', ts @ st)"
proof -
  note c = coreInvD [OF core]
  let ?t = "tok\<lparr>tok_Status := TokenWaiting, tok_Outcome := tr_Outcome tr\<rparr>"
  from step obtain s ev where s: "run_scope r (tok_ScopeID tok) = Some s" and jn: "sc_JoinNode s = node_ID n"
    and js: "joinStep e cl db (emit (putToken r ?t) ev) s = Inr (r', ts)" (is "joinStep e cl db ?r s = _")
    by (auto simp: arriveStep_def split: option.splits if_splits)
  have smem: "s \<in> set (run_scopes r)" "sc_ID s = tok_ScopeID tok" using run_scope_Some [OF s] by auto
  have tokA: "tok \<in> set (allTokens r st)" using tok by (simp add: allTokens_def)
  have os: "openScope s"
    using treeInvD(2) [OF c(3)] tokA tok(2) smem treeShape_eq [OF treeInvD(1) [OF c(3)]]
    by (auto simp: tokensPlaced_def Live_def) metis
  have ok: "nodeOK n" by (rule Validate_nodes(2) [OF c(1)]) (use Definition_Node_Some [OF n(1)] in simp)
  have par: "sc_ParentID s \<noteq> None"
    using c(5) smem(1) jn ok by (auto simp: scopeOK_def nodeOK_def)
  have "Definition_Node (run_d r) (sc_JoinNode s) = Some n" using n(1) Definition_Node_Some [OF n(1)] jn by simp
  then have pol: "joinPolicyAt (run_d r) s = node_JoinPolicy n" by (simp add: joinPolicyAt_def)
  obtain fr where fr: "Definition_Node (run_d r) (tr_From tr) = Some fr" by (rule Validate_transition [OF c(1) tr(1)])
  note pt = Validate_policy_transition [OF c(1) tr(1) n(1,2) _ fr]
  have tOK: "tokenOK (run_d r) (c_ID (run_c r)) (run_scopes r) ?t"
    using c(4) tokA smem par jn n(3) pt(2) pol by (auto simp: tokenOK_def)
  have dist: "distinct (map tok_ID (allTokens r st))" by (rule coreInv_distinct [OF core])
  have toks: "run_tokens ?r = replaceBy tok_ID ?t (run_tokens r)" by (simp add: putToken_def)
  have "replaceBy tok_ID ?t (allTokens r st) = replaceBy tok_ID ?t (run_tokens r) @ pendTokens st"
    by (rule allTokens_replace [OF dist]) (use tok in force)
  moreover have "coreInv {tok_ScopeID tok} cl ?r (replaceBy tok_ID ?t (allTokens r st))"
    by (rule coreInv_quiet [OF core tokA tok(2) _ _ _ tOK]) (simp_all add: grows_def)
  ultimately have core': "coreInv {sc_ID s} cl ?r (run_tokens ?r @ pendTokens st)"
    using toks smem by simp
  have d: "run_d ?r = run_d r" and scopes: "run_scopes ?r = run_scopes r" by simp_all
  have pd: "\<forall>t \<in> set (pendTokens st). tok_Status t = TokenActive"
    using pendTokens_active [OF stackInv_branches [OF st refl]] by blast
  have "?t \<in> set (run_tokens ?r)"
    using tok(1) set_replaceBy [of tok_ID ?t "run_tokens r"] by (auto simp: putToken_def)
  then have work: "\<exists>t \<in> set (run_tokens ?r @ pendTokens st). tok_ScopeID t = sc_ID s \<and> Live (tok_Status t)"
    using smem by (intro bexI [of _ ?t]) (auto simp: Live_def)
  have "joinPolicyAt (run_d r) s \<noteq> JoinPolicyNone \<longrightarrow> pendTokens st = []"
  proof
    assume "joinPolicyAt (run_d r) s \<noteq> JoinPolicyNone"
    with pt(1) pol fr have "\<not> automaticAt (run_d r) (tr_From tr)" by (simp add: automaticAt_def)
    with tr(2) have "st = []" by blast
    then show "pendTokens st = []" by simp
  qed
  note res = coreInv_joinStep [OF core' refl pd, unfolded scopes d, OF smem(1) os par disjI1 [OF work] this js]
  have rest': "restInv ?r {}"
    by (rule restInv_replace [of r ?t "{}"]) (use rest toks in simp_all)
  have br: "\<forall>tk \<in> set st. isBranch tk" using st by blast
  have pend: "pendTokens ts = []" using res(4) by auto
  have tran: "transit (ts @ st) = transit ts" using transit_branches [OF br] by (auto simp: transit_def)
  have d': "run_d r' = run_d r" using res(2) by simp
  from res(4) have stack: "stackInv r' (ts @ st)"
  proof (elim disjE exE conjE)
    fix nx out assume "ts = [Go nx out '''' 0]" "out \<in> set (d_Transitions (run_d r))" "automaticAt (run_d r) (tr_From out)"
      "\<exists>t \<in> set (run_tokens r'). tok_ID t = nx \<and> tok_Status t = TokenActive"
    then show ?thesis using stackInv_GoI [OF st d'] by simp
  qed (use stackInv_branches [OF st d'] in simp)
  show ?thesis
    using res(1) res(3) [OF rest'] stack by (simp add: runInv_def allTokens_def pend tran)
qed

lemma enterNode_runInv:
  assumes core: "coreInv {} cl r (allTokens r st)" and tok: "tok \<in> set (run_tokens r)" "tok_Status tok = TokenActive"
    and n: "Definition_Node (run_d r) (tr_To tr) = Some n" "tok_Node tok = node_ID n"
    and rest: "restInv r {tok_ID tok}" and st: "\<forall>tk \<in> set st. isBranch tk \<and> taskOK r tk"
    and tr: "tr \<in> set (d_Transitions (run_d r))" "st \<noteq> [] \<Longrightarrow> automaticAt (run_d r) (tr_From tr)"
    and step: "enterNode e cl db r tok n tr h at = Inr (r', ts)"
  shows "runInv cl (r', ts @ st)"
proof -
  note c = coreInvD [OF core]
  have nmem: "n \<in> set (d_Nodes (run_d r))" "node_ID n = tr_To tr" using Definition_Node_Some [OF n(1)] by auto
  have at_n: "Definition_Node (run_d r) (node_ID n) = Some n" using n(1) nmem by simp
  have tokA: "tok \<in> set (allTokens r st)" using tok by (simp add: allTokens_def)
  have dist: "distinct (map tok_ID (allTokens r st))" by (rule coreInv_distinct [OF core])
  have br: "\<forall>tk \<in> set st. isBranch tk" using st by blast
  have replace: "replaceBy tok_ID t (allTokens r st) = replaceBy tok_ID t (run_tokens r) @ pendTokens st"
    if "tok_ID t = tok_ID tok" for t by (rule allTokens_replace [OF dist]) (use tok that in force)
  consider (decision) "node_Kind n = NodeDecision" | (split) "IsSplit (node_Kind n)" | (join) "node_Kind n = NodeJoin"
    | (close) "\<not> IsAutomatic (node_Kind n)" "node_Terminal n" | (rest) "\<not> IsAutomatic (node_Kind n)" "\<not> node_Terminal n"
    by (auto simp: IsAutomatic_def)
  then show ?thesis
  proof cases
    case decision
    with step obtain route where route: "route \<in> set (TransitionsFrom (run_d r) (node_ID n))"
      and r': "r' = r" "ts = [Go (tok_ID tok) route '''' (h + 1)]"
      by (auto simp: enterNode_def split: if_splits dest: resolveRoute_mem)
    have "automaticAt (run_d r) (tr_From route)"
      using automaticAt_node [OF at_n] decision route by (simp add: TransitionsFrom_mem)
    then have "stackInv r (Go (tok_ID tok) route '''' (h + 1) # st)"
      using route tok by (intro stackInv_GoI [OF st refl]) (auto simp: TransitionsFrom_mem)
    then show ?thesis using core rest r' transit_Go [OF br] by (simp add: runInv_def allTokens_def)
  next
    case split
    then obtain ps where sp: "openSplit e cl db r tok n = Inr (r', ps)" and ts: "ts = map (\<lambda>(b, tr). Branch b tr) ps"
      using step by (cases "node_Kind n") (auto simp: enterNode_def)
    note o = coreInv_openSplit [OF core tokA tok(2) nmem(1) split sp]
    let ?t = "ended (run_now r) TokenConsumed (nextSeq r) tok"
    have "coreInv {} cl r' (allTokens r' (ts @ st))"
      unfolding allTokens_def [of r' "ts @ st"] o(2)
      by (rule coreInv_perm [OF _ o(1) [unfolded replace [OF ended_simps(1)]]]) (simp add: ts)
    moreover have "restInv r' {}" by (rule restInv_replace [OF _ o(2,3), of "{}"]) (use rest in simp_all)
    moreover have all: "\<forall>tk \<in> set (ts @ st). isBranch tk \<and> taskOK r tk"
      using st o(4) automaticAt_node [OF at_n] split
      by (fastforce simp: ts isBranch_def taskOK_def TransitionsFrom_mem IsAutomatic_def)
    then have "stackInv r' (ts @ st)" "transit (ts @ st) = {}"
      using stackInv_branches [OF all o(3)] transit_branches [of "ts @ st"] by auto
    ultimately show ?thesis by (simp add: runInv_def)
  next
    case join
    with step have "arriveStep e cl db r tok n (tr_Outcome tr) = Inr (r', ts)" by (simp add: enterNode_def)
    from arriveStep_runInv [OF core tok n(1) join n(2) rest st tr this] show ?thesis .
  next
    case close
    then have cl: "closeCase r tok n (tr_Action tr) = Inr r'" and ts: "ts = []"
      using step by (auto simp: enterNode_def IsAutomatic_def)
    note o = coreInv_closeCase [OF core tokA tok(2,1) cl]
    have "tok \<notin> set (pendTokens st)" using dist tok by (auto simp: allTokens_def)
    moreover have "b = tok" if "b \<in> set (pendTokens st)" for b
      using o(4) that pendTokens_active [OF stackInv_branches [OF st refl]] by (auto simp: allTokens_def Live_def)
    ultimately have "pendTokens st = []" by (cases "pendTokens st") auto
    then have "st = []" using br by (cases st) (auto simp: isBranch_def split: task.splits)
    have "restInv r' {}" by (rule restInv_replace [OF _ o(2,3), of "{}"]) (use rest in simp_all)
    moreover have "coreInv {} cl r' (run_tokens r')" using o(1,2) \<open>st = []\<close> by (simp add: allTokens_def)
    ultimately show ?thesis using ts \<open>st = []\<close> by (simp add: runInv_def allTokens_def transit_def stackInv_def)
  next
    case resting: rest
    then have re: "restAt e db r tok n at = Inr r'" and ts: "ts = []"
      using step by (auto simp: enterNode_def IsAutomatic_def)
    obtain t where t: "tok_ID t = tok_ID tok" "tok_ScopeID t = tok_ScopeID tok" "tok_CaseID t = tok_CaseID tok"
      "tok_Node t = tok_Node tok" "tok_Status t = TokenActive" "run_tokens r' = replaceBy tok_ID t (run_tokens r)"
      and r': "run_c r' = run_c r" "run_d r' = run_d r" "run_scopes r' = run_scopes r" "run_drawn r' = run_drawn r" "grows r r'"
      by (rule restAt_Inr [OF re]) blast
    have "restsAt (run_d r) (tok_Node t)" using at_n resting n(2) t(4) by (auto simp: restsAt_def)
    then have "restInv r' {}" by (intro restInv_replace [OF _ t(6) r'(2), of "{}"]) (use rest t in simp_all)
    moreover have "coreInv {} cl r' (allTokens r' st)"
      using coreInv_move [OF core tokA tok(2) t(1-3,5) r'] replace [OF t(1)] t(6) by (simp add: allTokens_def)
    ultimately show ?thesis
      using ts stackInv_branches [OF st r'(2)] transit_branches [OF br] by (simp add: runInv_def)
  qed
qed

section \<open>Every step\<close>

theorem planStep_runInv:
  assumes "planStep e cl db (r, st) (r', st')" and "runInv cl (r, st)"
  shows "runInv cl (r', st')"
  using assms(1)
proof (cases rule: planStepE [consumes 1, case_names turn branch])
  case (turn tid tr cm h r1 ts st0)
  have inv: "coreInv {} cl r (allTokens r st0)" "restInv r (transit st)" "stackInv r (Go tid tr cm h # st0)"
    using assms(2) turn by (simp_all add: runInv_def allTokens_def)
  note s = stackInv_Go [OF inv(3)]
  from turn obtain nx tok where nx: "Definition_Node (run_d r) (tr_To tr) = Some nx" and tok: "run_token r tid = Some tok"
    and en: "enterNode e cl db (hop r tok nx tr cm) (moveTo r tok nx) nx tr h (length (run_events r)) = Inr (r', ts)"
    by (auto simp: advance_def split: option.splits)
  obtain t where t: "t \<in> set (run_tokens r)" "tok_ID t = tid" "tok_Status t = TokenActive" using s(5) by blast
  have "tok = t" using run_token_eq [OF inv(1) [unfolded allTokens_def] t(1)] t(2) tok by simp
  with t have tok': "tok \<in> set (run_tokens r)" "tok_ID tok = tid" "tok_Status tok = TokenActive" by auto
  then have tokA: "tok \<in> set (allTokens r st0)" by (simp add: allTokens_def)
  let ?r = "hop r tok nx tr cm" and ?t = "moveTo r tok nx"
  have "replaceBy tok_ID ?t (allTokens r st0) = allTokens ?r st0"
    unfolding allTokens_def [of ?r] hop_tokens by (rule allTokens_replace [OF coreInv_distinct [OF inv(1)]]) (use tok' in force)
  moreover have "coreInv {} cl ?r (replaceBy tok_ID ?t (allTokens r st0))"
    by (rule coreInv_move [OF inv(1) tokA tok'(3)]) (simp_all add: tok' hop_grows)
  ultimately have core: "coreInv {} cl ?r (allTokens ?r st0)" by simp
  have mem: "?t \<in> set (run_tokens ?r)"
    using tok'(1) set_replaceBy [of tok_ID ?t "run_tokens r"] unfolding hop_tokens by auto
  have d: "run_d ?r = run_d r" by simp
  have "transit st = {tid}" using turn transit_Go [OF s(2)] by simp
  with inv(2) have "restInv ?r {tok_ID ?t}"
    by (intro restInv_replace [of r ?t "{}", OF _ hop_tokens d]) (simp_all add: tok')
  moreover have "\<forall>tk \<in> set st0. isBranch tk \<and> taskOK ?r tk" using s(2,3) taskOK_branch [OF _ _ d] by blast
  ultimately have "runInv cl (r', ts @ st0)"
    using enterNode_runInv [OF core mem _ _ _ _ _ _ _ en] nx s(1,4) tok' by simp
  with turn show ?thesis by simp
next
  case (branch b tr st0)
  have inv: "coreInv {} cl r (allTokens r st)" "restInv r (transit st)" "stackInv r st"
    using assms(2) by (simp_all add: runInv_def)
  have br: "\<forall>tk \<in> set st0. isBranch tk \<and> taskOK r tk" and b: "taskOK r (Branch b tr)"
    using inv(3) branch by (auto simp: stackInv_def)
  have "allTokens r' st' = allTokens r st" using branch by (simp add: allTokens_def addToken_def)
  moreover have "coreInv {} cl r' (allTokens r st)"
    using inv(1) branch by (simp add: coreInv_def addToken_def nextSeq_def)
  moreover have "transit st' = {tok_ID b}" using branch br transit_Go [of st0] by simp
  moreover have "transit st = {}" using branch br by (intro transit_branches) (auto simp: isBranch_def)
  then have "restInv r' {tok_ID b}" using inv(2) branch by (auto simp: restInv_def addToken_def)
  moreover have "stackInv r' st'"
    using branch b by (auto intro!: stackInv_GoI [OF br] simp: taskOK_def addToken_def)
  ultimately show ?thesis by (simp add: runInv_def)
qed

end
