(* ===== verification/Operations.thy ===== *)
theory Operations
  imports Case_Run
begin

text \<open>
  The operations of the engine (workflow/open.go, workflow/move.go, workflow/assign.go,
  workflow/operations.go, workflow/cancel.go, workflow/failure.go and RefreshEligibility of
  workflow/queries.go). An operation reads the case, plans its change on a caseRun and then
  writes it: the plan is a function of the database, and only persist, appendEvent and the
  effect sink write.
\<close>

section \<open>Loading a case\<close>

definition loadToken :: "'db engine \<Rightarrow> 'db \<Rightarrow> Case \<Rightarrow> uuid \<Rightarrow> (caseRun \<times> Token) result" where
  "loadToken e db c tokenID =
     bindR (resolveDefinition e (c_Definition c) (c_Version c)) (\<lambda>d.
     bindR (loadRun e db c d) (\<lambda>r.
     bindR (pick r tokenID) (\<lambda>tok. Inr (r, tok))))"

definition checkOpen :: "Case \<Rightarrow> sentinel \<Rightarrow> unit result" where
  "checkOpen c err = requireR (c_Status c = StatusOpen) (Err err)"

section \<open>Opening a case\<close>

record OpenInput =
  oi_Definition :: string
  oi_Version :: int
  oi_Domain :: string
  oi_ExternalID :: string
  oi_Unit :: string
  oi_Tenant :: string
  oi_Actor :: Actor
  oi_ActorID :: string

text \<open>The case, its root scope and root token, as Open writes them.\<close>

definition openedCase :: "call \<Rightarrow> OpenInput \<Rightarrow> Definition \<Rightarrow> Node \<Rightarrow> Case" where
  "openedCase cl i d start =
     \<lparr>c_ID = cl_uuid cl 0, c_Definition = d_Name d, c_Version = d_Version d, c_Tenant = oi_Tenant i,
      c_Domain = oi_Domain i, c_ExternalID = oi_ExternalID i, c_Unit = oi_Unit i,
      c_State = node_ID start, c_Status = StatusOpen, c_AssignedTo = '''', c_OpenedAt = cl_now cl,
      c_ClosedAt = None, c_DeadlineAt = None, c_Revision = 0, c_LastSeq = 1, c_JoinResult = None\<rparr>"

definition rootScope :: "uuid \<Rightarrow> Scope" where
  "rootScope cid =
     \<lparr>sc_ID = cid, sc_CaseID = cid, sc_ParentID = None, sc_SplitNode = '''', sc_JoinNode = '''',
      sc_Expected = 1, sc_Status = ScopeOpen, sc_OpenedSeq = 1, sc_ClosedSeq = 0\<rparr>"

definition rootToken :: "call \<Rightarrow> OpenInput \<Rightarrow> uuid \<Rightarrow> Node \<Rightarrow> Token" where
  "rootToken cl i cid start =
     (newToken cid cid cid (node_ID start))
       \<lparr>tok_Eligible := resolvedEligibility start (oi_Unit i), tok_EnteredSeq := 1,
        tok_EnteredAt := cl_now cl\<rparr>"

definition openPlan :: "'db engine \<Rightarrow> call \<Rightarrow> OpenInput \<Rightarrow> 'db \<Rightarrow> (Actor \<times> Definition \<times> Node \<times> Case \<times> Token) result" where
  "openPlan e cl i db =
     bindR (resolveActor (oi_Actor i) (oi_ActorID i)) (\<lambda>actor.
     bindR (resolveDefinition e (oi_Definition i) (oi_Version i)) (\<lambda>d.
     case StartNode d of
       None \<Rightarrow> Inl (ErrText ''definition has no start node'')
     | Some start \<Rightarrow>
         bindR (checkEffectDB e d db) (\<lambda>_.
         let c = openedCase cl i d start; root = rootToken cl i (c_ID c) start in
         bindR (deadlineFor e start (cl_now cl) c root) (\<lambda>deadline.
         Inr (actor, d, start, c\<lparr>c_DeadlineAt := deadline\<rparr>, root\<lparr>tok_DeadlineAt := deadline\<rparr>)))))"

definition OpenDetailed :: "'db engine \<Rightarrow> call \<Rightarrow> OpenInput \<Rightarrow> ('db, MoveResult) action" where
  "OpenDetailed e cl i =
     bindA (readA (openPlan e cl i)) (\<lambda>(actor, d, start, c, root).
     bindA (r_Create (eng_repo e) c) (\<lambda>c.
     bindA (r_CreateScope (eng_repo e) (rootScope (c_ID c))) (\<lambda>_.
     bindA (r_CreateToken (eng_repo e) root) (\<lambda>_.
     bindA (appendEvent e cl 1 c
              ((tokenEvent EventOpened (c_ID c) (c_ID c) '''' (node_ID start))
                \<lparr>ev_Seq := c_LastSeq c, ev_DeadlineAt := c_DeadlineAt c, ev_Actor := actor,
                 ev_OccurredAt := cl_now cl\<rparr>)) (\<lambda>evt.
     bindA (dispatch e d c [evt]) (\<lambda>_.
     returnA \<lparr>mr_Case = c, mr_Events = [evt], mr_Joined = []\<rparr>))))))"

definition OpenCase :: "'db engine \<Rightarrow> call \<Rightarrow> OpenInput \<Rightarrow> ('db, Case) action" where
  "OpenCase e cl i = bindA (OpenDetailed e cl i) (\<lambda>res. returnA (mr_Case res))"

section \<open>Moving a token\<close>

record MoveInput =
  mi_CaseID :: uuid
  mi_TokenID :: uuid
  mi_Action :: string
  mi_Actor :: Actor
  mi_ActorID :: string
  mi_Comment :: string
  mi_Step :: "StepRecord option"
  mi_ExpectedRevision :: "int option"

definition hasReturnTransition :: "Transition list \<Rightarrow> bool" where
  "hasReturnTransition candidates = list_ex tr_Return candidates"

definition occupiedNodes :: "uuid \<Rightarrow> Event list \<Rightarrow> string list" where
  "occupiedNodes scopeID events =
     concat (map (\<lambda>ev. if ev_ScopeID ev \<noteq> scopeID then []
        else case ev_Kind ev of
               EventOpened \<Rightarrow> [ev_ToState ev]
             | EventMoved \<Rightarrow> [ev_FromState ev, ev_ToState ev]
             | _ \<Rightarrow> []) events)"

definition occupiedStates :: "'db engine \<Rightarrow> 'db \<Rightarrow> uuid \<Rightarrow> uuid \<Rightarrow> string list result" where
  "occupiedStates e db caseID scopeID =
     bindR (listEvents e db caseID) (\<lambda>events. Inr (occupiedNodes scopeID events))"

text \<open>The checks on the transition a person asks for, in the order Move makes them.\<close>

definition checkReturn :: "'db engine \<Rightarrow> 'db \<Rightarrow> uuid \<Rightarrow> Token \<Rightarrow> Transition \<Rightarrow> unit result" where
  "checkReturn e db caseID tok tr =
     (if \<not> tr_Return tr then Inr ()
      else bindR (occupiedStates e db caseID (tok_ScopeID tok)) (\<lambda>occupied.
             requireR (tr_To tr \<in> set occupied) (Err ErrReturnNotVisited)))"

definition checkGuard :: "'db engine \<Rightarrow> 'db \<Rightarrow> caseRun \<Rightarrow> Token \<Rightarrow> Transition \<Rightarrow> unit result" where
  "checkGuard e db r tok tr =
     (if tr_Guard tr = '''' then Inr ()
      else bindR (evalGuard e db (tr_Guard tr) (snapshot r tok (tok_Node tok))) (\<lambda>ok.
             requireR ok (Err ErrGuardRejected)))"

definition submitStep :: "caseRun \<Rightarrow> Token \<Rightarrow> MoveInput \<Rightarrow> caseRun" where
  "submitStep r tok i =
     (case mi_Step i of
        None \<Rightarrow> r
      | Some st \<Rightarrow>
          emit r ((tokenEvent EventStepSubmitted (tok_ID tok) (tok_ScopeID tok) (tok_Node tok) (tok_Node tok))
            \<lparr>ev_Action := mi_Action i, ev_Detail := DetailStep st\<rparr>))"

definition movePlan :: "'db engine \<Rightarrow> call \<Rightarrow> MoveInput \<Rightarrow> 'db \<Rightarrow> (Definition \<times> caseRun) result" where
  "movePlan e cl i db =
     bindR (resolveActor (mi_Actor i) (mi_ActorID i)) (\<lambda>actor.
     bindR (r_GetByID (eng_repo e) (mi_CaseID i) db) (\<lambda>c.
     bindR (checkRevision c (mi_ExpectedRevision i)) (\<lambda>_.
     bindR (checkOpen c ErrCaseClosed) (\<lambda>_.
     bindR (resolveDefinition e (c_Definition c) (c_Version c)) (\<lambda>d.
     bindR (checkEffectDB e d db) (\<lambda>_.
     bindR (loadRun e db c d) (\<lambda>r.
     bindR (pick r (mi_TokenID i)) (\<lambda>tok.
     case findTransition (TransitionsFrom d (tok_Node tok)) (mi_Action i) of
       None \<Rightarrow> Inl (Err ErrInvalidTransition)
     | Some tr \<Rightarrow>
         bindR (checkComment (tr_Comment tr) (trimSpace (mi_Comment i))) (\<lambda>_.
         bindR (checkReturn e db (mi_CaseID i) tok tr) (\<lambda>_.
         bindR (checkGuard e db r tok tr) (\<lambda>_.
         bindR (route e cl db (submitStep (beginRun r (cl_now cl) actor) tok i) (tok_ID tok) tr
                  (trimSpace (mi_Comment i)) 0) (\<lambda>r'.
         Inr (d, r')))))))))))))"

definition MoveDetailed :: "'db engine \<Rightarrow> call \<Rightarrow> MoveInput \<Rightarrow> ('db, MoveResult) action" where
  "MoveDetailed e cl i =
     bindA (readA (movePlan e cl i)) (\<lambda>(d, r).
     bindA (persist e cl r) (\<lambda>(c, appended).
     bindA (dispatch e d c appended) (\<lambda>_.
     returnA \<lparr>mr_Case = c, mr_Events = appended, mr_Joined = run_joined r\<rparr>)))"

definition Move :: "'db engine \<Rightarrow> call \<Rightarrow> MoveInput \<Rightarrow> ('db, Case) action" where
  "Move e cl i = bindA (MoveDetailed e cl i) (\<lambda>res. returnA (mr_Case res))"

section \<open>Assignment\<close>

record ClaimInput =
  ci_CaseID :: uuid
  ci_TokenID :: uuid
  ci_Actor :: Actor
  ci_ExpectedRevision :: "int option"

record ReleaseInput =
  ri_CaseID :: uuid
  ri_TokenID :: uuid
  ri_Actor :: Actor
  ri_Reason :: string
  ri_ExpectedRevision :: "int option"

record ReassignInput =
  ra_CaseID :: uuid
  ra_TokenID :: uuid
  ra_To :: string
  ra_Actor :: Actor
  ra_Reason :: string
  ra_ExpectedRevision :: "int option"

text \<open>
  One token changes in place and one event records it: what ClaimWith, ReleaseWith, Reassign and
  SetDeadline do with the run.
\<close>

definition editToken :: "caseRun \<Rightarrow> Token \<Rightarrow> EventKind \<Rightarrow> Detail \<Rightarrow> caseRun" where
  "editToken r tok kind detail =
     emit (touch (putToken r tok) (tok_ID tok))
       ((tokenEvent kind (tok_ID tok) (tok_ScopeID tok) (tok_Node tok) (tok_Node tok))\<lparr>ev_Detail := detail\<rparr>)"

text \<open>A plan without a run writes nothing: the actor already holds the token.\<close>

definition claimPlan :: "'db engine \<Rightarrow> call \<Rightarrow> ClaimInput \<Rightarrow> 'db \<Rightarrow> (Case \<times> caseRun option) result" where
  "claimPlan e cl i db =
     bindR (resolveActor (ci_Actor i) '''') (\<lambda>actor.
     bindR (requireR (ac_ID actor \<noteq> '''') (Err ErrInvalidActor)) (\<lambda>_.
     bindR (r_GetByID (eng_repo e) (ci_CaseID i) db) (\<lambda>c.
     bindR (checkRevision c (ci_ExpectedRevision i)) (\<lambda>_.
     bindR (checkOpen c ErrCaseClosed) (\<lambda>_.
     bindR (loadToken e db c (ci_TokenID i)) (\<lambda>(r, tok).
     if tok_AssignedTo tok \<noteq> '''' then
       (if tok_AssignedTo tok = ac_ID actor then Inr (c, None) else Inl (Err ErrAlreadyAssigned))
     else Inr (c, Some (editToken (beginRun r (cl_now cl) actor) (tok\<lparr>tok_AssignedTo := ac_ID actor\<rparr>)
            EventAssigned (DetailAssignment \<lparr>ad_From = '''', ad_To = ac_ID actor, ad_Reason = ''''\<rparr>)))))))))"

definition ClaimWith :: "'db engine \<Rightarrow> call \<Rightarrow> ClaimInput \<Rightarrow> ('db, Case) action" where
  "ClaimWith e cl i =
     bindA (readA (claimPlan e cl i)) (\<lambda>(c, plan).
     case plan of
       None \<Rightarrow> returnA c
     | Some r \<Rightarrow> bindA (persist e cl r) (\<lambda>(c', _). returnA c'))"

definition releasePlan :: "'db engine \<Rightarrow> call \<Rightarrow> ReleaseInput \<Rightarrow> 'db \<Rightarrow> caseRun result" where
  "releasePlan e cl i db =
     bindR (resolveActor (ri_Actor i) '''') (\<lambda>actor.
     bindR (r_GetByID (eng_repo e) (ri_CaseID i) db) (\<lambda>c.
     bindR (checkRevision c (ri_ExpectedRevision i)) (\<lambda>_.
     bindR (checkOpen c ErrNotAssigned) (\<lambda>_.
     bindR (loadToken e db c (ri_TokenID i)) (\<lambda>(r, tok).
     bindR (requireR (tok_AssignedTo tok \<noteq> '''') (Err ErrNotAssigned)) (\<lambda>_.
     bindR (requireR (ac_ID actor = tok_AssignedTo tok \<or> trimSpace (ri_Reason i) \<noteq> '''')
              (Err ErrReasonRequired)) (\<lambda>_.
     Inr (editToken (beginRun r (cl_now cl) actor) (tok\<lparr>tok_AssignedTo := ''''\<rparr>) EventUnassigned
       (DetailAssignment \<lparr>ad_From = tok_AssignedTo tok, ad_To = '''', ad_Reason = ri_Reason i\<rparr>)))))))))"

definition ReleaseWith :: "'db engine \<Rightarrow> call \<Rightarrow> ReleaseInput \<Rightarrow> ('db, Case) action" where
  "ReleaseWith e cl i =
     bindA (readA (releasePlan e cl i)) (\<lambda>r. bindA (persist e cl r) (\<lambda>(c, _). returnA c))"

definition reassignPlan :: "'db engine \<Rightarrow> call \<Rightarrow> ReassignInput \<Rightarrow> 'db \<Rightarrow> caseRun result" where
  "reassignPlan e cl i db =
     bindR (requireR (trimSpace (ra_Reason i) \<noteq> '''') (Err ErrReasonRequired)) (\<lambda>_.
     bindR (requireR (ra_To i \<noteq> '''') (Err ErrInvalidActor)) (\<lambda>_.
     bindR (resolveActor (ra_Actor i) '''') (\<lambda>actor.
     bindR (r_GetByID (eng_repo e) (ra_CaseID i) db) (\<lambda>c.
     bindR (checkRevision c (ra_ExpectedRevision i)) (\<lambda>_.
     bindR (checkOpen c ErrCaseClosed) (\<lambda>_.
     bindR (loadToken e db c (ra_TokenID i)) (\<lambda>(r, tok).
     Inr (editToken (beginRun r (cl_now cl) actor) (tok\<lparr>tok_AssignedTo := ra_To i\<rparr>) EventAssigned
       (DetailAssignment \<lparr>ad_From = tok_AssignedTo tok, ad_To = ra_To i,
          ad_Reason = trimSpace (ra_Reason i)\<rparr>)))))))))"

definition Reassign :: "'db engine \<Rightarrow> call \<Rightarrow> ReassignInput \<Rightarrow> ('db, Case) action" where
  "Reassign e cl i =
     bindA (readA (reassignPlan e cl i)) (\<lambda>r. bindA (persist e cl r) (\<lambda>(c, _). returnA c))"

definition humanActor :: "string \<Rightarrow> Actor" where
  "humanActor actorID = zeroActor\<lparr>ac_Kind := ActorHuman, ac_ID := actorID\<rparr>"

definition Claim :: "'db engine \<Rightarrow> call \<Rightarrow> uuid \<Rightarrow> string \<Rightarrow> ('db, Case) action" where
  "Claim e cl caseID actorID =
     ClaimWith e cl \<lparr>ci_CaseID = caseID, ci_TokenID = uuidNil, ci_Actor = humanActor actorID,
       ci_ExpectedRevision = None\<rparr>"

definition Release :: "'db engine \<Rightarrow> call \<Rightarrow> uuid \<Rightarrow> string \<Rightarrow> ('db, Case) action" where
  "Release e cl caseID actorID =
     ReleaseWith e cl \<lparr>ri_CaseID = caseID, ri_TokenID = uuidNil, ri_Actor = humanActor actorID,
       ri_Reason = '''', ri_ExpectedRevision = None\<rparr>"

section \<open>Deadlines\<close>

record SetDeadlineInput =
  si_CaseID :: uuid
  si_TokenID :: uuid
  si_DeadlineAt :: "time option"
  si_Actor :: Actor
  si_Reason :: string
  si_ExpectedRevision :: "int option"

definition setDeadlinePlan :: "'db engine \<Rightarrow> call \<Rightarrow> SetDeadlineInput \<Rightarrow> 'db \<Rightarrow> caseRun result" where
  "setDeadlinePlan e cl i db =
     bindR (requireR (trimSpace (si_Reason i) \<noteq> '''') (Err ErrReasonRequired)) (\<lambda>_.
     bindR (resolveActor (si_Actor i) '''') (\<lambda>actor.
     bindR (r_GetByID (eng_repo e) (si_CaseID i) db) (\<lambda>c.
     bindR (checkRevision c (si_ExpectedRevision i)) (\<lambda>_.
     bindR (checkOpen c ErrCaseClosed) (\<lambda>_.
     bindR (loadToken e db c (si_TokenID i)) (\<lambda>(r, tok).
     Inr (editToken (beginRun r (cl_now cl) actor)
       (tok\<lparr>tok_DeadlineAt := si_DeadlineAt i, tok_ExpiredDeadline := None\<rparr>) EventDeadlineChanged
       (DetailDeadline \<lparr>dd_From = tok_DeadlineAt tok, dd_To = si_DeadlineAt i,
          dd_Reason = trimSpace (si_Reason i)\<rparr>))))))))"

definition SetDeadline :: "'db engine \<Rightarrow> call \<Rightarrow> SetDeadlineInput \<Rightarrow> ('db, Case) action" where
  "SetDeadline e cl i =
     bindA (readA (setDeadlinePlan e cl i)) (\<lambda>r. bindA (persist e cl r) (\<lambda>(c, _). returnA c))"

record ExpireInput =
  xi_CaseID :: uuid
  xi_TokenID :: uuid
  xi_Actor :: Actor

text \<open>The transition Expire takes: the node's OnExpire, when it has one.\<close>

definition onExpire :: "'db engine \<Rightarrow> 'db \<Rightarrow> caseRun \<Rightarrow> Token \<Rightarrow> Transition option result" where
  "onExpire e db r tok =
     (case Definition_Node (run_d r) (tok_Node tok) of
        None \<Rightarrow> Inr None
      | Some node \<Rightarrow>
          if node_OnExpire node = '''' then Inr None
          else case findTransition (TransitionsFrom (run_d r) (tok_Node tok)) (node_OnExpire node) of
                 None \<Rightarrow> Inl (Err ErrInvalidTransition)
               | Some tr \<Rightarrow>
                   bindR (checkEffectDB e (run_d r) db) (\<lambda>_.
                   bindR (checkGuard e db r tok tr) (\<lambda>_. Inr (Some tr))))"

definition markExpired :: "caseRun \<Rightarrow> Token \<Rightarrow> time \<Rightarrow> caseRun" where
  "markExpired r tok deadline =
     editToken r (tok\<lparr>tok_ExpiredDeadline := Some deadline\<rparr>) EventExpired (DetailExpiry deadline)"

definition expireRoute :: "'db engine \<Rightarrow> call \<Rightarrow> 'db \<Rightarrow> caseRun \<Rightarrow> uuid \<Rightarrow> Transition \<Rightarrow> caseRun result" where
  "expireRoute e cl db r tid tr =
     (let hop = length (run_events r) in
      bindR (route e cl db r tid tr '''' 0) (\<lambda>r'.
      Inr (r'\<lparr>run_events := (run_events r')[hop := (run_events r' ! hop)\<lparr>ev_Detail := DetailCause ''expired''\<rparr>]\<rparr>)))"

text \<open>The plan tells whether a transition was taken: only then are effects dispatched.\<close>

definition expirePlan :: "'db engine \<Rightarrow> call \<Rightarrow> ExpireInput \<Rightarrow> 'db \<Rightarrow> (Definition \<times> caseRun \<times> bool) result" where
  "expirePlan e cl i db =
     bindR (resolveActor (xi_Actor i) '''') (\<lambda>actor.
     bindR (requireR (ac_Kind actor = ActorSystem) (Err ErrInvalidActor)) (\<lambda>_.
     bindR (r_GetByID (eng_repo e) (xi_CaseID i) db) (\<lambda>c.
     bindR (checkOpen c ErrCaseClosed) (\<lambda>_.
     bindR (resolveDefinition e (c_Definition c) (c_Version c)) (\<lambda>d.
     bindR (loadRun e db c d) (\<lambda>r.
     bindR (pick r (xi_TokenID i)) (\<lambda>tok.
     case tok_DeadlineAt tok of
       None \<Rightarrow> Inl (Err ErrNotOverdue)
     | Some deadline \<Rightarrow>
         bindR (requireR (deadline < cl_now cl) (Err ErrNotOverdue)) (\<lambda>_.
         bindR (requireR (tok_ExpiredDeadline tok \<noteq> Some deadline) (Err ErrAlreadyExpired)) (\<lambda>_.
         bindR (onExpire e db r tok) (\<lambda>taken.
         let r = markExpired (beginRun r (cl_now cl) actor) tok deadline in
         case taken of
           None \<Rightarrow> Inr (d, r, False)
         | Some tr \<Rightarrow> bindR (expireRoute e cl db r (tok_ID tok) tr) (\<lambda>r'. Inr (d, r', True))))))))))))"

definition Expire :: "'db engine \<Rightarrow> call \<Rightarrow> ExpireInput \<Rightarrow> ('db, MoveResult) action" where
  "Expire e cl i =
     bindA (readA (expirePlan e cl i)) (\<lambda>(d, r, moved).
     bindA (persist e cl r) (\<lambda>(c, appended).
     bindA (if moved then dispatch e d c appended else returnA ()) (\<lambda>_.
     returnA \<lparr>mr_Case = c, mr_Events = appended, mr_Joined = run_joined r\<rparr>)))"

section \<open>Cancelling\<close>

record CancelInput =
  ca_CaseID :: uuid
  ca_Actor :: Actor
  ca_Reason :: string
  ca_ExpectedRevision :: "int option"

record CancelTokenInput =
  ct_CaseID :: uuid
  ct_TokenID :: uuid
  ct_Actor :: Actor
  ct_Reason :: string

definition cancelOne :: "caseRun \<Rightarrow> Token \<Rightarrow> string \<Rightarrow> caseRun" where
  "cancelOne r t reason =
     (let seq = nextSeq r;
          r = emit r ((tokenEvent EventTokenCancelled (tok_ID t) (tok_ScopeID t) (tok_Node t) (tok_Node t))
                \<lparr>ev_Detail := DetailCancel reason\<rparr>)
      in endToken r t TokenCancelled seq)"

fun cancelLive :: "string \<Rightarrow> Token list \<Rightarrow> caseRun \<Rightarrow> caseRun result" where
  "cancelLive reason [] r = Inr r"
| "cancelLive reason (l # ls) r =
     (case run_token r (tok_ID l) of
        None \<Rightarrow> Inl panic
      | Some t \<Rightarrow> cancelLive reason ls (cancelOne r t reason))"

definition cancelOpenScopes :: "caseRun \<Rightarrow> int \<Rightarrow> caseRun" where
  "cancelOpenScopes r seq =
     foldl (\<lambda>r s. if sc_Status s = ScopeOpen then endScope r s ScopeCancelled seq else r) r (run_scopes r)"

definition cancelCase :: "caseRun \<Rightarrow> string \<Rightarrow> caseRun result" where
  "cancelCase r reason =
     bindR (cancelLive reason (sortTokens (filter (\<lambda>t. Live (tok_Status t)) (run_tokens r))) r) (\<lambda>r.
     let c = run_c r; seq = nextSeq r;
         r = emit r ((tokenEvent EventCancelled (c_ID c) (c_ID c) (c_State c) (c_State c))
               \<lparr>ev_Detail := DetailCancel reason\<rparr>);
         r = cancelOpenScopes r seq
     in Inr (r\<lparr>run_c := c\<lparr>c_Status := StatusCancelled, c_ClosedAt := Some (run_now r)\<rparr>\<rparr>))"

definition cancelPlan :: "'db engine \<Rightarrow> call \<Rightarrow> CancelInput \<Rightarrow> 'db \<Rightarrow> caseRun result" where
  "cancelPlan e cl i db =
     bindR (requireR (trimSpace (ca_Reason i) \<noteq> '''') (Err ErrReasonRequired)) (\<lambda>_.
     bindR (resolveActor (ca_Actor i) '''') (\<lambda>actor.
     bindR (r_GetByID (eng_repo e) (ca_CaseID i) db) (\<lambda>c.
     bindR (checkRevision c (ca_ExpectedRevision i)) (\<lambda>_.
     bindR (checkOpen c ErrCaseClosed) (\<lambda>_.
     bindR (resolveDefinition e (c_Definition c) (c_Version c)) (\<lambda>d.
     bindR (loadRun e db c d) (\<lambda>r.
     cancelCase (beginRun r (cl_now cl) actor) (trimSpace (ca_Reason i)))))))))"

definition Cancel :: "'db engine \<Rightarrow> call \<Rightarrow> CancelInput \<Rightarrow> ('db, Case) action" where
  "Cancel e cl i =
     bindA (readA (cancelPlan e cl i)) (\<lambda>r. bindA (persist e cl r) (\<lambda>(c, _). returnA c))"

text \<open>The other live branches of a token's scope: live siblings and open child scopes.\<close>

definition otherBranches :: "caseRun \<Rightarrow> Token \<Rightarrow> nat" where
  "otherBranches r tok =
     countIf (\<lambda>t. tok_ScopeID t = tok_ScopeID tok \<and> tok_ID t \<noteq> tok_ID tok \<and> Live (tok_Status t)) (run_tokens r) +
     countIf (\<lambda>s. sc_ParentID s = Some (tok_ScopeID tok) \<and> sc_Status s = ScopeOpen) (run_scopes r)"

definition cancelTokenPlan :: "'db engine \<Rightarrow> call \<Rightarrow> CancelTokenInput \<Rightarrow> 'db \<Rightarrow> (Definition \<times> caseRun) result" where
  "cancelTokenPlan e cl i db =
     bindR (requireR (trimSpace (ct_Reason i) \<noteq> '''') (Err ErrReasonRequired)) (\<lambda>_.
     bindR (requireR (ct_TokenID i \<noteq> uuidNil) (Err ErrTokenNotFound)) (\<lambda>_.
     bindR (resolveActor (ct_Actor i) '''') (\<lambda>actor.
     bindR (r_GetByID (eng_repo e) (ct_CaseID i) db) (\<lambda>c.
     bindR (checkOpen c ErrCaseClosed) (\<lambda>_.
     bindR (resolveDefinition e (c_Definition c) (c_Version c)) (\<lambda>d.
     bindR (checkEffectDB e d db) (\<lambda>_.
     bindR (loadRun e db c d) (\<lambda>r.
     bindR (pick r (ct_TokenID i)) (\<lambda>tok.
     bindR (requireR (otherBranches r tok \<noteq> 0) (Err ErrLastBranch)) (\<lambda>_.
     let r = cancelOne (beginRun r (cl_now cl) actor) tok (trimSpace (ct_Reason i)) in
     case run_scope r (tok_ScopeID tok) of
       None \<Rightarrow> Inl panic
     | Some scope \<Rightarrow> bindR (tryJoin (route e cl db) e cl db r scope) (\<lambda>r'. Inr (d, r'))))))))))))"

definition CancelToken :: "'db engine \<Rightarrow> call \<Rightarrow> CancelTokenInput \<Rightarrow> ('db, MoveResult) action" where
  "CancelToken e cl i =
     bindA (readA (cancelTokenPlan e cl i)) (\<lambda>(d, r).
     bindA (persist e cl r) (\<lambda>(c, appended).
     bindA (dispatch e d c appended) (\<lambda>_.
     returnA \<lparr>mr_Case = c, mr_Events = appended, mr_Joined = run_joined r\<rparr>)))"

section \<open>Recorded failures\<close>

record FailureInput =
  fi_CaseID :: uuid
  fi_TokenID :: uuid
  fi_Actor :: Actor
  fi_Action :: string
  fi_Kind :: FailureKind
  fi_Detail :: rawJSON

text \<open>The token a failure names, when it names one; a repeated ID would give the last.\<close>

definition failureToken :: "'db engine \<Rightarrow> FailureInput \<Rightarrow> 'db \<Rightarrow> Token option result" where
  "failureToken e i db =
     (if fi_TokenID i = uuidNil then Inr None
      else bindR (r_ListTokens (eng_repo e) (fi_CaseID i) db) (\<lambda>tokens.
           case lookupBy tok_ID (fi_TokenID i) (rev tokens) of
             None \<Rightarrow> Inl (Err ErrTokenNotFound)
           | Some t \<Rightarrow> Inr (Some t)))"

definition failurePlan :: "'db engine \<Rightarrow> FailureInput \<Rightarrow> 'db \<Rightarrow> (Actor \<times> Token option) result" where
  "failurePlan e i db =
     bindR (requireR (FailureKind_Valid (fi_Kind i)) (Err ErrInvalidFailure)) (\<lambda>_.
     bindR (requireR (fi_Detail i = RawAbsent \<or> isJSONObject (fi_Detail i)) (Err ErrInvalidFailure)) (\<lambda>_.
     bindR (resolveActor (fi_Actor i) '''') (\<lambda>actor.
     bindR (failureToken e i db) (\<lambda>tok. Inr (actor, tok)))))"

definition failureEvent :: "call \<Rightarrow> FailureInput \<Rightarrow> Actor \<Rightarrow> Token option \<Rightarrow> Case \<Rightarrow> Event" where
  "failureEvent cl i actor tok c =
     (let (tid, sid, node) = (case tok of None \<Rightarrow> (c_ID c, c_ID c, c_State c)
                                        | Some t \<Rightarrow> (tok_ID t, tok_ScopeID t, tok_Node t))
      in (tokenEvent (if fi_Kind i = FailureNoRoute then EventNoRoute else EventFailed) tid sid node node)
           \<lparr>ev_Seq := c_LastSeq c, ev_Action := fi_Action i, ev_Actor := actor,
            ev_OccurredAt := cl_now cl,
            ev_Detail := DetailFailure \<lparr>fd_Kind = fi_Kind i, fd_Detail = fi_Detail i\<rparr>\<rparr>)"

definition RecordFailure :: "'db engine \<Rightarrow> call \<Rightarrow> FailureInput \<Rightarrow> ('db, Event) action" where
  "RecordFailure e cl i =
     bindA (readA (failurePlan e i)) (\<lambda>(actor, tok).
     bindA (r_AdvanceLastSeq (eng_repo e) (fi_CaseID i)) (\<lambda>c.
     appendEvent e cl 0 c (failureEvent cl i actor tok c)))"

definition failureKinds :: "(sentinel \<times> FailureKind) list" where
  "failureKinds =
     [(ErrNoRoute, FailureNoRoute), (ErrGuardRejected, FailureGuardRejected),
      (ErrConflict, FailureConflict), (ErrInvalidActor, FailureValidationFailed),
      (ErrCommentRequired, FailureCommentRejected), (ErrCommentNotAllowed, FailureCommentRejected),
      (ErrReturnNotVisited, FailureReturnNotVisited), (ErrInvalidTransition, FailureTransitionNotFound)]"

definition FailureKindOf :: "error \<Rightarrow> FailureKind option" where
  "FailureKindOf err = map_option snd (find (\<lambda>(s, k). errorsIs err s) failureKinds)"

section \<open>Refreshing eligibility\<close>

definition refreshPlan :: "'db engine \<Rightarrow> call \<Rightarrow> uuid \<Rightarrow> 'db \<Rightarrow> caseRun option result" where
  "refreshPlan e cl caseID db =
     bindR (r_GetByID (eng_repo e) caseID db) (\<lambda>c.
     if c_Status c \<noteq> StatusOpen then Inr None
     else bindR (resolveDefinition e (c_Definition c) (c_Version c)) (\<lambda>d.
          bindR (loadRun e db c d) (\<lambda>r.
          Inr (if run_changed r = [] \<and> run_created r = [] then None
               else Some (beginRun r (cl_now cl) zeroActor)))))"

definition RefreshEligibility :: "'db engine \<Rightarrow> call \<Rightarrow> uuid \<Rightarrow> ('db, bool) action" where
  "RefreshEligibility e cl caseID =
     bindA (readA (refreshPlan e cl caseID)) (\<lambda>plan.
     case plan of
       None \<Rightarrow> returnA False
     | Some r \<Rightarrow> bindA (persist e cl r) (\<lambda>_. returnA True))"

end
