(* ===== verification/Plan_Invariant.thy ===== *)
theory Plan_Invariant
  imports Route_Invariant Operations
begin

text \<open>
  The plans of the operations keep the invariant. stateOK is the invariant of a stored case:
  its scopes and tokens form a tree of branches in which nothing is lost and nothing is stuck.
  A run loaded from such a case satisfies caseInv, every plan of Operations takes it to a run
  that does, and what persist writes of that run is again a case that satisfies stateOK.
\<close>

section \<open>The invariant of a case\<close>

definition stateOK :: "Definition \<Rightarrow> Case \<Rightarrow> Scope list \<Rightarrow> Token list \<Rightarrow> bool" where
  "stateOK d c ss ts \<longleftrightarrow> Validate d = [] \<and> treeInv {} (c_ID c) (c_LastSeq c + 1) ss ts \<and>
     (\<forall>t \<in> set ts. tokenOK d (c_ID c) ss t) \<and> (\<forall>s \<in> set ss. scopeOK d (c_ID c) s) \<and> caseOK c ss \<and>
     (\<forall>t \<in> set ts. tok_Status t = TokenActive \<longrightarrow> restsAt d (tok_Node t))"

definition caseInv :: "call \<Rightarrow> caseRun \<Rightarrow> bool" where
  "caseInv cl r \<longleftrightarrow> coreInv {} cl r (run_tokens r) \<and> restInv r {}"

text \<open>The case as persist writes it.\<close>

definition writtenCase :: "caseRun \<Rightarrow> Case" where
  "writtenCase r = (run_c (project r))\<lparr>c_LastSeq := run_baseSeq r + int (length (run_events r))\<rparr>"

lemma project_simps [simp]:
  "run_tokens (project r) = run_tokens r" "run_scopes (project r) = run_scopes r"
  "run_created (project r) = run_created r" "run_changed (project r) = run_changed r"
  "run_d (project r) = run_d r" "run_events (project r) = run_events r"
  "run_baseSeq (project r) = run_baseSeq r" "run_drawn (project r) = run_drawn r"
  "run_joined (project r) = run_joined r"
  "c_ID (run_c (project r)) = c_ID (run_c r)" "c_Status (run_c (project r)) = c_Status (run_c r)"
  "c_Definition (run_c (project r)) = c_Definition (run_c r)" "c_Version (run_c (project r)) = c_Version (run_c r)"
  "c_Revision (run_c (project r)) = c_Revision (run_c r)" "c_Tenant (run_c (project r)) = c_Tenant (run_c r)"
  by (simp_all add: project_def Let_def split: list.split)

lemma writtenCase_simps [simp]:
  "c_ID (writtenCase r) = c_ID (run_c r)" "c_Status (writtenCase r) = c_Status (run_c r)"
  "c_LastSeq (writtenCase r) = run_baseSeq r + int (length (run_events r))"
  "c_Definition (writtenCase r) = c_Definition (run_c r)" "c_Version (writtenCase r) = c_Version (run_c r)"
  by (simp_all add: writtenCase_def)

lemma caseInv_stateOK:
  "caseInv cl r \<longleftrightarrow> freshIDs cl (run_drawn r) (run_scopes r) (run_tokens r) \<and>
     stateOK (run_d r) (writtenCase r) (run_scopes r) (run_tokens r)"
  by (auto simp: caseInv_def coreInv_def stateOK_def restInv_def caseOK_def nextSeq_def)

lemma caseInv_runInv: "caseInv cl r \<longleftrightarrow> runInv cl (r, [])"
  by (simp add: caseInv_def runInv_def allTokens_def transit_def stackInv_def)

text \<open>An open case has an active token, and every active token rests on a task node.\<close>

lemma stateOK_active:
  assumes "stateOK d c ss ts" and "c_Status c = StatusOpen"
  obtains t n where "t \<in> set ts" and "tok_Status t = TokenActive" and "Definition_Node d (tok_Node t) = Some n"
    and "\<not> IsAutomatic (node_Kind n)" and "\<not> node_Terminal n"
proof -
  have inv: "treeInv {} (c_ID c) (c_LastSeq c + 1) ss ts" using assms by (simp add: stateOK_def)
  obtain s where s: "s \<in> set ss" "sc_ID s = c_ID c" by (rule treeShape_root [OF treeInvD(1) [OF inv]])
  have "openScope s" using assms s by (auto simp: stateOK_def caseOK_def)
  from treeInv_active [OF inv s(1) this] obtain t where "t \<in> set ts" "tok_Status t = TokenActive" by blast
  with assms that show thesis by (auto simp: stateOK_def restsAt_def)
qed

text \<open>A case that ended has no live token and no open scope.\<close>

lemma stateOK_ended:
  assumes "stateOK d c ss ts" and "c_Status c \<noteq> StatusOpen"
  shows "\<forall>s \<in> set ss. \<not> openScope s" and "\<forall>t \<in> set ts. \<not> Live (tok_Status t)"
proof -
  have inv: "treeInv {} (c_ID c) (c_LastSeq c + 1) ss ts" using assms by (simp add: stateOK_def)
  note shape = treeInvD(1) [OF inv]
  show none: "\<forall>s \<in> set ss. \<not> openScope s"
  proof
    fix s assume "s \<in> set ss"
    from shape this show "\<not> openScope s"
    proof (induction rule: treeShape_induct)
      case (scope s)
      show ?case
      proof (cases "sc_ParentID s")
        case None
        with shape scope have "sc_ID s = c_ID c" by (simp add: treeShape_def)
        with assms scope show ?thesis by (auto simp: stateOK_def caseOK_def)
      next
        case (Some p)
        from treeShape_parent [OF shape scope(1) this] obtain q where "q \<in> set ss" "sc_ID q = p" "openScope s \<Longrightarrow> openScope q"
          by blast
        with scope(2) [of q] Some show ?thesis by blast
      qed
    qed
  qed
  show "\<forall>t \<in> set ts. \<not> Live (tok_Status t)"
    using treeInvD(2) [OF inv] none by (fastforce simp: tokensPlaced_def)
qed

section \<open>Loading\<close>

lemma samePlace_refl [simp]: "samePlace t t"
  by (simp add: samePlace_def)

lemma fillToken_samePlace:
  assumes "fillToken d u t = Some t'"
  shows "samePlace t t'" and "tok_CaseID t' = tok_CaseID t" and "tok_Node t' = tok_Node t" and "tok_Outcome t' = tok_Outcome t"
  using assms by (auto simp: fillToken_def samePlace_def split: if_splits option.splits)

lemma tokenOK_same:
  assumes "tokenOK d cid ss t" and "samePlace t t'" and "tok_CaseID t' = tok_CaseID t" and "tok_Node t' = tok_Node t"
    and "tok_Outcome t' = tok_Outcome t"
  shows "tokenOK d cid ss t'"
  using assms by (simp add: tokenOK_def samePlace_def)

lemma loadRun_Inr:
  assumes "loadRun e db c d = Inr r"
  obtains ts ss where "r_ListTokens (eng_repo e) (c_ID c) db = Inr ts" and "r_ListScopes (eng_repo e) (c_ID c) db = Inr ss"
    and "run_tokens r = map (\<lambda>t. case fillToken d (c_Unit c) t of None \<Rightarrow> t | Some t' \<Rightarrow> t') ts"
    and "run_scopes r = ss" and "run_c r = c" and "run_d r = d" and "run_created r = []" and "run_drawn r = 0"
    and "run_changed r = map tok_ID (filter (\<lambda>t. fillToken d (c_Unit c) t \<noteq> None) ts)"
    and "run_baseSeq r = c_LastSeq c" and "run_events r = []" and "run_joined r = []" and "run_gatewaySteps r = 0"
  using assms by (auto simp: loadRun_def fillEligibility_def Let_def split: if_splits)

text \<open>A stored case, read through the repository, is ready for a call when it satisfies the
  invariant and the UUIDs the call draws are new to it.\<close>

definition storedOK :: "'db engine \<Rightarrow> call \<Rightarrow> 'db \<Rightarrow> uuid \<Rightarrow> bool" where
  "storedOK e cl db cid \<longleftrightarrow> (\<forall>c d ts ss. r_GetByID (eng_repo e) cid db = Inr c \<longrightarrow>
     resolveDefinition e (c_Definition c) (c_Version c) = Inr d \<longrightarrow>
     r_ListTokens (eng_repo e) (c_ID c) db = Inr ts \<longrightarrow> r_ListScopes (eng_repo e) (c_ID c) db = Inr ss \<longrightarrow>
     stateOK d c ss ts \<and> freshIDs cl 0 ss ts)"

lemma loadRun_caseInv:
  assumes stored: "storedOK e cl db cid" and c: "r_GetByID (eng_repo e) cid db = Inr c"
    and d: "resolveDefinition e (c_Definition c) (c_Version c) = Inr d" and load: "loadRun e db c d = Inr r"
  shows "caseInv cl r"
proof -
  obtain ts ss where ts: "r_ListTokens (eng_repo e) (c_ID c) db = Inr ts" and ss: "r_ListScopes (eng_repo e) (c_ID c) db = Inr ss"
    and toks: "run_tokens r = map (\<lambda>t. case fillToken d (c_Unit c) t of None \<Rightarrow> t | Some t' \<Rightarrow> t') ts"
    and r: "run_scopes r = ss" "run_c r = c" "run_d r = d" "run_drawn r = 0" "run_baseSeq r = c_LastSeq c" "run_events r = []"
    by (rule loadRun_Inr [OF load]) (rule that)
  let ?f = "\<lambda>t. case fillToken d (c_Unit c) t of None \<Rightarrow> t | Some t' \<Rightarrow> t'"
  have ok: "stateOK d c ss ts" "freshIDs cl 0 ss ts" using stored c d ts ss by (auto simp: storedOK_def)
  have f: "samePlace t (?f t)" "tok_CaseID (?f t) = tok_CaseID t" "tok_Node (?f t) = tok_Node t" "tok_Outcome (?f t) = tok_Outcome t" for t
    by ((cases "fillToken d (c_Unit c) t"; simp add: fillToken_samePlace)+)
  have seq: "nextSeq r = c_LastSeq c + 1" by (simp add: nextSeq_def r)
  have tree: "treeInv {} (c_ID c) (c_LastSeq c + 1) ss (map ?f ts)"
    by (rule treeInv_same) (use ok f in \<open>auto simp: stateOK_def\<close>)
  have "\<forall>t \<in> set (map ?f ts). tokenOK d (c_ID c) ss t"
    using ok f by (auto simp: stateOK_def intro: tokenOK_same)
  moreover have "\<forall>s \<in> set ss. scopeOK d (c_ID c) s" "caseOK c ss" "Validate d = []" using ok by (auto simp: stateOK_def)
  moreover have "freshIDs cl 0 ss (map ?f ts)"
  proof -
    have "tok_ID ` set (map ?f ts) = tok_ID ` set ts" by (rule key_image_map) (use f in \<open>simp add: samePlace_def\<close>)
    then show ?thesis using ok(2) unfolding freshIDs_def by simp
  qed
  ultimately have "coreInv {} cl r (run_tokens r)" using tree by (simp add: coreInv_def r toks seq)
  moreover have "restInv r {}" using ok f by (auto simp: restInv_def toks r stateOK_def samePlace_def)
  ultimately show ?thesis by (simp add: caseInv_def)
qed

lemma caseInv_frame:
  assumes "caseInv cl r" and "run_tokens r' = run_tokens r" and "run_scopes r' = run_scopes r" and "run_c r' = run_c r"
    and "run_d r' = run_d r" and "run_drawn r' = run_drawn r" and "grows r r'"
  shows "caseInv cl r'"
  using assms treeInv_seq [OF _ grows_nextSeq [OF assms(7)]] by (auto simp: caseInv_def coreInv_def restInv_def)

lemma beginRun_caseInv [simp]: "caseInv cl r \<Longrightarrow> caseInv cl (beginRun r now a)"
  by (erule caseInv_frame) (simp_all add: grows_def)

lemma pick_Inr:
  assumes "pick r u = Inr t"
  shows "t \<in> set (run_tokens r)" and "tok_Status t = TokenActive" and "u \<noteq> uuidNil \<Longrightarrow> tok_ID t = u"
proof -
  have act: "x \<in> set (active r) \<longleftrightarrow> x \<in> set (run_tokens r) \<and> tok_Status x = TokenActive" for x
    by (auto simp: active_def)
  have "t \<in> set (active r) \<and> (u \<noteq> uuidNil \<longrightarrow> tok_ID t = u)"
    using assms by (auto simp: pick_def split: if_splits list.splits option.splits dest: lookupBy_Some_mem)
  with act show "t \<in> set (run_tokens r)" and "tok_Status t = TokenActive" and "u \<noteq> uuidNil \<Longrightarrow> tok_ID t = u" by auto
qed

section \<open>Routing and editing\<close>

theorem route_caseInv:
  assumes inv: "caseInv cl r" and t: "t \<in> set (run_tokens r)" "tok_Status t = TokenActive"
    and tr: "tr \<in> set (d_Transitions (run_d r))" and route: "route e cl db r (tok_ID t) tr cm h = Inr r'"
  shows "caseInv cl r'"
proof -
  have "runInv cl (r, [Go (tok_ID t) tr cm h])"
    using inv t tr by (auto simp: caseInv_def runInv_def allTokens_def stackInv_def taskOK_def restInv_def)
  from planSteps_invariant [where P = "runInv cl", OF route_steps [OF route] this] planStep_runInv
  have "runInv cl (r', [])" by (metis surj_pair)
  then show ?thesis by (simp add: caseInv_runInv)
qed

lemma editToken_caseInv:
  assumes inv: "caseInv cl r" and t: "t \<in> set (run_tokens r)" "tok_Status t = TokenActive"
    and t': "tok_ID t' = tok_ID t" "tok_ScopeID t' = tok_ScopeID t" "tok_CaseID t' = tok_CaseID t"
      "tok_Status t' = TokenActive" "tok_Node t' = tok_Node t"
  shows "caseInv cl (editToken r t' k det)"
proof -
  let ?r = "editToken r t' k det"
  have r: "run_tokens ?r = replaceBy tok_ID t' (run_tokens r)" "run_c ?r = run_c r" "run_d ?r = run_d r"
    "run_scopes ?r = run_scopes r" "run_drawn ?r = run_drawn r" "grows r ?r"
    by (simp_all add: editToken_def putToken_def grows_def)
  have core: "coreInv {} cl r (run_tokens r)" "restInv r {}" using inv by (auto simp: caseInv_def)
  have "restsAt (run_d r) (tok_Node t)" using core(2) t by (simp add: restInv_def)
  then have "restInv ?r {}"
    using core(2) t' by (intro restInv_replace [OF _ r(1,3), of "{}"]) (auto simp: restInv_def)
  moreover have "coreInv {} cl ?r (run_tokens ?r)"
    unfolding r(1) by (rule coreInv_move [OF core(1) t t'(1-4) r(2-6)])
  ultimately show ?thesis by (simp add: caseInv_def)
qed


section \<open>Cancelling\<close>

lemma cancelOne_simps [simp]:
  "run_scopes (cancelOne r t reason) = run_scopes r" "run_c (cancelOne r t reason) = run_c r"
  "run_d (cancelOne r t reason) = run_d r" "run_drawn (cancelOne r t reason) = run_drawn r"
  "run_now (cancelOne r t reason) = run_now r" "grows r (cancelOne r t reason)"
  by (simp_all add: cancelOne_def Let_def grows_def)

lemma cancelOne_tokens:
  "run_tokens (cancelOne r t reason) = replaceBy tok_ID (ended (run_now r) TokenCancelled (nextSeq r) t) (run_tokens r)"
  by (simp add: cancelOne_def Let_def endToken_tokens)

lemma distinct_tail: "distinct (map f (x # xs)) \<Longrightarrow> distinct (map f xs)"
  by simp

lemma cancelLive_state:
  assumes "cancelLive reason ls r = Inr r'" and "distinct (map tok_ID (run_tokens r))" and "distinct (map tok_ID ls)"
  shows "\<exists>f. endsTokens f TokenCancelled (tok_ID ` set ls) \<and> run_tokens r' = map f (run_tokens r)"
    and "run_scopes r' = run_scopes r" and "run_c r' = run_c r" and "run_d r' = run_d r" and "run_drawn r' = run_drawn r"
    and "grows r r'"
proof -
  have "(\<exists>f. endsTokens f TokenCancelled (tok_ID ` set ls) \<and> run_tokens r' = map f (run_tokens r)) \<and>
    run_scopes r' = run_scopes r \<and> run_c r' = run_c r \<and> run_d r' = run_d r \<and> run_drawn r' = run_drawn r \<and> grows r r'"
    using assms
  proof (induction ls arbitrary: r)
    case Nil
    then show ?case using endsTokens_id [of TokenCancelled] by auto
  next
    case (Cons l ls)
    then obtain t where t: "run_token r (tok_ID l) = Some t" by (auto split: option.splits)
    then have tm: "t \<in> set (run_tokens r)" "tok_ID t = tok_ID l" using run_token_Some by auto
    let ?r = "cancelOne r t reason" and ?g = "\<lambda>x. if tok_ID x = tok_ID l then ended (run_now r) TokenCancelled (nextSeq r) x else x"
    have toks: "run_tokens ?r = map ?g (run_tokens r)"
      using replaceBy_map [OF Cons.prems(2) tm(1)] tm(2) by (simp add: cancelOne_tokens)
    have ids: "map tok_ID (run_tokens ?r) = map tok_ID (run_tokens r)" by (simp add: toks)
    have "cancelLive reason ls ?r = Inr r'" using Cons.prems(1) t by simp
    note ih = Cons.IH [OF this, unfolded ids, OF Cons.prems(2) distinct_tail [OF Cons.prems(3)]]
    from ih obtain f where f: "endsTokens f TokenCancelled (tok_ID ` set ls)" "run_tokens r' = map f (run_tokens ?r)" by blast
    have r': "run_scopes r' = run_scopes r" "run_c r' = run_c r" "run_d r' = run_d r" "run_drawn r' = run_drawn r" "grows ?r r'"
      using ih unfolding cancelOne_simps by blast+
    have "endsTokens (\<lambda>x. f (?g x)) TokenCancelled (insert (tok_ID l) (tok_ID ` set ls))"
      by (rule endsTokens_step [OF f(1)]) (use Cons.prems(3) in auto)
    moreover have "run_tokens r' = map (\<lambda>x. f (?g x)) (run_tokens r)" by (simp add: f(2) toks)
    moreover have "grows r r'" by (rule grows_trans [OF _ r'(5)]) simp
    ultimately show ?case using r' by (auto simp del: cancelLive.simps)
  qed
  then show "\<exists>f. endsTokens f TokenCancelled (tok_ID ` set ls) \<and> run_tokens r' = map f (run_tokens r)"
    and "run_scopes r' = run_scopes r" and "run_c r' = run_c r" and "run_d r' = run_d r" and "run_drawn r' = run_drawn r"
    and "grows r r'" by blast+
qed

lemma replaceBy_middle:
  assumes "distinct (map key (xs @ y # ys))" and "key y' = key y"
  shows "replaceBy key y' (xs @ y # ys) = xs @ y' # ys"
proof -
  have "key y \<notin> key ` set xs" "key y \<notin> key ` set ys" using assms(1) by auto
  then have "replaceBy key y' xs = xs" "replaceBy key y' ys = ys" using assms(2) by (simp_all add: replaceBy_absent)
  then show ?thesis by (simp add: replaceBy_def assms(2))
qed

lemma cancelOpenScopes_state:
  assumes "distinct (map sc_ID (run_scopes r))"
  shows "run_scopes (cancelOpenScopes r q) =
      map (\<lambda>s. if openScope s then s\<lparr>sc_Status := ScopeCancelled, sc_ClosedSeq := q\<rparr> else s) (run_scopes r)"
    and "run_tokens (cancelOpenScopes r q) = run_tokens r" and "run_c (cancelOpenScopes r q) = run_c r"
    and "run_d (cancelOpenScopes r q) = run_d r" and "run_drawn (cancelOpenScopes r q) = run_drawn r"
    and "run_events (cancelOpenScopes r q) = run_events r" and "run_baseSeq (cancelOpenScopes r q) = run_baseSeq r"
    and "run_now (cancelOpenScopes r q) = run_now r"
proof -
  let ?g = "\<lambda>s. if openScope s then s\<lparr>sc_Status := ScopeCancelled, sc_ClosedSeq := q\<rparr> else s"
  let ?step = "\<lambda>r s. if sc_Status s = ScopeOpen then endScope r s ScopeCancelled q else r"

  have *: "run_scopes r0 = xs @ ss \<Longrightarrow> distinct (map sc_ID (xs @ ss)) \<Longrightarrow>
    (let r' = foldl ?step r0 ss in run_scopes r' = xs @ map ?g ss \<and> run_tokens r' = run_tokens r0 \<and> run_c r' = run_c r0 \<and>
      run_d r' = run_d r0 \<and> run_drawn r' = run_drawn r0 \<and> run_events r' = run_events r0 \<and> run_baseSeq r' = run_baseSeq r0 \<and>
      run_now r' = run_now r0)" for r0 xs ss
  proof (induction ss arbitrary: r0 xs)
    case (Cons s ss)
    have "replaceBy sc_ID (?g s) (xs @ s # ss) = xs @ ?g s # ss"
      by (rule replaceBy_middle [OF Cons.prems(2)]) simp
    then have "run_scopes (?step r0 s) = (xs @ [?g s]) @ ss"
      using Cons.prems(1) by (cases "sc_Status s = ScopeOpen") (simp_all add: endScope_def putScope_def openScope_def)
    moreover have "distinct (map sc_ID ((xs @ [?g s]) @ ss))" using Cons.prems(2) by simp
    ultimately have ih: "let r' = foldl ?step (?step r0 s) ss in run_scopes r' = (xs @ [?g s]) @ map ?g ss \<and>
        run_tokens r' = run_tokens (?step r0 s) \<and> run_c r' = run_c (?step r0 s) \<and> run_d r' = run_d (?step r0 s) \<and>
        run_drawn r' = run_drawn (?step r0 s) \<and> run_events r' = run_events (?step r0 s) \<and>
        run_baseSeq r' = run_baseSeq (?step r0 s) \<and> run_now r' = run_now (?step r0 s)"
      by (rule Cons.IH)
    then show ?case by (simp add: Let_def)
  qed (simp add: Let_def)
  from * [of r "[]" "run_scopes r"] assms
  show "run_scopes (cancelOpenScopes r q) = map ?g (run_scopes r)"
    and "run_tokens (cancelOpenScopes r q) = run_tokens r" and "run_c (cancelOpenScopes r q) = run_c r"
    and "run_d (cancelOpenScopes r q) = run_d r" and "run_drawn (cancelOpenScopes r q) = run_drawn r"
    and "run_events (cancelOpenScopes r q) = run_events r" and "run_baseSeq (cancelOpenScopes r q) = run_baseSeq r"
    and "run_now (cancelOpenScopes r q) = run_now r"
    by (simp_all add: Let_def cancelOpenScopes_def)
qed

theorem cancelCase_caseInv:
  assumes inv: "caseInv cl r" and cancel: "cancelCase r reason = Inr r'"
  shows "caseInv cl r'" and "c_Status (run_c r') = StatusCancelled"
proof -
  have core: "coreInv {} cl r (run_tokens r)" using inv by (simp add: caseInv_def)
  note c = coreInvD [OF core]
  note shape = treeInvD(1) [OF c(3)]
  have distT: "distinct (map tok_ID (run_tokens r))" by (rule coreInv_distinct [OF core])
  let ?L = "filter (\<lambda>t. Live (tok_Status t)) (run_tokens r)"
  from cancel obtain r1 where live: "cancelLive reason (sortTokens ?L) r = Inr r1"
    and r': "r' = (let q = nextSeq r1; r2 = cancelOpenScopes (emit r1 ((tokenEvent EventCancelled (c_ID (run_c r1)) (c_ID (run_c r1))
        (c_State (run_c r1)) (c_State (run_c r1)))\<lparr>ev_Detail := DetailCancel reason\<rparr>)) q
      in r2\<lparr>run_c := (run_c r1)\<lparr>c_Status := StatusCancelled, c_ClosedAt := Some (run_now r2)\<rparr>\<rparr>)"
    by (auto simp: cancelCase_def Let_def)
  have "distinct (map tok_ID ?L)" using distT by (simp add: distinct_map_filter)
  moreover have "mset (map tok_ID (sortTokens ?L)) = mset (map tok_ID ?L)" by (simp add: sortTokens_def)
  ultimately have dist: "distinct (map tok_ID (sortTokens ?L))" using mset_eq_imp_distinct_iff by blast
  have lives: "tok_ID ` set (sortTokens ?L) = tok_ID ` {t \<in> set (run_tokens r). Live (tok_Status t)}"
    by (simp add: sortTokens_def)
  note cl = cancelLive_state [OF live distT dist, unfolded lives]
  from cl(1) obtain f where f: "endsTokens f TokenCancelled (tok_ID ` {t \<in> set (run_tokens r). Live (tok_Status t)})"
    and toks: "run_tokens r1 = map f (run_tokens r)" by blast
  let ?r2 = "emit r1 ((tokenEvent EventCancelled (c_ID (run_c r1)) (c_ID (run_c r1))
        (c_State (run_c r1)) (c_State (run_c r1)))\<lparr>ev_Detail := DetailCancel reason\<rparr>)"
  let ?g = "\<lambda>s. if openScope s then s\<lparr>sc_Status := ScopeCancelled, sc_ClosedSeq := nextSeq r1\<rparr> else s"
  have "distinct (map sc_ID (run_scopes ?r2))" using treeShape_distinct [OF shape] cl(2) by simp
  note sc = cancelOpenScopes_state [OF this, of "nextSeq r1"]
  have state: "run_tokens r' = map f (run_tokens r)" "run_scopes r' = map ?g (run_scopes r)" "run_d r' = run_d r"
    "run_drawn r' = run_drawn r" "c_ID (run_c r') = c_ID (run_c r)" "c_Status (run_c r') = StatusCancelled"
    "nextSeq r \<le> nextSeq r'"
    using sc cl(2-6) toks grows_nextSeq [OF cl(6)] by (simp_all add: r' Let_def nextSeq_def)
  show "c_Status (run_c r') = StatusCancelled" by (rule state(6))
  note es = endsTokens_simps [OF f]
  have nolive: "\<not> Live (tok_Status (f t))" if "t \<in> set (run_tokens r)" for t
    using that es(5) [of t] by (cases "Live (tok_Status t)") (auto split: if_splits)
  have tree: "treeInv {} (c_ID (run_c r)) (nextSeq r) (map ?g (run_scopes r)) (map f (run_tokens r))"
    by (rule treeInv_ended [OF shape treeInvD(2) [OF c(3)]]) (use es nolive in \<open>auto simp: openScope_def\<close>)
  have tok': "tokenOK (run_d r) (c_ID (run_c r)) (map ?g (run_scopes r)) (f t)" if t: "t \<in> set (run_tokens r)" for t
  proof -
    have "tok_CaseID (f t) = c_ID (run_c r)" using c(4) t endsTokens_CaseID [OF f] by (simp add: tokenOK_def)
    moreover have "tok_Status (f t) \<in> {TokenActive, TokenWaiting, TokenConsumed, TokenCancelled}"
      using c(4) t es(5) [of t] by (auto simp: tokenOK_def)
    ultimately show ?thesis using nolive [OF t] by (auto simp: tokenOK_def Live_def)
  qed
  have fresh: "freshIDs cl (run_drawn r) (map ?g (run_scopes r)) (map f (run_tokens r))"
  proof -
    have "tok_ID ` set (map f (run_tokens r)) = tok_ID ` set (run_tokens r)" by (rule key_image_map) (rule es(1))
    moreover have "sc_ID ` set (map ?g (run_scopes r)) = sc_ID ` set (run_scopes r)" by (rule key_image_map) simp
    ultimately show ?thesis using c(2) unfolding freshIDs_def by simp
  qed
  have "coreInv {} cl r' (run_tokens r')" unfolding state(1)
  proof (rule coreInvI [OF c(1) fresh tree _ _ _ state(3,4,2) refl state(5,7)])
    show "\<forall>t \<in> set (map f (run_tokens r)). tokenOK (run_d r) (c_ID (run_c r)) (map ?g (run_scopes r)) t"
      using tok' by auto
    show "\<forall>s \<in> set (map ?g (run_scopes r)). scopeOK (run_d r) (c_ID (run_c r)) s"
      using c(5) by (auto simp: scopeOK_def)
    show "caseOK (run_c r') (map ?g (run_scopes r))"
      using state(5,6) by (auto simp: caseOK_def openScope_def)
  qed
  moreover have "restInv r' {}" using nolive by (auto simp: restInv_def state Live_def)
  ultimately show "caseInv cl r'" by (simp add: caseInv_def)
qed

text \<open>
  Cancelling one branch: the other live branches keep the scope going, or the round closes
  without it. Only a scope with other branches qualifies, so it is never the root.
\<close>

lemma treeShape_root_iff: "treeShape cid seq ss \<Longrightarrow> s \<in> set ss \<Longrightarrow> sc_ParentID s = None \<longleftrightarrow> sc_ID s = cid"
  by (simp add: treeShape_def)

theorem cancelToken_runInv:
  assumes inv: "caseInv cl r" and tok: "tok \<in> set (run_tokens r)" "tok_Status tok = TokenActive"
    and others: "otherBranches r tok \<noteq> 0" and s: "run_scope (cancelOne r tok reason) (tok_ScopeID tok) = Some s"
    and js: "joinStep e cl db (cancelOne r tok reason) s = Inr (r1, ts)"
  shows "runInv cl (r1, ts)"
proof -
  let ?r = "cancelOne r tok reason" and ?t = "ended (run_now r) TokenCancelled (nextSeq r) tok"
  have core: "coreInv {} cl r (run_tokens r)" and rest: "restInv r {}" using inv by (auto simp: caseInv_def)
  note c = coreInvD [OF core]
  have smem: "s \<in> set (run_scopes r)" "sc_ID s = tok_ScopeID tok" using run_scope_Some [OF s] by auto
  have os: "openScope s"
    using treeInvD(2) [OF c(3)] tok smem treeShape_eq [OF treeInvD(1) [OF c(3)]]
    by (auto simp: tokensPlaced_def Live_def) metis
  from others consider x where "x \<in> set (run_tokens r)" "tok_ScopeID x = tok_ScopeID tok" "tok_ID x \<noteq> tok_ID tok" "Live (tok_Status x)"
    | q where "q \<in> set (run_scopes r)" "openChild (tok_ScopeID tok) q"
    by (auto simp: otherBranches_def countIf_pos openChild_def openScope_def)
  note other = this
  have par: "sc_ParentID s \<noteq> None"
  proof
    assume none: "sc_ParentID s = None"
    have id: "sc_ID s = c_ID (run_c r)" using treeShape_root_iff [OF treeInvD(1) [OF c(3)] smem(1)] none by simp
    have one: "sc_Expected s = 1" using c(5) smem(1) none by (simp add: scopeOK_def)
    have tid: "tok_ScopeID tok = c_ID (run_c r)" using smem(2) id by simp
    note alone = root_alone [OF c(3) smem(1) id one tok tid]
    from other show False
    proof cases
      case (1 x)
      with alone(2) show False by auto
    next
      case (2 q)
      with alone(1) have "sc_ID q = c_ID (run_c r)" by (simp add: openChild_def)
      with treeShape_root_iff [OF treeInvD(1) [OF c(3)] 2(1)] 2(2) show False by (simp add: openChild_def)
    qed
  qed
  have toks: "run_tokens ?r = replaceBy tok_ID ?t (run_tokens r)" by (rule cancelOne_tokens)
  have tOK: "tokenOK (run_d r) (c_ID (run_c r)) (run_scopes r) ?t" using c(4) tok by (simp add: tokenOK_def)
  have core': "coreInv {sc_ID s} cl ?r (run_tokens ?r @ [])"
    unfolding toks smem(2) append_Nil2
    by (rule coreInv_quiet [OF core tok _ _ _ tOK]) simp_all
  have work: "(\<exists>t \<in> set (run_tokens ?r @ []). tok_ScopeID t = sc_ID s \<and> Live (tok_Status t)) \<or>
      (\<exists>q \<in> set (run_scopes ?r). openChild (sc_ID s) q)"
    using \<open>openScope s\<close> \<open>otherBranches r tok \<noteq> 0\<close> unfolding smem(2) toks
    by (auto simp: otherBranches_def countIf_pos openChild_def openScope_def replaceBy_def)
  note res = coreInv_joinStep [OF core' refl _ _ os par work _ js, simplified]
  have "restInv ?r {}"
    by (rule restInv_replace [OF _ toks, of "{}"]) (use rest in \<open>auto simp: restInv_def\<close>)
  then have rest1: "restInv r1 (transit ts)" using res(3) [OF smem(1), of "{}"] by simp
  have "stackInv r1 ts" "pendTokens ts = []"
    using res(2,4) smem(1) by (auto simp: stackInv_def taskOK_def)
  with rest1 res(1) smem(1) show ?thesis by (simp add: runInv_def allTokens_def)
qed

theorem cancelToken_caseInv:
  assumes inv: "caseInv cl r" and tok: "tok \<in> set (run_tokens r)" "tok_Status tok = TokenActive"
    and others: "otherBranches r tok \<noteq> 0" and s: "run_scope (cancelOne r tok reason) (tok_ScopeID tok) = Some s"
    and join: "tryJoin (route e cl db) e cl db (cancelOne r tok reason) s = Inr r'"
  shows "caseInv cl r'"
proof -
  obtain r1 ts where js: "joinStep e cl db (cancelOne r tok reason) s = Inr (r1, ts)" and steps: "planSteps e cl db (r1, ts) (r', [])"
    by (rule tryJoin_steps' [OF join])
  from planSteps_invariant [where P = "runInv cl", OF steps cancelToken_runInv [OF inv tok others s js]] planStep_runInv
  have "runInv cl (r', [])" by (metis surj_pair)
  then show ?thesis by (simp add: caseInv_runInv)
qed

section \<open>The operations\<close>

lemma submitStep_simps [simp]:
  "run_tokens (submitStep r t i) = run_tokens r" "run_d (submitStep r t i) = run_d r"
  by (simp_all add: submitStep_def split: option.split)

lemma submitStep_caseInv: "caseInv cl r \<Longrightarrow> caseInv cl (submitStep r t i)"
  by (erule caseInv_frame) (auto simp: submitStep_def grows_def split: option.split)

theorem movePlan_caseInv:
  assumes "storedOK e cl db (mi_CaseID i)" and "movePlan e cl i db = Inr (d, r')"
  shows "caseInv cl r'"
proof -
  from assms(2) obtain actor c r tok tr where
    c: "r_GetByID (eng_repo e) (mi_CaseID i) db = Inr c" and d: "resolveDefinition e (c_Definition c) (c_Version c) = Inr d"
    and load: "loadRun e db c d = Inr r" and pick: "pick r (mi_TokenID i) = Inr tok"
    and tr: "findTransition (TransitionsFrom d (tok_Node tok)) (mi_Action i) = Some tr"
    and route: "route e cl db (submitStep (beginRun r (cl_now cl) actor) tok i) (tok_ID tok) tr (trimSpace (mi_Comment i)) 0 = Inr r'"
    by (auto simp: movePlan_def split: option.splits)
  have rd: "run_d r = d" by (rule loadRun_Inr [OF load])
  have inv: "caseInv cl (submitStep (beginRun r (cl_now cl) actor) tok i)"
    using loadRun_caseInv [OF assms(1) c d load] by (simp add: submitStep_caseInv)
  show ?thesis
    by (rule route_caseInv [OF inv _ _ _ route])
      (use pick_Inr [OF pick] findTransition_Some [OF tr] in \<open>auto simp: TransitionsFrom_mem rd\<close>)
qed

lemma loadToken_caseInv:
  assumes "storedOK e cl db cid" and "r_GetByID (eng_repo e) cid db = Inr c" and "loadToken e db c tid = Inr (r, tok)"
  shows "caseInv cl r" and "tok \<in> set (run_tokens r)" and "tok_Status tok = TokenActive" and "tid \<noteq> uuidNil \<Longrightarrow> tok_ID tok = tid"
proof -
  from assms(3) obtain d where d: "resolveDefinition e (c_Definition c) (c_Version c) = Inr d"
    and load: "loadRun e db c d = Inr r" and pick: "pick r tid = Inr tok"
    by (auto simp: loadToken_def)
  show "caseInv cl r" by (rule loadRun_caseInv [OF assms(1,2) d load])
  from pick_Inr [OF pick] show "tok \<in> set (run_tokens r)" and "tok_Status tok = TokenActive" and "tid \<noteq> uuidNil \<Longrightarrow> tok_ID tok = tid"
    by auto
qed

theorem claimPlan_caseInv:
  assumes "storedOK e cl db (ci_CaseID i)" and "claimPlan e cl i db = Inr (c, Some r')"
  shows "caseInv cl r'"
proof -
  from assms(2) obtain actor r tok where c: "r_GetByID (eng_repo e) (ci_CaseID i) db = Inr c"
    and load: "loadToken e db c (ci_TokenID i) = Inr (r, tok)"
    and r': "r' = editToken (beginRun r (cl_now cl) actor) (tok\<lparr>tok_AssignedTo := ac_ID actor\<rparr>)
            EventAssigned (DetailAssignment \<lparr>ad_From = '''', ad_To = ac_ID actor, ad_Reason = ''''\<rparr>)"
    by (auto simp: claimPlan_def split: if_splits)
  from loadToken_caseInv [OF assms(1) c load] show ?thesis
    unfolding r' by (intro editToken_caseInv [where t = tok]) simp_all
qed

theorem releasePlan_caseInv:
  assumes "storedOK e cl db (ri_CaseID i)" and "releasePlan e cl i db = Inr r'"
  shows "caseInv cl r'"
proof -
  from assms(2) obtain actor c r tok where c: "r_GetByID (eng_repo e) (ri_CaseID i) db = Inr c"
    and load: "loadToken e db c (ri_TokenID i) = Inr (r, tok)"
    and r': "r' = editToken (beginRun r (cl_now cl) actor) (tok\<lparr>tok_AssignedTo := ''''\<rparr>) EventUnassigned
       (DetailAssignment \<lparr>ad_From = tok_AssignedTo tok, ad_To = '''', ad_Reason = ri_Reason i\<rparr>)"
    by (auto simp: releasePlan_def)
  from loadToken_caseInv [OF assms(1) c load] show ?thesis
    unfolding r' by (intro editToken_caseInv [where t = tok]) simp_all
qed

theorem reassignPlan_caseInv:
  assumes "storedOK e cl db (ra_CaseID i)" and "reassignPlan e cl i db = Inr r'"
  shows "caseInv cl r'"
proof -
  from assms(2) obtain actor c r tok where c: "r_GetByID (eng_repo e) (ra_CaseID i) db = Inr c"
    and load: "loadToken e db c (ra_TokenID i) = Inr (r, tok)"
    and r': "r' = editToken (beginRun r (cl_now cl) actor) (tok\<lparr>tok_AssignedTo := ra_To i\<rparr>) EventAssigned
       (DetailAssignment \<lparr>ad_From = tok_AssignedTo tok, ad_To = ra_To i, ad_Reason = trimSpace (ra_Reason i)\<rparr>)"
    by (auto simp: reassignPlan_def)
  from loadToken_caseInv [OF assms(1) c load] show ?thesis
    unfolding r' by (intro editToken_caseInv [where t = tok]) simp_all
qed

theorem setDeadlinePlan_caseInv:
  assumes "storedOK e cl db (si_CaseID i)" and "setDeadlinePlan e cl i db = Inr r'"
  shows "caseInv cl r'"
proof -
  from assms(2) obtain actor c r tok where c: "r_GetByID (eng_repo e) (si_CaseID i) db = Inr c"
    and load: "loadToken e db c (si_TokenID i) = Inr (r, tok)"
    and r': "r' = editToken (beginRun r (cl_now cl) actor)
       (tok\<lparr>tok_DeadlineAt := si_DeadlineAt i, tok_ExpiredDeadline := None\<rparr>) EventDeadlineChanged
       (DetailDeadline \<lparr>dd_From = tok_DeadlineAt tok, dd_To = si_DeadlineAt i, dd_Reason = trimSpace (si_Reason i)\<rparr>)"
    by (auto simp: setDeadlinePlan_def)
  from loadToken_caseInv [OF assms(1) c load] show ?thesis
    unfolding r' by (intro editToken_caseInv [where t = tok]) simp_all
qed

theorem expirePlan_caseInv:
  assumes "storedOK e cl db (xi_CaseID i)" and "expirePlan e cl i db = Inr (d, r', m)"
  shows "caseInv cl r'"
proof -
  from assms(2) obtain actor c r tok deadline taken where
    c: "r_GetByID (eng_repo e) (xi_CaseID i) db = Inr c" and d: "resolveDefinition e (c_Definition c) (c_Version c) = Inr d"
    and load: "loadRun e db c d = Inr r" and pick: "pick r (xi_TokenID i) = Inr tok"
    and ox: "onExpire e db r tok = Inr taken"
    and r': "case taken of None \<Rightarrow> r' = markExpired (beginRun r (cl_now cl) actor) tok deadline
      | Some tr \<Rightarrow> expireRoute e cl db (markExpired (beginRun r (cl_now cl) actor) tok deadline) (tok_ID tok) tr = Inr r'"
    by (auto simp: expirePlan_def Let_def split: option.splits)
  let ?r = "markExpired (beginRun r (cl_now cl) actor) tok deadline"
  note tok = pick_Inr [OF pick]
  have inv: "caseInv cl ?r"
    unfolding markExpired_def
    by (rule editToken_caseInv [where t = tok]) (use tok loadRun_caseInv [OF assms(1) c d load] in simp_all)
  show ?thesis
  proof (cases taken)
    case None
    with r' inv show ?thesis by simp
  next
    case (Some tr)
    then have "tr \<in> set (d_Transitions (run_d r))"
      using ox by (auto simp: onExpire_def TransitionsFrom_mem split: option.splits if_splits dest: findTransition_Some)
    then have tr: "tr \<in> set (d_Transitions (run_d ?r))" by (simp add: markExpired_def editToken_def)
    from Some r' obtain r2 evs where route: "route e cl db ?r (tok_ID tok) tr '''' 0 = Inr r2"
      and r2: "r' = r2\<lparr>run_events := evs\<rparr>" "length evs = length (run_events r2)"
      by (auto simp: expireRoute_def Let_def)
    let ?t = "tok\<lparr>tok_ExpiredDeadline := Some deadline\<rparr>"
    have "?t \<in> set (run_tokens ?r)"
      using tok(1) set_replaceBy [of tok_ID ?t "run_tokens r"] by (auto simp: markExpired_def editToken_def putToken_def)
    with route_caseInv [OF inv _ _ tr, of ?t] route tok(2) have "caseInv cl r2" by simp
    then show ?thesis by (rule caseInv_frame) (simp_all add: r2 grows_def)
  qed
qed

theorem cancelPlan_caseInv:
  assumes "storedOK e cl db (ca_CaseID i)" and "cancelPlan e cl i db = Inr r'"
  shows "caseInv cl r'"
proof -
  from assms(2) obtain actor c d r where
    c: "r_GetByID (eng_repo e) (ca_CaseID i) db = Inr c" and d: "resolveDefinition e (c_Definition c) (c_Version c) = Inr d"
    and load: "loadRun e db c d = Inr r" and cancel: "cancelCase (beginRun r (cl_now cl) actor) (trimSpace (ca_Reason i)) = Inr r'"
    by (auto simp: cancelPlan_def)
  show ?thesis
    by (rule cancelCase_caseInv(1) [OF _ cancel]) (use loadRun_caseInv [OF assms(1) c d load] in simp)
qed

theorem cancelTokenPlan_caseInv:
  assumes "storedOK e cl db (ct_CaseID i)" and "cancelTokenPlan e cl i db = Inr (d, r')"
  shows "caseInv cl r'"
proof -
  from assms(2) obtain actor c r tok s where
    c: "r_GetByID (eng_repo e) (ct_CaseID i) db = Inr c" and d: "resolveDefinition e (c_Definition c) (c_Version c) = Inr d"
    and load: "loadRun e db c d = Inr r" and pick: "pick r (ct_TokenID i) = Inr tok" and others: "otherBranches r tok \<noteq> 0"
    and s: "run_scope (cancelOne (beginRun r (cl_now cl) actor) tok (trimSpace (ct_Reason i))) (tok_ScopeID tok) = Some s"
    and join: "tryJoin (route e cl db) e cl db (cancelOne (beginRun r (cl_now cl) actor) tok (trimSpace (ct_Reason i))) s = Inr r'"
    by (auto simp: cancelTokenPlan_def Let_def split: option.splits)
  show ?thesis
    by (rule cancelToken_caseInv [OF _ _ _ _ s join])
      (use loadRun_caseInv [OF assms(1) c d load] pick_Inr [OF pick] others in \<open>simp_all add: otherBranches_def\<close>)
qed

theorem refreshPlan_caseInv:
  assumes "storedOK e cl db cid" and "refreshPlan e cl cid db = Inr (Some r')"
  shows "caseInv cl r'"
  using assms by (auto simp: refreshPlan_def split: if_splits intro!: beginRun_caseInv intro: loadRun_caseInv)

text \<open>Opening establishes the invariant.\<close>

theorem openPlan_stateOK:
  assumes reg: "registryOK e" and plan: "openPlan e cl i db = Inr (actor, d, start, c, root)"
  shows "stateOK d c [rootScope (c_ID c)] [root]" and "c_Status c = StatusOpen" and "c_LastSeq c = 1"
    and "resolveDefinition e (oi_Definition i) (oi_Version i) = Inr d" and "tok_ID root = c_ID c" and "c_ID c = cl_uuid cl 0"
proof -
  from plan obtain deadline where res: "resolveDefinition e (oi_Definition i) (oi_Version i) = Inr d"
    and start: "StartNode d = Some start"
    and c: "c = (openedCase cl i d start)\<lparr>c_DeadlineAt := deadline\<rparr>"
    and root: "root = (rootToken cl i (c_ID (openedCase cl i d start)) start)\<lparr>tok_DeadlineAt := deadline\<rparr>"
    by (auto simp: openPlan_def Let_def split: option.splits)
  have valid: "Validate d = []" by (rule resolveDefinition_Inr [OF reg res])
  obtain s where s: "StartNode d = Some s" "s \<in> set (d_Nodes d)" "\<not> node_Terminal s" "\<not> IsAutomatic (node_Kind s)"
    by (rule Validate_start [OF valid])
  have "Definition_Node d (node_ID s) = Some s" by (rule Definition_Node_mem [OF Validate_nodes(1) [OF valid] s(2)])
  with s start have rests: "restsAt d (node_ID start)" by (auto simp: restsAt_def)
  show "stateOK d c [rootScope (c_ID c)] [root]"
    using valid rests
    by (simp add: stateOK_def treeInv_def treeShape_def tokensPlaced_def counted_def branchCount_def alive_def inScope_def
        activeIn_def openChild_def openScope_def tokenOK_def scopeOK_def caseOK_def c root rootScope_def rootToken_def openedCase_def)
  show "c_Status c = StatusOpen" "c_LastSeq c = 1" "resolveDefinition e (oi_Definition i) (oi_Version i) = Inr d"
    "tok_ID root = c_ID c" "c_ID c = cl_uuid cl 0"
    by (simp_all add: c openedCase_def res root rootToken_def newToken_def)
qed

end
