(* ===== verification/Tracking.thy ===== *)
theory Tracking
  imports Plan_Invariant
begin

text \<open>
  Change tracking of a run. persist writes the entries marked as created or changed and nothing
  else, so a change to an unmarked entry would be lost. tracks relates a run to a later one: every
  entry keeps its immutable columns, every entry that differs is marked, and every new entry is
  marked as created. Every plan of the engine tracks its changes, and numbers its events without
  gaps.
\<close>

section \<open>Tracked lists\<close>

definition tracksBy :: "('a \<Rightarrow> uuid) \<Rightarrow> ('a \<Rightarrow> 'a \<Rightarrow> bool) \<Rightarrow> uuid set \<Rightarrow> uuid set \<Rightarrow> 'a list \<Rightarrow> 'a list \<Rightarrow> bool" where
  "tracksBy key keep D C xs ys \<longleftrightarrow> (\<exists>f ns. ys = map f xs @ ns \<and> key ` set ns \<subseteq> C \<and>
     (\<forall>x \<in> set xs. keep x (f x) \<and> key (f x) = key x \<and> (f x \<noteq> x \<longrightarrow> key x \<in> D)))"

lemma tracksByI:
  assumes "ys = map f xs @ ns" and "key ` set ns \<subseteq> C"
    and "\<And>x. x \<in> set xs \<Longrightarrow> keep x (f x) \<and> key (f x) = key x \<and> (f x \<noteq> x \<longrightarrow> key x \<in> D)"
  shows "tracksBy key keep D C xs ys"
  using assms unfolding tracksBy_def by blast

lemma tracksByE:
  assumes "tracksBy key keep D C xs ys"
  obtains f ns where "ys = map f xs @ ns" and "key ` set ns \<subseteq> C"
    and "\<forall>x \<in> set xs. keep x (f x) \<and> key (f x) = key x \<and> (f x \<noteq> x \<longrightarrow> key x \<in> D)"
  using assms unfolding tracksBy_def by (elim exE conjE) (rule that)

lemma tracksBy_refl: "(\<And>x. keep x x) \<Longrightarrow> tracksBy key keep D C xs xs"
  by (rule tracksByI [where f = "\<lambda>x. x" and ns = "[]"]) simp_all

lemma tracksBy_mono: "tracksBy key keep D C xs ys \<Longrightarrow> D \<subseteq> D' \<Longrightarrow> C \<subseteq> C' \<Longrightarrow> tracksBy key keep D' C' xs ys"
proof -
  assume sub: "D \<subseteq> D'" "C \<subseteq> C'" and "tracksBy key keep D C xs ys"
  from this(3) obtain f ns where "ys = map f xs @ ns" "key ` set ns \<subseteq> C"
    and "\<forall>x \<in> set xs. keep x (f x) \<and> key (f x) = key x \<and> (f x \<noteq> x \<longrightarrow> key x \<in> D)" by (rule tracksByE)
  with sub show ?thesis by (intro tracksByI [of ys f xs ns]) auto
qed

lemma tracksBy_trans:
  assumes "tracksBy key keep D C xs ys" and "tracksBy key keep D C ys zs"
    and trans: "\<And>x y z. keep x y \<Longrightarrow> keep y z \<Longrightarrow> keep x z"
  shows "tracksBy key keep D C xs zs"
proof -
  from assms(1) obtain f ns where ys: "ys = map f xs @ ns" "key ` set ns \<subseteq> C"
    and f: "\<forall>x \<in> set xs. keep x (f x) \<and> key (f x) = key x \<and> (f x \<noteq> x \<longrightarrow> key x \<in> D)" by (rule tracksByE)
  from assms(2) obtain g ms where zs: "zs = map g ys @ ms" "key ` set ms \<subseteq> C"
    and g: "\<forall>x \<in> set ys. keep x (g x) \<and> key (g x) = key x \<and> (g x \<noteq> x \<longrightarrow> key x \<in> D)" by (rule tracksByE)
  show ?thesis
  proof (rule tracksByI)
    show "zs = map (g \<circ> f) xs @ (map g ns @ ms)" by (simp add: zs(1) ys(1))
    show "key ` set (map g ns @ ms) \<subseteq> C" using zs(2) ys g by auto
    fix x assume x: "x \<in> set xs"
    then have "f x \<in> set ys" by (simp add: ys(1))
    with bspec [OF f x] bspec [OF g, of "f x"] trans [of x "f x" "g (f x)"] show "keep x ((g \<circ> f) x) \<and> key ((g \<circ> f) x) = key x \<and> ((g \<circ> f) x \<noteq> x \<longrightarrow> key x \<in> D)"
      by auto
  qed
qed

lemma tracksBy_replace:
  assumes "distinct (map key xs)" and "x \<in> set xs" and "keep x y" and "key y = key x" and "key x \<in> D" and "\<And>x. keep x x"
  shows "tracksBy key keep D C xs (replaceBy key y xs)"
proof (rule tracksByI [where f = "\<lambda>z. if key z = key y then y else z" and ns = "[]"])
  fix z assume z: "z \<in> set xs"
  have "z = x" if "key z = key y" using assms(1,2,4) z that by (metis distinct_map inj_onD)
  with assms show "keep z (if key z = key y then y else z) \<and> key (if key z = key y then y else z) = key z \<and>
      ((if key z = key y then y else z) \<noteq> z \<longrightarrow> key z \<in> D)" by auto
qed (simp_all add: replaceBy_def)

lemma tracksBy_append:
  assumes "\<And>x. keep x x" and "key y \<in> C"
  shows "tracksBy key keep D C xs (xs @ [y])"
  by (rule tracksByI [where f = "\<lambda>x. x" and ns = "[y]"]) (use assms in auto)

lemma tracksBy_distinct:
  assumes "tracksBy key keep D C xs ys" and "distinct (map key xs)" and "length ys = length xs"
  shows "map key ys = map key xs"
proof -
  from assms(1) obtain f ns where f: "ys = map f xs @ ns"
    "\<forall>x \<in> set xs. keep x (f x) \<and> key (f x) = key x \<and> (f x \<noteq> x \<longrightarrow> key x \<in> D)" by (rule tracksByE)
  with assms(3) have "ns = []" by simp
  with f show ?thesis by simp
qed

section \<open>Tracked runs\<close>

text \<open>The columns an update never writes.\<close>

definition keepsToken :: "Token \<Rightarrow> Token \<Rightarrow> bool" where
  "keepsToken t t' \<longleftrightarrow> tok_CaseID t' = tok_CaseID t \<and> tok_ScopeID t' = tok_ScopeID t"

definition keepsScope :: "Scope \<Rightarrow> Scope \<Rightarrow> bool" where
  "keepsScope s s' \<longleftrightarrow> sc_CaseID s' = sc_CaseID s \<and> sc_ParentID s' = sc_ParentID s \<and> sc_SplitNode s' = sc_SplitNode s \<and>
     sc_JoinNode s' = sc_JoinNode s \<and> sc_Expected s' = sc_Expected s \<and> sc_OpenedSeq s' = sc_OpenedSeq s"

lemma keeps_refl [simp]: "keepsToken t t" "keepsScope s s"
  by (simp_all add: keepsToken_def keepsScope_def)

lemma keepsToken_trans: "keepsToken x y \<Longrightarrow> keepsToken y z \<Longrightarrow> keepsToken x z"
  by (simp add: keepsToken_def)

lemma keepsScope_trans: "keepsScope x y \<Longrightarrow> keepsScope y z \<Longrightarrow> keepsScope x z"
  by (simp add: keepsScope_def)

lemma keepsScope_sym: "keepsScope x y \<Longrightarrow> keepsScope y x"
  by (simp add: keepsScope_def)

lemma keepsScope_end [simp]: "keepsScope x (s\<lparr>sc_Status := st, sc_ClosedSeq := q\<rparr>) \<longleftrightarrow> keepsScope x s"
  by (simp add: keepsScope_def)

definition marked :: "caseRun \<Rightarrow> uuid set" where
  "marked r = set (run_created r) \<union> set (run_changed r)"

definition tracks :: "caseRun \<Rightarrow> caseRun \<Rightarrow> bool" where
  "tracks r r' \<longleftrightarrow> tracksBy tok_ID keepsToken (marked r') (set (run_created r')) (run_tokens r) (run_tokens r') \<and>
     tracksBy sc_ID keepsScope (marked r') (set (run_created r')) (run_scopes r) (run_scopes r') \<and>
     set (run_created r) \<subseteq> set (run_created r') \<and> marked r \<subseteq> marked r'"

lemma tracks_refl [simp]: "tracks r r"
  by (simp add: tracks_def tracksBy_refl)

lemma tracks_trans:
  assumes "tracks r r'" and "tracks r' r''"
  shows "tracks r r''"
proof -
  have sub: "marked r \<subseteq> marked r'" "marked r' \<subseteq> marked r''" "set (run_created r) \<subseteq> set (run_created r')"
    "set (run_created r') \<subseteq> set (run_created r'')"
    using assms by (auto simp: tracks_def)
  have "tracksBy tok_ID keepsToken (marked r'') (set (run_created r'')) (run_tokens r) (run_tokens r'')"
    by (rule tracksBy_trans [OF tracksBy_mono [OF _ sub(2,4)] _ keepsToken_trans]) (use assms in \<open>auto simp: tracks_def\<close>)
  moreover have "tracksBy sc_ID keepsScope (marked r'') (set (run_created r'')) (run_scopes r) (run_scopes r'')"
    by (rule tracksBy_trans [OF tracksBy_mono [OF _ sub(2,4)] _ keepsScope_trans]) (use assms in \<open>auto simp: tracks_def\<close>)
  ultimately show ?thesis using sub by (auto simp: tracks_def)
qed

lemma tracks_frame:
  assumes "run_tokens r' = run_tokens r" and "run_scopes r' = run_scopes r"
    and "set (run_created r') = set (run_created r)" and "marked r \<subseteq> marked r'"
  shows "tracks r r'"
  using assms by (simp add: tracks_def tracksBy_refl)

lemma marked_touch [simp]: "marked (touch r u) = insert u (marked r)"
  by (auto simp: touch_def marked_def)

lemma marked_frame [simp]:
  "marked (emit r ev) = marked r" "marked (putToken r t) = marked r" "marked (putScope r s) = marked r"
  "marked (r\<lparr>run_events := evs\<rparr>) = marked r" "marked (r\<lparr>run_drawn := n\<rparr>) = marked r"
  "marked (r\<lparr>run_joined := js\<rparr>) = marked r" "marked (r\<lparr>run_joinResults := jr\<rparr>) = marked r"
  "marked (r\<lparr>run_gatewaySteps := g\<rparr>) = marked r" "marked (r\<lparr>run_history := h\<rparr>) = marked r"
  "marked (r\<lparr>run_c := c\<rparr>) = marked r" "marked (beginRun r now a) = marked r"
  "marked (r\<lparr>run_tokens := ts\<rparr>) = marked r" "marked (r\<lparr>run_scopes := ss\<rparr>) = marked r"
  by (simp_all add: marked_def)

lemma tracks_putToken:
  assumes "distinct (map tok_ID (run_tokens r))" and "t \<in> set (run_tokens r)" and "keepsToken t t'" and "tok_ID t' = tok_ID t"
    and "tok_ID t \<in> marked r'" and "run_tokens r' = replaceBy tok_ID t' (run_tokens r)" and "run_scopes r' = run_scopes r"
    and "set (run_created r') = set (run_created r)" and "marked r \<subseteq> marked r'"
  shows "tracks r r'"
  unfolding tracks_def using assms by (simp add: tracksBy_refl tracksBy_replace)

lemma tracks_putScope:
  assumes "distinct (map sc_ID (run_scopes r))" and "s \<in> set (run_scopes r)" and "keepsScope s s'" and "sc_ID s' = sc_ID s"
    and "sc_ID s \<in> marked r'" and "run_scopes r' = replaceBy sc_ID s' (run_scopes r)" and "run_tokens r' = run_tokens r"
    and "set (run_created r') = set (run_created r)" and "marked r \<subseteq> marked r'"
  shows "tracks r r'"
  unfolding tracks_def using assms by (simp add: tracksBy_refl tracksBy_replace)

lemma tracks_addToken: "tracks r (addToken r t)"
  unfolding tracks_def by (auto simp: addToken_def marked_def intro!: tracksBy_refl tracksBy_append)

lemma tracks_addScope: "tracks r (addScope r s)"
  unfolding tracks_def by (auto simp: addScope_def marked_def intro!: tracksBy_refl tracksBy_append)

lemma ended_keeps: "keepsToken t (ended now st q t)"
  by (simp add: keepsToken_def)

lemma tracks_endToken:
  assumes "distinct (map tok_ID (run_tokens r))" and "t \<in> set (run_tokens r)"
  shows "tracks r (endToken r t st q)"
  by (rule tracks_putToken [OF assms ended_keeps [of t "run_now r" st q]])
    (auto simp: endToken_tokens, simp_all add: endToken_def)

lemma tracks_endScope:
  assumes "distinct (map sc_ID (run_scopes r))" and "x \<in> set (run_scopes r)" and "sc_ID x = sc_ID s" and "keepsScope x s"
  shows "tracks r (endScope r s st q)"
  by (rule tracks_putScope [OF assms(1,2), of "s\<lparr>sc_Status := st, sc_ClosedSeq := q\<rparr>"])
    (use assms in \<open>auto simp: endScope_def putScope_def\<close>)

section \<open>Numbered events\<close>

text \<open>The events of a run are numbered without gaps from the last Seq of the case, and carry the
  time and the actor of the call.\<close>

definition stamped :: "caseRun \<Rightarrow> bool" where
  "stamped r \<longleftrightarrow> (\<forall>i < length (run_events r). ev_Seq (run_events r ! i) = run_baseSeq r + 1 + int i \<and>
     ev_OccurredAt (run_events r ! i) = run_now r \<and> ev_Actor (run_events r ! i) = run_actor r)"

lemma stamped_emit: "stamped r \<Longrightarrow> stamped (emit r ev)"
  by (auto simp: stamped_def emit_def nth_append nextSeq_def less_Suc_eq)

lemma stamped_update:
  assumes "stamped r" and "run_baseSeq r' = run_baseSeq r" "run_now r' = run_now r" "run_actor r' = run_actor r"
    and "run_events r' = (run_events r)[k := ev]"
    and "k < length (run_events r) \<Longrightarrow> ev_Seq ev = ev_Seq (run_events r ! k) \<and>
      ev_OccurredAt ev = ev_OccurredAt (run_events r ! k) \<and> ev_Actor ev = ev_Actor (run_events r ! k)"
  shows "stamped r'"
  unfolding stamped_def
proof (intro allI impI)
  fix i assume "i < length (run_events r')"
  then have i: "i < length (run_events r)" by (simp add: assms(5))
  show "ev_Seq (run_events r' ! i) = run_baseSeq r' + 1 + int i \<and>
     ev_OccurredAt (run_events r' ! i) = run_now r' \<and> ev_Actor (run_events r' ! i) = run_actor r'"
    using assms(1) i assms(6) unfolding stamped_def assms(2-5) by (cases "i = k") auto
qed

section \<open>What a plan may do\<close>

text \<open>The columns of a case that only Create and Update set.\<close>

definition keepsCase :: "Case \<Rightarrow> Case \<Rightarrow> bool" where
  "keepsCase c c' \<longleftrightarrow> c_ID c' = c_ID c \<and> c_Definition c' = c_Definition c \<and> c_Version c' = c_Version c \<and>
     c_Tenant c' = c_Tenant c \<and> c_Domain c' = c_Domain c \<and> c_ExternalID c' = c_ExternalID c \<and> c_Unit c' = c_Unit c \<and>
     c_OpenedAt c' = c_OpenedAt c \<and> c_Revision c' = c_Revision c \<and> c_JoinResult c' = c_JoinResult c"

definition logs :: "caseRun \<Rightarrow> caseRun \<Rightarrow> bool" where
  "logs r r' \<longleftrightarrow> run_baseSeq r' = run_baseSeq r \<and> run_now r' = run_now r \<and> run_actor r' = run_actor r \<and>
     run_d r' = run_d r \<and> keepsCase (run_c r) (run_c r') \<and> (stamped r \<longrightarrow> stamped r')"

definition follows :: "call \<Rightarrow> caseRun \<Rightarrow> caseRun \<Rightarrow> bool" where
  "follows cl r r' \<longleftrightarrow> tracks r r' \<and> logs r r' \<and> set (run_created r') \<subseteq> set (run_created r) \<union> range (cl_uuid cl)"

lemma followsI:
  "tracks r r' \<Longrightarrow> logs r r' \<Longrightarrow> set (run_created r') \<subseteq> set (run_created r) \<union> range (cl_uuid cl) \<Longrightarrow> follows cl r r'"
  by (simp add: follows_def)

lemma keepsCase_refl [simp]: "keepsCase c c"
  by (simp add: keepsCase_def)

lemma logs_refl [simp]: "logs r r"
  by (simp add: logs_def)

lemma logs_trans: "logs r r' \<Longrightarrow> logs r' r'' \<Longrightarrow> logs r r''"
  by (auto simp: logs_def keepsCase_def)

lemma follows_refl [simp]: "follows cl r r"
  by (simp add: follows_def)

lemma follows_trans: "follows cl r r' \<Longrightarrow> follows cl r' r'' \<Longrightarrow> follows cl r r''"
  unfolding follows_def using tracks_trans logs_trans by blast

lemma logs_frame:
  assumes "run_baseSeq r' = run_baseSeq r" "run_now r' = run_now r" "run_actor r' = run_actor r" "run_d r' = run_d r"
    and "keepsCase (run_c r) (run_c r')" "run_events r' = run_events r"
  shows "logs r r'"
  using assms by (auto simp: logs_def stamped_def)

lemma logs_emit [simp]: "logs r (emit r ev)"
  by (simp add: logs_def stamped_emit)

lemma follows_frame:
  assumes "run_tokens r' = run_tokens r" and "run_scopes r' = run_scopes r" and "run_created r' = run_created r"
    and "marked r \<subseteq> marked r'" and "logs r r'"
  shows "follows cl r r'"
  using assms by (intro followsI tracks_frame) auto

lemma follows_emit [simp]: "follows cl r (emit r ev)"
  by (rule follows_frame) simp_all

lemma follows_endToken:
  assumes "distinct (map tok_ID (run_tokens r))" and "t \<in> set (run_tokens r)"
  shows "follows cl r (endToken r t st q)"
  by (rule followsI [OF tracks_endToken [OF assms] logs_frame]) simp_all

lemma follows_endScope:
  assumes "distinct (map sc_ID (run_scopes r))" and "x \<in> set (run_scopes r)" and "sc_ID x = sc_ID s" and "keepsScope x s"
  shows "follows cl r (endScope r s st q)"
  by (rule followsI [OF tracks_endScope [OF assms] logs_frame]) simp_all

lemma follows_putToken:
  assumes "distinct (map tok_ID (run_tokens r))" and "t \<in> set (run_tokens r)" and "keepsToken t t'" and "tok_ID t' = tok_ID t"
    and "tok_ID t \<in> marked r'" and "run_tokens r' = replaceBy tok_ID t' (run_tokens r)" and "run_scopes r' = run_scopes r"
    and "run_created r' = run_created r" and "marked r \<subseteq> marked r'" and "logs r r'"
  shows "follows cl r r'"
  by (rule followsI [OF tracks_putToken [OF assms(1-7) _ assms(9)] assms(10)]) (simp_all add: assms(8))

lemma follows_addToken: "tok_ID t \<in> range (cl_uuid cl) \<Longrightarrow> follows cl r (addToken r t)"
  by (rule followsI [OF tracks_addToken logs_frame]) (auto simp: addToken_def)

lemma follows_addScope: "sc_ID s \<in> range (cl_uuid cl) \<Longrightarrow> follows cl r (addScope r s)"
  by (rule followsI [OF tracks_addScope logs_frame]) (auto simp: addScope_def)

section \<open>The turns of routing\<close>

lemma endToken_ids [simp]: "map tok_ID (run_tokens (endToken r t st q)) = map tok_ID (run_tokens r)"
  by (simp add: endToken_tokens)

lemma cancelPending_follows:
  assumes "cancelPending bo reason ps r rep bs = Inr (r', bs')" and "distinct (map tok_ID (run_tokens r))"
  shows "follows cl r r' \<and> map tok_ID (run_tokens r') = map tok_ID (run_tokens r) \<and> run_scopes r' = run_scopes r"
  using assms
proof (induction ps arbitrary: r rep bs)
  case (Cons p ps)
  from Cons.prems(1) obtain t where t: "run_token r (tok_ID p) = Some t" by (auto split: option.splits)
  let ?e = "emit r ((tokenEvent EventTokenCancelled (tok_ID t) (tok_ScopeID t) (tok_Node t) (tok_Node t))
      \<lparr>ev_Detail := DetailCancel reason\<rparr>)"
  let ?r = "endToken ?e t TokenCancelled (nextSeq r)"
  have tm: "t \<in> set (run_tokens ?e)" using run_token_Some [OF t] by simp
  have step: "follows cl r ?r"
    by (rule follows_trans [OF follows_emit follows_endToken [OF _ tm]]) (use Cons.prems(2) in simp)
  have dist: "distinct (map tok_ID (run_tokens ?r))" using Cons.prems(2) by simp
  from Cons.prems(1) t obtain rep2 bs2 where "cancelPending bo reason ps ?r rep2 bs2 = Inr (r', bs')"
    by (auto simp: Let_def split: option.splits if_splits)
  from Cons.IH [OF this dist] step show ?case by (auto intro: follows_trans)
qed simp

lemma consumeAll_follows:
  assumes "consumeAll us q r d = Inr (r', d')" and "distinct (map tok_ID (run_tokens r))"
  shows "follows cl r r' \<and> map tok_ID (run_tokens r') = map tok_ID (run_tokens r) \<and> run_scopes r' = run_scopes r"
  using assms
proof (induction us arbitrary: r d)
  case (Cons u us)
  from Cons.prems(1) obtain t where t: "run_token r u = Some t" by (auto split: option.splits)
  let ?r = "endToken r t TokenConsumed q"
  from Cons.prems(1) t obtain t' where rest: "consumeAll us q ?r (d @ [t']) = Inr (r', d')"
    by (auto simp: Let_def split: option.splits)
  have step: "follows cl r ?r"
    by (rule follows_endToken) (use Cons.prems(2) run_token_Some [OF t] in auto)
  have dist: "distinct (map tok_ID (run_tokens ?r))" using Cons.prems(2) by simp
  from Cons.IH [OF rest dist] step show ?case by (auto intro: follows_trans)
qed simp

text \<open>A scope that was in the run is still there, up to its status.\<close>

definition knownScopes :: "caseRun \<Rightarrow> Scope list \<Rightarrow> bool" where
  "knownScopes r ns \<longleftrightarrow> (\<forall>n \<in> set ns. \<exists>x \<in> set (run_scopes r). sc_ID x = sc_ID n \<and> keepsScope x n)"

lemma knownScopes_endScope:
  assumes known: "knownScopes r (n # ns)" and dist: "distinct (map sc_ID (run_scopes r))"
  shows "knownScopes (endScope r n st q) ns"
  unfolding knownScopes_def
proof
  fix m assume m: "m \<in> set ns"
  let ?n = "n\<lparr>sc_Status := st, sc_ClosedSeq := q\<rparr>"
  from known m obtain x where x: "x \<in> set (run_scopes r)" "sc_ID x = sc_ID m" "keepsScope x m"
    by (auto simp: knownScopes_def)
  from known obtain y where y: "y \<in> set (run_scopes r)" "sc_ID y = sc_ID n" "keepsScope y n"
    by (auto simp: knownScopes_def)
  have scopes: "run_scopes (endScope r n st q) = replaceBy sc_ID ?n (run_scopes r)" by (simp add: endScope_def putScope_def)
  show "\<exists>x \<in> set (run_scopes (endScope r n st q)). sc_ID x = sc_ID m \<and> keepsScope x m"
  proof (cases "sc_ID x = sc_ID n")
    case True
    with x y dist have "x = y" by (metis distinct_map inj_onD)
    with x y have "keepsScope ?n m" by (auto simp: keepsScope_def)
    moreover have "?n \<in> set (replaceBy sc_ID ?n (run_scopes r))" using y by (auto simp: replaceBy_def)
    ultimately show ?thesis using True x(2) unfolding scopes by (intro bexI [of _ ?n]) auto
  next
    case False
    with x show ?thesis by (auto simp: scopes replaceBy_def intro!: bexI [of _ x])
  qed
qed

lemma endScope_ids [simp]: "map sc_ID (run_scopes (endScope r s st q)) = map sc_ID (run_scopes r)"
  by (simp add: endScope_def putScope_def)

lemma cancelScopes_follows:
  assumes "knownScopes r ns" and "distinct (map sc_ID (run_scopes r))"
  shows "follows cl r (cancelScopes r ns q) \<and> map sc_ID (run_scopes (cancelScopes r ns q)) = map sc_ID (run_scopes r)"
  using assms
proof (induction ns arbitrary: r)
  case (Cons n ns)
  from Cons.prems(1) obtain x where x: "x \<in> set (run_scopes r)" "sc_ID x = sc_ID n" "keepsScope x n"
    by (auto simp: knownScopes_def)
  let ?r = "endScope r n ScopeCancelled q"
  have "follows cl r ?r" by (rule follows_endScope [OF Cons.prems(2) x])
  moreover have "follows cl ?r (cancelScopes ?r ns q) \<and> map sc_ID (run_scopes (cancelScopes ?r ns q)) = map sc_ID (run_scopes ?r)"
    by (rule Cons.IH [OF knownScopes_endScope [OF Cons.prems]]) (use Cons.prems(2) in simp)
  ultimately show ?case by (auto simp: cancelScopes_def intro: follows_trans)
qed (simp add: cancelScopes_def)

text \<open>A later run still knows the scopes of an earlier one.\<close>

lemma tracks_known:
  assumes "tracks r r'" and "s \<in> set (run_scopes r)"
  obtains x where "x \<in> set (run_scopes r')" and "sc_ID x = sc_ID s" and "keepsScope x s"
proof -
  have "tracksBy sc_ID keepsScope (marked r') (set (run_created r')) (run_scopes r) (run_scopes r')"
    using assms(1) by (simp add: tracks_def)
  then obtain f ns where "run_scopes r' = map f (run_scopes r) @ ns"
    and "\<forall>x \<in> set (run_scopes r). keepsScope x (f x) \<and> sc_ID (f x) = sc_ID x \<and> (f x \<noteq> x \<longrightarrow> sc_ID x \<in> marked r')"
    by (rule tracksByE)
  with assms(2) that [of "f s"] show thesis by (auto intro: keepsScope_sym)
qed

lemma consumeRound_follows:
  assumes cons: "consumeRound cl r s j w v bs ns = Inr (r', nx, jrec)" and s: "s \<in> set (run_scopes r)"
    and known: "set ns \<subseteq> set (run_scopes r)"
    and dist: "distinct (map tok_ID (run_tokens r))" "distinct (map sc_ID (run_scopes r))"
  shows "follows cl r r'"
proof -
  from cons obtain r1 d where all: "consumeAll (map tok_ID w) (nextSeq r) (emit (r\<lparr>run_drawn := run_drawn r + 1\<rparr>)
       ((tokenEvent EventJoined (draw cl r) (sc_ID s) (node_ID j) (node_ID j))
          \<lparr>ev_Detail := DetailJoin \<lparr>jd_Scope = sc_ID s, jd_JoinNode = node_ID j,
             jd_Tokens = map tok_ID w, jd_Policy = node_JoinPolicy j, jd_Verdict = v,
             jd_Branches = bs\<rparr>\<rparr>)) [] = Inr (r1, d)" (is "consumeAll _ _ (emit ?r ?ev) [] = _")
    and r': "r' = touch (putScope (cancelScopes r1 ns (nextSeq r)) (s\<lparr>sc_Status := ScopeJoined, sc_ClosedSeq := nextSeq r\<rparr>)) (sc_ID s)"
    by (rule consumeRound_Inr)
  have "follows cl r ?r" by (rule follows_frame) (simp_all add: logs_frame)
  then have "follows cl r (emit ?r ?ev)" by (rule follows_trans) simp
  moreover have one: "follows cl (emit ?r ?ev) r1 \<and> map tok_ID (run_tokens r1) = map tok_ID (run_tokens (emit ?r ?ev)) \<and>
      run_scopes r1 = run_scopes (emit ?r ?ev)"
    by (rule consumeAll_follows [OF all]) (use dist in simp)
  ultimately have f1: "follows cl r r1" by (blast intro: follows_trans)
  have "knownScopes r1 ns" using known one by (auto simp: knownScopes_def)
  then have two: "follows cl r1 (cancelScopes r1 ns (nextSeq r)) \<and>
      map sc_ID (run_scopes (cancelScopes r1 ns (nextSeq r))) = map sc_ID (run_scopes r1)"
    by (rule cancelScopes_follows) (use one dist in simp)
  then obtain x where x: "x \<in> set (run_scopes (cancelScopes r1 ns (nextSeq r)))" "sc_ID x = sc_ID s" "keepsScope x s"
    using s one by (auto simp: follows_def elim!: tracks_known [of r1])
  have "r' = endScope (cancelScopes r1 ns (nextSeq r)) s ScopeJoined (nextSeq r)" by (simp add: r' endScope_def)
  then have "follows cl (cancelScopes r1 ns (nextSeq r)) r'"
    using follows_endScope [OF _ x] two one dist by simp
  with f1 two show ?thesis by (blast intro: follows_trans)
qed

lemma closeRound_follows:
  assumes "closeRound r s p = Inr (r', bs, ns)"
    and "distinct (map tok_ID (run_tokens r))" "distinct (map sc_ID (run_scopes r))"
  shows "follows cl r r'" and "map tok_ID (run_tokens r') = map tok_ID (run_tokens r)" and "run_scopes r' = run_scopes r"
    and "set ns \<subseteq> set (run_scopes r)"
proof -
  have nested: "fst ` set (nestedScopes r u) \<subseteq> set (run_scopes r)" for u
    by (auto simp: nestedScopes_def split: if_splits option.splits)
  from assms have "follows cl r r' \<and> map tok_ID (run_tokens r') = map tok_ID (run_tokens r) \<and> run_scopes r' = run_scopes r \<and>
    set ns \<subseteq> set (run_scopes r)"
    using cancelPending_follows nested by (fastforce simp: closeRound_def closeBranches_def Let_def split: if_splits)
  then show "follows cl r r'" and "map tok_ID (run_tokens r') = map tok_ID (run_tokens r)" and "run_scopes r' = run_scopes r"
    and "set ns \<subseteq> set (run_scopes r)" by auto
qed

lemma joinPlan_follows:
  assumes plan: "joinPlan e cl db r s jn w v = Inr (r', nx, out)" and s: "s \<in> set (run_scopes r)"
    and dist: "distinct (map tok_ID (run_tokens r))" "distinct (map sc_ID (run_scopes r))"
  shows "follows cl r r'"
proof -
  from plan obtain j r1 r2 bs ns p r3 jrec where r1: "r1 = r\<lparr>run_gatewaySteps := run_gatewaySteps r + 1\<rparr>"
    and close: "closeRound r1 s (node_JoinPolicy j) = Inr (r2, bs, ns)"
    and cons: "consumeRound cl r2 s j w v bs ns = Inr (r3, nx, jrec)"
    and r': "r' = (if node_JoinPolicy j = JoinPolicyNone then id
       else (\<lambda>r. noteJoinResult r nx s (node_JoinPolicy j) v (sc_ClosedSeq (jrec_Scope jrec)) bs))
      (addToken (r3\<lparr>run_joined := run_joined r3 @ [jrec]\<rparr>) (newToken nx (c_ID (run_c r3)) p (node_ID j)))"
    by (rule joinPlan_Inr)
  have dist1: "distinct (map tok_ID (run_tokens r1))" "distinct (map sc_ID (run_scopes r1))" using dist by (simp_all add: r1)
  have f1: "follows cl r r1" by (rule follows_frame) (simp_all add: r1 logs_frame)
  note cr = closeRound_follows [OF close dist1]
  have f3: "follows cl r2 r3"
    by (rule consumeRound_follows [OF cons]) (use cr s dist1 in \<open>auto simp: r1\<close>)
  let ?r4 = "r3\<lparr>run_joined := run_joined r3 @ [jrec]\<rparr>" and ?t = "newToken nx (c_ID (run_c r3)) p (node_ID j)"
  have f4: "follows cl r3 ?r4" by (rule follows_frame) (simp_all add: logs_frame)
  have "nx \<in> range (cl_uuid cl)" using consumeRound_fields(4) [OF cons] by (simp add: draw_def)
  then have f5: "follows cl ?r4 (addToken ?r4 ?t)" by (intro follows_addToken) simp
  have "follows cl (addToken ?r4 ?t) r'"
    unfolding r' by (rule follows_frame) (auto simp: noteJoinResult_def intro: logs_frame)
  with f5 f4 f3 cr(1) f1 show ?thesis by (blast intro: follows_trans)
qed

lemma joinStep_follows:
  assumes step: "joinStep e cl db r s = Inr (r', ts)" and s: "s \<in> set (run_scopes r)"
    and dist: "distinct (map tok_ID (run_tokens r))" "distinct (map sc_ID (run_scopes r))"
  shows "follows cl r r'" and "pendTokens ts = []"
proof -
  have "r' = r \<and> ts = [] \<or> (\<exists>jn w v nx out. joinPlan e cl db r s jn w v = Inr (r', nx, out) \<and> ts = [Go nx out '''' 0])"
    using step by (auto simp: joinStep_def split: if_splits)
  then show "follows cl r r'" "pendTokens ts = []" using joinPlan_follows [OF _ s dist] by auto
qed

lemma restAt_follows:
  assumes rest: "restAt e db r tok n k = Inr r'" and dist: "distinct (map tok_ID (run_tokens r))"
    and tok: "tok \<in> set (run_tokens r)" "tok_ID tok \<in> marked r"
  shows "follows cl r r'"
proof -
  from rest obtain deadline where
    a: "applyAssignRule e db ((putToken r (tok\<lparr>tok_Status := TokenActive,
         tok_Eligible := resolvedEligibility n (c_Unit (run_c r)), tok_DeadlineAt := deadline\<rparr>))
       \<lparr>run_events := (run_events r)[k := (run_events r ! k)\<lparr>ev_DeadlineAt := deadline\<rparr>]\<rparr>)
       (tok\<lparr>tok_Status := TokenActive, tok_Eligible := resolvedEligibility n (c_Unit (run_c r)),
         tok_DeadlineAt := deadline\<rparr>) n = Inr r'" (is "applyAssignRule e db ?r ?t n = _")
    by (auto simp: restAt_def Let_def)
  have "logs r ?r"
    unfolding logs_def by (auto intro: stamped_update [where r = r and k = k])
  then have f1: "follows cl r ?r"
    by (intro follows_putToken [OF dist tok(1), of ?t]) (auto simp: tok(2) keepsToken_def putToken_def)
  from a consider "r' = ?r" | h where "r' = ?r\<lparr>run_history := h\<rparr>"
    | h to ev where "r' = emit (putToken (?r\<lparr>run_history := h\<rparr>) (?t\<lparr>tok_AssignedTo := to\<rparr>)) ev"
    by (auto simp: applyAssignRule_def fullHistory_def split: if_splits option.splits)
  then show ?thesis
  proof cases
    case (2 h)
    have "follows cl ?r r'" unfolding 2 by (rule follows_frame) (auto intro: logs_frame)
    with f1 show ?thesis by (rule follows_trans)
  next
    case (3 h to ev)
    let ?h = "?r\<lparr>run_history := h\<rparr>"
    have mem: "?t \<in> set (run_tokens ?r)" using tok(1) by (auto simp: putToken_def replaceBy_def)
    have ids: "distinct (map tok_ID (run_tokens ?r))" using dist by (simp add: putToken_def)
    have "follows cl ?r (putToken ?h (?t\<lparr>tok_AssignedTo := to\<rparr>))"
      by (rule follows_putToken [OF ids mem, of "?t\<lparr>tok_AssignedTo := to\<rparr>"])
        (auto simp: keepsToken_def tok(2), auto simp: putToken_def tok(2) intro: logs_frame)
    with f1 have "follows cl r (putToken ?h (?t\<lparr>tok_AssignedTo := to\<rparr>))" by (rule follows_trans)
    then show ?thesis unfolding 3 by (rule follows_trans) simp
  qed (use f1 in simp)
qed

lemma hop_follows:
  assumes "distinct (map tok_ID (run_tokens r))" and "t \<in> set (run_tokens r)"
  shows "follows cl r (hop r t n tr cm)" and "tok_ID t \<in> marked (hop r t n tr cm)"
proof -
  show m: "tok_ID t \<in> marked (hop r t n tr cm)" by (simp add: hop_def)
  have "logs r (hop r t n tr cm)"
    unfolding hop_def by (rule logs_trans [OF logs_emit logs_frame]) simp_all
  then show "follows cl r (hop r t n tr cm)"
    using m by (intro follows_putToken [OF assms, of "moveTo r t n"]) (auto simp: keepsToken_def hop_tokens, auto simp: hop_def)
qed

lemma openSplit_follows:
  assumes sp: "openSplit e cl db r tok n = Inr (r', ps)" and dist: "distinct (map tok_ID (run_tokens r))"
    and tok: "tok \<in> set (run_tokens r)"
  shows "follows cl r r'" and "tok_ID ` fst ` set ps \<subseteq> range (cl_uuid cl)"
proof -
  from sp obtain r1 taken sid ids where r1: "r1 = r\<lparr>run_gatewaySteps := run_gatewaySteps r + 1\<rparr>"
    and sid: "sid = draw cl r" and ids: "ids = map (\<lambda>i. cl_uuid cl (run_drawn r + 1 + i)) [0..<length taken]"
    and ps: "ps = zip (map (\<lambda>uid. newToken uid (c_ID (run_c r)) sid (node_ID n)) ids) taken"
    and r': "r' = addScope (endToken (emit (r1\<lparr>run_drawn := run_drawn r + 1 + length taken\<rparr>)
        ((tokenEvent EventSplit (tok_ID tok) (tok_ScopeID tok) (node_ID n) (node_ID n))
           \<lparr>ev_Detail := DetailSplit \<lparr>sd_Scope = sid, sd_SplitNode = node_ID n, sd_Tokens = ids\<rparr>\<rparr>))
        tok TokenConsumed (nextSeq r))
       \<lparr>sc_ID = sid, sc_CaseID = c_ID (run_c r), sc_ParentID = Some (tok_ScopeID tok),
        sc_SplitNode = node_ID n, sc_JoinNode = node_Join n, sc_Expected = int (length taken),
        sc_Status = ScopeOpen, sc_OpenedSeq = nextSeq r, sc_ClosedSeq = 0\<rparr>"
      (is "r' = addScope (endToken (emit ?r ?ev) tok TokenConsumed ?q) ?s")
    by (rule openSplit_Inr)
  show "tok_ID ` fst ` set ps \<subseteq> range (cl_uuid cl)"
    by (auto simp: ps ids dest!: set_zip_leftD)
  have "follows cl r ?r" by (rule follows_frame) (auto simp: r1 intro: logs_frame)
  then have f1: "follows cl r (emit ?r ?ev)" by (rule follows_trans) simp
  have f2: "follows cl (emit ?r ?ev) (endToken (emit ?r ?ev) tok TokenConsumed ?q)"
    by (rule follows_endToken) (use dist tok in \<open>simp_all add: r1\<close>)
  have "follows cl (endToken (emit ?r ?ev) tok TokenConsumed ?q) r'"
    unfolding r' by (rule follows_addScope) (simp add: sid draw_def)
  with f1 f2 show "follows cl r r'" by (blast intro: follows_trans)
qed

lemma closeCase_follows:
  assumes close: "closeCase r tok n a = Inr r'" and tok: "tok \<in> set (run_tokens r)"
    and dist: "distinct (map tok_ID (run_tokens r))" "distinct (map sc_ID (run_scopes r))"
  shows "follows cl r r'"
proof -
  let ?e = "emit r ((tokenEvent EventClosed (tok_ID tok) (tok_ScopeID tok) (node_ID n) (node_ID n))\<lparr>ev_Action := a\<rparr>)"
  let ?r = "endToken ?e tok TokenConsumed (nextSeq r)"
  let ?s = "case run_scope ?r (c_ID (run_c r)) of None \<Rightarrow> ?r | Some root \<Rightarrow> endScope ?r root ScopeClosed (nextSeq r)"
  have f1: "follows cl r ?r"
    by (rule follows_trans [OF follows_emit follows_endToken]) (use dist tok in simp_all)
  have f2: "follows cl ?r ?s"
  proof (cases "run_scope ?r (c_ID (run_c r))")
    case (Some root)
    have "follows cl ?r (endScope ?r root ScopeClosed (nextSeq r))"
      by (rule follows_endScope [where x = root]) (use dist run_scope_Some [OF Some] in simp_all)
    with Some show ?thesis by simp
  qed simp
  have "r' = ?s\<lparr>run_c := (run_c ?s)\<lparr>c_Status := StatusClosed, c_ClosedAt := Some (run_now ?s), c_State := node_ID n\<rparr>\<rparr>"
    using close by (auto simp: closeCase_def Let_def split: if_splits option.splits)
  then have "follows cl ?s r'" by (intro follows_frame) (auto simp: keepsCase_def intro: logs_frame)
  with f1 f2 show ?thesis by (blast intro: follows_trans)
qed

lemma enterNode_follows:
  assumes step: "enterNode e cl db r tok n tr h k = Inr (r', ts)" and tok: "tok \<in> set (run_tokens r)" "tok_ID tok \<in> marked r"
    and dist: "distinct (map tok_ID (run_tokens r))" "distinct (map sc_ID (run_scopes r))"
  shows "follows cl r r'" and "tok_ID ` set (pendTokens ts) \<subseteq> range (cl_uuid cl)"
proof -
  have "follows cl r r' \<and> tok_ID ` set (pendTokens ts) \<subseteq> range (cl_uuid cl)"
  proof (cases "node_Kind n = NodeJoin")
    case True
    let ?t = "tok\<lparr>tok_Status := TokenWaiting, tok_Outcome := tr_Outcome tr\<rparr>"
    from step True obtain s ev where s: "run_scope r (tok_ScopeID tok) = Some s"
      and js: "joinStep e cl db (emit (putToken r ?t) ev) s = Inr (r', ts)"
      by (auto simp: enterNode_def arriveStep_def split: option.splits if_splits)
    have "follows cl r (putToken r ?t)"
      by (rule follows_putToken [OF dist(1) tok(1), of ?t])
        (auto simp: keepsToken_def tok(2), auto simp: putToken_def intro: logs_frame)
    then have f1: "follows cl r (emit (putToken r ?t) ev)" by (rule follows_trans) simp
    have "distinct (map tok_ID (run_tokens (emit (putToken r ?t) ev)))" using dist(1) by (simp add: putToken_def)
    note js' = joinStep_follows [OF js _ this]
    have f2: "follows cl (emit (putToken r ?t) ev) r'" and "pendTokens ts = []"
      using js' run_scope_Some [OF s] dist by simp_all
    with follows_trans [OF f1 f2] show ?thesis by simp
  next
    case False
    consider "r' = r" "pendTokens ts = []" | ps where "openSplit e cl db r tok n = Inr (r', ps)" "pendTokens ts = map fst ps"
      | "closeCase r tok n (tr_Action tr) = Inr r'" "ts = []" | "restAt e db r tok n k = Inr r'" "ts = []"
      using step False by (auto simp: enterNode_def split: if_splits)
    then show ?thesis
    proof cases
      case (2 ps)
      from openSplit_follows [OF 2(1) dist(1) tok(1)] 2(2) show ?thesis by auto
    next
      case 3
      from closeCase_follows [OF 3(1) tok(1) dist] 3(2) show ?thesis by simp
    next
      case 4
      from restAt_follows [OF 4(1) dist(1) tok] 4(2) show ?thesis by simp
    qed simp
  qed
  then show "follows cl r r'" and "tok_ID ` set (pendTokens ts) \<subseteq> range (cl_uuid cl)" by auto
qed

definition trackInv :: "call \<Rightarrow> caseRun \<Rightarrow> caseRun \<times> task list \<Rightarrow> bool" where
  "trackInv cl r0 = (\<lambda>(r, st). runInv cl (r, st) \<and> follows cl r0 r \<and> tok_ID ` set (pendTokens st) \<subseteq> range (cl_uuid cl))"

lemma runInv_distinct:
  assumes "runInv cl (r, st)"
  shows "distinct (map tok_ID (run_tokens r))" and "distinct (map sc_ID (run_scopes r))"
proof -
  have core: "coreInv {} cl r (allTokens r st)" using assms by (simp add: runInv_def)
  from coreInv_distinct [OF core] show "distinct (map tok_ID (run_tokens r))" by (simp add: allTokens_def)
  show "distinct (map sc_ID (run_scopes r))" by (rule treeShape_distinct [OF treeInvD(1) [OF coreInvD(3) [OF core]]])
qed

lemma planStep_trackInv:
  assumes step: "planStep e cl db (r, st) (r', st')" and inv: "trackInv cl r0 (r, st)"
  shows "trackInv cl r0 (r', st')"
proof -
  have run: "runInv cl (r, st)" and fol: "follows cl r0 r" and pend: "tok_ID ` set (pendTokens st) \<subseteq> range (cl_uuid cl)"
    using inv by (auto simp: trackInv_def)
  note dist = runInv_distinct [OF run]
  from step have "follows cl r r' \<and> tok_ID ` set (pendTokens st') \<subseteq> range (cl_uuid cl)"
  proof (cases rule: planStepE [consumes 1, case_names turn branch])
    case (turn tid tr cm h r1 ts st0)
    then obtain nx tok where tok: "run_token r tid = Some tok"
      and en: "enterNode e cl db (hop r tok nx tr cm) (moveTo r tok nx) nx tr h (length (run_events r)) = Inr (r', ts)"
      by (auto simp: advance_def split: option.splits)
    have tm: "tok \<in> set (run_tokens r)" using run_token_Some [OF tok] by simp
    note h = hop_follows [OF dist(1) tm]
    have "moveTo r tok nx \<in> set (run_tokens (hop r tok nx tr cm))" using tm by (auto simp: hop_tokens replaceBy_def)
    moreover have "distinct (map tok_ID (run_tokens (hop r tok nx tr cm)))" using dist(1) by (simp add: hop_tokens)
    ultimately have f: "follows cl (hop r tok nx tr cm) r'" and p: "tok_ID ` set (pendTokens ts) \<subseteq> range (cl_uuid cl)"
      using enterNode_follows [OF en] h(2) dist(2) by simp_all
    show ?thesis
    proof
      show "follows cl r r'" by (rule follows_trans [OF h(1) f])
      show "tok_ID ` set (pendTokens st') \<subseteq> range (cl_uuid cl)" using p pend turn by auto
    qed
  next
    case (branch b tr st0)
    with pend have "tok_ID b \<in> range (cl_uuid cl)" by simp
    then show ?thesis using branch pend follows_addToken by auto
  qed
  with fol planStep_runInv [OF step run] show ?thesis by (auto simp: trackInv_def intro: follows_trans)
qed

theorem route_follows:
  assumes inv: "caseInv cl r" and t: "t \<in> set (run_tokens r)" "tok_Status t = TokenActive"
    and tr: "tr \<in> set (d_Transitions (run_d r))" and route: "route e cl db r (tok_ID t) tr cm h = Inr r'"
  shows "follows cl r r'"
proof -
  have "trackInv cl r (r, [Go (tok_ID t) tr cm h])"
    using inv t tr by (auto simp: trackInv_def caseInv_def runInv_def allTokens_def stackInv_def taskOK_def restInv_def)
  from planSteps_invariant [where P = "trackInv cl r", OF route_steps [OF route] this] planStep_trackInv
  have "trackInv cl r (r', [])" by (metis surj_pair)
  then show ?thesis by (simp add: trackInv_def)
qed

section \<open>The plans of the operations\<close>

text \<open>The run of a stored case before anything is filled in or planned.\<close>

definition rawRun :: "Case \<Rightarrow> Definition \<Rightarrow> Token list \<Rightarrow> Scope list \<Rightarrow> time \<Rightarrow> Actor \<Rightarrow> caseRun" where
  "rawRun c d ts ss now actor =
     \<lparr>run_c = c, run_d = d, run_tokens = ts, run_scopes = ss, run_created = [], run_changed = [],
      run_now = now, run_actor = actor, run_baseSeq = c_LastSeq c, run_events = [], run_joined = [],
      run_gatewaySteps = 0, run_joinResults = [], run_history = None, run_drawn = 0\<rparr>"

definition planned :: "'db engine \<Rightarrow> call \<Rightarrow> 'db \<Rightarrow> uuid \<Rightarrow> caseRun \<Rightarrow> bool" where
  "planned e cl db cid r \<longleftrightarrow> (\<exists>c d ts ss actor. r_GetByID (eng_repo e) cid db = Inr c \<and>
     resolveDefinition e (c_Definition c) (c_Version c) = Inr d \<and>
     r_ListTokens (eng_repo e) (c_ID c) db = Inr ts \<and> r_ListScopes (eng_repo e) (c_ID c) db = Inr ss \<and>
     follows cl (rawRun c d ts ss (cl_now cl) actor) r)"

lemma loadRun_follows:
  assumes load: "loadRun e db c d = Inr r"
  obtains ts ss where "r_ListTokens (eng_repo e) (c_ID c) db = Inr ts" and "r_ListScopes (eng_repo e) (c_ID c) db = Inr ss"
    and "follows cl (rawRun c d ts ss now actor) (beginRun r now actor)"
proof -
  obtain ts ss where ts: "r_ListTokens (eng_repo e) (c_ID c) db = Inr ts" and ss: "r_ListScopes (eng_repo e) (c_ID c) db = Inr ss"
    and toks: "run_tokens r = map (\<lambda>t. case fillToken d (c_Unit c) t of None \<Rightarrow> t | Some t' \<Rightarrow> t') ts"
    and r: "run_scopes r = ss" "run_c r = c" "run_d r = d" "run_created r = []"
      "run_changed r = map tok_ID (filter (\<lambda>t. fillToken d (c_Unit c) t \<noteq> None) ts)"
      "run_baseSeq r = c_LastSeq c" "run_events r = []"
    by (rule loadRun_Inr [OF load]) (rule that)
  let ?raw = "rawRun c d ts ss now actor" and ?r = "beginRun r now actor"
  have fill: "keepsToken t t' \<and> tok_ID t' = tok_ID t" if "fillToken d (c_Unit c) t = Some t'" for t t'
    using fillToken_samePlace [OF that] by (simp add: keepsToken_def samePlace_def)
  have "tracksBy tok_ID keepsToken (marked ?r) (set (run_created ?r)) ts (run_tokens r)"
    by (rule tracksByI [where ns = "[]" and f = "\<lambda>t. case fillToken d (c_Unit c) t of None \<Rightarrow> t | Some t' \<Rightarrow> t'"])
      (simp add: toks, simp, auto simp: marked_def r fill split: option.split)
  then have "tracks ?raw ?r" by (auto simp: tracks_def rawRun_def r marked_def tracksBy_refl)
  moreover have "logs ?raw ?r" by (rule logs_frame) (simp_all add: rawRun_def beginRun_def r)
  ultimately have "follows cl ?raw ?r" by (simp add: follows_def r)
  with ts ss that show thesis by blast
qed

lemma plannedI:
  assumes c: "r_GetByID (eng_repo e) cid db = Inr c" and d: "resolveDefinition e (c_Definition c) (c_Version c) = Inr d"
    and load: "loadRun e db c d = Inr r" and fol: "follows cl (beginRun r (cl_now cl) actor) r'"
  shows "planned e cl db cid r'"
proof -
  obtain ts ss where "r_ListTokens (eng_repo e) (c_ID c) db = Inr ts" "r_ListScopes (eng_repo e) (c_ID c) db = Inr ss"
    and "follows cl (rawRun c d ts ss (cl_now cl) actor) (beginRun r (cl_now cl) actor)"
    by (rule loadRun_follows [OF load])
  with c d fol show ?thesis unfolding planned_def by (blast intro: follows_trans)
qed

lemma editToken_follows:
  assumes inv: "caseInv cl r" and t: "t \<in> set (run_tokens r)"
    and t': "tok_ID t' = tok_ID t" "tok_ScopeID t' = tok_ScopeID t" "tok_CaseID t' = tok_CaseID t"
  shows "follows cl r (editToken r t' k det)"
proof -
  have dist: "distinct (map tok_ID (run_tokens r))"
    using runInv_distinct(1) inv by (auto simp: caseInv_runInv)
  have "follows cl r (touch (putToken r t') (tok_ID t'))"
    by (rule follows_putToken [OF dist t, of t'])
      (auto simp: keepsToken_def t', auto simp: putToken_def t' intro: logs_frame)
  then show ?thesis unfolding editToken_def by (rule follows_trans) simp
qed

lemma submitStep_follows: "follows cl r (submitStep r t i)"
  by (simp add: submitStep_def split: option.split)

theorem movePlan_planned:
  assumes "storedOK e cl db (mi_CaseID i)" and "movePlan e cl i db = Inr (d, r')"
  shows "planned e cl db (mi_CaseID i) r'"
proof -
  from assms(2) obtain actor c r tok tr where
    c: "r_GetByID (eng_repo e) (mi_CaseID i) db = Inr c" and d: "resolveDefinition e (c_Definition c) (c_Version c) = Inr d"
    and load: "loadRun e db c d = Inr r" and pick: "pick r (mi_TokenID i) = Inr tok"
    and tr: "findTransition (TransitionsFrom d (tok_Node tok)) (mi_Action i) = Some tr"
    and route: "route e cl db (submitStep (beginRun r (cl_now cl) actor) tok i) (tok_ID tok) tr (trimSpace (mi_Comment i)) 0 = Inr r'"
    by (auto simp: movePlan_def split: option.splits)
  have rd: "run_d r = d" by (rule loadRun_Inr [OF load])
  have inv: "caseInv cl (submitStep (beginRun r (cl_now cl) actor) tok i)"
    using loadRun_caseInv [OF assms(1) c d load] by (simp add: submitStep_caseInv)
  have "follows cl (submitStep (beginRun r (cl_now cl) actor) tok i) r'"
    by (rule route_follows [OF inv _ _ _ route])
      (use pick_Inr [OF pick] findTransition_Some [OF tr] in \<open>auto simp: TransitionsFrom_mem rd\<close>)
  with submitStep_follows show ?thesis by (intro plannedI [OF c d load]) (rule follows_trans)
qed

lemma edit_planned:
  assumes stored: "storedOK e cl db cid" and c: "r_GetByID (eng_repo e) cid db = Inr c"
    and load: "loadToken e db c tid = Inr (r, tok)"
    and t': "tok_ID t' = tok_ID tok" "tok_ScopeID t' = tok_ScopeID tok" "tok_CaseID t' = tok_CaseID tok"
  shows "planned e cl db cid (editToken (beginRun r (cl_now cl) actor) t' k det)"
proof -
  from load obtain d where d: "resolveDefinition e (c_Definition c) (c_Version c) = Inr d"
    and load': "loadRun e db c d = Inr r" and pick: "pick r tid = Inr tok"
    by (auto simp: loadToken_def)
  have "follows cl (beginRun r (cl_now cl) actor) (editToken (beginRun r (cl_now cl) actor) t' k det)"
    by (rule editToken_follows [where t = tok])
      (use t' pick_Inr [OF pick] loadRun_caseInv [OF stored c d load'] in simp_all)
  then show ?thesis by (rule plannedI [OF c d load'])
qed

theorem claimPlan_planned:
  assumes "storedOK e cl db (ci_CaseID i)" and "claimPlan e cl i db = Inr (c, Some r')"
  shows "planned e cl db (ci_CaseID i) r'"
proof -
  from assms(2) obtain actor r tok where c: "r_GetByID (eng_repo e) (ci_CaseID i) db = Inr c"
    and load: "loadToken e db c (ci_TokenID i) = Inr (r, tok)"
    and r': "r' = editToken (beginRun r (cl_now cl) actor) (tok\<lparr>tok_AssignedTo := ac_ID actor\<rparr>)
            EventAssigned (DetailAssignment \<lparr>ad_From = '''', ad_To = ac_ID actor, ad_Reason = ''''\<rparr>)"
    by (auto simp: claimPlan_def split: if_splits)
  show ?thesis unfolding r' by (rule edit_planned [OF assms(1) c load]) simp_all
qed

theorem releasePlan_planned:
  assumes "storedOK e cl db (ri_CaseID i)" and "releasePlan e cl i db = Inr r'"
  shows "planned e cl db (ri_CaseID i) r'"
  using assms by (auto simp: releasePlan_def intro!: edit_planned)

theorem reassignPlan_planned:
  assumes "storedOK e cl db (ra_CaseID i)" and "reassignPlan e cl i db = Inr r'"
  shows "planned e cl db (ra_CaseID i) r'"
  using assms by (auto simp: reassignPlan_def intro!: edit_planned)

theorem setDeadlinePlan_planned:
  assumes "storedOK e cl db (si_CaseID i)" and "setDeadlinePlan e cl i db = Inr r'"
  shows "planned e cl db (si_CaseID i) r'"
  using assms by (auto simp: setDeadlinePlan_def intro!: edit_planned)

theorem refreshPlan_planned:
  assumes "refreshPlan e cl cid db = Inr (Some r')"
  shows "planned e cl db cid r'"
proof -
  from assms obtain c d r where ld: "r_GetByID (eng_repo e) cid db = Inr c"
    "resolveDefinition e (c_Definition c) (c_Version c) = Inr d" "loadRun e db c d = Inr r"
    and r': "r' = beginRun r (cl_now cl) zeroActor"
    by (auto simp: refreshPlan_def split: if_splits)
  show ?thesis by (rule plannedI [OF ld, where actor = zeroActor]) (simp add: r')
qed

theorem expirePlan_planned:
  assumes "storedOK e cl db (xi_CaseID i)" and "expirePlan e cl i db = Inr (d, r', m)"
  shows "planned e cl db (xi_CaseID i) r'"
proof -
  from assms(2) obtain actor c r tok deadline taken where
    c: "r_GetByID (eng_repo e) (xi_CaseID i) db = Inr c" and d: "resolveDefinition e (c_Definition c) (c_Version c) = Inr d"
    and load: "loadRun e db c d = Inr r" and pick: "pick r (xi_TokenID i) = Inr tok"
    and ox: "onExpire e db r tok = Inr taken"
    and r': "case taken of None \<Rightarrow> r' = markExpired (beginRun r (cl_now cl) actor) tok deadline
      | Some tr \<Rightarrow> expireRoute e cl db (markExpired (beginRun r (cl_now cl) actor) tok deadline) (tok_ID tok) tr = Inr r'"
    by (auto simp: expirePlan_def Let_def split: option.splits)
  let ?b = "beginRun r (cl_now cl) actor" and ?t = "tok\<lparr>tok_ExpiredDeadline := Some deadline\<rparr>"
  let ?r = "markExpired ?b tok deadline"
  note tok = pick_Inr [OF pick]
  have invb: "caseInv cl ?b" using loadRun_caseInv [OF assms(1) c d load] by simp
  have f1: "follows cl ?b ?r"
    unfolding markExpired_def by (rule editToken_follows [OF invb, where t = tok]) (use tok in simp_all)
  have inv: "caseInv cl ?r"
    unfolding markExpired_def by (rule editToken_caseInv [OF invb, where t = tok]) (use tok in simp_all)
  have "follows cl ?b r'"
  proof (cases taken)
    case None
    with r' f1 show ?thesis by simp
  next
    case (Some tr)
    then have "tr \<in> set (d_Transitions (run_d r))"
      using ox by (auto simp: onExpire_def TransitionsFrom_mem split: option.splits if_splits dest: findTransition_Some)
    then have tr: "tr \<in> set (d_Transitions (run_d ?r))" by (simp add: markExpired_def editToken_def)
    let ?n = "length (run_events ?r)"
    from Some r' obtain r2 where route: "route e cl db ?r (tok_ID tok) tr '''' 0 = Inr r2"
      and r2: "r' = r2\<lparr>run_events := (run_events r2)[?n := (run_events r2 ! ?n)\<lparr>ev_Detail := DetailCause ''expired''\<rparr>]\<rparr>"
      by (auto simp: expireRoute_def Let_def)
    have "?t \<in> set (run_tokens ?r)"
      using tok(1) by (auto simp: markExpired_def editToken_def putToken_def replaceBy_def)
    with route_follows [OF inv _ _ tr, of ?t] route tok(2) have f2: "follows cl ?r r2" by simp
    have "logs r2 r'"
      unfolding logs_def r2 by (auto intro: stamped_update [where r = r2 and k = ?n])
    then have "follows cl r2 r'" by (intro follows_frame) (simp_all add: r2)
    with f1 f2 show ?thesis by (blast intro: follows_trans)
  qed
  then show ?thesis by (rule plannedI [OF c d load])
qed

lemma cancelOne_follows:
  assumes "distinct (map tok_ID (run_tokens r))" and "t \<in> set (run_tokens r)"
  shows "follows cl r (cancelOne r t reason)"
  unfolding cancelOne_def Let_def
  by (rule follows_trans [OF follows_emit follows_endToken]) (use assms in simp_all)

lemma cancelLive_follows:
  assumes "cancelLive reason ls r = Inr r'" and "distinct (map tok_ID (run_tokens r))"
  shows "follows cl r r'"
  using assms
proof (induction ls arbitrary: r)
  case (Cons l ls)
  then obtain t where t: "run_token r (tok_ID l) = Some t" and rest: "cancelLive reason ls (cancelOne r t reason) = Inr r'"
    by (auto split: option.splits)
  have "follows cl r (cancelOne r t reason)"
    by (rule cancelOne_follows [OF Cons.prems(2)]) (use run_token_Some [OF t] in simp)
  moreover have "follows cl (cancelOne r t reason) r'"
    by (rule Cons.IH [OF rest]) (use Cons.prems(2) in \<open>simp add: cancelOne_tokens\<close>)
  ultimately show ?case by (rule follows_trans)
qed simp

lemma cancelOpenScopes_follows:
  assumes "distinct (map sc_ID (run_scopes r))"
  shows "follows cl r (cancelOpenScopes r q)"
proof -
  let ?step = "\<lambda>r s. if sc_Status s = ScopeOpen then endScope r s ScopeCancelled q else r"
  have "knownScopes r0 ss \<Longrightarrow> distinct (map sc_ID (run_scopes r0)) \<Longrightarrow> follows cl r0 (foldl ?step r0 ss)" for r0 ss
  proof (induction ss arbitrary: r0)
    case (Cons s ss)
    from Cons.prems(1) obtain x where x: "x \<in> set (run_scopes r0)" "sc_ID x = sc_ID s" "keepsScope x s"
      by (auto simp: knownScopes_def)
    have f: "follows cl r0 (?step r0 s)" using follows_endScope [OF Cons.prems(2) x] by simp
    have "knownScopes r0 ss" using Cons.prems(1) by (simp add: knownScopes_def)
    then have "knownScopes (?step r0 s) ss" using knownScopes_endScope [OF Cons.prems] by simp
    then have g: "follows cl (?step r0 s) (foldl ?step (?step r0 s) ss)" by (rule Cons.IH) (use Cons.prems(2) in simp)
    show ?case unfolding foldl_Cons by (rule follows_trans [OF f g])
  qed simp
  moreover have "knownScopes r (run_scopes r)" by (auto simp: knownScopes_def)
  ultimately show ?thesis using assms by (simp add: cancelOpenScopes_def)
qed

lemma cancelCase_follows:
  assumes inv: "caseInv cl r" and cancel: "cancelCase r reason = Inr r'"
  shows "follows cl r r'"
proof -
  have dist: "distinct (map tok_ID (run_tokens r))" "distinct (map sc_ID (run_scopes r))"
    using runInv_distinct inv by (auto simp: caseInv_runInv)
  from cancel obtain r1 ls ev q where live: "cancelLive reason ls r = Inr r1"
    and r': "r' = (cancelOpenScopes (emit r1 ev) q)\<lparr>run_c := (run_c r1)\<lparr>c_Status := StatusCancelled,
        c_ClosedAt := Some (run_now (cancelOpenScopes (emit r1 ev) q))\<rparr>\<rparr>"
    by (auto simp: cancelCase_def Let_def)
  have f1: "follows cl r r1" by (rule cancelLive_follows [OF live dist(1)])
  have sc: "run_scopes r1 = run_scopes r"
    using live by (induction ls arbitrary: r) (auto split: option.splits)
  have d2: "distinct (map sc_ID (run_scopes (emit r1 ev)))" using dist(2) sc by simp
  have f2: "follows cl r1 (cancelOpenScopes (emit r1 ev) q)"
    by (rule follows_trans [OF follows_emit cancelOpenScopes_follows [OF d2]])
  have "follows cl (cancelOpenScopes (emit r1 ev) q) r'"
    unfolding r' using cancelOpenScopes_state(3) [OF d2, of q]
    by (intro follows_frame) (auto simp: keepsCase_def intro: logs_frame)
  with f1 f2 show ?thesis by (blast intro: follows_trans)
qed

text \<open>The join of a round after one of its branches was cancelled.\<close>

lemma cancelToken_follows:
  assumes inv: "caseInv cl r" and tok: "tok \<in> set (run_tokens r)" "tok_Status tok = TokenActive"
    and others: "otherBranches r tok \<noteq> 0" and s: "run_scope (cancelOne r tok reason) (tok_ScopeID tok) = Some s"
    and join: "tryJoin (route e cl db) e cl db (cancelOne r tok reason) s = Inr r'"
  shows "follows cl r r'"
proof -
  let ?r = "cancelOne r tok reason"
  have dist: "distinct (map tok_ID (run_tokens r))" "distinct (map sc_ID (run_scopes r))"
    using runInv_distinct inv by (auto simp: caseInv_runInv)
  have f1: "follows cl r ?r" by (rule cancelOne_follows [OF dist(1) tok(1)])
  obtain r1 ts where js: "joinStep e cl db ?r s = Inr (r1, ts)" and steps: "planSteps e cl db (r1, ts) (r', [])"
    by (rule tryJoin_steps' [OF join])
  have dist': "distinct (map tok_ID (run_tokens ?r))" "distinct (map sc_ID (run_scopes ?r))"
    using dist by (simp_all add: cancelOne_tokens)
  have smem: "s \<in> set (run_scopes ?r)" using run_scope_Some [OF s] by simp
  note f2 = joinStep_follows [OF js smem dist']
  have "trackInv cl r (r1, ts)"
    using cancelToken_runInv [OF inv tok others s js] follows_trans [OF f1 f2(1)] f2(2) by (simp add: trackInv_def)
  from planSteps_invariant [where P = "trackInv cl r", OF steps this] planStep_trackInv
  have "trackInv cl r (r', [])" by (metis surj_pair)
  then show ?thesis by (simp add: trackInv_def)
qed

theorem cancelTokenPlan_planned:
  assumes "storedOK e cl db (ct_CaseID i)" and "cancelTokenPlan e cl i db = Inr (d, r')"
  shows "planned e cl db (ct_CaseID i) r'"
proof -
  from assms(2) obtain actor c r tok s where
    c: "r_GetByID (eng_repo e) (ct_CaseID i) db = Inr c" and d: "resolveDefinition e (c_Definition c) (c_Version c) = Inr d"
    and load: "loadRun e db c d = Inr r" and pick: "pick r (ct_TokenID i) = Inr tok" and others: "otherBranches r tok \<noteq> 0"
    and s: "run_scope (cancelOne (beginRun r (cl_now cl) actor) tok (trimSpace (ct_Reason i))) (tok_ScopeID tok) = Some s"
    and join: "tryJoin (route e cl db) e cl db (cancelOne (beginRun r (cl_now cl) actor) tok (trimSpace (ct_Reason i))) s = Inr r'"
    by (auto simp: cancelTokenPlan_def Let_def split: option.splits)
  have "follows cl (beginRun r (cl_now cl) actor) r'"
    by (rule cancelToken_follows [OF _ _ _ _ s join])
      (use loadRun_caseInv [OF assms(1) c d load] pick_Inr [OF pick] others in \<open>simp_all add: otherBranches_def\<close>)
  then show ?thesis by (rule plannedI [OF c d load])
qed

theorem cancelPlan_planned:
  assumes "storedOK e cl db (ca_CaseID i)" and "cancelPlan e cl i db = Inr r'"
  shows "planned e cl db (ca_CaseID i) r'"
proof -
  from assms(2) obtain actor c d r where
    c: "r_GetByID (eng_repo e) (ca_CaseID i) db = Inr c" and d: "resolveDefinition e (c_Definition c) (c_Version c) = Inr d"
    and load: "loadRun e db c d = Inr r" and cancel: "cancelCase (beginRun r (cl_now cl) actor) (trimSpace (ca_Reason i)) = Inr r'"
    by (auto simp: cancelPlan_def)
  have "follows cl (beginRun r (cl_now cl) actor) r'"
    by (rule cancelCase_follows [OF _ cancel]) (use loadRun_caseInv [OF assms(1) c d load] in simp)
  then show ?thesis by (rule plannedI [OF c d load])
qed

end

