(* ===== verification/Repository.thy ===== *)
theory Repository
  imports Tracking
begin

text \<open>
  The contract of workflow.Repository, as the engine relies on it, and what the engine makes of
  it: persist writes exactly the state it planned, a case stays well formed across every
  operation, and the events of a case are numbered 1, 2, 3 and so on up to its LastSeq.
\<close>

section \<open>The contract\<close>

text \<open>What a repository stores, seen through its operations.\<close>

record storeView =
  v_case :: "uuid \<Rightarrow> Case option"
  v_scope :: "uuid \<Rightarrow> Scope option"
  v_token :: "uuid \<Rightarrow> Token option"
  v_events :: "Event list"

text \<open>The fields of an event that are stored as given.\<close>

definition sameEvent :: "Event \<Rightarrow> Event \<Rightarrow> bool" where
  "sameEvent ev row \<longleftrightarrow> ev_ID row = ev_ID ev \<and> ev_CaseID row = ev_CaseID ev \<and> ev_Seq row = ev_Seq ev \<and>
     ev_Kind row = ev_Kind ev \<and> ev_TokenID row = ev_TokenID ev \<and> ev_ScopeID row = ev_ScopeID ev \<and>
     ev_FromState row = ev_FromState ev \<and> ev_ToState row = ev_ToState ev \<and> ev_Action row = ev_Action ev \<and>
     ev_Comment row = ev_Comment ev \<and> ev_OccurredAt row = ev_OccurredAt ev \<and> ev_DeadlineAt row = ev_DeadlineAt ev \<and>
     ev_Tenant row = ev_Tenant ev"

locale case_repository =
  fixes repo :: "'db repository" and wf :: "'db \<Rightarrow> bool" and view :: "'db \<Rightarrow> storeView"
  assumes get_by_id: "wf db \<Longrightarrow>
      r_GetByID repo u db = (case v_case (view db) u of None \<Rightarrow> Inl (Err ErrCaseNotFound) | Some c \<Rightarrow> Inr c)"
    and case_key: "wf db \<Longrightarrow> v_case (view db) u = Some c \<Longrightarrow> c_ID c = u \<and> c_JoinResult c = None"
    and token_key: "wf db \<Longrightarrow> v_token (view db) u = Some t \<Longrightarrow> tok_ID t = u \<and> v_case (view db) (tok_CaseID t) \<noteq> None"
    and scope_key: "wf db \<Longrightarrow> v_scope (view db) u = Some s \<Longrightarrow> sc_ID s = u \<and> v_case (view db) (sc_CaseID s) \<noteq> None"
    and list_tokens: "wf db \<Longrightarrow> \<exists>ts. r_ListTokens repo u db = Inr ts \<and> distinct (map tok_ID ts) \<and>
      set ts = {t. v_token (view db) (tok_ID t) = Some t \<and> tok_CaseID t = u}"
    and list_scopes: "wf db \<Longrightarrow> \<exists>ss. r_ListScopes repo u db = Inr ss \<and> distinct (map sc_ID ss) \<and>
      set ss = {s. v_scope (view db) (sc_ID s) = Some s \<and> sc_CaseID s = u}"
    and create: "wf db \<Longrightarrow> r_Create repo c db = (Inr c', db') \<Longrightarrow> wf db' \<and> v_case (view db) (c_ID c) = None \<and>
      c' = c\<lparr>c_Revision := 0\<rparr> \<and>
      view db' = (view db)\<lparr>v_case := (v_case (view db))(c_ID c \<mapsto> c'\<lparr>c_JoinResult := None\<rparr>)\<rparr>"
    and update: "wf db \<Longrightarrow> r_Update repo c q db = (Inr c', db') \<Longrightarrow> wf db' \<and>
      (\<exists>row. v_case (view db) (c_ID c) = Some row \<and> c_Revision row = c_Revision c \<and> c_LastSeq row = q) \<and>
      c' = c\<lparr>c_Revision := c_Revision c + 1\<rparr> \<and>
      view db' = (view db)\<lparr>v_case := (v_case (view db))(c_ID c \<mapsto> c'\<lparr>c_JoinResult := None\<rparr>)\<rparr>"
    and conflict: "wf db \<Longrightarrow> v_case (view db) (c_ID c) = Some row \<Longrightarrow>
      c_Revision row \<noteq> c_Revision c \<or> c_LastSeq row \<noteq> q \<Longrightarrow> r_Update repo c q db = (Inl (Err ErrConflict), db)"
    and advance: "wf db \<Longrightarrow> r_AdvanceLastSeq repo u db = (Inr c', db') \<Longrightarrow> wf db' \<and>
      (\<exists>row. v_case (view db) u = Some row \<and> c' = row\<lparr>c_LastSeq := c_LastSeq row + 1\<rparr> \<and>
        view db' = (view db)\<lparr>v_case := (v_case (view db))(u \<mapsto> c')\<rparr>)"
    and create_scope: "wf db \<Longrightarrow> r_CreateScope repo s db = (Inr x, db') \<Longrightarrow> wf db' \<and>
      v_scope (view db) (sc_ID s) = None \<and> view db' = (view db)\<lparr>v_scope := (v_scope (view db))(sc_ID s \<mapsto> s)\<rparr>"
    and update_scope: "wf db \<Longrightarrow> r_UpdateScope repo s db = (Inr x, db') \<Longrightarrow> wf db' \<and>
      (\<exists>row. v_scope (view db) (sc_ID s) = Some row \<and> view db' = (view db)\<lparr>v_scope :=
        (v_scope (view db))(sc_ID s \<mapsto> row\<lparr>sc_Status := sc_Status s, sc_ClosedSeq := sc_ClosedSeq s\<rparr>)\<rparr>)"
    and create_token: "wf db \<Longrightarrow> r_CreateToken repo t db = (Inr x, db') \<Longrightarrow> wf db' \<and>
      v_token (view db) (tok_ID t) = None \<and> view db' = (view db)\<lparr>v_token := (v_token (view db))(tok_ID t \<mapsto> t)\<rparr>"
    and update_token: "wf db \<Longrightarrow> r_UpdateToken repo t db = (Inr x, db') \<Longrightarrow> wf db' \<and>
      (\<exists>row. v_token (view db) (tok_ID t) = Some row \<and> view db' = (view db)\<lparr>v_token :=
        (v_token (view db))(tok_ID t \<mapsto> t\<lparr>tok_CaseID := tok_CaseID row, tok_ScopeID := tok_ScopeID row\<rparr>)\<rparr>)"
    and append_event: "wf db \<Longrightarrow> r_AppendEvent repo ev db = (Inr ev', db') \<Longrightarrow> wf db' \<and>
      (\<forall>x \<in> set (v_events (view db)). \<not> (ev_CaseID x = ev_CaseID ev \<and> ev_Seq x = ev_Seq ev)) \<and>
      (\<exists>row. sameEvent ev row \<and> view db' = (view db)\<lparr>v_events := v_events (view db) @ [row]\<rparr>)"

section \<open>Writing a run\<close>

text \<open>The entries of a list laid over a map.\<close>

definition overlay :: "('a \<Rightarrow> uuid) \<Rightarrow> 'a list \<Rightarrow> (uuid \<Rightarrow> 'a option) \<Rightarrow> uuid \<Rightarrow> 'a option" where
  "overlay key xs m u = (case lookupBy key u xs of None \<Rightarrow> m u | Some x \<Rightarrow> Some x)"

lemma overlay_Nil [simp]: "overlay key [] m = m"
  by (rule ext) (simp add: overlay_def lookupBy_def)

lemma overlay_Cons:
  assumes "key x \<notin> key ` set xs"
  shows "overlay key xs (m(key x \<mapsto> x)) = overlay key (x # xs) m"
proof
  fix u
  have "lookupBy key (key x) xs = None" using assms lookupBy_None by metis
  then show "overlay key xs (m(key x \<mapsto> x)) u = overlay key (x # xs) m u"
    by (auto simp: overlay_def lookupBy_def split: option.split)
qed

lemma overlay_skip:
  assumes "key x \<notin> key ` set xs" and "m (key x) = Some x"
  shows "overlay key xs m = overlay key (x # xs) m"
proof -
  have "m(key x \<mapsto> x) = m" using assms(2) by (rule map_upd_triv)
  with overlay_Cons [OF assms(1), of m] show ?thesis by simp
qed

lemma keepsScope_eq:
  assumes "keepsScope row s" and "sc_ID row = sc_ID s"
  shows "row\<lparr>sc_Status := sc_Status s, sc_ClosedSeq := sc_ClosedSeq s\<rparr> = s"
  using assms by (cases row; cases s) (simp add: keepsScope_def)

lemma keepsToken_eq: "keepsToken row t \<Longrightarrow> t\<lparr>tok_CaseID := tok_CaseID row, tok_ScopeID := tok_ScopeID row\<rparr> = t"
  by (cases t) (simp add: keepsToken_def)

context case_repository
begin

text \<open>An entry that is not new is the stored one, up to the marked changes.\<close>

definition scopeSynced :: "'db \<Rightarrow> caseRun \<Rightarrow> Scope \<Rightarrow> bool" where
  "scopeSynced db r s \<longleftrightarrow> sc_ID s \<in> set (run_created r) \<or>
     (\<exists>row. v_scope (view db) (sc_ID s) = Some row \<and> sc_ID row = sc_ID s \<and> keepsScope row s \<and>
        (sc_ID s \<in> set (run_changed r) \<or> row = s))"

definition tokenSynced :: "'db \<Rightarrow> caseRun \<Rightarrow> Token \<Rightarrow> bool" where
  "tokenSynced db r t \<longleftrightarrow> tok_ID t \<in> set (run_created r) \<or>
     (\<exists>row. v_token (view db) (tok_ID t) = Some row \<and> keepsToken row t \<and>
        (tok_ID t \<in> set (run_changed r) \<or> row = t))"

lemma writeScope_view:
  assumes "wf db" and "eng_repo e = repo" and "scopeSynced db r s" and "writeScope e r s db = (Inr x, db')"
  shows "wf db'" and "view db' = (view db)\<lparr>v_scope := (v_scope (view db))(sc_ID s \<mapsto> s)\<rparr>"
proof -
  have "wf db' \<and> view db' = (view db)\<lparr>v_scope := (v_scope (view db))(sc_ID s \<mapsto> s)\<rparr>"
  proof (cases "sc_ID s \<in> set (run_created r)")
    case True
    with assms create_scope show ?thesis by (simp add: writeScope_def)
  next
    case False
    with assms(3) obtain row where row: "v_scope (view db) (sc_ID s) = Some row" "sc_ID row = sc_ID s" "keepsScope row s"
      "sc_ID s \<in> set (run_changed r) \<or> row = s" by (auto simp: scopeSynced_def)
    show ?thesis
    proof (cases "sc_ID s \<in> set (run_changed r)")
      case True
      with False assms(2,4) have "r_UpdateScope repo s db = (Inr x, db')" by (simp add: writeScope_def)
      from update_scope [OF assms(1) this] row keepsScope_eq [OF row(3,2)] show ?thesis by simp
    next
      case unchanged: False
      with False assms(4) have "db' = db" by (simp add: writeScope_def)
      moreover have "(v_scope (view db))(sc_ID s \<mapsto> s) = v_scope (view db)"
        using row unchanged by (intro map_upd_triv) auto
      ultimately show ?thesis using assms(1) by simp
    qed
  qed
  then show "wf db'" and "view db' = (view db)\<lparr>v_scope := (v_scope (view db))(sc_ID s \<mapsto> s)\<rparr>" by auto
qed

lemma writeToken_view:
  assumes "wf db" and "eng_repo e = repo" and "tokenSynced db r t" and "writeToken e r t db = (Inr x, db')"
  shows "wf db'" and "view db' = (view db)\<lparr>v_token := (v_token (view db))(tok_ID t \<mapsto> t)\<rparr>"
proof -
  have "wf db' \<and> view db' = (view db)\<lparr>v_token := (v_token (view db))(tok_ID t \<mapsto> t)\<rparr>"
  proof (cases "tok_ID t \<in> set (run_created r)")
    case True
    with assms create_token show ?thesis by (simp add: writeToken_def)
  next
    case False
    with assms(3) obtain row where row: "v_token (view db) (tok_ID t) = Some row" "keepsToken row t"
      "tok_ID t \<in> set (run_changed r) \<or> row = t" by (auto simp: tokenSynced_def)
    show ?thesis
    proof (cases "tok_ID t \<in> set (run_changed r)")
      case True
      with False assms(2,4) have "r_UpdateToken repo t db = (Inr x, db')" by (simp add: writeToken_def)
      from update_token [OF assms(1) this] row keepsToken_eq [OF row(2)] show ?thesis by simp
    next
      case unchanged: False
      with False assms(4) have "db' = db" by (simp add: writeToken_def)
      moreover have "(v_token (view db))(tok_ID t \<mapsto> t) = v_token (view db)"
        using row unchanged by (intro map_upd_triv) auto
      ultimately show ?thesis using assms(1) by simp
    qed
  qed
  then show "wf db'" and "view db' = (view db)\<lparr>v_token := (v_token (view db))(tok_ID t \<mapsto> t)\<rparr>" by auto
qed

lemma writeScopes_view:
  assumes "wf db" and "eng_repo e = repo" and "\<forall>s \<in> set ss. scopeSynced db r s" and "distinct (map sc_ID ss)"
    and "forA (writeScope e r) ss db = (Inr x, db')"
  shows "wf db' \<and> view db' = (view db)\<lparr>v_scope := overlay sc_ID ss (v_scope (view db))\<rparr>"
  using assms
proof (induction ss arbitrary: db)
  case (Cons s ss)
  from Cons.prems(5) obtain y db1 where one: "writeScope e r s db = (Inr y, db1)"
    and rest: "forA (writeScope e r) ss db1 = (Inr x, db')" by (auto simp: bindA_eq_Inr)
  note w = writeScope_view [OF Cons.prems(1,2) _ one]
  have sync: "scopeSynced db r s" using Cons.prems(3) by simp
  have "scopeSynced db1 r q" if "q \<in> set ss" for q
  proof -
    have "sc_ID q \<noteq> sc_ID s" using that Cons.prems(4) by (metis distinct.simps(2) image_eqI list.simps(9) set_map)
    then have "v_scope (view db1) (sc_ID q) = v_scope (view db) (sc_ID q)" using w(2) [OF sync] by simp
    with Cons.prems(3) that show ?thesis by (simp add: scopeSynced_def)
  qed
  then have "wf db' \<and> view db' = (view db1)\<lparr>v_scope := overlay sc_ID ss (v_scope (view db1))\<rparr>"
    using Cons.IH [OF w(1) [OF sync] Cons.prems(2) _ _ rest] Cons.prems(4) by simp
  then show ?case using w(2) [OF sync] overlay_Cons [of sc_ID s ss "v_scope (view db)"] Cons.prems(4) by simp
qed simp

lemma writeTokens_view:
  assumes "wf db" and "eng_repo e = repo" and "\<forall>t \<in> set ts. tokenSynced db r t" and "distinct (map tok_ID ts)"
    and "forA (writeToken e r) ts db = (Inr x, db')"
  shows "wf db' \<and> view db' = (view db)\<lparr>v_token := overlay tok_ID ts (v_token (view db))\<rparr>"
  using assms
proof (induction ts arbitrary: db)
  case (Cons t ts)
  from Cons.prems(5) obtain y db1 where one: "writeToken e r t db = (Inr y, db1)"
    and rest: "forA (writeToken e r) ts db1 = (Inr x, db')" by (auto simp: bindA_eq_Inr)
  note w = writeToken_view [OF Cons.prems(1,2) _ one]
  have sync: "tokenSynced db r t" using Cons.prems(3) by simp
  have "tokenSynced db1 r q" if "q \<in> set ts" for q
  proof -
    have "tok_ID q \<noteq> tok_ID t" using that Cons.prems(4) by (metis distinct.simps(2) image_eqI list.simps(9) set_map)
    then have "v_token (view db1) (tok_ID q) = v_token (view db) (tok_ID q)" using w(2) [OF sync] by simp
    with Cons.prems(3) that show ?thesis by (simp add: tokenSynced_def)
  qed
  then have "wf db' \<and> view db' = (view db1)\<lparr>v_token := overlay tok_ID ts (v_token (view db1))\<rparr>"
    using Cons.IH [OF w(1) [OF sync] Cons.prems(2) _ _ rest] Cons.prems(4) by simp
  then show ?case using w(2) [OF sync] overlay_Cons [of tok_ID t ts "v_token (view db)"] Cons.prems(4) by simp
qed simp

lemma appendEvents_view:
  assumes "wf db" and "eng_repo e = repo" and "appendEvents e cl c n evs db = (Inr evs', db')"
  shows "wf db' \<and> (\<exists>rows. view db' = (view db)\<lparr>v_events := v_events (view db) @ rows\<rparr> \<and>
    list_all2 (\<lambda>ev row. \<exists>n. sameEvent (stampEvent e cl n c ev) row) evs rows)"
  using assms
proof (induction evs arbitrary: db n evs')
  case (Cons ev evs)
  from Cons.prems(3) obtain y evs1 db1 where one: "r_AppendEvent repo (stampEvent e cl n c ev) db = (Inr y, db1)"
    and rest: "appendEvents e cl c (n + 1) evs db1 = (Inr evs1, db')"
    by (auto simp: bindA_eq_Inr appendEvent_def Cons.prems(2))
  from append_event [OF Cons.prems(1) one] obtain row where wf1: "wf db1" and row: "sameEvent (stampEvent e cl n c ev) row"
    and v1: "view db1 = (view db)\<lparr>v_events := v_events (view db) @ [row]\<rparr>" by blast
  from Cons.IH [OF wf1 Cons.prems(2) rest] obtain rows where wf': "wf db'"
    and v': "view db' = (view db1)\<lparr>v_events := v_events (view db1) @ rows\<rparr>"
    and all: "list_all2 (\<lambda>ev row. \<exists>n. sameEvent (stampEvent e cl n c ev) row) evs rows" by blast
  with wf' v' v1 row show ?case by (intro conjI exI [of _ "row # rows"]) auto
qed simp

end

section \<open>The invariant of a store\<close>

lemma stateOK_perm:
  assumes ss: "mset ss = mset ss'" and ts: "mset ts = mset ts'"
  shows "stateOK d c ss ts \<longleftrightarrow> stateOK d c ss' ts'"
proof -
  have sets: "set ss = set ss'" "set ts = set ts'" using ss ts by (metis set_mset_mset)+
  have "mset (map sc_ID ss) = mset (map sc_ID ss')" using ss by simp
  then have dist: "distinct (map sc_ID ss) \<longleftrightarrow> distinct (map sc_ID ss')" by (rule mset_eq_imp_distinct_iff)
  have cnt: "countIf (openChild u) ss = countIf (openChild u) ss'" for u by (rule countIf_mset [OF ss])
  have "treeInv {} (c_ID c) (c_LastSeq c + 1) ss ts \<longleftrightarrow> treeInv {} (c_ID c) (c_LastSeq c + 1) ss' ts"
    by (simp add: treeInv_def treeShape_def tokensPlaced_def counted_def branchCount_def alive_def sets dist cnt)
  also have "\<dots> \<longleftrightarrow> treeInv {} (c_ID c) (c_LastSeq c + 1) ss' ts'" by (rule treeInv_perm [OF ts])
  finally show ?thesis by (simp add: stateOK_def tokenOK_def caseOK_def sets)
qed

lemma keyed_mset:
  assumes "distinct (map key xs)" and "distinct (map key ys)" and "set xs = set ys"
  shows "mset xs = mset ys"
  using assms by (metis distinct_map set_eq_iff_mset_eq_distinct)

lemma stateOK_fields:
  "c_ID c' = c_ID c \<Longrightarrow> c_Status c' = c_Status c \<Longrightarrow> c_LastSeq c' = c_LastSeq c \<Longrightarrow> stateOK d c' ss ts = stateOK d c ss ts"
  by (simp add: stateOK_def caseOK_def)

definition tokensIn :: "storeView \<Rightarrow> uuid \<Rightarrow> Token set" where
  "tokensIn v u = {t. v_token v (tok_ID t) = Some t \<and> tok_CaseID t = u}"

definition scopesIn :: "storeView \<Rightarrow> uuid \<Rightarrow> Scope set" where
  "scopesIn v u = {s. v_scope v (sc_ID s) = Some s \<and> sc_CaseID s = u}"

text \<open>Every stored case is well formed for its definition.\<close>

definition casesOK :: "'db engine \<Rightarrow> storeView \<Rightarrow> bool" where
  "casesOK e v \<longleftrightarrow> (\<forall>u c d ts ss. v_case v u = Some c \<longrightarrow> resolveDefinition e (c_Definition c) (c_Version c) = Inr d \<longrightarrow>
     distinct (map tok_ID ts) \<longrightarrow> set ts = tokensIn v u \<longrightarrow> distinct (map sc_ID ss) \<longrightarrow> set ss = scopesIn v u \<longrightarrow>
     stateOK d c ss ts)"

text \<open>The events of a case are numbered 1, 2, 3 and so on up to its LastSeq, in the order of insertion.\<close>

definition ledgerOK :: "storeView \<Rightarrow> bool" where
  "ledgerOK v \<longleftrightarrow> (\<forall>x \<in> set (v_events v). v_case v (ev_CaseID x) \<noteq> None) \<and>
     (\<forall>u c. v_case v u = Some c \<longrightarrow> 0 \<le> c_LastSeq c \<and>
        map ev_Seq (filter (\<lambda>x. ev_CaseID x = u) (v_events v)) = [1..c_LastSeq c])"

text \<open>The UUIDs a call draws are all different and new to the store.\<close>

definition freshCall :: "call \<Rightarrow> storeView \<Rightarrow> bool" where
  "freshCall cl v \<longleftrightarrow> inj (cl_uuid cl) \<and>
     (\<forall>k. v_case v (cl_uuid cl k) = None \<and> v_scope v (cl_uuid cl k) = None \<and> v_token v (cl_uuid cl k) = None)"

lemma casesOK_I:
  assumes "\<And>u c d. v_case v u = Some c \<Longrightarrow> resolveDefinition e (c_Definition c) (c_Version c) = Inr d \<Longrightarrow>
    \<exists>ts ss. distinct (map tok_ID ts) \<and> set ts = tokensIn v u \<and> distinct (map sc_ID ss) \<and> set ss = scopesIn v u \<and> stateOK d c ss ts"
  shows "casesOK e v"
  unfolding casesOK_def
proof (intro allI impI)
  fix u c d ts ss
  assume c: "v_case v u = Some c" and d: "resolveDefinition e (c_Definition c) (c_Version c) = Inr d"
    and ts: "distinct (map tok_ID ts)" "set ts = tokensIn v u" and ss: "distinct (map sc_ID ss)" "set ss = scopesIn v u"
  from assms [OF c d] obtain ts' ss' where ts': "distinct (map tok_ID ts')" "set ts' = tokensIn v u"
    and ss': "distinct (map sc_ID ss')" "set ss' = scopesIn v u" and ok: "stateOK d c ss' ts'" by blast
  have "mset ts' = mset ts" by (rule keyed_mset [OF ts'(1) ts(1)]) (simp add: ts ts')
  moreover have "mset ss' = mset ss" by (rule keyed_mset [OF ss'(1) ss(1)]) (simp add: ss ss')
  ultimately show "stateOK d c ss ts" using ok stateOK_perm by blast
qed

section \<open>Writing a planned run\<close>

lemma writtenCase_JoinResult: "c_JoinResult (writtenCase r) = c_JoinResult (run_c r)"
  by (simp add: writtenCase_def project_def Let_def split: list.split)

lemma writtenCase_keeps: "keepsCase (run_c r) (writtenCase r)"
  by (simp add: keepsCase_def writtenCase_def project_def Let_def split: list.split)

context case_repository
begin

lemma storedOK_of_casesOK:
  assumes wf: "wf db" and repo: "eng_repo e = repo" and cases: "casesOK e (view db)" and fresh: "freshCall cl (view db)"
  shows "storedOK e cl db u"
  unfolding storedOK_def
proof (intro allI impI)
  fix c d ts ss
  assume c: "r_GetByID (eng_repo e) u db = Inr c" and d: "resolveDefinition e (c_Definition c) (c_Version c) = Inr d"
    and ts: "r_ListTokens (eng_repo e) (c_ID c) db = Inr ts" and ss: "r_ListScopes (eng_repo e) (c_ID c) db = Inr ss"
  have vc: "v_case (view db) u = Some c" using c get_by_id [OF wf, of u] by (simp add: repo split: option.splits)
  then have cid: "c_ID c = u" using case_key [OF wf] by blast
  have t: "distinct (map tok_ID ts)" "set ts = tokensIn (view db) u"
    using list_tokens [OF wf, of u] ts by (auto simp: repo cid tokensIn_def)
  have s: "distinct (map sc_ID ss)" "set ss = scopesIn (view db) u"
    using list_scopes [OF wf, of u] ss by (auto simp: repo cid scopesIn_def)
  have "stateOK d c ss ts" using cases vc d t s by (simp add: casesOK_def)
  moreover have "freshIDs cl 0 ss ts"
    unfolding freshIDs_def t(2) s(2)
  proof (intro conjI allI impI notI)
    show "inj (cl_uuid cl)" using fresh by (simp add: freshCall_def)
    fix k
    have none: "v_token (view db) (cl_uuid cl k) = None" "v_scope (view db) (cl_uuid cl k) = None"
      using fresh by (simp_all add: freshCall_def)
    show False if "cl_uuid cl k \<in> tok_ID ` tokensIn (view db) u" using that none by (auto simp: tokensIn_def)
    show False if "cl_uuid cl k \<in> sc_ID ` scopesIn (view db) u" using that none by (auto simp: scopesIn_def)
  qed
  ultimately show "stateOK d c ss ts \<and> freshIDs cl 0 ss ts" ..
qed

text \<open>What a planned run is to the store it was read from.\<close>

lemma planned_sync:
  assumes wf: "wf db" and repo: "eng_repo e = repo" and plan: "planned e cl db u r"
  obtains c where "v_case (view db) u = Some c" and "c_ID c = u" and "run_baseSeq r = c_LastSeq c" and "keepsCase c (run_c r)"
    and "resolveDefinition e (c_Definition c) (c_Version c) = Inr (run_d r)" and "stamped r"
    and "\<forall>s \<in> set (run_scopes r). scopeSynced db r s" and "\<forall>t \<in> set (run_tokens r). tokenSynced db r t"
    and "sc_ID ` scopesIn (view db) u \<subseteq> sc_ID ` set (run_scopes r)"
    and "tok_ID ` tokensIn (view db) u \<subseteq> tok_ID ` set (run_tokens r)"
    and "set (run_created r) \<subseteq> range (cl_uuid cl)"
proof -
  from plan obtain c d ts ss actor where c: "r_GetByID repo u db = Inr c"
    and d: "resolveDefinition e (c_Definition c) (c_Version c) = Inr d"
    and ts: "r_ListTokens repo (c_ID c) db = Inr ts" and ss: "r_ListScopes repo (c_ID c) db = Inr ss"
    and fol: "follows cl (rawRun c d ts ss (cl_now cl) actor) r" (is "follows cl ?raw r")
    unfolding planned_def repo by blast
  have vc: "v_case (view db) u = Some c" using c get_by_id [OF wf, of u] by (simp split: option.splits)
  then have cid: "c_ID c = u" using case_key [OF wf] by blast
  have t: "set ts = tokensIn (view db) u" using list_tokens [OF wf, of u] ts by (auto simp: cid tokensIn_def)
  have s: "set ss = scopesIn (view db) u" using list_scopes [OF wf, of u] ss by (auto simp: cid scopesIn_def)
  have "tracksBy tok_ID keepsToken (marked r) (set (run_created r)) ts (run_tokens r)"
    and "tracksBy sc_ID keepsScope (marked r) (set (run_created r)) ss (run_scopes r)"
    using fol by (simp_all add: follows_def tracks_def rawRun_def)
  then obtain f ns g ms where f: "run_tokens r = map f ts @ ns" "tok_ID ` set ns \<subseteq> set (run_created r)"
      "\<forall>x \<in> set ts. keepsToken x (f x) \<and> tok_ID (f x) = tok_ID x \<and> (f x \<noteq> x \<longrightarrow> tok_ID x \<in> marked r)"
    and g: "run_scopes r = map g ss @ ms" "sc_ID ` set ms \<subseteq> set (run_created r)"
      "\<forall>x \<in> set ss. keepsScope x (g x) \<and> sc_ID (g x) = sc_ID x \<and> (g x \<noteq> x \<longrightarrow> sc_ID x \<in> marked r)"
    by (elim tracksByE)
  have "tokenSynced db r y" if "y \<in> set (run_tokens r)" for y
  proof -
    from that f(1,2) consider "tok_ID y \<in> set (run_created r)" | x where "x \<in> set ts" "y = f x" by auto
    then show ?thesis
    proof cases
      case (2 x)
      have "v_token (view db) (tok_ID x) = Some x" using 2(1) t by (auto simp: tokensIn_def)
      with bspec [OF f(3) 2(1)] 2(2) show ?thesis by (auto simp: tokenSynced_def marked_def)
    qed (simp add: tokenSynced_def)
  qed
  moreover have "scopeSynced db r y" if "y \<in> set (run_scopes r)" for y
  proof -
    from that g(1,2) consider "sc_ID y \<in> set (run_created r)" | x where "x \<in> set ss" "y = g x" by auto
    then show ?thesis
    proof cases
      case (2 x)
      have "v_scope (view db) (sc_ID x) = Some x" using 2(1) s by (auto simp: scopesIn_def)
      with bspec [OF g(3) 2(1)] 2(2) show ?thesis by (auto simp: scopeSynced_def marked_def)
    qed (simp add: scopeSynced_def)
  qed
  moreover have "tok_ID ` tokensIn (view db) u \<subseteq> tok_ID ` set (run_tokens r)"
    using key_image_map [of ts tok_ID f] f(3) unfolding t [symmetric] f(1) by (simp add: image_Un)
  moreover have "sc_ID ` scopesIn (view db) u \<subseteq> sc_ID ` set (run_scopes r)"
    using key_image_map [of ss sc_ID g] g(3) unfolding s [symmetric] g(1) by (simp add: image_Un)
  moreover have "stamped ?raw" by (simp add: stamped_def rawRun_def)
  then have "run_baseSeq r = c_LastSeq c" "keepsCase c (run_c r)" "run_d r = d" "stamped r" "set (run_created r) \<subseteq> range (cl_uuid cl)"
    using fol by (simp_all add: follows_def logs_def rawRun_def)
  ultimately show thesis using that [of c] vc cid d by blast
qed

lemma persist_view:
  assumes wf: "wf db" and repo: "eng_repo e = repo" and plan: "planned e cl db u r"
    and dist: "distinct (map tok_ID (run_tokens r))" "distinct (map sc_ID (run_scopes r))"
    and per: "persist e cl r db = (Inr (c', evs), db')"
  shows "wf db'" and "c' = (writtenCase r)\<lparr>c_Revision := c_Revision (run_c r) + 1\<rparr>"
    and "\<exists>rows. view db' = \<lparr>v_case = (v_case (view db))(u \<mapsto> c'), v_scope = overlay sc_ID (run_scopes r) (v_scope (view db)),
      v_token = overlay tok_ID (run_tokens r) (v_token (view db)), v_events = v_events (view db) @ rows\<rparr> \<and>
      list_all2 (\<lambda>ev row. \<exists>n. sameEvent (stampEvent e cl n c' ev) row) (run_events r) rows"
proof -
  obtain c where c: "v_case (view db) u = Some c" "c_ID c = u" "keepsCase c (run_c r)"
    and sync: "\<forall>s \<in> set (run_scopes r). scopeSynced db r s" "\<forall>t \<in> set (run_tokens r). tokenSynced db r t"
    by (rule planned_sync [OF wf repo plan]) (rule that)
  from per obtain db1 db2 y where
    up: "r_Update repo (writtenCase r) (run_baseSeq r) db = (Inr c', db1)"
    and ws: "writeState e (project r) db1 = (Inr y, db2)"
    and ap: "appendEvents e cl c' (run_drawn r) (run_events r) db2 = (Inr evs, db')"
    by (auto simp: persist_def Let_def bindA_eq_Inr repo writtenCase_def)
  from update [OF wf up] have wf1: "wf db1" and c': "c' = (writtenCase r)\<lparr>c_Revision := c_Revision (writtenCase r) + 1\<rparr>"
    and v1: "view db1 = (view db)\<lparr>v_case := (v_case (view db))(c_ID (writtenCase r) \<mapsto> c'\<lparr>c_JoinResult := None\<rparr>)\<rparr>" by blast+
  have kc: "c_ID (run_c r) = u" "c_JoinResult (run_c r) = None"
    using c case_key [OF wf c(1)] by (simp_all add: keepsCase_def)
  have jr: "c'\<lparr>c_JoinResult := None\<rparr> = c'" unfolding c' using kc(2) by (cases "writtenCase r") (auto simp: writtenCase_JoinResult [symmetric])
  show "c' = (writtenCase r)\<lparr>c_Revision := c_Revision (run_c r) + 1\<rparr>"
    using c' writtenCase_keeps [of r] by (simp add: keepsCase_def)
  from ws obtain z db3 where sc: "forA (writeScope e (project r)) (run_scopes r) db1 = (Inr z, db3)"
    and tk: "forA (writeToken e (project r)) (run_tokens r) db3 = (Inr y, db2)"
    by (auto simp: writeState_def bindA_eq_Inr)
  have "\<forall>s \<in> set (run_scopes r). scopeSynced db1 (project r) s" using sync(1) by (simp add: scopeSynced_def v1)
  from writeScopes_view [OF wf1 repo this dist(2) sc]
  have wf3: "wf db3" and v3: "view db3 = (view db1)\<lparr>v_scope := overlay sc_ID (run_scopes r) (v_scope (view db1))\<rparr>" by auto
  have "\<forall>t \<in> set (run_tokens r). tokenSynced db3 (project r) t" using sync(2) by (simp add: tokenSynced_def v1 v3)
  from writeTokens_view [OF wf3 repo this dist(1) tk]
  have wf2: "wf db2" and v2: "view db2 = (view db3)\<lparr>v_token := overlay tok_ID (run_tokens r) (v_token (view db3))\<rparr>" by auto
  from appendEvents_view [OF wf2 repo ap] obtain rows where wf': "wf db'"
    and v': "view db' = (view db2)\<lparr>v_events := v_events (view db2) @ rows\<rparr>"
    and rows: "list_all2 (\<lambda>ev row. \<exists>n. sameEvent (stampEvent e cl n c' ev) row) (run_events r) rows" by blast
  show "wf db'" by (rule wf')
  have "view db' = \<lparr>v_case = (v_case (view db))(u \<mapsto> c'), v_scope = overlay sc_ID (run_scopes r) (v_scope (view db)),
      v_token = overlay tok_ID (run_tokens r) (v_token (view db)), v_events = v_events (view db) @ rows\<rparr>"
    using v' v2 v3 v1 jr kc(1) by simp
  with rows show "\<exists>rows. view db' = \<lparr>v_case = (v_case (view db))(u \<mapsto> c'), v_scope = overlay sc_ID (run_scopes r) (v_scope (view db)),
      v_token = overlay tok_ID (run_tokens r) (v_token (view db)), v_events = v_events (view db) @ rows\<rparr> \<and>
      list_all2 (\<lambda>ev row. \<exists>n. sameEvent (stampEvent e cl n c' ev) row) (run_events r) rows" by blast
qed

end

section \<open>The store after a call\<close>

lemma overlay_in:
  assumes "distinct (map key xs)" and "\<forall>x \<in> set xs. own x = u"
    and "key ` {x. m (key x) = Some x \<and> own x = u} \<subseteq> key ` set xs"
  shows "{x. overlay key xs m (key x) = Some x \<and> own x = u} = set xs"
proof (intro equalityI subsetI CollectI conjI)
  fix x assume "x \<in> {x. overlay key xs m (key x) = Some x \<and> own x = u}"
  then have x: "overlay key xs m (key x) = Some x" "own x = u" by auto
  show "x \<in> set xs"
  proof (cases "lookupBy key (key x) xs")
    case None
    with x have "m (key x) = Some x" by (simp add: overlay_def)
    with x(2) assms(3) have "key x \<in> key ` set xs" by blast
    with None show ?thesis by (metis imageE lookupBy_None)
  next
    case (Some y)
    with x(1) lookupBy_Some_mem [OF Some] show ?thesis by (simp add: overlay_def)
  qed
next
  fix x assume x: "x \<in> set xs"
  then show "overlay key xs m (key x) = Some x" using lookupBy_mem [OF assms(1)] by (simp add: overlay_def)
  show "own x = u" using x assms(2) by blast
qed

lemma overlay_out:
  assumes "\<forall>x \<in> set xs. own x = u" and "\<forall>x \<in> set xs. \<forall>y. m (key x) = Some y \<longrightarrow> own y = u" and "u' \<noteq> u"
  shows "{x. overlay key xs m (key x) = Some x \<and> own x = u'} = {x. m (key x) = Some x \<and> own x = u'}"
proof (intro Collect_cong)
  fix x
  show "(overlay key xs m (key x) = Some x \<and> own x = u') = (m (key x) = Some x \<and> own x = u')"
  proof (cases "lookupBy key (key x) xs")
    case None
    then show ?thesis by (simp add: overlay_def)
  next
    case (Some y)
    then have y: "y \<in> set xs" "key y = key x" using lookupBy_Some_mem [OF Some] by auto
    have "overlay key xs m (key x) = Some y" using Some by (simp add: overlay_def)
    moreover have "own y = u" using y assms(1) by blast
    moreover have "own z = u" if "m (key x) = Some z" for z using assms(2) y that by metis
    ultimately show ?thesis using assms(3) by auto
  qed
qed

lemma stamped_seqs:
  assumes "stamped r"
  shows "map ev_Seq (run_events r) = [run_baseSeq r + 1..run_baseSeq r + int (length (run_events r))]"
  by (rule nth_equalityI) (use assms in \<open>auto simp: stamped_def\<close>)

lemma upto_append: "0 \<le> b \<Longrightarrow> [1..b] @ [b + 1..b + int n] = [1..b + int n]"
  using upto_split1 [of 1 "b + 1" "b + int n"] by (cases n) auto

lemma ledgerOK_append:
  assumes "ledgerOK v" and "v_case v u = Some c" and "\<forall>x \<in> set rows. ev_CaseID x = u"
    and "map ev_Seq rows = [c_LastSeq c + 1..c_LastSeq c + int (length rows)]"
    and "c_LastSeq c' = c_LastSeq c + int (length rows)"
    and "v_case v' = (v_case v)(u \<mapsto> c')" and "v_events v' = v_events v @ rows"
  shows "ledgerOK v'"
  unfolding ledgerOK_def
proof (intro conjI allI impI ballI)
  show "v_case v' (ev_CaseID x) \<noteq> None" if "x \<in> set (v_events v')" for x
    using that assms by (auto simp: ledgerOK_def)
  fix w cw assume w: "v_case v' w = Some cw"
  have "0 \<le> c_LastSeq cw \<and> map ev_Seq (filter (\<lambda>x. ev_CaseID x = w) (v_events v')) = [1..c_LastSeq cw]"
  proof (cases "w = u")
    case True
    then have cw: "cw = c'" using w assms(6) by simp
    have old: "0 \<le> c_LastSeq c" "map ev_Seq (filter (\<lambda>x. ev_CaseID x = u) (v_events v)) = [1..c_LastSeq c]"
      using assms(1,2) by (auto simp: ledgerOK_def)
    have "filter (\<lambda>x. ev_CaseID x = u) rows = rows" using assms(3) by (simp add: filter_id_conv)
    then have "map ev_Seq (filter (\<lambda>x. ev_CaseID x = u) (v_events v')) = [1..c_LastSeq c] @ map ev_Seq rows"
      using old(2) by (simp add: assms(7))
    then show ?thesis using upto_append [OF old(1), of "length rows"] old(1) assms(4,5) True cw by simp
  next
    case False
    with w assms(6) have "v_case v w = Some cw" by simp
    moreover have "filter (\<lambda>x. ev_CaseID x = w) rows = []" using assms(3) False by (auto simp: filter_empty_conv)
    ultimately show ?thesis using assms(1,7) by (simp add: ledgerOK_def)
  qed
  then show "0 \<le> c_LastSeq cw" "map ev_Seq (filter (\<lambda>x. ev_CaseID x = w) (v_events v')) = [1..c_LastSeq cw]" by auto
qed

text \<open>The store between calls: every case well formed, every history complete.\<close>

definition storeOK :: "'db engine \<Rightarrow> storeView \<Rightarrow> bool" where
  "storeOK e v \<longleftrightarrow> casesOK e v \<and> ledgerOK v"

text \<open>A sink that does not write the tables of the engine.\<close>

definition sinkKeeps :: "'db engine \<Rightarrow> ('db \<Rightarrow> bool) \<Rightarrow> ('db \<Rightarrow> storeView) \<Rightarrow> bool" where
  "sinkKeeps e ok view \<longleftrightarrow> (\<forall>d c evs db db'. ok db \<longrightarrow> dispatch e d c evs db = (Inr (), db') \<longrightarrow> ok db' \<and> view db' = view db)"

lemma sinkKeepsD:
  "sinkKeeps e ok view \<Longrightarrow> ok db \<Longrightarrow> dispatch e d c evs db = (Inr u, db') \<Longrightarrow> ok db' \<and> view db' = view db"
  by (cases u) (auto simp: sinkKeeps_def)

context case_repository
begin

theorem persist_storeOK:
  assumes wf: "wf db" and repo: "eng_repo e = repo" and ok: "storeOK e (view db)" and fresh: "freshCall cl (view db)"
    and plan: "planned e cl db u r" and inv: "caseInv cl r" and per: "persist e cl r db = (Inr (c', evs), db')"
  shows "wf db'" and "storeOK e (view db')" and "v_case (view db') u = Some c'"
    and "tokensIn (view db') u = set (run_tokens r)" and "scopesIn (view db') u = set (run_scopes r)"
    and "\<forall>u'. u' \<noteq> u \<longrightarrow> v_case (view db') u' = v_case (view db) u' \<and>
      tokensIn (view db') u' = tokensIn (view db) u' \<and> scopesIn (view db') u' = scopesIn (view db) u'"
proof -
  have core: "coreInv {} cl r (run_tokens r)" using inv by (simp add: caseInv_def)
  note ci = coreInvD [OF core]
  have dist: "distinct (map tok_ID (run_tokens r))" "distinct (map sc_ID (run_scopes r))"
    using runInv_distinct inv by (auto simp: caseInv_runInv)
  obtain c where c: "v_case (view db) u = Some c" "c_ID c = u" "run_baseSeq r = c_LastSeq c" "keepsCase c (run_c r)"
    and d: "resolveDefinition e (c_Definition c) (c_Version c) = Inr (run_d r)" and st: "stamped r"
    and sync: "\<forall>s \<in> set (run_scopes r). scopeSynced db r s" "\<forall>t \<in> set (run_tokens r). tokenSynced db r t"
    and cover: "sc_ID ` scopesIn (view db) u \<subseteq> sc_ID ` set (run_scopes r)"
      "tok_ID ` tokensIn (view db) u \<subseteq> tok_ID ` set (run_tokens r)"
    and created: "set (run_created r) \<subseteq> range (cl_uuid cl)"
    by (rule planned_sync [OF wf repo plan])
  note pv = persist_view [OF wf repo plan dist per]
  from pv(3) obtain rows where v': "view db' = \<lparr>v_case = (v_case (view db))(u \<mapsto> c'),
      v_scope = overlay sc_ID (run_scopes r) (v_scope (view db)),
      v_token = overlay tok_ID (run_tokens r) (v_token (view db)), v_events = v_events (view db) @ rows\<rparr>"
    and rows: "list_all2 (\<lambda>ev row. \<exists>n. sameEvent (stampEvent e cl n c' ev) row) (run_events r) rows" by blast
  have uid: "c_ID (run_c r) = u" using c(2,4) by (simp add: keepsCase_def)
  show "wf db'" by (rule pv(1))
  show vc: "v_case (view db') u = Some c'" by (simp add: v')
  have none: "v_token (view db) x = None" "v_scope (view db) x = None" if "x \<in> set (run_created r)" for x
    using that created fresh by (auto simp: freshCall_def)
  have own: "\<forall>t \<in> set (run_tokens r). tok_CaseID t = u" "\<forall>s \<in> set (run_scopes r). sc_CaseID s = u"
    using ci(4,5) uid by (auto simp: tokenOK_def scopeOK_def)
  have ownT: "\<forall>t \<in> set (run_tokens r). \<forall>y. v_token (view db) (tok_ID t) = Some y \<longrightarrow> tok_CaseID y = u"
    using sync(2) own(1) none by (force simp: tokenSynced_def keepsToken_def)
  have ownS: "\<forall>s \<in> set (run_scopes r). \<forall>y. v_scope (view db) (sc_ID s) = Some y \<longrightarrow> sc_CaseID y = u"
    using sync(1) own(2) none by (force simp: scopeSynced_def keepsScope_def)
  show toks: "tokensIn (view db') u = set (run_tokens r)"
    using overlay_in [OF dist(1) own(1) cover(2) [unfolded tokensIn_def]] by (simp add: tokensIn_def v')
  show scs: "scopesIn (view db') u = set (run_scopes r)"
    using overlay_in [OF dist(2) own(2) cover(1) [unfolded scopesIn_def]] by (simp add: scopesIn_def v')
  have other: "v_case (view db') u' = v_case (view db) u'" "tokensIn (view db') u' = tokensIn (view db) u'"
    "scopesIn (view db') u' = scopesIn (view db) u'" if "u' \<noteq> u" for u'
    using overlay_out [OF own(1) ownT that] overlay_out [OF own(2) ownS that] that by (simp_all add: tokensIn_def scopesIn_def v')
  then show "\<forall>u'. u' \<noteq> u \<longrightarrow> v_case (view db') u' = v_case (view db) u' \<and>
      tokensIn (view db') u' = tokensIn (view db) u' \<and> scopesIn (view db') u' = scopesIn (view db) u'" by blast
  have "casesOK e (view db')"
  proof (rule casesOK_I)
    fix u' cu du assume cu: "v_case (view db') u' = Some cu" and du: "resolveDefinition e (c_Definition cu) (c_Version cu) = Inr du"
    show "\<exists>ts ss. distinct (map tok_ID ts) \<and> set ts = tokensIn (view db') u' \<and> distinct (map sc_ID ss) \<and>
        set ss = scopesIn (view db') u' \<and> stateOK du cu ss ts"
    proof (cases "u' = u")
      case True
      then have "cu = c'" using cu vc by simp
      then have "du = run_d r" using du d c(4) pv(2) by (simp add: keepsCase_def)
      moreover have "stateOK (run_d r) (writtenCase r) (run_scopes r) (run_tokens r)"
        using inv by (simp add: caseInv_stateOK)
      then have "stateOK (run_d r) c' (run_scopes r) (run_tokens r)"
        by (subst stateOK_fields [where c = "writtenCase r"]) (simp_all add: pv(2))
      ultimately show ?thesis using dist toks scs True \<open>cu = c'\<close> by blast
    next
      case False
      have stored: "storedOK e cl db u'" by (rule storedOK_of_casesOK [OF wf repo _ fresh]) (use ok in \<open>simp add: storeOK_def\<close>)
      from list_tokens [OF wf, of u'] list_scopes [OF wf, of u'] obtain ts ss where
        "distinct (map tok_ID ts)" "set ts = tokensIn (view db) u'" "distinct (map sc_ID ss)" "set ss = scopesIn (view db) u'"
        by (auto simp: tokensIn_def scopesIn_def)
      moreover from this have "stateOK du cu ss ts"
        using ok cu du other(1) [OF False] by (simp add: storeOK_def casesOK_def)
      ultimately show ?thesis using other(2,3) [OF False] by auto
    qed
  qed
  moreover have "ledgerOK (view db')"
  proof (rule ledgerOK_append [where u = u and rows = rows])
    show "ledgerOK (view db)" using ok by (simp add: storeOK_def)
    show "v_case (view db) u = Some c" by (rule c(1))
    have len: "length rows = length (run_events r)" using rows by (simp add: list_all2_lengthD)
    have ev: "ev_CaseID (rows ! i) = u \<and> ev_Seq (rows ! i) = ev_Seq (run_events r ! i)" if "i < length rows" for i
      using list_all2_nthD2 [OF rows that] pv(2) uid
      by (auto simp: sameEvent_def stampEvent_def Let_def case_prod_beta split: option.splits)
    then show "\<forall>x \<in> set rows. ev_CaseID x = u" by (auto simp: in_set_conv_nth)
    have "map ev_Seq rows = map ev_Seq (run_events r)" by (rule nth_equalityI) (use len ev in auto)
    then show "map ev_Seq rows = [c_LastSeq c + 1..c_LastSeq c + int (length rows)]"
      using stamped_seqs [OF st] c(3) len by simp
    show "c_LastSeq c' = c_LastSeq c + int (length rows)" using pv(2) c(3) len by simp
  qed (simp_all add: v')
  ultimately show "storeOK e (view db')" by (simp add: storeOK_def)
qed

end

section \<open>The operations on a repository\<close>

text \<open>The newest version of a name is registered under its own key as well.\<close>

definition latestOK :: "'db engine \<Rightarrow> bool" where
  "latestOK e \<longleftrightarrow> (\<forall>n d. map_of (eng_latest e) n = Some d \<longrightarrow> map_of (eng_definitions e) (Key d) = Some d)"

lemma Register_latestOK:
  assumes "latestOK e" and "Register d e = Inr e'"
    and "\<forall>d'. map_of (eng_definitions e) (Key d) = Some d' \<longrightarrow> d' = d"
  shows "latestOK e'"
proof -
  note r = Register_Inr [OF assms(2)]
  show ?thesis
    unfolding latestOK_def
  proof (intro allI impI)
    fix n x assume n: "map_of (eng_latest e') n = Some x"
    show "map_of (eng_definitions e') (Key x) = Some x"
    proof (cases "map_of (eng_latest e) n = Some x")
      case True
      then have x: "map_of (eng_definitions e) (Key x) = Some x" using assms(1) by (simp add: latestOK_def)
      then have "x = d" if "Key x = Key d" using assms(3) that by simp
      with x show ?thesis by (auto simp: r(5))
    next
      case False
      then have "x = d" using n by (simp add: r(6) split: option.splits if_splits)
      then show ?thesis by (simp add: r(5))
    qed
  qed
qed

lemma resolveDefinition_again:
  assumes reg: "registryOK e" and lat: "latestOK e" and res: "resolveDefinition e n v = Inr d"
  shows "resolveDefinition e (d_Name d) (d_Version d) = Inr d"
proof -
  have "Validate d = []" by (rule resolveDefinition_Inr [OF reg res])
  then have pos: "0 < d_Version d" by (simp add: Validate_wellFormed wellFormed_def)
  have "map_of (eng_definitions e) (Key d) = Some d"
  proof (cases "0 < v")
    case True
    with res have m: "map_of (eng_definitions e) (n @ ''@'' @ showInt v) = Some d"
      by (auto simp: resolveDefinition_def split: option.splits)
    with registryOK_definition [OF reg m] show ?thesis by simp
  next
    case False
    with res have "map_of (eng_latest e) n = Some d" by (auto simp: resolveDefinition_def split: option.splits)
    with lat show ?thesis by (simp add: latestOK_def)
  qed
  with pos show ?thesis by (simp add: resolveDefinition_def Key_def)
qed

text \<open>
  What a call that commits has done: nothing, or it planned a run on an open case, persisted it
  and perhaps dispatched its events. The case it returns is the one it leaves in the store.
\<close>

definition commit :: "'db engine \<Rightarrow> call \<Rightarrow> uuid \<Rightarrow> 'db \<Rightarrow> Case \<Rightarrow> 'db \<Rightarrow> bool" where
  "commit e cl u db c db' \<longleftrightarrow> (db' = db \<and> r_GetByID (eng_repo e) u db = Inr c) \<or>
     (\<exists>r evs db1 d c0. r_GetByID (eng_repo e) u db = Inr c0 \<and> c_Status c0 = StatusOpen \<and>
        planned e cl db u r \<and> caseInv cl r \<and> persist e cl r db = (Inr (c, evs), db1) \<and>
        (db' = db1 \<or> dispatch e d c evs db1 = (Inr (), db')))"

lemma commitI:
  assumes "r_GetByID (eng_repo e) u db = Inr c0" and "c_Status c0 = StatusOpen" and "planned e cl db u r" and "caseInv cl r"
    and "persist e cl r db = (Inr (c, evs), db1)" and "db' = db1 \<or> dispatch e d c evs db1 = (Inr (), db')"
  shows "commit e cl u db c db'"
  using assms unfolding commit_def by blast

lemma move_commit:
  assumes stored: "storedOK e cl db (mi_CaseID i)" and run: "MoveDetailed e cl i db = (Inr res, db')"
  shows "commit e cl (mi_CaseID i) db (mr_Case res) db'"
proof -
  from run obtain d r c evs db1 where plan: "movePlan e cl i db = Inr (d, r)" and per: "persist e cl r db = (Inr (c, evs), db1)"
    and dis: "dispatch e d c evs db1 = (Inr (), db')" and res: "mr_Case res = c"
    by (auto simp: MoveDetailed_def bindA_eq_Inr split: sum.splits)
  from plan obtain c0 where "r_GetByID (eng_repo e) (mi_CaseID i) db = Inr c0" "c_Status c0 = StatusOpen"
    by (auto simp: movePlan_def checkOpen_def split: option.splits)
  then show ?thesis unfolding res
    by (rule commitI [OF _ _ movePlan_planned [OF stored plan] movePlan_caseInv [OF stored plan] per]) (use dis in blast)
qed

lemma expire_commit:
  assumes stored: "storedOK e cl db (xi_CaseID i)" and run: "Expire e cl i db = (Inr res, db')"
  shows "commit e cl (xi_CaseID i) db (mr_Case res) db'"
proof -
  from run obtain d r m c evs db1 where plan: "expirePlan e cl i db = Inr (d, r, m)" and per: "persist e cl r db = (Inr (c, evs), db1)"
    and dis: "(if m then dispatch e d c evs else returnA ()) db1 = (Inr (), db')" and res: "mr_Case res = c"
    by (auto simp: Expire_def bindA_eq_Inr split: sum.splits)
  from plan obtain c0 where "r_GetByID (eng_repo e) (xi_CaseID i) db = Inr c0" "c_Status c0 = StatusOpen"
    by (auto simp: expirePlan_def checkOpen_def split: option.splits)
  then show ?thesis unfolding res
    by (rule commitI [OF _ _ expirePlan_planned [OF stored plan] expirePlan_caseInv [OF stored plan] per, where d = d])
      (use dis in \<open>auto split: if_splits\<close>)
qed

lemma cancelToken_commit:
  assumes stored: "storedOK e cl db (ct_CaseID i)" and run: "CancelToken e cl i db = (Inr res, db')"
  shows "commit e cl (ct_CaseID i) db (mr_Case res) db'"
proof -
  from run obtain d r c evs db1 where plan: "cancelTokenPlan e cl i db = Inr (d, r)" and per: "persist e cl r db = (Inr (c, evs), db1)"
    and dis: "dispatch e d c evs db1 = (Inr (), db')" and res: "mr_Case res = c"
    by (auto simp: CancelToken_def bindA_eq_Inr split: sum.splits)
  from plan obtain c0 where "r_GetByID (eng_repo e) (ct_CaseID i) db = Inr c0" "c_Status c0 = StatusOpen"
    by (auto simp: cancelTokenPlan_def checkOpen_def split: option.splits)
  then show ?thesis unfolding res
    by (rule commitI [OF _ _ cancelTokenPlan_planned [OF stored plan] cancelTokenPlan_caseInv [OF stored plan] per]) (use dis in blast)
qed

lemma claim_commit:
  assumes stored: "storedOK e cl db (ci_CaseID i)" and run: "ClaimWith e cl i db = (Inr c, db')"
  shows "commit e cl (ci_CaseID i) db c db'"
proof -
  from run obtain c0 plan where pl: "claimPlan e cl i db = Inr (c0, plan)"
    and rest: "(case plan of None \<Rightarrow> returnA c0 | Some r \<Rightarrow> bindA (persist e cl r) (\<lambda>(c', _). returnA c')) db = (Inr c, db')"
    by (auto simp: ClaimWith_def split: sum.splits)
  have c0: "r_GetByID (eng_repo e) (ci_CaseID i) db = Inr c0" "c_Status c0 = StatusOpen"
    using pl by (auto simp: claimPlan_def checkOpen_def split: if_splits)
  show ?thesis
  proof (cases plan)
    case None
    with rest c0 show ?thesis by (simp add: commit_def)
  next
    case (Some r)
    with rest obtain evs where per: "persist e cl r db = (Inr (c, evs), db')" by (auto simp: bindA_eq_Inr)
    note p = pl [unfolded Some]
    show ?thesis by (rule commitI [OF c0 claimPlan_planned [OF stored p] claimPlan_caseInv [OF stored p] per]) simp
  qed
qed

lemma release_commit:
  assumes stored: "storedOK e cl db (ri_CaseID i)" and run: "ReleaseWith e cl i db = (Inr c, db')"
  shows "commit e cl (ri_CaseID i) db c db'"
proof -
  from run obtain r evs where p: "releasePlan e cl i db = Inr r" and per: "persist e cl r db = (Inr (c, evs), db')"
    by (auto simp: ReleaseWith_def bindA_eq_Inr split: sum.splits)
  from p obtain c0 where "r_GetByID (eng_repo e) (ri_CaseID i) db = Inr c0" "c_Status c0 = StatusOpen"
    by (auto simp: releasePlan_def checkOpen_def)
  then show ?thesis by (rule commitI [OF _ _ releasePlan_planned [OF stored p] releasePlan_caseInv [OF stored p] per]) simp
qed

lemma reassign_commit:
  assumes stored: "storedOK e cl db (ra_CaseID i)" and run: "Reassign e cl i db = (Inr c, db')"
  shows "commit e cl (ra_CaseID i) db c db'"
proof -
  from run obtain r evs where p: "reassignPlan e cl i db = Inr r" and per: "persist e cl r db = (Inr (c, evs), db')"
    by (auto simp: Reassign_def bindA_eq_Inr split: sum.splits)
  from p obtain c0 where "r_GetByID (eng_repo e) (ra_CaseID i) db = Inr c0" "c_Status c0 = StatusOpen"
    by (auto simp: reassignPlan_def checkOpen_def)
  then show ?thesis by (rule commitI [OF _ _ reassignPlan_planned [OF stored p] reassignPlan_caseInv [OF stored p] per]) simp
qed

lemma setDeadline_commit:
  assumes stored: "storedOK e cl db (si_CaseID i)" and run: "SetDeadline e cl i db = (Inr c, db')"
  shows "commit e cl (si_CaseID i) db c db'"
proof -
  from run obtain r evs where p: "setDeadlinePlan e cl i db = Inr r" and per: "persist e cl r db = (Inr (c, evs), db')"
    by (auto simp: SetDeadline_def bindA_eq_Inr split: sum.splits)
  from p obtain c0 where "r_GetByID (eng_repo e) (si_CaseID i) db = Inr c0" "c_Status c0 = StatusOpen"
    by (auto simp: setDeadlinePlan_def checkOpen_def)
  then show ?thesis by (rule commitI [OF _ _ setDeadlinePlan_planned [OF stored p] setDeadlinePlan_caseInv [OF stored p] per]) simp
qed

lemma cancel_commit:
  assumes stored: "storedOK e cl db (ca_CaseID i)" and run: "Cancel e cl i db = (Inr c, db')"
  shows "commit e cl (ca_CaseID i) db c db'"
proof -
  from run obtain r evs where p: "cancelPlan e cl i db = Inr r" and per: "persist e cl r db = (Inr (c, evs), db')"
    by (auto simp: Cancel_def bindA_eq_Inr split: sum.splits)
  from p obtain c0 where "r_GetByID (eng_repo e) (ca_CaseID i) db = Inr c0" "c_Status c0 = StatusOpen"
    by (auto simp: cancelPlan_def checkOpen_def)
  then show ?thesis by (rule commitI [OF _ _ cancelPlan_planned [OF stored p] cancelPlan_caseInv [OF stored p] per]) simp
qed

lemma refresh_commit:
  assumes stored: "storedOK e cl db u" and run: "RefreshEligibility e cl u db = (Inr b, db')"
  shows "\<exists>c. commit e cl u db c db'"
proof -
  from run obtain plan where pl: "refreshPlan e cl u db = Inr plan"
    and rest: "(case plan of None \<Rightarrow> returnA False | Some r \<Rightarrow> bindA (persist e cl r) (\<lambda>_. returnA True)) db = (Inr b, db')"
    by (auto simp: RefreshEligibility_def split: sum.splits)
  from pl obtain c0 where c0: "r_GetByID (eng_repo e) u db = Inr c0" "plan \<noteq> None \<Longrightarrow> c_Status c0 = StatusOpen"
    by (auto simp: refreshPlan_def split: if_splits)
  show ?thesis
  proof (cases plan)
    case None
    with rest c0 show ?thesis by (auto simp: commit_def)
  next
    case (Some r)
    with rest obtain c evs where per: "persist e cl r db = (Inr (c, evs), db')" by (auto simp: bindA_eq_Inr)
    note p = pl [unfolded Some]
    have "commit e cl u db c db'"
      by (rule commitI [OF c0 refreshPlan_planned [OF p] refreshPlan_caseInv [OF stored p] per]) (simp_all add: Some)
    then show ?thesis by blast
  qed
qed

text \<open>Everything the store holds of a case, and what one call does to the cases.\<close>

definition eventsIn :: "storeView \<Rightarrow> uuid \<Rightarrow> Event list" where
  "eventsIn v u = filter (\<lambda>x. ev_CaseID x = u) (v_events v)"

definition sameCase :: "storeView \<Rightarrow> storeView \<Rightarrow> uuid \<Rightarrow> bool" where
  "sameCase v v' u \<longleftrightarrow> v_case v' u = v_case v u \<and> tokensIn v' u = tokensIn v u \<and> scopesIn v' u = scopesIn v u \<and>
     eventsIn v' u = eventsIn v u"

definition newer :: "Case \<Rightarrow> Case \<Rightarrow> bool" where
  "newer c c' \<longleftrightarrow> c_Revision c \<le> c_Revision c' \<and> c_LastSeq c \<le> c_LastSeq c' \<and>
     (c_Revision c, c_LastSeq c) \<noteq> (c_Revision c', c_LastSeq c')"

text \<open>
  A call that touches case u leaves the others as they were, only adds events, and moves the
  revision or the sequence of u forward; on a case that is not open it only numbers an event.
\<close>

definition touches :: "uuid \<Rightarrow> storeView \<Rightarrow> storeView \<Rightarrow> bool" where
  "touches u v v' \<longleftrightarrow> (\<forall>u'. u' \<noteq> u \<longrightarrow> sameCase v v' u') \<and> (\<exists>rows. v_events v' = v_events v @ rows) \<and>
     (\<forall>c. v_case v u = Some c \<longrightarrow> (\<exists>c'. v_case v' u = Some c' \<and> newer c c' \<and>
        (c_Status c \<noteq> StatusOpen \<longrightarrow> c' = c\<lparr>c_LastSeq := c_LastSeq c'\<rparr> \<and> tokensIn v' u = tokensIn v u \<and>
           scopesIn v' u = scopesIn v u)))"

context case_repository
begin

theorem persist_touches:
  assumes wf: "wf db" and repo: "eng_repo e = repo" and ok: "storeOK e (view db)" and fresh: "freshCall cl (view db)"
    and plan: "planned e cl db u r" and inv: "caseInv cl r" and per: "persist e cl r db = (Inr (c', evs), db')"
    and c0: "v_case (view db) u = Some c0" "c_Status c0 = StatusOpen"
  shows "touches u (view db) (view db')"
proof -
  have dist: "distinct (map tok_ID (run_tokens r))" "distinct (map sc_ID (run_scopes r))"
    using runInv_distinct inv by (auto simp: caseInv_runInv)
  note ps = persist_storeOK [OF wf repo ok fresh plan inv per] and pv = persist_view [OF wf repo plan dist per]
  obtain c where c: "v_case (view db) u = Some c" "c_ID c = u" "run_baseSeq r = c_LastSeq c" "keepsCase c (run_c r)"
    by (rule planned_sync [OF wf repo plan]) (rule that)
  from pv(3) obtain rows where v': "v_events (view db') = v_events (view db) @ rows"
    and rows: "list_all2 (\<lambda>ev row. \<exists>n. sameEvent (stampEvent e cl n c' ev) row) (run_events r) rows" by auto
  have id: "c_ID c' = u" using pv(2) c(2,4) by (simp add: keepsCase_def)
  have "\<forall>x \<in> set rows. ev_CaseID x = u"
    using rows id by (auto simp: list_all2_conv_all_nth in_set_conv_nth sameEvent_def)
  then have "filter (\<lambda>x. ev_CaseID x = u') rows = []" if "u' \<noteq> u" for u' using that by (auto simp: filter_empty_conv)
  then have "eventsIn (view db') u' = eventsIn (view db) u'" if "u' \<noteq> u" for u' using that by (simp add: eventsIn_def v')
  with ps(6) have "sameCase (view db) (view db') u'" if "u' \<noteq> u" for u' using that by (simp add: sameCase_def)
  moreover have "newer c c'" using pv(2) c(3,4) by (simp add: newer_def keepsCase_def writtenCase_def)
  ultimately show ?thesis using v' c(1) c0 ps(3) by (simp add: touches_def)
qed

theorem commit_storeOK:
  assumes wf: "wf db" and repo: "eng_repo e = repo" and ok: "storeOK e (view db)" and fresh: "freshCall cl (view db)"
    and sink: "sinkKeeps e wf view" and run: "storedOK e cl db u \<Longrightarrow> commit e cl u db c db'"
  shows "wf db'" and "storeOK e (view db')" and "v_case (view db') u = Some c"
    and "view db' = view db \<or> touches u (view db) (view db')"
proof -
  have "storedOK e cl db u"
    by (rule storedOK_of_casesOK [OF wf repo _ fresh]) (use ok in \<open>simp add: storeOK_def\<close>)
  note run = run [OF this]
  have get: "v_case (view db) u = Some x" if "r_GetByID (eng_repo e) u db = Inr x" for x
    using that get_by_id [OF wf, of u] repo by (simp split: option.splits)
  have "wf db' \<and> storeOK e (view db') \<and> v_case (view db') u = Some c \<and> (view db' = view db \<or> touches u (view db) (view db'))"
  proof (cases "db' = db \<and> r_GetByID (eng_repo e) u db = Inr c")
    case True
    with wf ok get show ?thesis by simp
  next
    case False
    with run obtain r evs db1 d c0 where c0: "r_GetByID (eng_repo e) u db = Inr c0" "c_Status c0 = StatusOpen"
      and p: "planned e cl db u r" "caseInv cl r" and per: "persist e cl r db = (Inr (c, evs), db1)"
      and dis: "db' = db1 \<or> dispatch e d c evs db1 = (Inr (), db')"
      unfolding commit_def by blast
    note ps = persist_storeOK(1-3) [OF wf repo ok fresh p per]
      and t = persist_touches [OF wf repo ok fresh p per get [OF c0(1)] c0(2)]
    from dis sinkKeepsD [OF sink ps(1)] have "wf db' \<and> view db' = view db1" using ps(1) by auto
    with ps t show ?thesis by simp
  qed
  then show "wf db'" and "storeOK e (view db')" and "v_case (view db') u = Some c"
    and "view db' = view db \<or> touches u (view db) (view db')" by auto
qed

text \<open>RecordFailure takes a Seq and appends one event; the state of the case stays as it is.\<close>

theorem recordFailure_storeOK:
  assumes wf: "wf db" and repo: "eng_repo e = repo" and ok: "storeOK e (view db)"
    and run: "RecordFailure e cl i db = (Inr ev, db')"
  shows "wf db'" and "storeOK e (view db')" and "touches (fi_CaseID i) (view db) (view db')"
proof -
  from run obtain actor tok c db1 where
    ad: "r_AdvanceLastSeq repo (fi_CaseID i) db = (Inr c, db1)"
    and ap: "r_AppendEvent repo (stampEvent e cl 0 c (failureEvent cl i actor tok c)) db1 = (Inr ev, db')"
    by (auto simp: RecordFailure_def bindA_eq_Inr appendEvent_def repo split: sum.splits)
  let ?u = "fi_CaseID i"
  from advance [OF wf ad] obtain row where wf1: "wf db1" and row: "v_case (view db) ?u = Some row"
    and c: "c = row\<lparr>c_LastSeq := c_LastSeq row + 1\<rparr>" and v1: "view db1 = (view db)\<lparr>v_case := (v_case (view db))(?u \<mapsto> c)\<rparr>" by blast
  from append_event [OF wf1 ap] obtain x where wf': "wf db'"
    and x: "sameEvent (stampEvent e cl 0 c (failureEvent cl i actor tok c)) x"
    and v': "view db' = (view db1)\<lparr>v_events := v_events (view db1) @ [x]\<rparr>" by blast
  show "wf db'" by (rule wf')
  have uid: "c_ID row = ?u" using case_key [OF wf row] by blast
  have ev: "ev_CaseID x = ?u" "ev_Seq x = c_LastSeq row + 1"
    using x uid by (auto simp: sameEvent_def stampEvent_def failureEvent_def c Let_def case_prod_beta split: option.splits)
  show "touches ?u (view db) (view db')"
    using row ev(1) by (simp add: touches_def sameCase_def newer_def eventsIn_def tokensIn_def scopesIn_def v' v1 c)
  have "ledgerOK (view db')"
    by (rule ledgerOK_append [where u = ?u and rows = "[x]" and c = row and c' = c and v = "view db"])
      (use ok row ev in \<open>simp_all add: storeOK_def c v' v1\<close>)
  moreover have "casesOK e (view db')"
    unfolding casesOK_def
  proof (intro allI impI)
    fix u cu d ts ss
    assume cu: "v_case (view db') u = Some cu" and d: "resolveDefinition e (c_Definition cu) (c_Version cu) = Inr d"
      and l: "distinct (map tok_ID ts)" "set ts = tokensIn (view db') u" "distinct (map sc_ID ss)" "set ss = scopesIn (view db') u"
    have same: "tokensIn (view db') u = tokensIn (view db) u" "scopesIn (view db') u = scopesIn (view db) u"
      by (simp_all add: tokensIn_def scopesIn_def v' v1)
    show "stateOK d cu ss ts"
    proof (cases "u = ?u")
      case True
      then have "cu = c" using cu by (simp add: v' v1)
      have "stateOK d row ss ts" using ok row True d l same \<open>cu = c\<close> by (simp add: storeOK_def casesOK_def c)
      then have "treeInv {} (c_ID row) (c_LastSeq row + 1 + 1) ss ts" by (auto simp: stateOK_def intro: treeInv_seq)
      with \<open>stateOK d row ss ts\<close> show ?thesis by (simp add: stateOK_def \<open>cu = c\<close> c caseOK_def)
    next
      case False
      then have "v_case (view db) u = Some cu" using cu by (simp add: v' v1)
      with ok d l same show ?thesis by (simp add: storeOK_def casesOK_def)
    qed
  qed
  ultimately show "storeOK e (view db')" by (simp add: storeOK_def)
qed

theorem open_storeOK:
  assumes wf: "wf db" and repo: "eng_repo e = repo" and ok: "storeOK e (view db)" and fresh: "freshCall cl (view db)"
    and reg: "registryOK e" "latestOK e" and sink: "sinkKeeps e wf view" and run: "OpenDetailed e cl i db = (Inr res, db')"
  shows "wf db'" and "storeOK e (view db')" and "v_case (view db') (c_ID (mr_Case res)) = Some (mr_Case res)"
    and "touches (c_ID (mr_Case res)) (view db) (view db')"
proof -
  from run obtain actor d start c root c1 db1 u db2 w db3 ev db4 where
    plan: "openPlan e cl i db = Inr (actor, d, start, c, root)"
    and cr: "r_Create repo c db = (Inr c1, db1)" and cs: "r_CreateScope repo (rootScope (c_ID c1)) db1 = (Inr u, db2)"
    and ct: "r_CreateToken repo root db2 = (Inr w, db3)"
    and ap: "r_AppendEvent repo (stampEvent e cl 1 c1 ((tokenEvent EventOpened (c_ID c1) (c_ID c1) '''' (node_ID start))
                \<lparr>ev_Seq := c_LastSeq c1, ev_DeadlineAt := c_DeadlineAt c1, ev_Actor := actor, ev_OccurredAt := cl_now cl\<rparr>)) db3
              = (Inr ev, db4)"
    and dis: "dispatch e d c1 [ev] db4 = (Inr (), db')" and res: "mr_Case res = c1"
    by (auto simp: OpenDetailed_def bindA_eq_Inr appendEvent_def repo split: sum.splits)
  note o = openPlan_stateOK [OF reg(1) plan]
  have cf: "c_Revision c = 0" "c_JoinResult c = None" "c_Definition c = d_Name d" "c_Version c = d_Version d"
    using plan by (auto simp: openPlan_def Let_def openedCase_def split: option.splits)
  from create [OF wf cr] have wf1: "wf db1" and new: "v_case (view db) (c_ID c) = None" and c1: "c1 = c\<lparr>c_Revision := 0\<rparr>"
    and v1: "view db1 = (view db)\<lparr>v_case := (v_case (view db))(c_ID c \<mapsto> c1\<lparr>c_JoinResult := None\<rparr>)\<rparr>" by blast+
  have c1c: "c1 = c" "c1\<lparr>c_JoinResult := None\<rparr> = c" using cf by (simp_all add: c1)
  from create_scope [OF wf1 cs] have wf2: "wf db2"
    and v2: "view db2 = (view db1)\<lparr>v_scope := (v_scope (view db1))(c_ID c \<mapsto> rootScope (c_ID c))\<rparr>" by (simp_all add: c1c rootScope_def)
  from create_token [OF wf2 ct] have wf3: "wf db3" and v3: "view db3 = (view db2)\<lparr>v_token := (v_token (view db2))(c_ID c \<mapsto> root)\<rparr>"
    using o(5) by auto
  from append_event [OF wf3 ap] obtain x where wf4: "wf db4"
    and x: "ev_CaseID x = c_ID c" "ev_Seq x = 1" and v4: "view db4 = (view db3)\<lparr>v_events := v_events (view db3) @ [x]\<rparr>"
    using o(3) c1c by (auto simp: sameEvent_def stampEvent_def Let_def case_prod_beta split: option.splits)
  from sinkKeepsD [OF sink wf4 dis] have wf': "wf db'" and v': "view db' = view db4" by auto
  show "wf db'" by (rule wf')
  have vc: "v_case (view db') = (v_case (view db))(c_ID c \<mapsto> c)" using v' v4 v3 v2 v1 c1c by simp
  show "v_case (view db') (c_ID (mr_Case res)) = Some (mr_Case res)" by (simp add: res vc c1c)
  have noT: "tok_CaseID t \<noteq> c_ID c" if "v_token (view db) k = Some t" for t k using token_key [OF wf that] new by auto
  have noS: "sc_CaseID s \<noteq> c_ID c" if "v_scope (view db) k = Some s" for s k using scope_key [OF wf that] new by auto
  have free: "v_token (view db) (c_ID c) = None" "v_scope (view db) (c_ID c) = None"
    using fresh o(6) by (simp_all add: freshCall_def)
  have own: "tok_CaseID root = c_ID c" using o(1) by (auto simp: stateOK_def tokenOK_def)
  have toks: "tokensIn (view db') u = (if u = c_ID c then {root} else tokensIn (view db) u)" for u
    using v' v4 v3 v2 v1 noT free(1) own o(5) by (auto simp: tokensIn_def)
  have scs: "scopesIn (view db') u = (if u = c_ID c then {rootScope (c_ID c)} else scopesIn (view db) u)" for u
    using v' v4 v3 v2 v1 noS free(2) by (auto simp: scopesIn_def rootScope_def)
  show "touches (c_ID (mr_Case res)) (view db) (view db')"
    using new x(1) toks scs v' v4 v3 v2 v1 by (simp add: touches_def sameCase_def eventsIn_def res c1c vc)
  have "casesOK e (view db')"
  proof (rule casesOK_I)
    fix u cu du assume cu: "v_case (view db') u = Some cu" and du: "resolveDefinition e (c_Definition cu) (c_Version cu) = Inr du"
    show "\<exists>ts ss. distinct (map tok_ID ts) \<and> set ts = tokensIn (view db') u \<and> distinct (map sc_ID ss) \<and>
        set ss = scopesIn (view db') u \<and> stateOK du cu ss ts"
    proof (cases "u = c_ID c")
      case True
      then have cu': "cu = c" using cu vc by simp
      have "du = d" using du cu' cf(3,4) resolveDefinition_again [OF reg o(4)] by simp
      then show ?thesis using o(1) cu' True toks scs by (intro exI [of _ "[root]"] exI [of _ "[rootScope (c_ID c)]"]) simp
    next
      case False
      from list_tokens [OF wf, of u] list_scopes [OF wf, of u] obtain ts ss where
        "distinct (map tok_ID ts)" "set ts = tokensIn (view db) u" "distinct (map sc_ID ss)" "set ss = scopesIn (view db) u"
        by (auto simp: tokensIn_def scopesIn_def)
      moreover from this have "stateOK du cu ss ts"
        using ok cu du False vc by (simp add: storeOK_def casesOK_def)
      ultimately show ?thesis using toks scs False by auto
    qed
  qed
  moreover have "ledgerOK (view db')"
  proof -
    have led: "ledgerOK (view db)" using ok by (simp add: storeOK_def)
    then have empty: "filter (\<lambda>x. ev_CaseID x = c_ID c) (v_events (view db)) = []"
      using new by (auto simp: ledgerOK_def filter_empty_conv)
    have evs: "v_events (view db') = v_events (view db) @ [x]" using v' v4 v3 v2 v1 by simp
    show ?thesis
      using led empty x o(3) unfolding ledgerOK_def evs vc by auto
  qed
  ultimately show "storeOK e (view db')" by (simp add: storeOK_def)
qed

end

end
