(* ===== verification/Pg_Store.thy ===== *)
theory Pg_Store
  imports Events "HOL-Library.Product_Lexorder"
begin

text \<open>
  The PostgreSQL repository (workflow/postgres/repository.go) over the tables of
  workflow/migrations: rows are lists, each statement of the repository is a function of the
  tables, and the constraints and the digest trigger of the migrations are part of the insert. A
  statement that fails leaves the tables as they were.
\<close>

section \<open>Tables\<close>

text \<open>
  A case row keeps every field but JoinResult, which is not a column; a token row keeps NULL
  as 0 (ended_seq) or the empty outcome, and an event row keeps a NULL token or scope as the nil
  UUID, which is how the Go values stand for them. pg_now is the server's now(). The fields a
  consumer adds to the record are the tables of its own.
\<close>

record pgStore =
  pg_cases :: "Case list"
  pg_scopes :: "Scope list"
  pg_tokens :: "Token list"
  pg_events :: "Event list"
  pg_now :: time

type_synonym 'q tables = "'q pgStore_scheme"

definition caseRow :: "Case \<Rightarrow> Case" where
  "caseRow c = c\<lparr>c_JoinResult := None\<rparr>"

section \<open>The digest of an event\<close>

text \<open>
  The encoding of vogel_workflow_event_digest (migrations 007 and 010): a version tag, then each
  column as an 8-byte length and its bytes, NULL as length -1. sha256, the text Postgres prints
  for a jsonb value and its send functions for times are not code of this repository: sha and js
  are parameters, and a time is sent as its 8 bytes.
\<close>

fun bytesBE :: "nat \<Rightarrow> int \<Rightarrow> nat list" where
  "bytesBE 0 v = []"
| "bytesBE (Suc n) v = bytesBE n (v div 256) @ [nat (v mod 256)]"

definition int8send :: "int \<Rightarrow> nat list" where
  "int8send v = bytesBE 8 v"

definition textBytes :: "string \<Rightarrow> nat list" where
  "textBytes s = map of_char s"

definition eventField :: "nat list option \<Rightarrow> nat list" where
  "eventField b = (case b of None \<Rightarrow> int8send (-1) | Some x \<Rightarrow> int8send (int (length x)) @ x)"

fun kindName :: "EventKind \<Rightarrow> string" where
  "kindName EventOpened = ''opened''"
| "kindName EventMoved = ''moved''"
| "kindName EventAssigned = ''assigned''"
| "kindName EventUnassigned = ''unassigned''"
| "kindName EventClosed = ''closed''"
| "kindName EventStepSubmitted = ''step_submitted''"
| "kindName EventNoRoute = ''no_route''"
| "kindName EventFailed = ''failed''"
| "kindName EventSplit = ''split''"
| "kindName EventWaiting = ''waiting''"
| "kindName EventJoined = ''joined''"
| "kindName EventTokenCancelled = ''token_cancelled''"
| "kindName EventCancelled = ''cancelled''"
| "kindName EventDeadlineChanged = ''deadline_changed''"
| "kindName EventExpired = ''expired''"
| "kindName (EventKindOther s) = s"

fun actorKindName :: "ActorKind \<Rightarrow> string" where
  "actorKindName ActorKindNone = ''''"
| "actorKindName ActorHuman = ''human''"
| "actorKindName ActorOperator = ''operator''"
| "actorKindName ActorSystem = ''system''"
| "actorKindName ActorAPIClient = ''api_client''"
| "actorKindName ActorAnonymous = ''anonymous''"
| "actorKindName ActorUnspecified = ''unspecified''"
| "actorKindName (ActorKindOther s) = s"

definition uuidField :: "uuid \<Rightarrow> nat list option" where
  "uuidField u = (if u = uuidNil then None else Some (bytesBE 16 (int u)))"

text \<open>The columns the digest covers, in order; prev is the digest of the event before.\<close>

definition eventFields :: "(Detail \<Rightarrow> string) \<Rightarrow> digest option \<Rightarrow> Event \<Rightarrow> nat list option list" where
  "eventFields js prev e =
     [prev, Some (bytesBE 16 (int (ev_ID e))), Some (bytesBE 16 (int (ev_CaseID e))),
      Some (int8send (ev_Seq e)), Some (textBytes (kindName (ev_Kind e))),
      Some (textBytes (ev_FromState e)), Some (textBytes (ev_ToState e)),
      Some (textBytes (ev_Action e)), Some (textBytes (ac_ID (ev_Actor e))),
      Some (int8send (ev_OccurredAt e)), Some (textBytes (ev_Comment e)),
      Some (bytesBE 2 (ev_SchemaVersion e)), Some (textBytes (js (ev_Detail e))),
      Some (textBytes (ev_Tenant e)), Some (textBytes (actorKindName (ac_Kind (ev_Actor e)))),
      Some (textBytes (ac_ActingAs (ev_Actor e))), Some (textBytes (ac_OnBehalfOf (ev_Actor e))),
      Some (textBytes (ac_Via (ev_Actor e))), Some (textBytes (ev_RequestID e)),
      Some (textBytes (ev_TraceID e)), Some (textBytes (ev_SpanID e)),
      uuidField (ev_TokenID e), uuidField (ev_ScopeID e), map_option int8send (ev_DeadlineAt e)]"

definition encodeEvent :: "(Detail \<Rightarrow> string) \<Rightarrow> digest option \<Rightarrow> Event \<Rightarrow> nat list" where
  "encodeEvent js prev e = textBytes ''vogel.workflow_event.v2'' @ concat (map eventField (eventFields js prev e))"

definition eventDigest :: "(nat list \<Rightarrow> digest) \<Rightarrow> (Detail \<Rightarrow> string) \<Rightarrow> digest option \<Rightarrow> Event \<Rightarrow> digest" where
  "eventDigest sha js prev e = sha (encodeEvent js prev e)"

section \<open>Cases\<close>

definition caseKey :: "Case \<Rightarrow> string \<times> string \<times> string" where
  "caseKey c = (c_Tenant c, c_Domain c, c_ExternalID c)"

definition pgCreate :: "Case \<Rightarrow> ('q tables, Case) action" where
  "pgCreate c db =
     (let c = c\<lparr>c_Revision := 0\<rparr> in
      if c_ID c \<in> c_ID ` set (pg_cases db) \<or> caseKey c \<in> caseKey ` set (pg_cases db)
      then (Inl (Err ErrCaseExists), db)
      else (Inr c, db\<lparr>pg_cases := pg_cases db @ [caseRow c]\<rparr>))"

definition pgGetByID :: "uuid \<Rightarrow> 'q tables \<Rightarrow> Case result" where
  "pgGetByID uid db =
     (case lookupBy c_ID uid (pg_cases db) of
        None \<Rightarrow> Inl (Err ErrCaseNotFound)
      | Some c \<Rightarrow> Inr c)"

definition pgGetByExternalID :: "string \<Rightarrow> string \<Rightarrow> string \<Rightarrow> 'q tables \<Rightarrow> Case result" where
  "pgGetByExternalID tenant domain externalID db =
     (case lookupBy caseKey (tenant, domain, externalID) (pg_cases db) of
        None \<Rightarrow> Inl (Err ErrCaseNotFound)
      | Some c \<Rightarrow> Inr c)"

definition pgUpdate :: "Case \<Rightarrow> int \<Rightarrow> ('q tables, Case) action" where
  "pgUpdate c expectedLastSeq db =
     (case lookupBy c_ID (c_ID c) (pg_cases db) of
        None \<Rightarrow> (Inl (Err ErrCaseNotFound), db)
      | Some row \<Rightarrow>
          if c_Revision row = c_Revision c \<and> c_LastSeq row = expectedLastSeq
          then if \<exists>x \<in> set (pg_cases db). c_ID x \<noteq> c_ID c \<and> caseKey x = caseKey c
               then (Inl (ErrText ''unique violation''), db)
               else let c' = c\<lparr>c_Revision := c_Revision c + 1\<rparr>
                    in (Inr c', db\<lparr>pg_cases := replaceBy c_ID (caseRow c') (pg_cases db)\<rparr>)
          else (Inl (Err ErrConflict), db))"

definition pgAdvanceLastSeq :: "uuid \<Rightarrow> ('q tables, Case) action" where
  "pgAdvanceLastSeq uid db =
     (case lookupBy c_ID uid (pg_cases db) of
        None \<Rightarrow> (Inl (Err ErrCaseNotFound), db)
      | Some c \<Rightarrow>
          let c' = c\<lparr>c_LastSeq := c_LastSeq c + 1\<rparr>
          in (Inr c', db\<lparr>pg_cases := replaceBy c_ID c' (pg_cases db)\<rparr>))"

section \<open>Events\<close>

definition storedEvent :: "Event \<Rightarrow> Event" where
  "storedEvent e =
     (let actorID = (if ac_ID (ev_Actor e) = '''' then ev_ActorID e else ac_ID (ev_Actor e));
          kind = (if ac_Kind (ev_Actor e) = ActorKindNone then ActorUnspecified else ac_Kind (ev_Actor e))
      in e\<lparr>ev_SchemaVersion := max (ev_SchemaVersion e) 1, ev_Detail := withDetail (ev_Detail e),
           ev_Actor := (ev_Actor e)\<lparr>ac_ID := actorID, ac_Kind := kind\<rparr>, ev_ActorID := actorID\<rparr>)"

definition eventBefore :: "'q tables \<Rightarrow> Event \<Rightarrow> Event option" where
  "eventBefore db e = find (\<lambda>x. ev_CaseID x = ev_CaseID e \<and> ev_Seq x = ev_Seq e - 1) (pg_events db)"

definition chainEvent :: "(digest option \<Rightarrow> Event \<Rightarrow> digest) \<Rightarrow> 'q tables \<Rightarrow> Event \<Rightarrow> Event" where
  "chainEvent dg db e =
     (let prev = (case eventBefore db e of None \<Rightarrow> None | Some x \<Rightarrow> ev_Digest x)
      in e\<lparr>ev_PrevDigest := prev, ev_Digest := Some (dg prev e)\<rparr>)"

definition seqTaken :: "'q tables \<Rightarrow> Event \<Rightarrow> bool" where
  "seqTaken db e \<longleftrightarrow> (\<exists>x \<in> set (pg_events db). ev_CaseID x = ev_CaseID e \<and> ev_Seq x = ev_Seq e)"

definition joinedTwice :: "'q tables \<Rightarrow> Event \<Rightarrow> bool" where
  "joinedTwice db e \<longleftrightarrow> ev_Kind e = EventJoined \<and> ev_ScopeID e \<noteq> uuidNil \<and>
     (\<exists>x \<in> set (pg_events db). ev_Kind x = EventJoined \<and> ev_ScopeID x = ev_ScopeID e)"

definition pgAppendEvent :: "(digest option \<Rightarrow> Event \<Rightarrow> digest) \<Rightarrow> Event \<Rightarrow> ('q tables, Event) action" where
  "pgAppendEvent dg e db =
     (let row = chainEvent dg db (storedEvent e) in
      if ev_Seq e < 1 then (Inl (ErrText ''seq must be at least 1''), db)
      else if ev_CaseID e \<notin> c_ID ` set (pg_cases db) \<or> ev_ID e \<in> ev_ID ` set (pg_events db)
      then (Inl (ErrText ''constraint violation''), db)
      else if seqTaken db e \<or> joinedTwice db e
      then (Inl (ErrWrap (Err ErrConflict) (ErrText ''unique violation'')), db)
      else (Inr (e\<lparr>ev_PrevDigest := ev_PrevDigest row, ev_Digest := ev_Digest row\<rparr>),
            db\<lparr>pg_events := pg_events db @ [row]\<rparr>))"

text \<open>A NULL token or scope reads as the case ID.\<close>

definition readEvent :: "Event \<Rightarrow> Event" where
  "readEvent e =
     e\<lparr>ev_TokenID := (if ev_TokenID e = uuidNil then ev_CaseID e else ev_TokenID e),
       ev_ScopeID := (if ev_ScopeID e = uuidNil then ev_CaseID e else ev_ScopeID e),
       ev_ActorID := ac_ID (ev_Actor e)\<rparr>"

definition caseEvents :: "'q tables \<Rightarrow> uuid \<Rightarrow> Event list" where
  "caseEvents db caseID = sort_key ev_Seq (filter (\<lambda>e. ev_CaseID e = caseID) (pg_events db))"

definition pgListEvents :: "uuid \<Rightarrow> 'q tables \<Rightarrow> Event list result" where
  "pgListEvents caseID db = Inr (map readEvent (caseEvents db caseID))"

definition digestLink :: "(digest option \<Rightarrow> Event \<Rightarrow> digest) \<Rightarrow> Event \<Rightarrow> EventDigest" where
  "digestLink dg e =
     \<lparr>ed_Seq = ev_Seq e, ed_PrevDigest = ev_PrevDigest e, ed_Digest = ev_Digest e,
      ed_Recomputed = (if ev_Digest e = None then None else Some (dg (ev_PrevDigest e) e))\<rparr>"

definition pgListEventDigests :: "(digest option \<Rightarrow> Event \<Rightarrow> digest) \<Rightarrow> uuid \<Rightarrow> 'q tables \<Rightarrow> EventDigest list result" where
  "pgListEventDigests dg caseID db = Inr (map (digestLink dg) (caseEvents db caseID))"

section \<open>Scopes and tokens\<close>

definition scopeCheck :: "Scope \<Rightarrow> bool" where
  "scopeCheck s \<longleftrightarrow> 1 \<le> sc_Expected s \<and> sc_Status s \<in> {ScopeOpen, ScopeJoined, ScopeCancelled, ScopeClosed} \<and>
     (sc_ParentID s = None \<longleftrightarrow> sc_ID s = sc_CaseID s)"

definition pgCreateScope :: "Scope \<Rightarrow> ('q tables, unit) action" where
  "pgCreateScope s db =
     (if sc_ID s \<in> sc_ID ` set (pg_scopes db) \<or> sc_CaseID s \<notin> c_ID ` set (pg_cases db) \<or>
         (case sc_ParentID s of None \<Rightarrow> False
          | Some p \<Rightarrow> p \<noteq> sc_ID s \<and> p \<notin> sc_ID ` set (pg_scopes db)) \<or> \<not> scopeCheck s
      then (Inl (ErrText ''constraint violation''), db)
      else (Inr (), db\<lparr>pg_scopes := pg_scopes db @ [s]\<rparr>))"

definition pgUpdateScope :: "Scope \<Rightarrow> ('q tables, unit) action" where
  "pgUpdateScope s db =
     (case lookupBy sc_ID (sc_ID s) (pg_scopes db) of
        None \<Rightarrow> (Inl (Err ErrConflict), db)
      | Some row \<Rightarrow>
          let row = row\<lparr>sc_Status := sc_Status s, sc_ClosedSeq := sc_ClosedSeq s\<rparr>
          in if \<not> scopeCheck row then (Inl (ErrText ''constraint violation''), db)
             else (Inr (), db\<lparr>pg_scopes := replaceBy sc_ID row (pg_scopes db)\<rparr>))"

definition pgListScopes :: "uuid \<Rightarrow> 'q tables \<Rightarrow> Scope list result" where
  "pgListScopes caseID db =
     Inr (sort_key (\<lambda>s. (sc_OpenedSeq s, sc_ID s)) (filter (\<lambda>s. sc_CaseID s = caseID) (pg_scopes db)))"

definition tokenCheck :: "Token \<Rightarrow> bool" where
  "tokenCheck t \<longleftrightarrow> tok_Status t \<in> {TokenActive, TokenWaiting, TokenConsumed, TokenCancelled} \<and>
     (Live (tok_Status t) \<longleftrightarrow> tok_EndedSeq t = 0)"

definition pgCreateToken :: "Token \<Rightarrow> ('q tables, unit) action" where
  "pgCreateToken t db =
     (if tok_ID t \<in> tok_ID ` set (pg_tokens db) \<or> tok_CaseID t \<notin> c_ID ` set (pg_cases db) \<or>
         tok_ScopeID t \<notin> sc_ID ` set (pg_scopes db) \<or> \<not> tokenCheck t
      then (Inl (ErrText ''constraint violation''), db)
      else (Inr (), db\<lparr>pg_tokens := pg_tokens db @ [t]\<rparr>))"

definition pgUpdateToken :: "Token \<Rightarrow> ('q tables, unit) action" where
  "pgUpdateToken t db =
     (case lookupBy tok_ID (tok_ID t) (pg_tokens db) of
        None \<Rightarrow> (Inl (Err ErrConflict), db)
      | Some row \<Rightarrow>
          let row = t\<lparr>tok_CaseID := tok_CaseID row, tok_ScopeID := tok_ScopeID row\<rparr>
          in if \<not> tokenCheck row then (Inl (ErrText ''constraint violation''), db)
             else (Inr (), db\<lparr>pg_tokens := replaceBy tok_ID row (pg_tokens db)\<rparr>))"

definition pgListTokens :: "uuid \<Rightarrow> 'q tables \<Rightarrow> Token list result" where
  "pgListTokens caseID db =
     Inr (sort_key (\<lambda>t. (tok_EnteredSeq t, tok_ID t)) (filter (\<lambda>t. tok_CaseID t = caseID) (pg_tokens db)))"

section \<open>Work lists\<close>

text \<open>The join of the token and case tables: the rows whose case exists.\<close>

definition tokenRows :: "'q tables \<Rightarrow> WorkItem list" where
  "tokenRows db =
     concat (map (\<lambda>t. case lookupBy c_ID (tok_CaseID t) (pg_cases db) of
                        None \<Rightarrow> [] | Some c \<Rightarrow> [\<lparr>wi_Case = c, wi_Token = t\<rparr>]) (pg_tokens db))"

definition window :: "int \<Rightarrow> int \<Rightarrow> 'a list \<Rightarrow> 'a list" where
  "window limit offset rows = take (nat limit) (drop (nat offset) rows)"

definition inboxMatch :: "time \<Rightarrow> InboxFilter \<Rightarrow> WorkItem \<Rightarrow> bool" where
  "inboxMatch now f w \<longleftrightarrow>
     (let t = wi_Token w; c = wi_Case w in
      tok_Status t = TokenActive \<and> c_Status c = StatusOpen \<and>
      (if_Domain f = '''' \<or> c_Domain c = if_Domain f) \<and>
      (if_States f = [] \<or> tok_Node t \<in> set (if_States f)) \<and>
      (if_AssignedTo f = '''' \<or> tok_AssignedTo t = if_AssignedTo f) \<and>
      (\<not> if_Unassigned f \<or> tok_AssignedTo t = '''') \<and>
      (\<not> if_Overdue f \<or> (case tok_DeadlineAt t of None \<Rightarrow> False | Some d \<Rightarrow> d < now)) \<and>
      (if_Tenant f = '''' \<or> c_Tenant c = if_Tenant f) \<and>
      (if_Eligibility f = [] \<or> tok_Eligible t \<in> set (if_Eligibility f)))"

definition pgListWorkItems :: "InboxFilter \<Rightarrow> 'q tables \<Rightarrow> WorkItem list result" where
  "pgListWorkItems f db =
     bindR (page (if_Limit f) (if_Offset f)) (\<lambda>(limit, offset).
     Inr (window limit offset
       (sort_key (\<lambda>w. (c_OpenedAt (wi_Case w), c_ID (wi_Case w), tok_EnteredSeq (wi_Token w), tok_ID (wi_Token w)))
         (filter (inboxMatch (pg_now db) f) (tokenRows db)))))"

definition overdueMatch :: "OverdueFilter \<Rightarrow> WorkItem \<Rightarrow> bool" where
  "overdueMatch f w \<longleftrightarrow>
     (let t = wi_Token w; c = wi_Case w in
      tok_Status t = TokenActive \<and> c_Status c = StatusOpen \<and>
      (of_Tenant f = '''' \<or> c_Tenant c = of_Tenant f) \<and>
      (case tok_DeadlineAt t of
         None \<Rightarrow> False
       | Some d \<Rightarrow> d < of_Before f \<and> tok_ExpiredDeadline t \<noteq> Some d \<and>
           (case of_After f of None \<Rightarrow> True
            | Some a \<Rightarrow> oc_DeadlineAt a < d \<or> oc_DeadlineAt a = d \<and> oc_TokenID a < tok_ID t)))"

definition overdueKey :: "WorkItem \<Rightarrow> time \<times> uuid" where
  "overdueKey w = (the (tok_DeadlineAt (wi_Token w)), tok_ID (wi_Token w))"

definition pgListOverdue :: "OverdueFilter \<Rightarrow> 'q tables \<Rightarrow> WorkItem list result" where
  "pgListOverdue f db =
     Inr (window (OverdueFilter_Page f) 0 (sort_key overdueKey (filter (overdueMatch f) (tokenRows db))))"

definition actorEvents :: "ParticipationFilter \<Rightarrow> 'q tables \<Rightarrow> Event list" where
  "actorEvents f db =
     filter (\<lambda>e. ac_ID (ev_Actor e) = pf_ActorID f \<and> ac_ID (ev_Actor e) \<noteq> '''' \<and>
       (pf_Tenant f = '''' \<or> ev_Tenant e = pf_Tenant f)) (pg_events db)"

definition lastAt :: "Event list \<Rightarrow> uuid \<Rightarrow> time" where
  "lastAt evs uid = Max (set (map ev_OccurredAt (filter (\<lambda>e. ev_CaseID e = uid) evs)))"

definition pgListParticipated :: "ParticipationFilter \<Rightarrow> 'q tables \<Rightarrow> Case list result" where
  "pgListParticipated f db =
     bindR (page (pf_Limit f) (pf_Offset f)) (\<lambda>(limit, offset).
     let evs = actorEvents f db in
     Inr (window limit offset
       (sort_key (\<lambda>c. (- lastAt evs (c_ID c), c_ID c))
         (filter (\<lambda>c. c_ID c \<in> ev_CaseID ` set evs) (pg_cases db)))))"

definition pgRepository :: "(digest option \<Rightarrow> Event \<Rightarrow> digest) \<Rightarrow> 'q tables repository" where
  "pgRepository dg =
     \<lparr>r_Create = pgCreate, r_GetByID = pgGetByID, r_GetByExternalID = pgGetByExternalID,
      r_Update = pgUpdate, r_AppendEvent = pgAppendEvent dg, r_ListEvents = pgListEvents,
      r_ListWorkItems = pgListWorkItems, r_ListOverdue = pgListOverdue,
      r_AdvanceLastSeq = pgAdvanceLastSeq, r_ListParticipated = pgListParticipated,
      r_ListEventDigests = pgListEventDigests dg, r_CreateScope = pgCreateScope,
      r_UpdateScope = pgUpdateScope, r_ListScopes = pgListScopes, r_CreateToken = pgCreateToken,
      r_UpdateToken = pgUpdateToken, r_ListTokens = pgListTokens\<rparr>"

end
