(* ===== verification/Pg_Laws.thy ===== *)
theory Pg_Laws
  imports Repository Pg_Store
begin

text \<open>
  The PostgreSQL repository keeps the contract of workflow.Repository: the statements of
  Pg_Store discharge the laws of case_repository, so everything proved of an engine on a
  repository holds on the tables.
\<close>

section \<open>The tables\<close>

definition pgView :: "'q tables \<Rightarrow> storeView" where
  "pgView db = \<lparr>v_case = (\<lambda>u. lookupBy c_ID u (pg_cases db)), v_scope = (\<lambda>u. lookupBy sc_ID u (pg_scopes db)),
     v_token = (\<lambda>u. lookupBy tok_ID u (pg_tokens db)), v_events = pg_events db\<rparr>"

text \<open>
  The event table: every event belongs to a case, a scope has at most one joined event, and every
  row carries the digest of its content over the digest of the event before it.
\<close>

definition prevDigest :: "Event list \<Rightarrow> Event \<Rightarrow> digest option" where
  "prevDigest before x =
     (case find (\<lambda>y. ev_CaseID y = ev_CaseID x \<and> ev_Seq y = ev_Seq x - 1) before of None \<Rightarrow> None | Some y \<Rightarrow> ev_Digest y)"

definition isJoined :: "Event \<Rightarrow> bool" where
  "isJoined x \<longleftrightarrow> ev_Kind x = EventJoined \<and> ev_ScopeID x \<noteq> uuidNil"

definition eventsOK :: "(digest option \<Rightarrow> Event \<Rightarrow> digest) \<Rightarrow> uuid set \<Rightarrow> Event list \<Rightarrow> bool" where
  "eventsOK dg cases evs \<longleftrightarrow> (\<forall>x \<in> set evs. ev_CaseID x \<in> cases \<and> ev_Digest x = Some (dg (ev_PrevDigest x) x)) \<and>
     distinct (map ev_ScopeID (filter isJoined evs)) \<and>
     (\<forall>i < length evs. ev_PrevDigest (evs ! i) = prevDigest (take i evs) (evs ! i))"

lemma eventsOK_mono: "eventsOK dg A evs \<Longrightarrow> A \<subseteq> B \<Longrightarrow> eventsOK dg B evs"
  by (auto simp: eventsOK_def)

lemma eventsOK_snoc:
  assumes "eventsOK dg A evs" and "ev_CaseID x \<in> A" and "ev_Digest x = Some (dg (ev_PrevDigest x) x)"
    and "isJoined x \<Longrightarrow> ev_ScopeID x \<notin> ev_ScopeID ` set (filter isJoined evs)" and "ev_PrevDigest x = prevDigest evs x"
  shows "eventsOK dg A (evs @ [x])"
  using assms unfolding eventsOK_def by (auto simp: nth_append less_Suc_eq)

text \<open>The digest covers the content of a row, not its digests.\<close>

lemma eventDigest_chain [simp]:
  "eventDigest sha js p (x\<lparr>ev_PrevDigest := a, ev_Digest := b\<rparr>) = eventDigest sha js p x"
  by (simp add: eventDigest_def encodeEvent_def eventFields_def)

text \<open>Primary keys are unique, scopes and tokens reference a case, and JoinResult is not a column.\<close>

definition pgOK :: "(digest option \<Rightarrow> Event \<Rightarrow> digest) \<Rightarrow> 'q tables \<Rightarrow> bool" where
  "pgOK dg db \<longleftrightarrow> eventsOK dg (c_ID ` set (pg_cases db)) (pg_events db) \<and> distinct (map c_ID (pg_cases db)) \<and> distinct (map sc_ID (pg_scopes db)) \<and> distinct (map tok_ID (pg_tokens db)) \<and>
     (\<forall>c \<in> set (pg_cases db). c_JoinResult c = None) \<and>
     (\<forall>s \<in> set (pg_scopes db). sc_CaseID s \<in> c_ID ` set (pg_cases db)) \<and>
     (\<forall>t \<in> set (pg_tokens db). tok_CaseID t \<in> c_ID ` set (pg_cases db))"

lemma lookupBy_iff:
  "distinct (map key xs) \<Longrightarrow> lookupBy key u xs = Some x \<longleftrightarrow> x \<in> set xs \<and> key x = u"
  using lookupBy_mem [of key xs x] lookupBy_Some_mem [of key u xs x] by auto

lemma lookupBy_snoc: "key y \<notin> key ` set xs \<Longrightarrow> (\<lambda>u. lookupBy key u (xs @ [y])) = (\<lambda>u. lookupBy key u xs)(key y \<mapsto> y)"
proof
  fix u assume "key y \<notin> key ` set xs"
  then show "lookupBy key u (xs @ [y]) = ((\<lambda>u. lookupBy key u xs)(key y \<mapsto> y)) u"
    by (induction xs) (auto simp: lookupBy_def)
qed

lemma lookupBy_replace:
  assumes "key y \<in> key ` set xs"
  shows "(\<lambda>u. lookupBy key u (replaceBy key y xs)) = (\<lambda>u. lookupBy key u xs)(key y \<mapsto> y)"
proof
  fix u
  have "lookupBy key u (replaceBy key y xs) =
      (if u = key y then (if u \<in> key ` set xs then Some y else None) else lookupBy key u xs)"
    by (cases "u = key y"; induction xs) (auto simp: replaceBy_def)
  with assms show "lookupBy key u (replaceBy key y xs) = ((\<lambda>u. lookupBy key u xs)(key y \<mapsto> y)) u" by simp
qed

lemma lookupBy_mem_image: "lookupBy key u xs = Some x \<Longrightarrow> u \<in> key ` set xs"
  using lookupBy_Some_mem by fastforce

lemma sort_distinct: "distinct (map key (sort_key f xs)) \<longleftrightarrow> distinct (map key xs)"
  by (rule mset_eq_imp_distinct_iff) simp

section \<open>Each statement\<close>

lemma pgCreate_law:
  assumes "pgOK dg db" and "pgCreate c db = (Inr c', db')"
  shows "pgOK dg db'" and "v_case (pgView db) (c_ID c) = None" and "c' = c\<lparr>c_Revision := 0\<rparr>"
    and "pgView db' = (pgView db)\<lparr>v_case := (v_case (pgView db))(c_ID c \<mapsto> c'\<lparr>c_JoinResult := None\<rparr>)\<rparr>"
proof -
  have c: "c' = c\<lparr>c_Revision := 0\<rparr>" and new: "c_ID c \<notin> c_ID ` set (pg_cases db)"
    and db': "db' = db\<lparr>pg_cases := pg_cases db @ [caseRow c']\<rparr>"
    using assms(2) by (auto simp: pgCreate_def Let_def split: if_splits)
  show "c' = c\<lparr>c_Revision := 0\<rparr>" by (rule c)
  show "pgOK dg db'" using assms(1) new by (auto simp: pgOK_def db' caseRow_def c elim: eventsOK_mono)
  show "v_case (pgView db) (c_ID c) = None" using new by (simp add: pgView_def lookupBy_None)
  show "pgView db' = (pgView db)\<lparr>v_case := (v_case (pgView db))(c_ID c \<mapsto> c'\<lparr>c_JoinResult := None\<rparr>)\<rparr>"
    using lookupBy_snoc [of c_ID "caseRow c'" "pg_cases db"] new by (simp add: pgView_def db' caseRow_def c)
qed

lemma pgUpdate_law:
  assumes "pgOK dg db" and "pgUpdate c q db = (Inr c', db')"
  shows "pgOK dg db'" and "\<exists>row. v_case (pgView db) (c_ID c) = Some row \<and> c_Revision row = c_Revision c \<and> c_LastSeq row = q"
    and "c' = c\<lparr>c_Revision := c_Revision c + 1\<rparr>"
    and "pgView db' = (pgView db)\<lparr>v_case := (v_case (pgView db))(c_ID c \<mapsto> c'\<lparr>c_JoinResult := None\<rparr>)\<rparr>"
proof -
  obtain row where row: "lookupBy c_ID (c_ID c) (pg_cases db) = Some row" "c_Revision row = c_Revision c" "c_LastSeq row = q"
    and c': "c' = c\<lparr>c_Revision := c_Revision c + 1\<rparr>" and db': "db' = db\<lparr>pg_cases := replaceBy c_ID (caseRow c') (pg_cases db)\<rparr>"
    using assms(2) by (auto simp: pgUpdate_def Let_def split: option.splits if_splits)
  show "c' = c\<lparr>c_Revision := c_Revision c + 1\<rparr>" by (rule c')
  show "\<exists>row. v_case (pgView db) (c_ID c) = Some row \<and> c_Revision row = c_Revision c \<and> c_LastSeq row = q"
    using row by (simp add: pgView_def)
  have mem: "c_ID (caseRow c') \<in> c_ID ` set (pg_cases db)" using lookupBy_mem_image [OF row(1)] by (simp add: caseRow_def c')
  have ids: "c_ID ` set (replaceBy c_ID (caseRow c') (pg_cases db)) = c_ID ` set (pg_cases db)" by simp
  show "pgOK dg db'" using assms(1) by (auto simp: pgOK_def db' ids) (auto simp: replaceBy_def caseRow_def)
  show "pgView db' = (pgView db)\<lparr>v_case := (v_case (pgView db))(c_ID c \<mapsto> c'\<lparr>c_JoinResult := None\<rparr>)\<rparr>"
    using lookupBy_replace [OF mem] by (simp add: pgView_def db' caseRow_def c')
qed

lemma pgAdvance_law:
  assumes "pgOK dg db" and "pgAdvanceLastSeq u db = (Inr c', db')"
  shows "pgOK dg db'" and "\<exists>row. v_case (pgView db) u = Some row \<and> c' = row\<lparr>c_LastSeq := c_LastSeq row + 1\<rparr> \<and>
    pgView db' = (pgView db)\<lparr>v_case := (v_case (pgView db))(u \<mapsto> c')\<rparr>"
proof -
  obtain row where row: "lookupBy c_ID u (pg_cases db) = Some row" and c': "c' = row\<lparr>c_LastSeq := c_LastSeq row + 1\<rparr>"
    and db': "db' = db\<lparr>pg_cases := replaceBy c_ID c' (pg_cases db)\<rparr>"
    using assms(2) by (auto simp: pgAdvanceLastSeq_def Let_def split: option.splits)
  have rid: "c_ID row = u" "row \<in> set (pg_cases db)" using lookupBy_Some_mem [OF row] by auto
  have mem: "c_ID c' \<in> c_ID ` set (pg_cases db)" using rid by (auto simp: c')
  have ids: "c_ID ` set (replaceBy c_ID c' (pg_cases db)) = c_ID ` set (pg_cases db)" by simp
  have jr: "c_JoinResult c' = None" using assms(1) rid by (simp add: pgOK_def c')
  show "pgOK dg db'" using assms(1) jr by (auto simp: pgOK_def db' ids) (auto simp: replaceBy_def)
  show "\<exists>row. v_case (pgView db) u = Some row \<and> c' = row\<lparr>c_LastSeq := c_LastSeq row + 1\<rparr> \<and>
    pgView db' = (pgView db)\<lparr>v_case := (v_case (pgView db))(u \<mapsto> c')\<rparr>"
    using lookupBy_replace [OF mem] row c' rid by (simp add: pgView_def db')
qed

lemma pgCreateScope_law:
  assumes "pgOK dg db" and "pgCreateScope s db = (Inr x, db')"
  shows "pgOK dg db'" and "v_scope (pgView db) (sc_ID s) = None"
    and "pgView db' = (pgView db)\<lparr>v_scope := (v_scope (pgView db))(sc_ID s \<mapsto> s)\<rparr>"
proof -
  have new: "sc_ID s \<notin> sc_ID ` set (pg_scopes db)" "sc_CaseID s \<in> c_ID ` set (pg_cases db)"
    and db': "db' = db\<lparr>pg_scopes := pg_scopes db @ [s]\<rparr>"
    using assms(2) by (auto simp: pgCreateScope_def split: if_splits option.splits)
  show "pgOK dg db'" using assms(1) new by (auto simp: pgOK_def db')
  show "v_scope (pgView db) (sc_ID s) = None" using new by (simp add: pgView_def lookupBy_None)
  show "pgView db' = (pgView db)\<lparr>v_scope := (v_scope (pgView db))(sc_ID s \<mapsto> s)\<rparr>"
    using lookupBy_snoc [OF new(1)] by (simp add: pgView_def db')
qed

lemma pgUpdateScope_law:
  assumes "pgOK dg db" and "pgUpdateScope s db = (Inr x, db')"
  shows "pgOK dg db'" and "\<exists>row. v_scope (pgView db) (sc_ID s) = Some row \<and> pgView db' = (pgView db)\<lparr>v_scope :=
        (v_scope (pgView db))(sc_ID s \<mapsto> row\<lparr>sc_Status := sc_Status s, sc_ClosedSeq := sc_ClosedSeq s\<rparr>)\<rparr>"
proof -
  obtain row where row: "lookupBy sc_ID (sc_ID s) (pg_scopes db) = Some row"
    and db': "db' = db\<lparr>pg_scopes := replaceBy sc_ID (row\<lparr>sc_Status := sc_Status s, sc_ClosedSeq := sc_ClosedSeq s\<rparr>) (pg_scopes db)\<rparr>"
      (is "db' = db\<lparr>pg_scopes := replaceBy sc_ID ?row _\<rparr>")
    using assms(2) by (auto simp: pgUpdateScope_def Let_def split: option.splits if_splits)
  have rid: "row \<in> set (pg_scopes db)" "sc_ID row = sc_ID s" using lookupBy_Some_mem [OF row] by auto
  have mem: "sc_ID ?row \<in> sc_ID ` set (pg_scopes db)" using lookupBy_mem_image [OF row] rid(2) by simp
  show "pgOK dg db'" using assms(1) rid by (auto simp: pgOK_def db') (auto simp: replaceBy_def)
  show "\<exists>row. v_scope (pgView db) (sc_ID s) = Some row \<and> pgView db' = (pgView db)\<lparr>v_scope :=
        (v_scope (pgView db))(sc_ID s \<mapsto> row\<lparr>sc_Status := sc_Status s, sc_ClosedSeq := sc_ClosedSeq s\<rparr>)\<rparr>"
    using lookupBy_replace [OF mem] row rid by (simp add: pgView_def db')
qed

lemma pgCreateToken_law:
  assumes "pgOK dg db" and "pgCreateToken t db = (Inr x, db')"
  shows "pgOK dg db'" and "v_token (pgView db) (tok_ID t) = None"
    and "pgView db' = (pgView db)\<lparr>v_token := (v_token (pgView db))(tok_ID t \<mapsto> t)\<rparr>"
proof -
  have new: "tok_ID t \<notin> tok_ID ` set (pg_tokens db)" "tok_CaseID t \<in> c_ID ` set (pg_cases db)"
    and db': "db' = db\<lparr>pg_tokens := pg_tokens db @ [t]\<rparr>"
    using assms(2) by (auto simp: pgCreateToken_def split: if_splits)
  show "pgOK dg db'" using assms(1) new by (auto simp: pgOK_def db')
  show "v_token (pgView db) (tok_ID t) = None" using new by (simp add: pgView_def lookupBy_None)
  show "pgView db' = (pgView db)\<lparr>v_token := (v_token (pgView db))(tok_ID t \<mapsto> t)\<rparr>"
    using lookupBy_snoc [OF new(1)] by (simp add: pgView_def db')
qed

lemma pgUpdateToken_law:
  assumes "pgOK dg db" and "pgUpdateToken t db = (Inr x, db')"
  shows "pgOK dg db'" and "\<exists>row. v_token (pgView db) (tok_ID t) = Some row \<and> pgView db' = (pgView db)\<lparr>v_token :=
        (v_token (pgView db))(tok_ID t \<mapsto> t\<lparr>tok_CaseID := tok_CaseID row, tok_ScopeID := tok_ScopeID row\<rparr>)\<rparr>"
proof -
  obtain row where row: "lookupBy tok_ID (tok_ID t) (pg_tokens db) = Some row"
    and db': "db' = db\<lparr>pg_tokens := replaceBy tok_ID (t\<lparr>tok_CaseID := tok_CaseID row, tok_ScopeID := tok_ScopeID row\<rparr>) (pg_tokens db)\<rparr>"
      (is "db' = db\<lparr>pg_tokens := replaceBy tok_ID ?row _\<rparr>")
    using assms(2) by (auto simp: pgUpdateToken_def Let_def split: option.splits if_splits)
  have rid: "row \<in> set (pg_tokens db)" "tok_ID row = tok_ID t" using lookupBy_Some_mem [OF row] by auto
  have mem: "tok_ID ?row \<in> tok_ID ` set (pg_tokens db)" using lookupBy_mem_image [OF row] rid(2) by simp
  show "pgOK dg db'" using assms(1) rid by (auto simp: pgOK_def db') (auto simp: replaceBy_def)
  show "\<exists>row. v_token (pgView db) (tok_ID t) = Some row \<and> pgView db' = (pgView db)\<lparr>v_token :=
        (v_token (pgView db))(tok_ID t \<mapsto> t\<lparr>tok_CaseID := tok_CaseID row, tok_ScopeID := tok_ScopeID row\<rparr>)\<rparr>"
    using lookupBy_replace [OF mem] row rid by (simp add: pgView_def db')
qed

lemma pgAppendEvent_law:
  assumes "pgOK (eventDigest sha js) db" and "pgAppendEvent (eventDigest sha js) ev db = (Inr ev', db')"
  shows "pgOK (eventDigest sha js) db'"
    and "\<forall>x \<in> set (v_events (pgView db)). \<not> (ev_CaseID x = ev_CaseID ev \<and> ev_Seq x = ev_Seq ev)"
    and "\<exists>row. sameEvent ev row \<and> pgView db' = (pgView db)\<lparr>v_events := v_events (pgView db) @ [row]\<rparr>"
proof -
  let ?dg = "eventDigest sha js"
  let ?row = "chainEvent ?dg db (storedEvent ev)"
  have db': "db' = db\<lparr>pg_events := pg_events db @ [?row]\<rparr>" and free: "\<not> seqTaken db ev" "\<not> joinedTwice db ev"
    and case': "ev_CaseID ev \<in> c_ID ` set (pg_cases db)"
    using assms(2) by (auto simp: pgAppendEvent_def Let_def split: if_splits)
  have same: "sameEvent ev ?row" by (simp add: sameEvent_def chainEvent_def storedEvent_def Let_def)
  have "eventsOK ?dg (c_ID ` set (pg_cases db)) (pg_events db @ [?row])"
  proof (rule eventsOK_snoc)
    show "eventsOK ?dg (c_ID ` set (pg_cases db)) (pg_events db)" using assms(1) by (simp add: pgOK_def)
    show "ev_CaseID ?row \<in> c_ID ` set (pg_cases db)" using same case' by (simp add: sameEvent_def)
    show "ev_Digest ?row = Some (?dg (ev_PrevDigest ?row) ?row)" by (simp add: chainEvent_def Let_def)
    show "ev_PrevDigest ?row = prevDigest (pg_events db) ?row"
      by (simp add: chainEvent_def Let_def prevDigest_def eventBefore_def)
    show "ev_ScopeID ?row \<notin> ev_ScopeID ` set (filter isJoined (pg_events db))" if "isJoined ?row"
      using that free(2) same by (auto simp: isJoined_def joinedTwice_def sameEvent_def)
  qed
  then show "pgOK ?dg db'" using assms(1) by (simp add: pgOK_def db')
  show "\<forall>x \<in> set (v_events (pgView db)). \<not> (ev_CaseID x = ev_CaseID ev \<and> ev_Seq x = ev_Seq ev)"
    using free by (auto simp: seqTaken_def pgView_def)
  from same show "\<exists>row. sameEvent ev row \<and> pgView db' = (pgView db)\<lparr>v_events := v_events (pgView db) @ [row]\<rparr>"
    by (intro exI [of _ ?row]) (simp add: pgView_def db')
qed

section \<open>The contract holds\<close>

interpretation pg: case_repository "pgRepository (eventDigest sha js)" "pgOK (eventDigest sha js)" pgView for sha js
proof
  fix db :: "'q tables" and u
  assume ok: "pgOK (eventDigest sha js) db"
  show "r_GetByID (pgRepository (eventDigest sha js)) u db =
      (case v_case (pgView db) u of None \<Rightarrow> Inl (Err ErrCaseNotFound) | Some c \<Rightarrow> Inr c)"
    by (simp add: pgRepository_def pgGetByID_def pgView_def)
  show "\<exists>ts. r_ListTokens (pgRepository (eventDigest sha js)) u db = Inr ts \<and> distinct (map tok_ID ts) \<and>
      set ts = {t. v_token (pgView db) (tok_ID t) = Some t \<and> tok_CaseID t = u}"
    using ok by (auto simp: pgRepository_def pgListTokens_def pgView_def pgOK_def sort_distinct distinct_map_filter lookupBy_iff)
  show "\<exists>ss. r_ListScopes (pgRepository (eventDigest sha js)) u db = Inr ss \<and> distinct (map sc_ID ss) \<and>
      set ss = {s. v_scope (pgView db) (sc_ID s) = Some s \<and> sc_CaseID s = u}"
    using ok by (auto simp: pgRepository_def pgListScopes_def pgView_def pgOK_def sort_distinct distinct_map_filter lookupBy_iff)
  show "c_ID c = u \<and> c_JoinResult c = None" if "v_case (pgView db) u = Some c" for c
    using that ok by (auto simp: pgView_def pgOK_def dest: lookupBy_Some_mem)
  show "tok_ID t = u \<and> v_case (pgView db) (tok_CaseID t) \<noteq> None" if "v_token (pgView db) u = Some t" for t
    using that ok by (auto simp: pgView_def pgOK_def lookupBy_None dest!: lookupBy_Some_mem)
  show "sc_ID s = u \<and> v_case (pgView db) (sc_CaseID s) \<noteq> None" if "v_scope (pgView db) u = Some s" for s
    using that ok by (auto simp: pgView_def pgOK_def lookupBy_None dest!: lookupBy_Some_mem)
  show "r_Update (pgRepository (eventDigest sha js)) c q db = (Inl (Err ErrConflict), db)"
    if "v_case (pgView db) (c_ID c) = Some row" "c_Revision row \<noteq> c_Revision c \<or> c_LastSeq row \<noteq> q" for c row q
    using that by (auto simp: pgRepository_def pgUpdate_def pgView_def)
next
  fix db :: "'q tables" and c c' db'
  assume ok: "pgOK (eventDigest sha js) db" and "r_Create (pgRepository (eventDigest sha js)) c db = (Inr c', db')"
  then have "pgCreate c db = (Inr c', db')" by (simp add: pgRepository_def)
  from pgCreate_law [OF ok this] show "pgOK (eventDigest sha js) db' \<and> v_case (pgView db) (c_ID c) = None \<and> c' = c\<lparr>c_Revision := 0\<rparr> \<and>
      pgView db' = (pgView db)\<lparr>v_case := (v_case (pgView db))(c_ID c \<mapsto> c'\<lparr>c_JoinResult := None\<rparr>)\<rparr>" by blast
next
  fix db :: "'q tables" and c q c' db'
  assume ok: "pgOK (eventDigest sha js) db" and "r_Update (pgRepository (eventDigest sha js)) c q db = (Inr c', db')"
  then have "pgUpdate c q db = (Inr c', db')" by (simp add: pgRepository_def)
  from pgUpdate_law [OF ok this] show "pgOK (eventDigest sha js) db' \<and> (\<exists>row. v_case (pgView db) (c_ID c) = Some row \<and> c_Revision row = c_Revision c \<and> c_LastSeq row = q) \<and>
      c' = c\<lparr>c_Revision := c_Revision c + 1\<rparr> \<and>
      pgView db' = (pgView db)\<lparr>v_case := (v_case (pgView db))(c_ID c \<mapsto> c'\<lparr>c_JoinResult := None\<rparr>)\<rparr>" by blast
next
  fix db :: "'q tables" and u c' db'
  assume ok: "pgOK (eventDigest sha js) db" and "r_AdvanceLastSeq (pgRepository (eventDigest sha js)) u db = (Inr c', db')"
  then have "pgAdvanceLastSeq u db = (Inr c', db')" by (simp add: pgRepository_def)
  from pgAdvance_law [OF ok this] show "pgOK (eventDigest sha js) db' \<and> (\<exists>row. v_case (pgView db) u = Some row \<and> c' = row\<lparr>c_LastSeq := c_LastSeq row + 1\<rparr> \<and>
      pgView db' = (pgView db)\<lparr>v_case := (v_case (pgView db))(u \<mapsto> c')\<rparr>)" by blast
next
  fix db :: "'q tables" and s x db'
  assume ok: "pgOK (eventDigest sha js) db" and "r_CreateScope (pgRepository (eventDigest sha js)) s db = (Inr x, db')"
  then have "pgCreateScope s db = (Inr x, db')" by (simp add: pgRepository_def)
  from pgCreateScope_law [OF ok this] show "pgOK (eventDigest sha js) db' \<and> v_scope (pgView db) (sc_ID s) = None \<and> pgView db' = (pgView db)\<lparr>v_scope := (v_scope (pgView db))(sc_ID s \<mapsto> s)\<rparr>" by blast
next
  fix db :: "'q tables" and s x db'
  assume ok: "pgOK (eventDigest sha js) db" and "r_UpdateScope (pgRepository (eventDigest sha js)) s db = (Inr x, db')"
  then have "pgUpdateScope s db = (Inr x, db')" by (simp add: pgRepository_def)
  from pgUpdateScope_law [OF ok this] show "pgOK (eventDigest sha js) db' \<and> (\<exists>row. v_scope (pgView db) (sc_ID s) = Some row \<and> pgView db' = (pgView db)\<lparr>v_scope :=
      (v_scope (pgView db))(sc_ID s \<mapsto> row\<lparr>sc_Status := sc_Status s, sc_ClosedSeq := sc_ClosedSeq s\<rparr>)\<rparr>)" by blast
next
  fix db :: "'q tables" and t x db'
  assume ok: "pgOK (eventDigest sha js) db" and "r_CreateToken (pgRepository (eventDigest sha js)) t db = (Inr x, db')"
  then have "pgCreateToken t db = (Inr x, db')" by (simp add: pgRepository_def)
  from pgCreateToken_law [OF ok this] show "pgOK (eventDigest sha js) db' \<and> v_token (pgView db) (tok_ID t) = None \<and> pgView db' = (pgView db)\<lparr>v_token := (v_token (pgView db))(tok_ID t \<mapsto> t)\<rparr>" by blast
next
  fix db :: "'q tables" and t x db'
  assume ok: "pgOK (eventDigest sha js) db" and "r_UpdateToken (pgRepository (eventDigest sha js)) t db = (Inr x, db')"
  then have "pgUpdateToken t db = (Inr x, db')" by (simp add: pgRepository_def)
  from pgUpdateToken_law [OF ok this] show "pgOK (eventDigest sha js) db' \<and> (\<exists>row. v_token (pgView db) (tok_ID t) = Some row \<and> pgView db' = (pgView db)\<lparr>v_token :=
      (v_token (pgView db))(tok_ID t \<mapsto> t\<lparr>tok_CaseID := tok_CaseID row, tok_ScopeID := tok_ScopeID row\<rparr>)\<rparr>)" by blast
next
  fix db :: "'q tables" and ev ev' db'
  assume ok: "pgOK (eventDigest sha js) db" and "r_AppendEvent (pgRepository (eventDigest sha js)) ev db = (Inr ev', db')"
  then have "pgAppendEvent (eventDigest sha js) ev db = (Inr ev', db')" by (simp add: pgRepository_def)
  from pgAppendEvent_law [OF ok this] show "pgOK (eventDigest sha js) db' \<and> (\<forall>x \<in> set (v_events (pgView db)). \<not> (ev_CaseID x = ev_CaseID ev \<and> ev_Seq x = ev_Seq ev)) \<and>
      (\<exists>row. sameEvent ev row \<and> pgView db' = (pgView db)\<lparr>v_events := v_events (pgView db) @ [row]\<rparr>)" by blast
qed

end
