(* ===== verification/Engine_System.thy ===== *)
theory Engine_System
  imports Pg_Laws
begin

text \<open>
  The engine on PostgreSQL as a transition system: one step is one call that commits, on any case,
  in any order, or anything that leaves the engine's tables alone (time passing, the consumer's own
  writes). A call that fails is rolled back with its transaction, so it is no step. What
  holds of the empty tables and is kept by every call holds of every store a running system can
  reach.
\<close>

section \<open>Runs of the system\<close>

text \<open>
  The configuration: the repository is the PostgreSQL one, every registered definition is valid
  and registered once per version, and the effect sink writes its own tables only.
\<close>

definition engineOK :: "(nat list \<Rightarrow> digest) \<Rightarrow> (Detail \<Rightarrow> string) \<Rightarrow> 'q tables engine \<Rightarrow> bool" where
  "engineOK sha js e \<longleftrightarrow> eng_repo e = pgRepository (eventDigest sha js) \<and> registryOK e \<and> latestOK e \<and>
     sinkKeeps e (pgOK (eventDigest sha js)) pgView"

definition emptyStore :: "time \<Rightarrow> 'q \<Rightarrow> 'q tables" where
  "emptyStore now rest = \<lparr>pg_cases = [], pg_scopes = [], pg_tokens = [], pg_events = [], pg_now = now, \<dots> = rest\<rparr>"

inductive engineStep :: "'q tables engine \<Rightarrow> 'q tables \<Rightarrow> 'q tables \<Rightarrow> bool" for e where
  opened: "freshCall cl (pgView db) \<Longrightarrow> OpenDetailed e cl i db = (Inr res, db') \<Longrightarrow> engineStep e db db'"
| moved: "freshCall cl (pgView db) \<Longrightarrow> MoveDetailed e cl mi db = (Inr res, db') \<Longrightarrow> engineStep e db db'"
| claimed: "freshCall cl (pgView db) \<Longrightarrow> ClaimWith e cl ci db = (Inr c, db') \<Longrightarrow> engineStep e db db'"
| released: "freshCall cl (pgView db) \<Longrightarrow> ReleaseWith e cl ri db = (Inr c, db') \<Longrightarrow> engineStep e db db'"
| reassigned: "freshCall cl (pgView db) \<Longrightarrow> Reassign e cl ra db = (Inr c, db') \<Longrightarrow> engineStep e db db'"
| deadline: "freshCall cl (pgView db) \<Longrightarrow> SetDeadline e cl si db = (Inr c, db') \<Longrightarrow> engineStep e db db'"
| expired: "freshCall cl (pgView db) \<Longrightarrow> Expire e cl xi db = (Inr res, db') \<Longrightarrow> engineStep e db db'"
| cancelled: "freshCall cl (pgView db) \<Longrightarrow> Cancel e cl ca db = (Inr c, db') \<Longrightarrow> engineStep e db db'"
| token_cancelled: "freshCall cl (pgView db) \<Longrightarrow> CancelToken e cl ct db = (Inr res, db') \<Longrightarrow> engineStep e db db'"
| failed: "RecordFailure e cl fi db = (Inr ev, db') \<Longrightarrow> engineStep e db db'"
| refreshed: "freshCall cl (pgView db) \<Longrightarrow> RefreshEligibility e cl u db = (Inr b, db') \<Longrightarrow> engineStep e db db'"
| outside: "pg_cases db' = pg_cases db \<Longrightarrow> pg_scopes db' = pg_scopes db \<Longrightarrow> pg_tokens db' = pg_tokens db \<Longrightarrow>
    pg_events db' = pg_events db \<Longrightarrow> engineStep e db db'"

abbreviation reachable :: "'q tables engine \<Rightarrow> 'q tables \<Rightarrow> bool" where
  "reachable e db \<equiv> \<exists>now rest. (engineStep e)\<^sup>*\<^sup>* (emptyStore now rest) db"

section \<open>The invariant\<close>

definition systemOK :: "(nat list \<Rightarrow> digest) \<Rightarrow> (Detail \<Rightarrow> string) \<Rightarrow> 'q tables engine \<Rightarrow> 'q tables \<Rightarrow> bool" where
  "systemOK sha js e db \<longleftrightarrow> pgOK (eventDigest sha js) db \<and> storeOK e (pgView db)"

lemma systemOK_empty: "systemOK sha js e (emptyStore now rest)"
  by (simp add: systemOK_def pgOK_def eventsOK_def emptyStore_def storeOK_def casesOK_def ledgerOK_def pgView_def)

lemma outside_same:
  assumes "pg_cases db' = pg_cases db" "pg_scopes db' = pg_scopes db" "pg_tokens db' = pg_tokens db" "pg_events db' = pg_events db"
  shows "pgOK dg db' = pgOK dg db" and "pgView db' = pgView db"
  using assms by (simp_all add: pgOK_def pgView_def)

lemma commit_systemOK:
  assumes conf: "engineOK sha js e" and ok: "systemOK sha js e db" and fresh: "freshCall cl (pgView db)"
    and run: "storedOK e cl db u \<Longrightarrow> commit e cl u db c db'"
  shows "systemOK sha js e db' \<and> (pgView db' = pgView db \<or> touches u (pgView db) (pgView db'))"
    and "pgGetByID u db' = Inr c"
proof -
  have repo: "eng_repo e = pgRepository (eventDigest sha js)" and sink: "sinkKeeps e (pgOK (eventDigest sha js)) pgView"
    using conf by (auto simp: engineOK_def)
  have wf: "pgOK (eventDigest sha js) db" and st: "storeOK e (pgView db)" using ok by (auto simp: systemOK_def)
  note c = pg.commit_storeOK [OF wf repo st fresh sink run]
  show "systemOK sha js e db' \<and> (pgView db' = pgView db \<or> touches u (pgView db) (pgView db'))"
    using c(1,2,4) by (simp add: systemOK_def)
  show "pgGetByID u db' = Inr c" using c(3) by (simp add: pgView_def pgGetByID_def)
qed

theorem engineStep_system:
  assumes conf: "engineOK sha js e" and step: "engineStep e db db'" and ok: "systemOK sha js e db"
  shows "systemOK sha js e db'" and "pgView db' = pgView db \<or> (\<exists>u. touches u (pgView db) (pgView db'))"
proof -
  have repo: "eng_repo e = pgRepository (eventDigest sha js)" and reg: "registryOK e" "latestOK e"
    and sink: "sinkKeeps e (pgOK (eventDigest sha js)) pgView"
    using conf by (auto simp: engineOK_def)
  have wf: "pgOK (eventDigest sha js) db" and st: "storeOK e (pgView db)" using ok by (auto simp: systemOK_def)
  note run = commit_systemOK(1) [OF conf ok]
  from step have "systemOK sha js e db' \<and> (pgView db' = pgView db \<or> (\<exists>u. touches u (pgView db) (pgView db')))"
  proof cases
    case (opened cl i res)
    from pg.open_storeOK [OF wf repo st opened(1) reg sink opened(2)] show ?thesis by (auto simp: systemOK_def)
  next
    case (moved cl i res)
    from run [OF moved(1) move_commit [OF _ moved(2)]] show ?thesis by blast
  next
    case (claimed cl i c)
    from run [OF claimed(1) claim_commit [OF _ claimed(2)]] show ?thesis by blast
  next
    case (released cl i c)
    from run [OF released(1) release_commit [OF _ released(2)]] show ?thesis by blast
  next
    case (reassigned cl i c)
    from run [OF reassigned(1) reassign_commit [OF _ reassigned(2)]] show ?thesis by blast
  next
    case (deadline cl i c)
    from run [OF deadline(1) setDeadline_commit [OF _ deadline(2)]] show ?thesis by blast
  next
    case (expired cl i res)
    from run [OF expired(1) expire_commit [OF _ expired(2)]] show ?thesis by blast
  next
    case (cancelled cl i c)
    from run [OF cancelled(1) cancel_commit [OF _ cancelled(2)]] show ?thesis by blast
  next
    case (token_cancelled cl i res)
    from run [OF token_cancelled(1) cancelToken_commit [OF _ token_cancelled(2)]] show ?thesis by blast
  next
    case (failed cl i ev)
    from pg.recordFailure_storeOK [OF wf repo st failed] show ?thesis by (auto simp: systemOK_def)
  next
    case (refreshed cl u b)
    have "storedOK e cl db u"
      by (rule pg.storedOK_of_casesOK [OF wf repo _ refreshed(1)]) (use st in \<open>simp add: storeOK_def\<close>)
    from refresh_commit [OF this refreshed(2)] obtain c where "commit e cl u db c db'" by blast
    from run [OF refreshed(1) this] show ?thesis by blast
  next
    case outside
    from outside_same [OF this] wf st show ?thesis by (simp add: systemOK_def)
  qed
  then show "systemOK sha js e db'" and "pgView db' = pgView db \<or> (\<exists>u. touches u (pgView db) (pgView db'))" by auto
qed

lemma steps_systemOK:
  assumes "engineOK sha js e" and "(engineStep e)\<^sup>*\<^sup>* db db'" and "systemOK sha js e db"
  shows "systemOK sha js e db'"
  using assms(2,3) by induction (use engineStep_system(1) [OF assms(1)] in auto)

theorem reachable_systemOK:
  assumes "engineOK sha js e" and "reachable e db"
  shows "systemOK sha js e db"
  using assms steps_systemOK [OF assms(1) _ systemOK_empty] by blast

section \<open>What a run leaves alone\<close>

text \<open>The history of the system only grows.\<close>

lemma step_events:
  assumes "engineOK sha js e" and "engineStep e db db'" and "systemOK sha js e db"
  shows "\<exists>rows. pg_events db' = pg_events db @ rows"
proof -
  have "\<exists>rows. v_events (pgView db') = v_events (pgView db) @ rows"
    using engineStep_system(2) [OF assms] by (auto simp: touches_def)
  then show ?thesis by (simp add: pgView_def)
qed

theorem steps_events:
  assumes conf: "engineOK sha js e" and "(engineStep e)\<^sup>*\<^sup>* db db'" and ok: "systemOK sha js e db"
  shows "\<exists>rows. pg_events db' = pg_events db @ rows"
  using assms(2)
proof induction
  case (step y z)
  from step_events [OF conf step.hyps(2) steps_systemOK [OF conf step.hyps(1) ok]] step.IH show ?case by auto
qed simp

text \<open>A case is left alone, or its revision or sequence moves forward.\<close>

lemma sameCase_refl: "sameCase v v u"
  by (simp add: sameCase_def)

lemma sameCase_trans: "sameCase v v' u \<Longrightarrow> sameCase v' v'' u \<Longrightarrow> sameCase v v'' u"
  by (simp add: sameCase_def)

lemma newer_trans: "newer c c' \<Longrightarrow> newer c' c'' \<Longrightarrow> newer c c''"
  by (auto simp: newer_def)

lemma step_case:
  assumes "engineOK sha js e" and "engineStep e db db'" and "systemOK sha js e db" and c: "v_case (pgView db) u = Some c"
  shows "sameCase (pgView db) (pgView db') u \<or> (\<exists>c'. v_case (pgView db') u = Some c' \<and> newer c c')"
proof -
  from engineStep_system(2) [OF assms(1-3)] consider "pgView db' = pgView db" | w where "touches w (pgView db) (pgView db')" by blast
  then show ?thesis
  proof cases
    case (2 w)
    then show ?thesis using c unfolding touches_def by (cases "u = w") blast+
  qed (simp add: sameCase_refl)
qed

theorem steps_case:
  assumes conf: "engineOK sha js e" and "(engineStep e)\<^sup>*\<^sup>* db db'" and ok: "systemOK sha js e db"
    and c: "v_case (pgView db) u = Some c"
  shows "sameCase (pgView db) (pgView db') u \<or> (\<exists>c'. v_case (pgView db') u = Some c' \<and> newer c c')"
  using assms(2)
proof induction
  case base
  show ?case by (simp add: sameCase_refl)
next
  case (step y z)
  note sy = steps_systemOK [OF conf step.hyps(1) ok]
  from step.IH show ?case
  proof
    assume same: "sameCase (pgView db) (pgView y) u"
    with c have "v_case (pgView y) u = Some c" by (simp add: sameCase_def)
    from step_case [OF conf step.hyps(2) sy this] same show ?thesis by (auto intro: sameCase_trans)
  next
    assume "\<exists>c'. v_case (pgView y) u = Some c' \<and> newer c c'"
    then obtain c' where c': "v_case (pgView y) u = Some c'" "newer c c'" by blast
    from step_case [OF conf step.hyps(2) sy c'(1)] c' show ?thesis by (auto simp: sameCase_def intro: newer_trans)
  qed
qed

text \<open>
  No lost update: a run planned on a state of a case that has changed since is refused with
  ErrConflict and writes nothing.
\<close>

theorem stale_plan:
  assumes conf: "engineOK sha js e" and ok: "systemOK sha js e db" and plan: "planned e cl db u r"
    and steps: "(engineStep e)\<^sup>*\<^sup>* db db'" and diff: "\<not> sameCase (pgView db) (pgView db') u"
  shows "persist e cl r db' = (Inl (Err ErrConflict), db')"
proof -
  have repo: "eng_repo e = pgRepository (eventDigest sha js)" using conf by (simp add: engineOK_def)
  have wf: "pgOK (eventDigest sha js) db" using ok by (simp add: systemOK_def)
  have wf': "pgOK (eventDigest sha js) db'" using steps_systemOK [OF conf steps ok] by (simp add: systemOK_def)
  obtain c where c: "v_case (pgView db) u = Some c" "c_ID c = u" "run_baseSeq r = c_LastSeq c" "keepsCase c (run_c r)"
    by (rule pg.planned_sync [OF wf repo plan]) (rule that)
  from steps_case [OF conf steps ok c(1)] diff obtain c' where c': "v_case (pgView db') u = Some c'" "newer c c'" by blast
  have w: "c_ID (writtenCase r) = u" "c_Revision (writtenCase r) = c_Revision c"
    using c(2,4) writtenCase_keeps [of r] by (simp_all add: keepsCase_def)
  have "r_Update (pgRepository (eventDigest sha js)) (writtenCase r) (run_baseSeq r) db' = (Inl (Err ErrConflict), db')"
    by (rule pg.conflict [OF wf', of _ c']) (use c' w c(3) in \<open>auto simp: newer_def\<close>)
  then show ?thesis by (simp add: persist_def Let_def bindA_def repo writtenCase_def)
qed

text \<open>A case that ended stays ended: later calls at most number one more event of it.\<close>

lemma step_ended:
  assumes "engineOK sha js e" and "engineStep e db db'" and "systemOK sha js e db" and c: "v_case (pgView db) u = Some c"
    and ended: "c_Status c \<noteq> StatusOpen"
  shows "\<exists>n. v_case (pgView db') u = Some (c\<lparr>c_LastSeq := n\<rparr>) \<and> tokensIn (pgView db') u = tokensIn (pgView db) u \<and>
    scopesIn (pgView db') u = scopesIn (pgView db) u"
proof -
  from engineStep_system(2) [OF assms(1-3)] consider "pgView db' = pgView db" | w where "touches w (pgView db) (pgView db')" by blast
  then show ?thesis
  proof cases
    case 1
    then show ?thesis using c by (auto intro: exI [of _ "c_LastSeq c"])
  next
    case (2 w)
    show ?thesis
    proof (cases "w = u")
      case True
      with 2 c ended obtain c' where "v_case (pgView db') u = Some c'" "c' = c\<lparr>c_LastSeq := c_LastSeq c'\<rparr>"
        "tokensIn (pgView db') u = tokensIn (pgView db) u" "scopesIn (pgView db') u = scopesIn (pgView db) u"
        unfolding touches_def by blast
      then show ?thesis by metis
    next
      case False
      with 2 have "sameCase (pgView db) (pgView db') u" by (simp add: touches_def)
      then show ?thesis using c by (auto simp: sameCase_def intro: exI [of _ "c_LastSeq c"])
    qed
  qed
qed

theorem steps_ended:
  assumes conf: "engineOK sha js e" and "(engineStep e)\<^sup>*\<^sup>* db db'" and ok: "systemOK sha js e db"
    and c: "v_case (pgView db) u = Some c" and ended: "c_Status c \<noteq> StatusOpen"
  shows "\<exists>n. v_case (pgView db') u = Some (c\<lparr>c_LastSeq := n\<rparr>) \<and> tokensIn (pgView db') u = tokensIn (pgView db) u \<and>
    scopesIn (pgView db') u = scopesIn (pgView db) u"
  using assms(2)
proof induction
  case base
  show ?case using c by (auto intro: exI [of _ "c_LastSeq c"])
next
  case (step y z)
  then obtain n where n: "v_case (pgView y) u = Some (c\<lparr>c_LastSeq := n\<rparr>)" "tokensIn (pgView y) u = tokensIn (pgView db) u"
    "scopesIn (pgView y) u = scopesIn (pgView db) u" by blast
  from step_ended [OF conf step.hyps(2) steps_systemOK [OF conf step.hyps(1) ok] n(1)] n(2,3) ended show ?case by auto
qed

section \<open>What it means for a caller\<close>

text \<open>An open case always has a token some actor can act on.\<close>

theorem system_never_stuck:
  assumes ok: "systemOK sha js e db" and c: "pgGetByID u db = Inr c" "c_Status c = StatusOpen"
    and d: "resolveDefinition e (c_Definition c) (c_Version c) = Inr d" and ts: "pgListTokens u db = Inr ts"
  shows "\<exists>t \<in> set ts. \<exists>n. tok_Status t = TokenActive \<and> Definition_Node d (tok_Node t) = Some n \<and>
    \<not> IsAutomatic (node_Kind n) \<and> TransitionsFrom d (tok_Node t) \<noteq> []"
proof -
  have wf: "pgOK (eventDigest sha js) db" and st: "casesOK e (pgView db)" using ok by (auto simp: systemOK_def storeOK_def)
  have vc: "v_case (pgView db) u = Some c" using c(1) by (auto simp: pgGetByID_def pgView_def split: option.splits)
  have ts': "distinct (map tok_ID ts)" "set ts = tokensIn (pgView db) u"
    using pg.list_tokens [OF wf, of u] ts by (auto simp: pgRepository_def tokensIn_def)
  from pg.list_scopes [OF wf, of u] obtain ss where "distinct (map sc_ID ss)" "set ss = scopesIn (pgView db) u"
    by (auto simp: scopesIn_def)
  with st vc d ts' have ok: "stateOK d c ss ts" by (simp add: casesOK_def)
  obtain t n where t: "t \<in> set ts" "tok_Status t = TokenActive" "Definition_Node d (tok_Node t) = Some n"
    "\<not> IsAutomatic (node_Kind n)" "\<not> node_Terminal n"
    by (rule stateOK_active [OF ok c(2)])
  have "n \<in> set (d_Nodes d)" "node_ID n = tok_Node t" using Definition_Node_Some [OF t(3)] by simp_all
  moreover have "Validate d = []" using ok by (simp add: stateOK_def)
  ultimately have "TransitionsFrom d (tok_Node t) \<noteq> []"
    using t(5) by (auto simp: Validate_wellFormed wellFormed_def routesOK_def Let_def)
  with t show ?thesis by blast
qed

text \<open>A case that closed or was cancelled has nothing left to do.\<close>

theorem system_ended_quiet:
  assumes ok: "systemOK sha js e db" and c: "pgGetByID u db = Inr c" "c_Status c \<noteq> StatusOpen"
    and d: "resolveDefinition e (c_Definition c) (c_Version c) = Inr d"
    and ts: "pgListTokens u db = Inr ts" and ss: "pgListScopes u db = Inr ss"
  shows "(\<forall>t \<in> set ts. \<not> Live (tok_Status t)) \<and> (\<forall>s \<in> set ss. sc_Status s \<noteq> ScopeOpen)"
proof -
  have wf: "pgOK (eventDigest sha js) db" and st: "casesOK e (pgView db)" using ok by (auto simp: systemOK_def storeOK_def)
  have vc: "v_case (pgView db) u = Some c" using c(1) by (auto simp: pgGetByID_def pgView_def split: option.splits)
  have ts': "distinct (map tok_ID ts)" "set ts = tokensIn (pgView db) u"
    using pg.list_tokens [OF wf, of u] ts by (auto simp: pgRepository_def tokensIn_def)
  have ss': "distinct (map sc_ID ss)" "set ss = scopesIn (pgView db) u"
    using pg.list_scopes [OF wf, of u] ss by (auto simp: pgRepository_def scopesIn_def)
  have "stateOK d c ss ts" using st vc d ts' ss' by (simp add: casesOK_def)
  from stateOK_ended [OF this c(2)] show ?thesis by (auto simp: openScope_def)
qed

section \<open>Histories\<close>

lemma sorted_upto_filter:
  assumes "map ev_Seq L = [1..n]"
  shows "sort_key ev_Seq L = L"
  using assms by (intro sort_key_id_if_sorted) simp

text \<open>The history of a case is complete and in order.\<close>

lemma system_caseEvents:
  assumes ok: "systemOK sha js e db" and c: "pgGetByID u db = Inr c"
  shows "caseEvents db u = filter (\<lambda>x. ev_CaseID x = u) (pg_events db)" and "map ev_Seq (caseEvents db u) = [1..c_LastSeq c]"
proof -
  have "v_case (pgView db) u = Some c" using c by (auto simp: pgGetByID_def pgView_def split: option.splits)
  then have seqs: "map ev_Seq (filter (\<lambda>x. ev_CaseID x = u) (pg_events db)) = [1..c_LastSeq c]"
    using ok by (auto simp: systemOK_def storeOK_def ledgerOK_def pgView_def)
  from sorted_upto_filter [OF this] show "caseEvents db u = filter (\<lambda>x. ev_CaseID x = u) (pg_events db)"
    by (simp add: caseEvents_def)
  with seqs show "map ev_Seq (caseEvents db u) = [1..c_LastSeq c]" by simp
qed

theorem system_history:
  assumes "systemOK sha js e db" and "pgGetByID u db = Inr c" and "pgListEvents u db = Inr evs"
  shows "map ev_Seq evs = [1..c_LastSeq c]"
  using system_caseEvents(2) [OF assms(1,2)] assms(3) by (auto simp: pgListEvents_def readEvent_def comp_def)

section \<open>The hash chain\<close>

definition linked :: "Event list \<Rightarrow> bool" where
  "linked L \<longleftrightarrow> (\<forall>k < length L. ev_PrevDigest (L ! k) = (if k = 0 then None else ev_Digest (L ! (k - 1))))"

lemma linked_snoc:
  "linked (L @ [x]) \<longleftrightarrow> linked L \<and> ev_PrevDigest x = (if L = [] then None else ev_Digest (last L))"
  by (auto simp: linked_def nth_append less_Suc_eq last_conv_nth)

lemma chain_linked:
  assumes "\<forall>i < length evs. ev_PrevDigest (evs ! i) = prevDigest (take i evs) (evs ! i)"
    and "map ev_Seq (filter (\<lambda>x. ev_CaseID x = u) evs) = [1..int n]"
  shows "linked (filter (\<lambda>x. ev_CaseID x = u) evs)"
  using assms
proof (induction evs arbitrary: n rule: rev_induct)
  case (snoc x evs)
  have chain: "\<forall>i < length evs. ev_PrevDigest (evs ! i) = prevDigest (take i evs) (evs ! i)"
  proof (intro allI impI)
    fix i assume "i < length evs"
    then show "ev_PrevDigest (evs ! i) = prevDigest (take i evs) (evs ! i)"
      using snoc.prems(1) [rule_format, of i] by (simp add: nth_append)
  qed
  have px: "ev_PrevDigest x = prevDigest evs x" using snoc.prems(1) [rule_format, of "length evs"] by simp
  let ?L = "filter (\<lambda>x. ev_CaseID x = u) evs"
  show ?case
  proof (cases "ev_CaseID x = u")
    case False
    with snoc.prems(2) snoc.IH [OF chain] show ?thesis by simp
  next
    case True
    with snoc.prems(2) have seqs: "map ev_Seq ?L @ [ev_Seq x] = [1..int n]" by simp
    have "length (map ev_Seq ?L @ [ev_Seq x]) = length [1..int n]" by (simp only: seqs)
    then have n: "n = Suc (length ?L)" by simp
    have "[1..int n] = [1..int (length ?L)] @ [int n]"
      using upto_append [of "int (length ?L)" 1] by (simp add: n add.commute)
    with seqs have L: "map ev_Seq ?L = [1..int (length ?L)]" and sx: "ev_Seq x = int (length ?L) + 1" by (simp_all add: n)
    have ih: "linked ?L" by (rule snoc.IH [OF chain L])
    have seqL: "ev_Seq (?L ! k) = int k + 1" if "k < length ?L" for k
      using arg_cong [OF L, of "\<lambda>l. l ! k"] that by simp
    have "prevDigest evs x = (if ?L = [] then None else ev_Digest (last ?L))"
    proof (cases "find (\<lambda>y. ev_CaseID y = ev_CaseID x \<and> ev_Seq y = ev_Seq x - 1) evs")
      case None
      then have no: "\<forall>y \<in> set ?L. ev_Seq y \<noteq> int (length ?L)" using True sx by (auto simp: find_None_iff)
      have "?L = []"
      proof (rule ccontr)
        assume ne: "?L \<noteq> []"
        then have "last ?L \<in> set ?L" by (rule last_in_set)
        moreover have "ev_Seq (last ?L) = int (length ?L)"
          using seqL [of "length ?L - 1"] ne by (cases "length ?L") (simp_all add: last_conv_nth)
        ultimately show False using no by blast
      qed
      with None show ?thesis by (simp add: prevDigest_def)
    next
      case (Some y)
      then have y: "y \<in> set ?L" "ev_Seq y = int (length ?L)" using True sx by (auto simp: find_Some_iff)
      then obtain k where k: "k < length ?L" "?L ! k = y" by (metis in_set_conv_nth)
      with seqL [OF k(1)] y(2) have "k = length ?L - 1" by simp
      moreover have ne: "?L \<noteq> []" using y(1) by (cases ?L) simp_all
      ultimately have "last ?L = y" using k(2) last_conv_nth [OF ne] by simp
      with Some ne show ?thesis by (simp add: prevDigest_def)
    qed
    with px ih True show ?thesis by (simp add: linked_snoc)
  qed
qed (simp add: linked_def)

lemma verifyLinks_ok:
  assumes "linked L" and "\<forall>x \<in> set L. ev_Digest x = Some (dg (ev_PrevDigest x) x)"
  shows "verifyLinks None False (map (digestLink dg) L) = None"
proof -
  have "verifyLinks (if k = 0 then None else ev_Digest (L ! (k - 1))) (0 < k) (map (digestLink dg) (drop k L)) = None"
    if "k \<le> length L" for k
    using that
  proof (induction "length L - k" arbitrary: k)
    case (Suc m)
    then have k: "k < length L" by simp
    have x: "ev_Digest (L ! k) = Some (dg (ev_PrevDigest (L ! k)) (L ! k))" using assms(2) k by simp
    have p: "ev_PrevDigest (L ! k) = (if k = 0 then None else ev_Digest (L ! (k - 1)))" using assms(1) k by (simp add: linked_def)
    have "verifyLinks (ev_Digest (L ! k)) True (map (digestLink dg) (drop (Suc k) L)) = None"
      using Suc.hyps(1) [of "Suc k"] Suc.hyps(2) k by simp
    then show ?case using x p by (simp add: Cons_nth_drop_Suc [OF k, symmetric] digestLink_def)
  qed simp
  from this [of 0] show ?thesis by simp
qed

text \<open>A history the engine wrote passes its own verification.\<close>

theorem system_chain:
  assumes conf: "engineOK sha js e" and ok: "systemOK sha js e db" and c: "pgGetByID u db = Inr c"
  shows "VerifyChain e db u = Inr ()"
proof -
  let ?dg = "eventDigest sha js" and ?L = "filter (\<lambda>x. ev_CaseID x = u) (pg_events db)"
  have repo: "eng_repo e = pgRepository ?dg" using conf by (simp add: engineOK_def)
  have ev: "eventsOK ?dg (c_ID ` set (pg_cases db)) (pg_events db)" using ok by (simp add: systemOK_def pgOK_def)
  note h = system_caseEvents [OF ok c]
  have "map ev_Seq ?L = [1..int (nat (c_LastSeq c))]" using h by (cases "0 \<le> c_LastSeq c") simp_all
  from chain_linked [OF _ this] ev have "linked ?L" by (simp add: eventsOK_def)
  then have "verifyLinks None False (map (digestLink ?dg) (caseEvents db u)) = None"
    unfolding h(1) by (rule verifyLinks_ok) (use ev in \<open>auto simp: eventsOK_def\<close>)
  then show ?thesis using c by (simp add: VerifyChain_def repo pgRepository_def pgListEventDigests_def)
qed

lemma distinct_filter_key: "distinct (map f xs) \<Longrightarrow> length (filter (\<lambda>x. f x = s) xs) \<le> 1"
proof (induction xs)
  case (Cons a xs)
  then show ?case by (cases "f a = s") (auto simp: filter_empty_conv intro: rev_image_eqI)
qed simp

text \<open>A split joins once.\<close>

theorem system_joined_once:
  assumes ok: "systemOK sha js e db" and s: "s \<noteq> uuidNil"
  shows "length (filter (\<lambda>x. ev_Kind x = EventJoined \<and> ev_ScopeID x = s) (pg_events db)) \<le> 1"
proof -
  have "distinct (map ev_ScopeID (filter isJoined (pg_events db)))" using ok by (simp add: systemOK_def pgOK_def eventsOK_def)
  then have "length (filter (\<lambda>x. ev_ScopeID x = s) (filter isJoined (pg_events db))) \<le> 1" by (rule distinct_filter_key)
  moreover have "filter (\<lambda>x. ev_ScopeID x = s) (filter isJoined (pg_events db)) =
      filter (\<lambda>x. ev_Kind x = EventJoined \<and> ev_ScopeID x = s) (pg_events db)"
    using s by (auto simp: isJoined_def intro: filter_cong)
  ultimately show ?thesis by simp
qed

section \<open>Persisting refines replacing the state of the case\<close>

text \<open>The abstract store: what it holds of one case. A call replaces that state and no other.\<close>

record caseState =
  cs_case :: "Case option"
  cs_tokens :: "Token set"
  cs_scopes :: "Scope set"
  cs_events :: "Event list"

definition stateOf :: "'q tables \<Rightarrow> uuid \<Rightarrow> caseState" where
  "stateOf db u = \<lparr>cs_case = v_case (pgView db) u, cs_tokens = tokensIn (pgView db) u,
     cs_scopes = scopesIn (pgView db) u, cs_events = eventsIn (pgView db) u\<rparr>"

definition applyRun :: "caseRun \<Rightarrow> Event list \<Rightarrow> caseState \<Rightarrow> caseState" where
  "applyRun r rows s =
     \<lparr>cs_case = Some ((writtenCase r)\<lparr>c_Revision := c_Revision (run_c r) + 1\<rparr>), cs_tokens = set (run_tokens r),
      cs_scopes = set (run_scopes r), cs_events = cs_events s @ rows\<rparr>"

theorem persist_refines:
  assumes conf: "engineOK sha js e" and ok: "systemOK sha js e db" and fresh: "freshCall cl (pgView db)"
    and plan: "planned e cl db u r" and inv: "caseInv cl r" and per: "persist e cl r db = (Inr (c, evs), db')"
  shows "\<exists>rows. stateOf db' u = applyRun r rows (stateOf db u) \<and>
      list_all2 (\<lambda>ev row. \<exists>n. sameEvent (stampEvent e cl n c ev) row) (run_events r) rows"
    and "\<forall>u'. u' \<noteq> u \<longrightarrow> stateOf db' u' = stateOf db u'"
proof -
  have repo: "eng_repo e = pgRepository (eventDigest sha js)" using conf by (simp add: engineOK_def)
  have wf: "pgOK (eventDigest sha js) db" and st: "storeOK e (pgView db)" using ok by (auto simp: systemOK_def)
  have dist: "distinct (map tok_ID (run_tokens r))" "distinct (map sc_ID (run_scopes r))"
    using runInv_distinct inv by (auto simp: caseInv_runInv)
  note ps = pg.persist_storeOK [OF wf repo st fresh plan inv per] and pv = pg.persist_view [OF wf repo plan dist per]
  obtain c0 where c0: "c_ID c0 = u" "keepsCase c0 (run_c r)"
    by (rule pg.planned_sync [OF wf repo plan]) (rule that)
  from pv(3) obtain rows where v': "v_events (pgView db') = v_events (pgView db) @ rows"
    and rows: "list_all2 (\<lambda>ev row. \<exists>n. sameEvent (stampEvent e cl n c ev) row) (run_events r) rows" by auto
  have id: "c_ID c = u" using pv(2) c0 by (simp add: keepsCase_def)
  have own: "\<forall>x \<in> set rows. ev_CaseID x = u"
    using rows id by (auto simp: list_all2_conv_all_nth in_set_conv_nth sameEvent_def)
  then have "filter (\<lambda>x. ev_CaseID x = u) rows = rows" "filter (\<lambda>x. ev_CaseID x = u') rows = []" if "u' \<noteq> u" for u'
    using that by (auto simp: filter_empty_conv)
  moreover have "filter (\<lambda>x. ev_CaseID x = u) rows = rows" using own by simp
  ultimately have ev: "eventsIn (pgView db') u = eventsIn (pgView db) u @ rows"
    "u' \<noteq> u \<Longrightarrow> eventsIn (pgView db') u' = eventsIn (pgView db) u'" for u' by (simp_all add: eventsIn_def v')
  show "\<exists>rows. stateOf db' u = applyRun r rows (stateOf db u) \<and>
      list_all2 (\<lambda>ev row. \<exists>n. sameEvent (stampEvent e cl n c ev) row) (run_events r) rows"
    using ps(3-5) ev(1) rows pv(2) by (intro exI [of _ rows]) (simp add: stateOf_def applyRun_def)
  show "\<forall>u'. u' \<noteq> u \<longrightarrow> stateOf db' u' = stateOf db u'" using ps(6) ev(2) by (simp add: stateOf_def)
qed

theorem move_refines:
  assumes conf: "engineOK sha js e" and ok: "systemOK sha js e db" and fresh: "freshCall cl (pgView db)"
    and run: "MoveDetailed e cl i db = (Inr res, db')"
  obtains d r rows where "movePlan e cl i db = Inr (d, r)" and "stateOf db' (mi_CaseID i) = applyRun r rows (stateOf db (mi_CaseID i))"
    and "list_all2 (\<lambda>ev row. \<exists>n. sameEvent (stampEvent e cl n (mr_Case res) ev) row) (run_events r) rows"
    and "\<forall>u'. u' \<noteq> mi_CaseID i \<longrightarrow> stateOf db' u' = stateOf db u'"
proof -
  from run obtain d r c evs db1 where plan: "movePlan e cl i db = Inr (d, r)" and per: "persist e cl r db = (Inr (c, evs), db1)"
    and dis: "dispatch e d c evs db1 = (Inr (), db')" and res: "mr_Case res = c"
    by (auto simp: MoveDetailed_def bindA_eq_Inr split: sum.splits)
  have repo: "eng_repo e = pgRepository (eventDigest sha js)" and sink: "sinkKeeps e (pgOK (eventDigest sha js)) pgView"
    using conf by (auto simp: engineOK_def)
  have wf: "pgOK (eventDigest sha js) db" and st: "storeOK e (pgView db)" using ok by (auto simp: systemOK_def)
  have stored: "storedOK e cl db (mi_CaseID i)"
    by (rule pg.storedOK_of_casesOK [OF wf repo _ fresh]) (use st in \<open>simp add: storeOK_def\<close>)
  note p = movePlan_planned [OF stored plan] movePlan_caseInv [OF stored plan]
  have "pgView db' = pgView db1"
    using sinkKeepsD [OF sink pg.persist_storeOK(1) [OF wf repo st fresh p per] dis] by blast
  then have same: "stateOf db' = stateOf db1" by (intro ext) (simp add: stateOf_def)
  from persist_refines [OF conf ok fresh p per] obtain rows where "stateOf db1 (mi_CaseID i) = applyRun r rows (stateOf db (mi_CaseID i))"
    "list_all2 (\<lambda>ev row. \<exists>n. sameEvent (stampEvent e cl n c ev) row) (run_events r) rows"
    "\<forall>u'. u' \<noteq> mi_CaseID i \<longrightarrow> stateOf db1 u' = stateOf db u'" by blast
  with that [OF plan, of rows] same res show thesis by simp
qed

end
