(* ===== verification/Queries.thy ===== *)
theory Queries
  imports Operations
begin

text \<open>
  The reads of the engine (workflow/queries.go, AvailableFor of workflow/move.go, Overdue of
  workflow/operations.go, JoinResults of workflow/joinpolicy.go and LastActorOf of
  workflow/assignrule.go).
\<close>

section \<open>Actions a token offers\<close>

text \<open>The loop over the candidates: a return whose target was not occupied, or a guard that
  rejects, drops the transition; a guard that fails aborts the call.\<close>

fun availableLoop :: "'db engine \<Rightarrow> 'db \<Rightarrow> string list \<Rightarrow> Case \<Rightarrow> Transition list \<Rightarrow> Transition list result" where
  "availableLoop e db occupied c [] = Inr []"
| "availableLoop e db occupied c (tr # trs) =
     (if tr_Return tr \<and> tr_To tr \<notin> set occupied then availableLoop e db occupied c trs
      else if tr_Guard tr = '''' then
        bindR (availableLoop e db occupied c trs) (\<lambda>out. Inr (tr # out))
      else bindR (evalGuard e db (tr_Guard tr) c) (\<lambda>ok.
           bindR (availableLoop e db occupied c trs) (\<lambda>out. Inr (if ok then tr # out else out))))"

definition AvailableFor :: "'db engine \<Rightarrow> 'db \<Rightarrow> uuid \<Rightarrow> uuid \<Rightarrow> Transition list result" where
  "AvailableFor e db caseID tokenID =
     bindR (r_GetByID (eng_repo e) caseID db) (\<lambda>c.
     if c_Status c \<noteq> StatusOpen \<and> tokenID = uuidNil then Inr []
     else bindR (resolveDefinition e (c_Definition c) (c_Version c)) (\<lambda>d.
          bindR (loadRun e db c d) (\<lambda>r.
          bindR (pick r tokenID) (\<lambda>tok.
          let candidates = TransitionsFrom d (tok_Node tok) in
          bindR (if hasReturnTransition candidates then occupiedStates e db caseID (tok_ScopeID tok)
                 else Inr []) (\<lambda>occupied.
          availableLoop e db occupied (snapshot r tok (tok_Node tok)) candidates)))))"

definition Available :: "'db engine \<Rightarrow> 'db \<Rightarrow> uuid \<Rightarrow> Transition list result" where
  "Available e db caseID = AvailableFor e db caseID uuidNil"

section \<open>History, work lists and eligibility\<close>

definition History :: "'db engine \<Rightarrow> 'db \<Rightarrow> uuid \<Rightarrow> Event list result" where
  "History e db caseID = bindR (listEvents e db caseID) (\<lambda>events. Inr (sort_key ev_Seq events))"

definition Inbox :: "'db engine \<Rightarrow> 'db \<Rightarrow> InboxFilter \<Rightarrow> WorkItem list result" where
  "Inbox e db f = r_ListWorkItems (eng_repo e) f db"

definition EligibilityForToken :: "'db engine \<Rightarrow> 'db \<Rightarrow> uuid \<Rightarrow> uuid \<Rightarrow> Eligibility result" where
  "EligibilityForToken e db caseID tokenID =
     bindR (r_GetByID (eng_repo e) caseID db) (\<lambda>c.
     bindR (resolveDefinition e (c_Definition c) (c_Version c)) (\<lambda>d.
     bindR (if c_Status c = StatusOpen \<or> tokenID \<noteq> uuidNil
            then bindR (loadRun e db c d) (\<lambda>r. bindR (pick r tokenID) (\<lambda>tok. Inr (tok_Node tok)))
            else Inr (c_State c)) (\<lambda>state.
     case Definition_Node d state of
       None \<Rightarrow> Inl (ErrText ''node not found in definition'')
     | Some node \<Rightarrow> Inr \<lparr>el_Position = el_Position (node_Eligible node),
                         el_Unit = ResolveUnit (node_Eligible node) (c_Unit c)\<rparr>)))"

definition EligibilityFor :: "'db engine \<Rightarrow> 'db \<Rightarrow> uuid \<Rightarrow> Eligibility result" where
  "EligibilityFor e db caseID = EligibilityForToken e db caseID uuidNil"

definition Tokens :: "'db engine \<Rightarrow> 'db \<Rightarrow> uuid \<Rightarrow> Token list result" where
  "Tokens e db caseID =
     bindR (r_GetByID (eng_repo e) caseID db) (\<lambda>c.
     bindR (resolveDefinition e (c_Definition c) (c_Version c)) (\<lambda>d.
     bindR (loadRun e db c d) (\<lambda>r. Inr (sortTokens (run_tokens r)))))"

definition Participated :: "'db engine \<Rightarrow> 'db \<Rightarrow> ParticipationFilter \<Rightarrow> Case list result" where
  "Participated e db f =
     bindR (requireR (pf_ActorID f \<noteq> '''') (Err ErrInvalidActor)) (\<lambda>_.
     bindR (page (pf_Limit f) (pf_Offset f)) (\<lambda>_.
     r_ListParticipated (eng_repo e) f db))"

text \<open>The zero time stands for the Go zero value of OverdueFilter.Before.\<close>

definition Overdue :: "'db engine \<Rightarrow> call \<Rightarrow> 'db \<Rightarrow> OverdueFilter \<Rightarrow> WorkItem list result" where
  "Overdue e cl db f =
     (let f = (if of_Before f = 0 then f\<lparr>of_Before := cl_now cl\<rparr> else f);
          f = f\<lparr>of_Limit := OverdueFilter_Page f\<rparr>
      in r_ListOverdue (eng_repo e) f db)"

section \<open>Join results\<close>

text \<open>Reading the cause of an event: a detail of another kind has the field or has none.\<close>

definition branchCause :: "Event \<Rightarrow> string result" where
  "branchCause evt =
     (case ev_Kind evt of
        EventMoved \<Rightarrow>
          (case ev_Detail evt of
             DetailMalformed m \<Rightarrow> Inl (ErrText ''decode detail'')
           | DetailAbsent \<Rightarrow> Inl (ErrText ''decode detail'')
           | DetailCause cause \<Rightarrow> Inr cause
           | _ \<Rightarrow> Inr '''')
      | EventTokenCancelled \<Rightarrow>
          (case ev_Detail evt of
             DetailMalformed m \<Rightarrow> Inl (ErrText ''decode detail'')
           | DetailAbsent \<Rightarrow> Inl (ErrText ''decode detail'')
           | DetailCancel reason \<Rightarrow> Inr reason
           | DetailAssignment ad \<Rightarrow> Inr (ad_Reason ad)
           | DetailDeadline dd \<Rightarrow> Inr (dd_Reason dd)
           | _ \<Rightarrow> Inr '''')
      | _ \<Rightarrow> Inr '''')"

definition joinDetail :: "Event \<Rightarrow> JoinDetail option result" where
  "joinDetail evt =
     (case ev_Detail evt of
        DetailMalformed m \<Rightarrow> Inl (ErrText ''decode detail'')
      | DetailAbsent \<Rightarrow> Inl (ErrText ''decode detail'')
      | DetailJoin d \<Rightarrow> Inr (if jd_Policy d = JoinPolicyNone then None else Some d)
      | _ \<Rightarrow> Inr None)"

definition eventAt :: "Event list \<Rightarrow> int \<Rightarrow> Event option" where
  "eventAt events seq = lookupBy ev_Seq seq (rev events)"

fun joinBranches :: "Event list \<Rightarrow> BranchResult list \<Rightarrow> JoinBranch list result" where
  "joinBranches events [] = Inr []"
| "joinBranches events (b # bs) =
     (case eventAt events (bres_Seq b) of
        None \<Rightarrow> Inl (ErrText ''joined event names a missing event'')
      | Some evt \<Rightarrow>
          bindR (branchCause evt) (\<lambda>cause.
          bindR (joinBranches events bs) (\<lambda>rest.
          Inr (\<lparr>jb_Result = b, jb_Actor = ev_Actor evt, jb_Comment = ev_Comment evt,
                jb_Cause = cause\<rparr> # rest))))"

fun joinRounds :: "Event list \<Rightarrow> Event list \<Rightarrow> JoinResult list result" where
  "joinRounds events [] = Inr []"
| "joinRounds events (evt # evts) =
     (if ev_Kind evt \<noteq> EventJoined then joinRounds events evts
      else bindR (joinDetail evt) (\<lambda>detail.
        case detail of
          None \<Rightarrow> joinRounds events evts
        | Some d \<Rightarrow>
            bindR (joinBranches events (jd_Branches d)) (\<lambda>branches.
            bindR (joinRounds events evts) (\<lambda>rest.
            Inr (\<lparr>jr_Scope = jd_Scope d, jr_JoinNode = jd_JoinNode d, jr_Policy = jd_Policy d,
                  jr_Verdict = jd_Verdict d, jr_Seq = ev_Seq evt, jr_Branches = branches\<rparr> # rest)))))"

definition JoinResults :: "'db engine \<Rightarrow> 'db \<Rightarrow> uuid \<Rightarrow> JoinResult list result" where
  "JoinResults e db caseID =
     bindR (r_GetByID (eng_repo e) caseID db) (\<lambda>_.
     bindR (listEvents e db caseID) (\<lambda>events.
     bindR (joinRounds events events) (\<lambda>results. Inr (sort_key jr_Seq results))))"

definition JoinRejected :: "'db guard" where
  "JoinRejected db c =
     Inr (case c_JoinResult c of None \<Rightarrow> False | Some r \<Rightarrow> jr_Verdict r = OutcomeRejected)"

section \<open>The last actor of a node\<close>

definition actsOn :: "string \<Rightarrow> Event \<Rightarrow> bool" where
  "actsOn node ev \<longleftrightarrow> ev_Kind ev = EventMoved \<and> ev_FromState ev = node \<and>
     ac_Kind (ev_Actor ev) \<noteq> ActorSystem \<and> ac_ID (ev_Actor ev) \<noteq> ''''"

fun lastActorLoop :: "string \<Rightarrow> Event list \<Rightarrow> string \<Rightarrow> int \<Rightarrow> string" where
  "lastActorLoop node [] actor latest = actor"
| "lastActorLoop node (ev # evs) actor latest =
     (if \<not> actsOn node ev then lastActorLoop node evs actor latest
      else if actor = '''' \<or> ev_Seq ev > latest
      then lastActorLoop node evs (ac_ID (ev_Actor ev)) (ev_Seq ev)
      else lastActorLoop node evs actor latest)"

definition LastActorOf :: "Event list \<Rightarrow> string \<Rightarrow> string" where
  "LastActorOf history node = lastActorLoop node history '''' 0"

section \<open>Lemmas\<close>

text \<open>LastActorOf is the actor of the acting event with the highest Seq.\<close>

lemma lastActorLoop_spec:
  assumes "actor \<noteq> ''''"
  shows "lastActorLoop node evs actor latest = actor \<and> (\<forall>ev \<in> set evs. actsOn node ev \<longrightarrow> ev_Seq ev \<le> latest) \<or>
    (\<exists>ev \<in> set evs. actsOn node ev \<and> lastActorLoop node evs actor latest = ac_ID (ev_Actor ev) \<and> latest < ev_Seq ev \<and>
       (\<forall>x \<in> set evs. actsOn node x \<longrightarrow> ev_Seq x \<le> ev_Seq ev))"
  using assms
proof (induction evs arbitrary: actor latest)
  case (Cons ev evs)
  show ?case
  proof (cases "actsOn node ev \<and> latest < ev_Seq ev")
    case True
    then have "ac_ID (ev_Actor ev) \<noteq> ''''" by (simp add: actsOn_def)
    from Cons.IH [OF this, of "ev_Seq ev"] True show ?thesis
      by (elim disjE bexE) (force, force)
  next
    case False
    with Cons.IH [OF Cons.prems, of latest] Cons.prems show ?thesis
      by (elim disjE bexE) (force, force)
  qed
qed simp

lemma LastActorOf_spec:
  "if \<exists>ev \<in> set history. actsOn node ev
   then \<exists>ev \<in> set history. actsOn node ev \<and> LastActorOf history node = ac_ID (ev_Actor ev) \<and>
          (\<forall>x \<in> set history. actsOn node x \<longrightarrow> ev_Seq x \<le> ev_Seq ev)
   else LastActorOf history node = ''''"
  unfolding LastActorOf_def
proof (induction history)
  case (Cons ev evs)
  show ?case
  proof (cases "actsOn node ev")
    case True
    then have id: "ac_ID (ev_Actor ev) \<noteq> ''''" by (simp add: actsOn_def)
    have "lastActorLoop node (ev # evs) '''' 0 = lastActorLoop node evs (ac_ID (ev_Actor ev)) (ev_Seq ev)"
      using True by simp
    with lastActorLoop_spec [OF id, of node evs "ev_Seq ev"] True show ?thesis
      by (elim disjE bexE) (force, force)
  qed (use Cons in auto)
qed simp

text \<open>AvailableFor offers exactly the transitions Move would let through its return and guard checks.\<close>

lemma availableLoop_Inr:
  assumes "availableLoop e db occupied c trs = Inr out"
  shows "out = filter (\<lambda>tr. (tr_Return tr \<longrightarrow> tr_To tr \<in> set occupied) \<and>
    (tr_Guard tr = '''' \<or> evalGuard e db (tr_Guard tr) c = Inr True)) trs"
  using assms
proof (induction trs arbitrary: out)
  case (Cons tr trs)
  then show ?case by (auto split: if_splits)
qed simp

end
