(* ===== verification/Scenario.thy ===== *)
theory Scenario
  imports Samples Engine_System Queries
begin

text \<open>
  A run of the engine on the PostgreSQL tables, evaluated step by step: the witnesses of the
  properties about stored cases use its stores. The hash is a stand-in that keeps the length.
\<close>

section \<open>The engine\<close>

definition sha0 :: "nat list \<Rightarrow> digest" where
  "sha0 b = [0]"

definition js0 :: "Detail \<Rightarrow> string" where
  "js0 d = (if d = DetailEmpty then ''{}'' else ''{.}'')"

definition sampleEngine :: "pgStore engine" where
  "sampleEngine =
     (New (pgRepository (eventDigest sha0 js0))
       \<lparr>cfg_TraceIDs = None, cfg_JoinCheck = None, cfg_Deadlines = None, cfg_Assignees = None\<rparr> None [reviewDef])
     \<lparr>eng_guards := [(''rejected'', JoinRejected)]\<rparr>"

lemma sha0_digest: "eventDigest sha0 js0 = (\<lambda>_ _. [0])"
  by (intro ext) (simp add: eventDigest_def sha0_def)

lemma sampleEngine_eq [code]:
  "sampleEngine =
     \<lparr>eng_repo = pgRepository (\<lambda>_ _. [0]), eng_traceIDs = None, eng_joinCheck = None,
      eng_deadlines = None, eng_assignees = None, eng_definitions = [(''review@1'', reviewDef)],
      eng_latest = [(''review'', reviewDef)], eng_guards = [(''rejected'', JoinRejected)], eng_effectSink = None\<rparr>"
proof -
  have "Key reviewDef = ''review@1''" "d_Name reviewDef = ''review''" "EffectNames reviewDef = []"
    "DeadlineRules reviewDef = []" "AssignRules reviewDef = []" by code_simp+
  then show ?thesis by (simp add: sampleEngine_def New_def Register_def reviewDef_valid checkEffects_def sha0_digest)
qed

declare route_unfold [code]

text \<open>Evaluation enters a continuation only once its argument is known.\<close>

lemma bindR_case [code_unfold]: "bindR m f = (case m of Inl err \<Rightarrow> Inl err | Inr x \<Rightarrow> f x)"
  by (cases m) simp_all

lemma bindA_case [code_unfold]: "bindA m f = (\<lambda>s. case m s of (Inl err, s') \<Rightarrow> (Inl err, s') | (Inr x, s') \<Rightarrow> f x s')"
  by (rule ext) (simp add: bindA_def)


text \<open>Calls draw from disjoint blocks of UUIDs.\<close>

definition sampleCall :: "time \<Rightarrow> nat \<Rightarrow> call" where
  "sampleCall now base = \<lparr>cl_now = now, cl_requestID = ''r'', cl_span = ''s'', cl_uuid = (\<lambda>k. base + k)\<rparr>"

definition ana :: Actor where
  "ana = humanActor ''ana''"

definition sampleOpen :: OpenInput where
  "sampleOpen = \<lparr>oi_Definition = ''review'', oi_Version = 0, oi_Domain = ''docs'', oi_ExternalID = ''7'',
     oi_Unit = ''u'', oi_Tenant = ''t'', oi_Actor = ana, oi_ActorID = ''''\<rparr>"

definition sampleMove :: "uuid \<Rightarrow> uuid \<Rightarrow> string \<Rightarrow> string \<Rightarrow> MoveInput" where
  "sampleMove u t a comment = \<lparr>mi_CaseID = u, mi_TokenID = t, mi_Action = a, mi_Actor = ana, mi_ActorID = '''',
     mi_Comment = comment, mi_Step = None, mi_ExpectedRevision = None\<rparr>"

definition committed :: "('e + 'a) \<times> 's \<Rightarrow> bool" where
  "committed p = (case fst p of Inl _ \<Rightarrow> False | Inr _ \<Rightarrow> True)"

lemma committedE:
  assumes "committed p" obtains x where "p = (Inr x, snd p)"
  using assms by (cases p; cases "fst p") (auto simp: committed_def)

section \<open>The run\<close>

text \<open>Open a case, submit it (it splits), finance approves, legal rejects (the round closes and goes back).\<close>

definition store0 :: pgStore where
  "store0 = emptyStore 0 ()"

definition open1 :: "(error + MoveResult) \<times> pgStore" where
  "open1 = OpenDetailed sampleEngine (sampleCall 10 100) sampleOpen store0"

definition store1 :: pgStore where
  "store1 = snd open1"

lemma store1_eq [code]:
  "store1 =
     \<lparr>pg_cases = [\<lparr>c_ID = 100, c_Definition = ''review'', c_Version = 1, c_Tenant = ''t'',
      c_Domain = ''docs'', c_ExternalID = ''7'', c_Unit = ''u'', c_State = ''d'', c_Status = StatusOpen,
      c_AssignedTo = [], c_OpenedAt = 10, c_ClosedAt = None, c_DeadlineAt = None, c_Revision = 0,
      c_LastSeq = 1, c_JoinResult = None\<rparr>], pg_scopes = [\<lparr>sc_ID = 100, sc_CaseID = 100, sc_ParentID = None,
      sc_SplitNode = [], sc_JoinNode = [], sc_Expected = 1, sc_Status = ScopeOpen, sc_OpenedSeq = 1,
      sc_ClosedSeq = 0\<rparr>], pg_tokens = [\<lparr>tok_ID = 100, tok_CaseID = 100, tok_ScopeID = 100, tok_Node = ''d'',
      tok_Status = TokenActive, tok_Eligible = zeroEligibility, tok_AssignedTo = [], tok_DeadlineAt = None,
      tok_ExpiredDeadline = None, tok_EnteredSeq = 1, tok_EnteredAt = 10, tok_EndedSeq = 0,
      tok_EndedAt = None, tok_Outcome = OutcomeNone\<rparr>], pg_events = [\<lparr>ev_ID = 101, ev_CaseID = 100,
      ev_Seq = 1, ev_Kind = EventOpened, ev_TokenID = 100, ev_ScopeID = 100, ev_FromState = [],
      ev_ToState = ''d'', ev_Action = [], ev_DeadlineAt = None, ev_Actor = \<lparr>ac_Kind = ActorHuman,
      ac_ID = ''ana'', ac_ActingAs = [], ac_OnBehalfOf = [], ac_Via = []\<rparr>, ev_ActorID = ''ana'',
      ev_Tenant = ''t'', ev_Comment = [], ev_OccurredAt = 10, ev_SchemaVersion = 5, ev_Detail = DetailEmpty,
      ev_RequestID = ''r'', ev_TraceID = [], ev_SpanID = [], ev_PrevDigest = None, ev_Digest = Some [0]\<rparr>],
      pg_now = 0\<rparr>"
  by code_simp

definition submit2 :: "(error + MoveResult) \<times> pgStore" where
  "submit2 = MoveDetailed sampleEngine (sampleCall 20 200) (sampleMove 100 uuidNil ''submit'' '''') store1"

definition store2 :: pgStore where
  "store2 = snd submit2"

lemma store2_eq [code]:
  "store2 =
     \<lparr>pg_cases = [\<lparr>c_ID = 100, c_Definition = ''review'', c_Version = 1, c_Tenant = ''t'',
      c_Domain = ''docs'', c_ExternalID = ''7'', c_Unit = ''u'', c_State = [], c_Status = StatusOpen,
      c_AssignedTo = [], c_OpenedAt = 10, c_ClosedAt = None, c_DeadlineAt = None, c_Revision = 1,
      c_LastSeq = 5, c_JoinResult = None\<rparr>], pg_scopes = [\<lparr>sc_ID = 100, sc_CaseID = 100, sc_ParentID = None,
      sc_SplitNode = [], sc_JoinNode = [], sc_Expected = 1, sc_Status = ScopeOpen, sc_OpenedSeq = 1,
      sc_ClosedSeq = 0\<rparr>, \<lparr>sc_ID = 200, sc_CaseID = 100, sc_ParentID = Some 100, sc_SplitNode = ''s'',
      sc_JoinNode = ''j'', sc_Expected = 2, sc_Status = ScopeOpen, sc_OpenedSeq = 3, sc_ClosedSeq = 0\<rparr>],
      pg_tokens = [\<lparr>tok_ID = 100, tok_CaseID = 100, tok_ScopeID = 100, tok_Node = ''s'',
      tok_Status = TokenConsumed, tok_Eligible = zeroEligibility, tok_AssignedTo = [],
      tok_DeadlineAt = None, tok_ExpiredDeadline = None, tok_EnteredSeq = 2, tok_EnteredAt = 20,
      tok_EndedSeq = 3, tok_EndedAt = Some 20, tok_Outcome = OutcomeNone\<rparr>, \<lparr>tok_ID = 201, tok_CaseID = 100,
      tok_ScopeID = 200, tok_Node = ''f'', tok_Status = TokenActive, tok_Eligible = zeroEligibility,
      tok_AssignedTo = [], tok_DeadlineAt = None, tok_ExpiredDeadline = None, tok_EnteredSeq = 4,
      tok_EnteredAt = 20, tok_EndedSeq = 0, tok_EndedAt = None, tok_Outcome = OutcomeNone\<rparr>, \<lparr>tok_ID = 202,
      tok_CaseID = 100, tok_ScopeID = 200, tok_Node = ''l'', tok_Status = TokenActive,
      tok_Eligible = zeroEligibility, tok_AssignedTo = [], tok_DeadlineAt = None,
      tok_ExpiredDeadline = None, tok_EnteredSeq = 5, tok_EnteredAt = 20, tok_EndedSeq = 0,
      tok_EndedAt = None, tok_Outcome = OutcomeNone\<rparr>], pg_events = [\<lparr>ev_ID = 101, ev_CaseID = 100,
      ev_Seq = 1, ev_Kind = EventOpened, ev_TokenID = 100, ev_ScopeID = 100, ev_FromState = [],
      ev_ToState = ''d'', ev_Action = [], ev_DeadlineAt = None, ev_Actor = \<lparr>ac_Kind = ActorHuman,
      ac_ID = ''ana'', ac_ActingAs = [], ac_OnBehalfOf = [], ac_Via = []\<rparr>, ev_ActorID = ''ana'',
      ev_Tenant = ''t'', ev_Comment = [], ev_OccurredAt = 10, ev_SchemaVersion = 5, ev_Detail = DetailEmpty,
      ev_RequestID = ''r'', ev_TraceID = [], ev_SpanID = [], ev_PrevDigest = None, ev_Digest = Some [0]\<rparr>,
      \<lparr>ev_ID = 203, ev_CaseID = 100, ev_Seq = 2, ev_Kind = EventMoved, ev_TokenID = 100, ev_ScopeID = 100,
      ev_FromState = ''d'', ev_ToState = ''s'', ev_Action = ''submit'', ev_DeadlineAt = None,
      ev_Actor = \<lparr>ac_Kind = ActorHuman, ac_ID = ''ana'', ac_ActingAs = [], ac_OnBehalfOf = [], ac_Via = []\<rparr>,
      ev_ActorID = ''ana'', ev_Tenant = ''t'', ev_Comment = [], ev_OccurredAt = 20, ev_SchemaVersion = 5,
      ev_Detail = DetailEmpty, ev_RequestID = ''r'', ev_TraceID = [], ev_SpanID = [],
      ev_PrevDigest = Some [0], ev_Digest = Some [0]\<rparr>, \<lparr>ev_ID = 204, ev_CaseID = 100, ev_Seq = 3,
      ev_Kind = EventSplit, ev_TokenID = 100, ev_ScopeID = 100, ev_FromState = ''s'', ev_ToState = ''s'',
      ev_Action = [], ev_DeadlineAt = None, ev_Actor = \<lparr>ac_Kind = ActorHuman, ac_ID = ''ana'',
      ac_ActingAs = [], ac_OnBehalfOf = [], ac_Via = []\<rparr>, ev_ActorID = ''ana'', ev_Tenant = ''t'',
      ev_Comment = [], ev_OccurredAt = 20, ev_SchemaVersion = 5, ev_Detail = DetailSplit \<lparr>sd_Scope = 200,
      sd_SplitNode = ''s'', sd_Tokens = [201, 202]\<rparr>, ev_RequestID = ''r'', ev_TraceID = [], ev_SpanID = [],
      ev_PrevDigest = Some [0], ev_Digest = Some [0]\<rparr>, \<lparr>ev_ID = 205, ev_CaseID = 100, ev_Seq = 4,
      ev_Kind = EventMoved, ev_TokenID = 201, ev_ScopeID = 200, ev_FromState = ''s'', ev_ToState = ''f'',
      ev_Action = ''fin'', ev_DeadlineAt = None, ev_Actor = \<lparr>ac_Kind = ActorHuman, ac_ID = ''ana'',
      ac_ActingAs = [], ac_OnBehalfOf = [], ac_Via = []\<rparr>, ev_ActorID = ''ana'', ev_Tenant = ''t'',
      ev_Comment = [], ev_OccurredAt = 20, ev_SchemaVersion = 5, ev_Detail = DetailEmpty,
      ev_RequestID = ''r'', ev_TraceID = [], ev_SpanID = [], ev_PrevDigest = Some [0],
      ev_Digest = Some [0]\<rparr>, \<lparr>ev_ID = 206, ev_CaseID = 100, ev_Seq = 5, ev_Kind = EventMoved,
      ev_TokenID = 202, ev_ScopeID = 200, ev_FromState = ''s'', ev_ToState = ''l'', ev_Action = ''leg'',
      ev_DeadlineAt = None, ev_Actor = \<lparr>ac_Kind = ActorHuman, ac_ID = ''ana'', ac_ActingAs = [],
      ac_OnBehalfOf = [], ac_Via = []\<rparr>, ev_ActorID = ''ana'', ev_Tenant = ''t'', ev_Comment = [],
      ev_OccurredAt = 20, ev_SchemaVersion = 5, ev_Detail = DetailEmpty, ev_RequestID = ''r'',
      ev_TraceID = [], ev_SpanID = [], ev_PrevDigest = Some [0], ev_Digest = Some [0]\<rparr>], pg_now = 0\<rparr>"
  by code_simp

definition approve3 :: "(error + MoveResult) \<times> pgStore" where
  "approve3 = MoveDetailed sampleEngine (sampleCall 30 300) (sampleMove 100 201 ''ok'' '''') store2"

definition store3 :: pgStore where
  "store3 = snd approve3"

definition reject4 :: "(error + MoveResult) \<times> pgStore" where
  "reject4 = MoveDetailed sampleEngine (sampleCall 40 400) (sampleMove 100 202 ''no'' ''why'') store3"

definition store4 :: pgStore where
  "store4 = snd reject4"

text \<open>Other continuations of store2: a claim and its release, a deadline that passes, a cancellation.\<close>

definition sampleClaim :: ClaimInput where
  "sampleClaim = \<lparr>ci_CaseID = 100, ci_TokenID = 201, ci_Actor = ana, ci_ExpectedRevision = None\<rparr>"

definition sampleRelease :: ReleaseInput where
  "sampleRelease = \<lparr>ri_CaseID = 100, ri_TokenID = 201, ri_Actor = ana, ri_Reason = '''', ri_ExpectedRevision = None\<rparr>"

definition sampleDeadline :: SetDeadlineInput where
  "sampleDeadline = \<lparr>si_CaseID = 100, si_TokenID = 201, si_DeadlineAt = Some 35, si_Actor = ana, si_Reason = ''late'',
     si_ExpectedRevision = None\<rparr>"

definition sampleExpire :: ExpireInput where
  "sampleExpire = \<lparr>xi_CaseID = 100, xi_TokenID = 201, xi_Actor = zeroActor\<lparr>ac_Kind := ActorSystem, ac_ID := ''sweeper''\<rparr>\<rparr>"

definition sampleCancel :: CancelInput where
  "sampleCancel = \<lparr>ca_CaseID = 100, ca_Actor = ana, ca_Reason = ''stop'', ca_ExpectedRevision = None\<rparr>"

definition claim3 :: "(error + Case) \<times> pgStore" where
  "claim3 = ClaimWith sampleEngine (sampleCall 30 300) sampleClaim store2"

definition release4 :: "(error + Case) \<times> pgStore" where
  "release4 = ReleaseWith sampleEngine (sampleCall 40 400) sampleRelease (snd claim3)"

definition deadline3 :: "(error + Case) \<times> pgStore" where
  "deadline3 = SetDeadline sampleEngine (sampleCall 30 300) sampleDeadline store2"

definition expire4 :: "(error + MoveResult) \<times> pgStore" where
  "expire4 = Expire sampleEngine (sampleCall 40 400) sampleExpire (snd deadline3)"

definition cancel3 :: "(error + Case) \<times> pgStore" where
  "cancel3 = Cancel sampleEngine (sampleCall 30 300) sampleCancel store2"

lemma other_commits: "committed claim3" "committed release4" "committed deadline3" "committed expire4" "committed cancel3"
  by code_simp+

lemma run_commits: "committed open1" "committed submit2" "committed approve3" "committed reject4"
  by code_simp+

section \<open>The run as a run of the system\<close>

lemma sample_resolve: "resolveDefinition sampleEngine ''review'' 1 = Inr reviewDef"
proof -
  have "showInt 1 = ''1''" by code_simp
  then show ?thesis by (simp add: resolveDefinition_def sampleEngine_eq)
qed

lemma sample_engineOK: "engineOK sha0 js0 sampleEngine"
proof -
  have "registryOK (New (pgRepository (eventDigest sha0 js0))
       \<lparr>cfg_TraceIDs = None, cfg_JoinCheck = None, cfg_Deadlines = None, cfg_Assignees = None\<rparr> None [reviewDef])"
    by (rule New_registryOK)
  then have "registryOK sampleEngine" by (simp add: registryOK_def sampleEngine_def)
  moreover have "Key reviewDef = ''review@1''" by code_simp
  then have "latestOK sampleEngine" by (simp add: latestOK_def sampleEngine_eq)
  moreover have "eng_repo sampleEngine = pgRepository (eventDigest sha0 js0)"
    by (simp add: sampleEngine_eq sha0_digest)
  moreover have "dispatch sampleEngine d c evs db = (Inr (), db)" for d c evs db
    by (simp add: dispatch_def sampleEngine_eq)
  then have "sinkKeeps sampleEngine (pgOK (eventDigest sha0 js0)) pgView" by (simp add: sinkKeeps_def)
  ultimately show ?thesis by (simp add: engineOK_def)
qed

definition idsBelow :: "nat \<Rightarrow> pgStore \<Rightarrow> bool" where
  "idsBelow n db \<longleftrightarrow> list_all (\<lambda>c. c_ID c < n) (pg_cases db) \<and> list_all (\<lambda>s. sc_ID s < n) (pg_scopes db) \<and>
     list_all (\<lambda>t. tok_ID t < n) (pg_tokens db)"

lemma lookupBy_below: "list_all (\<lambda>x. key x < n) xs \<Longrightarrow> lookupBy key (n + k) xs = None" for key :: "'a \<Rightarrow> nat"
  by (induction xs) (auto simp: lookupBy_def)

lemma freshCall_below: "idsBelow n db \<Longrightarrow> freshCall (sampleCall now n) (pgView db)"
  by (auto simp: freshCall_def idsBelow_def sampleCall_def pgView_def inj_def lookupBy_below)

lemma move_step:
  assumes "committed (MoveDetailed e (sampleCall now n) i db)" and "idsBelow n db"
  shows "engineStep e db (snd (MoveDetailed e (sampleCall now n) i db))"
  using assms by (elim committedE) (rule engineStep.moved [OF freshCall_below])

lemma other_ids: "idsBelow 400 (snd claim3)" "idsBelow 400 (snd deadline3)"
  by code_simp+

lemma ids_below: "idsBelow 100 store0" "idsBelow 200 store1" "idsBelow 300 store2" "idsBelow 400 store3"
  by code_simp+

lemma sample_steps: "engineStep sampleEngine store0 store1" "engineStep sampleEngine store1 store2"
  "engineStep sampleEngine store2 store3" "engineStep sampleEngine store3 store4"
proof -
  obtain res where "open1 = (Inr res, store1)" using run_commits(1) unfolding store1_def by (rule committedE)
  then show "engineStep sampleEngine store0 store1"
    unfolding open1_def by (rule engineStep.opened [OF freshCall_below [OF ids_below(1)]])
  show "engineStep sampleEngine store1 store2" "engineStep sampleEngine store2 store3" "engineStep sampleEngine store3 store4"
    using run_commits(2-4) ids_below(2-4) unfolding store2_def store3_def store4_def submit2_def approve3_def reject4_def
    by (auto intro: move_step)
qed

lemma sample_runs: "(engineStep sampleEngine)\<^sup>*\<^sup>* store1 store2" "(engineStep sampleEngine)\<^sup>*\<^sup>* store2 store3"
  using sample_steps by blast+

lemma sample_reachable: "reachable sampleEngine store1" "reachable sampleEngine store2" "reachable sampleEngine store4"
proof -
  show r1: "reachable sampleEngine store1" using sample_steps(1) unfolding store0_def by blast
  then show r2: "reachable sampleEngine store2" using sample_steps(2) by (meson rtranclp.rtrancl_into_rtrancl)
  then show "reachable sampleEngine store4" using sample_steps(3,4) by (meson rtranclp.rtrancl_into_rtrancl)
qed

lemma sample_deadline_reachable: "reachable sampleEngine (snd deadline3)"
proof -
  obtain c where "deadline3 = (Inr c, snd deadline3)" using other_commits(3) by (rule committedE)
  then have "engineStep sampleEngine store2 (snd deadline3)"
    unfolding deadline3_def by (rule engineStep.deadline [OF freshCall_below [OF ids_below(3)]])
  then show ?thesis using sample_reachable(2) by (meson rtranclp.rtrancl_into_rtrancl)
qed

lemma sample_cancel_reachable: "reachable sampleEngine (snd cancel3)"
proof -
  obtain c where "cancel3 = (Inr c, snd cancel3)" using other_commits(5) by (rule committedE)
  then have "engineStep sampleEngine store2 (snd cancel3)"
    unfolding cancel3_def by (rule engineStep.cancelled [OF freshCall_below [OF ids_below(3)]])
  then show ?thesis using sample_reachable(2) by (meson rtranclp.rtrancl_into_rtrancl)
qed

text \<open>The stored case of store2.\<close>

definition case2 :: Case where
  "case2 = projr (pgGetByID 100 store2)"

lemma sample_case2: "pgGetByID 100 store2 = Inr case2" "c_Status case2 = StatusOpen"
    "resolveDefinition sampleEngine (c_Definition case2) (c_Version case2) = Inr reviewDef"
proof -
  show "pgGetByID 100 store2 = Inr case2" "c_Status case2 = StatusOpen" by code_simp+
  have "c_Definition case2 = ''review''" "c_Version case2 = 1" by code_simp+
  then show "resolveDefinition sampleEngine (c_Definition case2) (c_Version case2) = Inr reviewDef" by (simp add: sample_resolve)
qed

lemma sample_fresh: "freshCall (sampleCall now 200) (pgView store1)" "freshCall (sampleCall now 300) (pgView store2)"
  by (rule freshCall_below, rule ids_below)+

lemma sample_systemOK: "systemOK sha0 js0 sampleEngine store1" "systemOK sha0 js0 sampleEngine store2"
  using reachable_systemOK [OF sample_engineOK] sample_reachable by blast+

end
