(* ===== verification/Operation_Facts.thy ===== *)
theory Operation_Facts
  imports Engine_System Queries
begin

text \<open>
  What each operation leaves for the next one, on the PostgreSQL tables: claims are exclusive and
  undone by a release, a deadline expires once, a cancelled case refuses everything, and the
  actions AvailableFor offers are the ones Move accepts.
\<close>

section \<open>Loading a token back\<close>

lemma pgGetByID_view: "pgGetByID u db = Inr c \<longleftrightarrow> v_case (pgView db) u = Some c"
  by (simp add: pgGetByID_def pgView_def split: option.splits)

lemma systemOK_wf: "systemOK sha js e db \<Longrightarrow> pgOK (eventDigest sha js) db"
  by (simp add: systemOK_def)

lemma engineOK_repo: "engineOK sha js e \<Longrightarrow> eng_repo e = pgRepository (eventDigest sha js)"
  by (simp add: engineOK_def)

text \<open>The token of a case under an ID, as the tables hold it.\<close>

definition tokenAt :: "'q tables \<Rightarrow> uuid \<Rightarrow> uuid \<Rightarrow> Token \<Rightarrow> bool" where
  "tokenAt db u tid t \<longleftrightarrow> lookupBy tok_ID tid (pg_tokens db) = Some t \<and> tok_ID t = tid \<and> tok_CaseID t = u"

lemma tokenAt_tokensIn: "t \<in> tokensIn (pgView db) u \<longleftrightarrow> tokenAt db u (tok_ID t) t"
  by (simp add: tokensIn_def pgView_def tokenAt_def)

definition filled :: "Definition \<Rightarrow> string \<Rightarrow> Token \<Rightarrow> Token" where
  "filled d unit t = (case fillToken d unit t of None \<Rightarrow> t | Some t' \<Rightarrow> t')"

lemma filled_eq: "\<exists>el. filled d unit t = t\<lparr>tok_Eligible := el\<rparr>"
proof (cases "fillToken d unit t")
  case None
  then have "filled d unit t = t\<lparr>tok_Eligible := tok_Eligible t\<rparr>" by (simp add: filled_def)
  then show ?thesis by blast
next
  case (Some t')
  then show ?thesis by (auto simp: filled_def fillToken_def split: if_splits option.splits)
qed

lemma filled_simps [simp]:
  "tok_ID (filled d unit t) = tok_ID t" "tok_Status (filled d unit t) = tok_Status t"
  "tok_AssignedTo (filled d unit t) = tok_AssignedTo t" "tok_DeadlineAt (filled d unit t) = tok_DeadlineAt t"
  "tok_ExpiredDeadline (filled d unit t) = tok_ExpiredDeadline t" "tok_CaseID (filled d unit t) = tok_CaseID t"
  "tok_ScopeID (filled d unit t) = tok_ScopeID t" "tok_Node (filled d unit t) = tok_Node t"
proof -
  obtain el where "filled d unit t = t\<lparr>tok_Eligible := el\<rparr>" using filled_eq by blast
  then show "tok_ID (filled d unit t) = tok_ID t" "tok_Status (filled d unit t) = tok_Status t"
    "tok_AssignedTo (filled d unit t) = tok_AssignedTo t" "tok_DeadlineAt (filled d unit t) = tok_DeadlineAt t"
    "tok_ExpiredDeadline (filled d unit t) = tok_ExpiredDeadline t" "tok_CaseID (filled d unit t) = tok_CaseID t"
    "tok_ScopeID (filled d unit t) = tok_ScopeID t" "tok_Node (filled d unit t) = tok_Node t"
    by simp_all
qed

lemma loadRun_pg:
  assumes conf: "engineOK sha js e" and ok: "systemOK sha js e db" and c: "pgGetByID u db = Inr c"
    and load: "loadRun e db c d = Inr r"
  shows "run_d r = d" and "run_c r = c" and "distinct (map tok_ID (run_tokens r))"
    and "set (run_tokens r) = filled d (c_Unit c) ` {t. tokenAt db u (tok_ID t) t}"
proof -
  have cid: "c_ID c = u" using pg.case_key [OF systemOK_wf [OF ok]] c by (auto simp: pgGetByID_view)
  obtain ts where ts: "r_ListTokens (eng_repo e) (c_ID c) db = Inr ts"
    and rt: "run_tokens r = map (\<lambda>t. case fillToken d (c_Unit c) t of None \<Rightarrow> t | Some t' \<Rightarrow> t') ts"
    and r: "run_d r = d" "run_c r = c"
    by (rule loadRun_Inr [OF load]) (rule that)
  from pg.list_tokens [OF systemOK_wf [OF ok], of u] ts
  have t: "distinct (map tok_ID ts)" "set ts = {t. tokenAt db u (tok_ID t) t}"
    by (auto simp: cid engineOK_repo [OF conf] pgView_def tokenAt_def)
  have eq: "run_tokens r = map (filled d (c_Unit c)) ts" unfolding rt filled_def ..
  show "run_d r = d" and "run_c r = c" by (rule r)+
  show "distinct (map tok_ID (run_tokens r))" using t(1) by (simp add: eq comp_def)
  show "set (run_tokens r) = filled d (c_Unit c) ` {t. tokenAt db u (tok_ID t) t}" by (simp add: eq t(2))
qed

lemma tokenAt_unique: "tokenAt db u tid t \<Longrightarrow> tokenAt db u' tid t' \<Longrightarrow> t' = t"
  by (simp add: tokenAt_def)

text \<open>An active token of a case is found by its ID, with its eligibility filled in.\<close>

lemma loadRun_ok:
  assumes conf: "engineOK sha js e" and ok: "systemOK sha js e db" and c: "pgGetByID u db = Inr c"
    and t: "tokenAt db u tid t"
  obtains r where "loadRun e db c d = Inr r"
proof -
  have cid: "c_ID c = u" using pg.case_key [OF systemOK_wf [OF ok]] c by (auto simp: pgGetByID_view)
  from pg.list_tokens [OF systemOK_wf [OF ok], of u] pg.list_scopes [OF systemOK_wf [OF ok], of u] obtain ts ss where
    ts: "r_ListTokens (eng_repo e) u db = Inr ts" "set ts = tokensIn (pgView db) u" and ss: "r_ListScopes (eng_repo e) u db = Inr ss"
    by (auto simp: engineOK_repo [OF conf] tokensIn_def)
  have "t \<in> set ts" using t by (simp add: ts(2) tokenAt_tokensIn tokenAt_def)
  then have "ts \<noteq> []" by auto
  then show thesis using that ts(1) ss by (simp add: loadRun_def cid)
qed

lemma pick_active:
  assumes "distinct (map tok_ID (run_tokens r))" and "t \<in> set (run_tokens r)" and "tok_Status t = TokenActive"
    and "tok_ID t \<noteq> uuidNil"
  shows "pick r (tok_ID t) = Inr t"
proof -
  have act: "set (active r) = {x \<in> set (run_tokens r). tok_Status x = TokenActive}" by (auto simp: active_def)
  have "inj_on tok_ID (set (run_tokens r))" using assms(1) by (simp add: distinct_map)
  moreover obtain x where x: "lookupBy tok_ID (tok_ID t) (active r) = Some x"
    using assms(2,3) act lookupBy_None [of tok_ID "tok_ID t" "active r"] by (cases "lookupBy tok_ID (tok_ID t) (active r)") auto
  moreover have "x \<in> set (run_tokens r) \<and> tok_ID x = tok_ID t" using lookupBy_Some_mem [OF x] act by auto
  ultimately have "x = t" using assms(2) by (auto dest: inj_onD)
  with x assms(4) show ?thesis by (simp add: pick_def)
qed

lemma load_active:
  assumes conf: "engineOK sha js e" and ok: "systemOK sha js e db" and c: "pgGetByID u db = Inr c"
    and d: "resolveDefinition e (c_Definition c) (c_Version c) = Inr d"
    and t: "tokenAt db u tid t" "tok_Status t = TokenActive" "tid \<noteq> uuidNil"
  obtains r where "loadRun e db c d = Inr r" and "pick r tid = Inr (filled d (c_Unit c) t)"
    and "loadToken e db c tid = Inr (r, filled d (c_Unit c) t)"
proof -
  obtain r where load: "loadRun e db c d = Inr r" using loadRun_ok [OF conf ok c t(1)] by metis
  note l = loadRun_pg [OF conf ok c load]
  have tid: "tok_ID t = tid" using t(1) by (simp add: tokenAt_def)
  have "filled d (c_Unit c) t \<in> set (run_tokens r)" using t(1) by (auto simp: l(4) tid)
  from pick_active [OF l(3) this] t(2,3) tid have "pick r tid = Inr (filled d (c_Unit c) t)" by simp
  with that load d show thesis by (simp add: loadToken_def)
qed

lemma loadToken_stored:
  assumes conf: "engineOK sha js e" and ok: "systemOK sha js e db" and c: "pgGetByID u db = Inr c"
    and load: "loadToken e db c tid = Inr (r, tok)"
  obtains d t where "resolveDefinition e (c_Definition c) (c_Version c) = Inr d" and "loadRun e db c d = Inr r"
    and "tokenAt db u (tok_ID tok) t" and "tok = filled d (c_Unit c) t" and "tok_Status t = TokenActive"
    and "tid \<noteq> uuidNil \<Longrightarrow> tok_ID tok = tid"
proof -
  from load obtain d where d: "resolveDefinition e (c_Definition c) (c_Version c) = Inr d" and l: "loadRun e db c d = Inr r"
    and p: "pick r tid = Inr tok" by (auto simp: loadToken_def)
  note q = pick_Inr [OF p] and lr = loadRun_pg [OF conf ok c l]
  from q(1) obtain t where "tokenAt db u (tok_ID t) t" "tok = filled d (c_Unit c) t" unfolding lr(4) by blast
  with that [OF d l, of t] q show thesis by simp
qed

section \<open>Claims\<close>

lemma resolveActor_ID: "resolveActor a '''' = Inr actor \<Longrightarrow> ac_ID actor = ac_ID a"
  by (auto simp: resolveActor_def Let_def split: if_splits)

text \<open>What persist leaves under the ID of an edited token.\<close>

lemma edit_stored:
  assumes conf: "engineOK sha js e" and ok: "systemOK sha js e db" and fresh: "freshCall cl (pgView db)"
    and plan: "planned e cl db u (editToken r t k det)" "caseInv cl (editToken r t k det)"
    and t: "tok_ID t \<in> tok_ID ` set (run_tokens r)"
    and per: "persist e cl (editToken r t k det) db = (Inr (c, evs), db')"
  shows "tokenAt db' u (tok_ID t) t"
proof -
  have st: "storeOK e (pgView db)" using ok by (simp add: systemOK_def)
  have "t \<in> set (run_tokens (editToken r t k det))"
    using t by (auto simp: editToken_def putToken_def replaceBy_def image_iff)
  then show ?thesis
    using pg.persist_storeOK(4) [OF systemOK_wf [OF ok] engineOK_repo [OF conf] st fresh plan per] by (simp add: tokenAt_tokensIn [symmetric])
qed

lemma stored_here:
  assumes conf: "engineOK sha js e" and ok: "systemOK sha js e db" and fresh: "freshCall cl (pgView db)"
  shows "storedOK e cl db u"
  by (rule pg.storedOK_of_casesOK [OF systemOK_wf [OF ok] engineOK_repo [OF conf] _ fresh])
    (use ok in \<open>simp add: systemOK_def storeOK_def\<close>)

lemma claim_stored:
  assumes conf: "engineOK sha js e" and ok: "systemOK sha js e db" and fresh: "freshCall cl (pgView db)"
    and run: "ClaimWith e cl i db = (Inr c, db')" and tid: "ci_TokenID i \<noteq> uuidNil"
  obtains t t' where "tokenAt db (ci_CaseID i) (ci_TokenID i) t" and "tok_Status t = TokenActive"
    and "tokenAt db' (ci_CaseID i) (ci_TokenID i) t'" and "tok_AssignedTo t' = ac_ID (ci_Actor i)"
    and "\<exists>el. t' = t\<lparr>tok_AssignedTo := ac_ID (ci_Actor i), tok_Eligible := el\<rparr>"
    and "tok_AssignedTo t = '''' \<or> tok_AssignedTo t = ac_ID (ci_Actor i)"
proof -
  let ?u = "ci_CaseID i"
  note stored = stored_here [OF conf ok fresh, of ?u]
  from run obtain c0 plan where pl: "claimPlan e cl i db = Inr (c0, plan)"
    and rest: "(case plan of None \<Rightarrow> returnA c0 | Some r \<Rightarrow> bindA (persist e cl r) (\<lambda>(c', _). returnA c')) db = (Inr c, db')"
    by (auto simp: ClaimWith_def split: sum.splits)
  from pl obtain actor r tok where actor: "resolveActor (ci_Actor i) '''' = Inr actor"
    and c0: "r_GetByID (eng_repo e) ?u db = Inr c0" and load: "loadToken e db c0 (ci_TokenID i) = Inr (r, tok)"
    and cases: "tok_AssignedTo tok = ac_ID actor \<and> plan = None \<or> tok_AssignedTo tok = '''' \<and>
        plan = Some (editToken (beginRun r (cl_now cl) actor) (tok\<lparr>tok_AssignedTo := ac_ID actor\<rparr>)
            EventAssigned (DetailAssignment \<lparr>ad_From = '''', ad_To = ac_ID actor, ad_Reason = ''''\<rparr>))"
    by (auto simp: claimPlan_def split: if_splits)
  note id = resolveActor_ID [OF actor]
  have c0': "pgGetByID ?u db = Inr c0" using c0 by (simp add: engineOK_repo [OF conf] pgRepository_def)
  obtain d t where t: "tokenAt db ?u (tok_ID tok) t" "tok = filled d (c_Unit c0) t" "tok_Status t = TokenActive"
      "tok_ID tok = ci_TokenID i" and lr: "loadRun e db c0 d = Inr r"
    by (rule loadToken_stored [OF conf ok c0' load]) (use tid that in blast)
  obtain el where el: "tok = t\<lparr>tok_Eligible := el\<rparr>" using filled_eq t(2) by blast
  from cases show thesis
  proof
    assume a: "tok_AssignedTo tok = ac_ID actor \<and> plan = None"
    then have "db' = db" using rest by simp
    moreover have "\<exists>el. t = t\<lparr>tok_AssignedTo := ac_ID (ci_Actor i), tok_Eligible := el\<rparr>"
      using a t(2) id by (intro exI [of _ "tok_Eligible t"]) simp
    ultimately show thesis using t a id by (intro that [of t t]) auto
  next
    assume a: "tok_AssignedTo tok = '''' \<and> plan = Some (editToken (beginRun r (cl_now cl) actor) (tok\<lparr>tok_AssignedTo := ac_ID actor\<rparr>)
            EventAssigned (DetailAssignment \<lparr>ad_From = '''', ad_To = ac_ID actor, ad_Reason = ''''\<rparr>))"
    then obtain evs where per: "persist e cl (editToken (beginRun r (cl_now cl) actor) (tok\<lparr>tok_AssignedTo := ac_ID actor\<rparr>)
            EventAssigned (DetailAssignment \<lparr>ad_From = '''', ad_To = ac_ID actor, ad_Reason = ''''\<rparr>)) db = (Inr (c, evs), db')"
      using rest by (auto simp: bindA_eq_Inr)
    have pl': "claimPlan e cl i db = Inr (c0, Some (editToken (beginRun r (cl_now cl) actor) (tok\<lparr>tok_AssignedTo := ac_ID actor\<rparr>)
            EventAssigned (DetailAssignment \<lparr>ad_From = '''', ad_To = ac_ID actor, ad_Reason = ''''\<rparr>)))" using pl a by simp
    have "tok \<in> set (run_tokens r)" using t(1,2,4) loadRun_pg(4) [OF conf ok c0' lr] by auto
    then have "tokenAt db' ?u (tok_ID (tok\<lparr>tok_AssignedTo := ac_ID actor\<rparr>)) (tok\<lparr>tok_AssignedTo := ac_ID actor\<rparr>)"
      by (intro edit_stored [OF conf ok fresh claimPlan_planned [OF stored pl'] claimPlan_caseInv [OF stored pl'] _ per]) (simp add: beginRun_def)
    then have "tokenAt db' ?u (ci_TokenID i) (tok\<lparr>tok_AssignedTo := ac_ID actor\<rparr>)" using t(4) by simp
    moreover have "\<exists>el. tok\<lparr>tok_AssignedTo := ac_ID actor\<rparr> = t\<lparr>tok_AssignedTo := ac_ID (ci_Actor i), tok_Eligible := el\<rparr>"
      using el id by (intro exI [of _ el]) simp
    ultimately show thesis using that [of t "tok\<lparr>tok_AssignedTo := ac_ID actor\<rparr>"] t a id by simp
  qed
qed

text \<open>The case that comes back from an edit is the loaded one, one revision on.\<close>

lemma persist_case:
  assumes conf: "engineOK sha js e" and ok: "systemOK sha js e db" and per: "persist e cl r db = (Inr (c, evs), db')"
  shows "c = (writtenCase r)\<lparr>c_Revision := c_Revision (writtenCase r) + 1\<rparr>"
proof -
  from per obtain db1 where "r_Update (pgRepository (eventDigest sha js)) (writtenCase r) (run_baseSeq r) db = (Inr c, db1)"
    by (auto simp: persist_def Let_def bindA_eq_Inr engineOK_repo [OF conf] writtenCase_def)
  with pg.update [OF systemOK_wf [OF ok]] show ?thesis by blast
qed

lemma edit_case:
  assumes "engineOK sha js e" and "systemOK sha js e db"
    and "persist e cl (editToken (beginRun r now a) t k det) db = (Inr (c, evs), db')"
  shows "c_Status c = c_Status (run_c r)" and "c_Definition c = c_Definition (run_c r)" and "c_Version c = c_Version (run_c r)"
proof -
  have "keepsCase (run_c r) (writtenCase (editToken (beginRun r now a) t k det))"
    using writtenCase_keeps [of "editToken (beginRun r now a) t k det"] by (simp add: editToken_def beginRun_def)
  then show "c_Status c = c_Status (run_c r)" and "c_Definition c = c_Definition (run_c r)" and "c_Version c = c_Version (run_c r)"
    using persist_case [OF assms] by (simp_all add: keepsCase_def writtenCase_def editToken_def beginRun_def)
qed

lemma claim_open:
  assumes conf: "engineOK sha js e" and ok: "systemOK sha js e db" and run: "ClaimWith e cl i db = (Inr c, db')"
  obtains d where "c_Status c = StatusOpen" and "resolveDefinition e (c_Definition c) (c_Version c) = Inr d"
proof -
  from run obtain c0 plan where pl: "claimPlan e cl i db = Inr (c0, plan)"
    and rest: "(case plan of None \<Rightarrow> returnA c0 | Some r \<Rightarrow> bindA (persist e cl r) (\<lambda>(c', _). returnA c')) db = (Inr c, db')"
    by (auto simp: ClaimWith_def split: sum.splits)
  from pl obtain actor r tok where load: "loadToken e db c0 (ci_TokenID i) = Inr (r, tok)" and st: "c_Status c0 = StatusOpen"
    and p: "plan = None \<or> plan = Some (editToken (beginRun r (cl_now cl) actor) (tok\<lparr>tok_AssignedTo := ac_ID actor\<rparr>)
            EventAssigned (DetailAssignment \<lparr>ad_From = '''', ad_To = ac_ID actor, ad_Reason = ''''\<rparr>))"
    by (auto simp: claimPlan_def checkOpen_def split: if_splits)
  from load obtain d where d: "resolveDefinition e (c_Definition c0) (c_Version c0) = Inr d" and l: "loadRun e db c0 d = Inr r"
    by (auto simp: loadToken_def)
  have rc: "run_c r = c0" by (rule loadRun_Inr [OF l])
  from p show thesis
  proof
    assume "plan = None"
    with rest that [of d] st d show thesis by simp
  next
    assume "plan = Some (editToken (beginRun r (cl_now cl) actor) (tok\<lparr>tok_AssignedTo := ac_ID actor\<rparr>)
            EventAssigned (DetailAssignment \<lparr>ad_From = '''', ad_To = ac_ID actor, ad_Reason = ''''\<rparr>))"
    with rest obtain evs where "persist e cl (editToken (beginRun r (cl_now cl) actor) (tok\<lparr>tok_AssignedTo := ac_ID actor\<rparr>)
            EventAssigned (DetailAssignment \<lparr>ad_From = '''', ad_To = ac_ID actor, ad_Reason = ''''\<rparr>)) db = (Inr (c, evs), db')"
      by (auto simp: bindA_eq_Inr)
    from edit_case [OF conf ok this] that [of d] st d rc show thesis by simp
  qed
qed

text \<open>Nobody else can claim a token that was claimed.\<close>

theorem claim_excludes:
  assumes conf: "engineOK sha js e" and ok: "systemOK sha js e db" and fresh: "freshCall cl (pgView db)"
    and run: "ClaimWith e cl i db = (Inr c, db')" and tid: "ci_TokenID i \<noteq> uuidNil"
    and other: "resolveActor actor' '''' = Inr a'" "ac_ID a' \<noteq> ''''" "ac_ID a' \<noteq> ac_ID (ci_Actor i)"
  shows "ClaimWith e cl' (i\<lparr>ci_Actor := actor', ci_ExpectedRevision := None\<rparr>) db' = (Inl (Err ErrAlreadyAssigned), db')"
proof -
  let ?u = "ci_CaseID i"
  note cm = commit_systemOK [OF conf ok fresh claim_commit [OF _ run]]
  have ok': "systemOK sha js e db'" and c: "pgGetByID ?u db' = Inr c" using cm by auto
  obtain t t' where t': "tokenAt db' ?u (ci_TokenID i) t'" "tok_AssignedTo t' = ac_ID (ci_Actor i)"
    and t: "tok_Status t = TokenActive" "\<exists>el. t' = t\<lparr>tok_AssignedTo := ac_ID (ci_Actor i), tok_Eligible := el\<rparr>"
    by (rule claim_stored [OF conf ok fresh run tid]) (rule that)
  have act: "tok_Status t' = TokenActive" using t by auto
  from run obtain actor where a: "resolveActor (ci_Actor i) '''' = Inr actor" "ac_ID actor \<noteq> ''''"
    by (auto simp: ClaimWith_def claimPlan_def split: sum.splits)
  obtain d where st: "c_Status c = StatusOpen" and d: "resolveDefinition e (c_Definition c) (c_Version c) = Inr d"
    by (rule claim_open [OF conf ok run])
  obtain r where l: "loadToken e db' c (ci_TokenID i) = Inr (r, filled d (c_Unit c) t')"
    by (rule load_active [OF conf ok' c d t'(1) act tid])
  have "ac_ID (ci_Actor i) \<noteq> ''''" using resolveActor_ID [OF a(1)] a(2) by simp
  then show ?thesis
    using l c st other t'(2)
    by (simp add: ClaimWith_def claimPlan_def bindA_def readA_def checkRevision_def checkOpen_def engineOK_repo [OF conf] pgRepository_def)
qed

text \<open>A release takes the assignment back and nothing else.\<close>

lemma release_stored:
  assumes conf: "engineOK sha js e" and ok: "systemOK sha js e db" and fresh: "freshCall cl (pgView db)"
    and run: "ReleaseWith e cl i db = (Inr c, db')" and tid: "ri_TokenID i \<noteq> uuidNil"
  obtains t t' where "tokenAt db (ri_CaseID i) (ri_TokenID i) t" and "tokenAt db' (ri_CaseID i) (ri_TokenID i) t'"
    and "\<exists>el. t' = t\<lparr>tok_AssignedTo := '''', tok_Eligible := el\<rparr>"
proof -
  let ?u = "ri_CaseID i"
  note stored = stored_here [OF conf ok fresh, of ?u]
  from run obtain r' evs where p: "releasePlan e cl i db = Inr r'" and per: "persist e cl r' db = (Inr (c, evs), db')"
    by (auto simp: ReleaseWith_def bindA_eq_Inr split: sum.splits)
  from p obtain actor c0 r tok where c0: "r_GetByID (eng_repo e) ?u db = Inr c0"
    and load: "loadToken e db c0 (ri_TokenID i) = Inr (r, tok)"
    and r': "r' = editToken (beginRun r (cl_now cl) actor) (tok\<lparr>tok_AssignedTo := ''''\<rparr>) EventUnassigned
       (DetailAssignment \<lparr>ad_From = tok_AssignedTo tok, ad_To = '''', ad_Reason = ri_Reason i\<rparr>)"
    by (auto simp: releasePlan_def)
  have c0': "pgGetByID ?u db = Inr c0" using c0 by (simp add: engineOK_repo [OF conf] pgRepository_def)
  obtain d t where t: "tokenAt db ?u (tok_ID tok) t" "tok = filled d (c_Unit c0) t" "tok_ID tok = ri_TokenID i"
    and lr: "loadRun e db c0 d = Inr r"
    by (rule loadToken_stored [OF conf ok c0' load]) (use tid that in blast)
  obtain el where el: "tok = t\<lparr>tok_Eligible := el\<rparr>" using filled_eq t(2) by blast
  have "tok \<in> set (run_tokens r)" using t loadRun_pg(4) [OF conf ok c0' lr] by auto
  then have "tokenAt db' ?u (tok_ID (tok\<lparr>tok_AssignedTo := ''''\<rparr>)) (tok\<lparr>tok_AssignedTo := ''''\<rparr>)"
    by (intro edit_stored [OF conf ok fresh releasePlan_planned [OF stored p [unfolded r']]
          releasePlan_caseInv [OF stored p [unfolded r']] _ per [unfolded r']]) (simp add: beginRun_def)
  moreover have "\<exists>el. tok\<lparr>tok_AssignedTo := ''''\<rparr> = t\<lparr>tok_AssignedTo := '''', tok_Eligible := el\<rparr>"
    using el by (intro exI [of _ el]) simp
  ultimately show thesis using that [of t "tok\<lparr>tok_AssignedTo := ''''\<rparr>"] t by simp
qed

theorem claim_release:
  assumes conf: "engineOK sha js e" and ok: "systemOK sha js e db" and fresh: "freshCall cl (pgView db)"
    and claim: "ClaimWith e cl i db = (Inr c, db1)" and tid: "ci_TokenID i \<noteq> uuidNil"
    and t: "lookupBy tok_ID (ci_TokenID i) (pg_tokens db) = Some t" "tok_AssignedTo t = ''''"
    and fresh1: "freshCall cl1 (pgView db1)"
    and rel: "ReleaseWith e cl1 j db1 = (Inr c1, db2)" "ri_CaseID j = ci_CaseID i" "ri_TokenID j = ci_TokenID i"
  shows "\<exists>el. lookupBy tok_ID (ci_TokenID i) (pg_tokens db2) = Some (t\<lparr>tok_Eligible := el\<rparr>)"
proof -
  have ok1: "systemOK sha js e db1" using commit_systemOK [OF conf ok fresh claim_commit [OF _ claim]] by auto
  obtain x x' where x: "tokenAt db (ci_CaseID i) (ci_TokenID i) x" "tokenAt db1 (ci_CaseID i) (ci_TokenID i) x'"
    "\<exists>el. x' = x\<lparr>tok_AssignedTo := ac_ID (ci_Actor i), tok_Eligible := el\<rparr>"
    by (rule claim_stored [OF conf ok fresh claim tid]) (rule that)
  obtain y y' where y: "tokenAt db1 (ri_CaseID j) (ri_TokenID j) y" "tokenAt db2 (ri_CaseID j) (ri_TokenID j) y'"
    "\<exists>el. y' = y\<lparr>tok_AssignedTo := '''', tok_Eligible := el\<rparr>"
    by (rule release_stored [OF conf ok1 fresh1 rel(1)]) (use tid rel(3) in simp, rule that)
  have xt: "x = t" using x(1) t(1) by (simp add: tokenAt_def)
  have yx: "y = x'" using tokenAt_unique [OF x(2) y(1) [unfolded rel(2,3)]] .
  from x(3) y(3) obtain el el' where "y' = (t\<lparr>tok_AssignedTo := ac_ID (ci_Actor i), tok_Eligible := el\<rparr>)\<lparr>tok_AssignedTo := '''', tok_Eligible := el'\<rparr>"
    unfolding xt yx by blast
  then have "y' = t\<lparr>tok_Eligible := el'\<rparr>" using t(2) by simp
  with y(2) rel(3) show ?thesis by (auto simp: tokenAt_def)
qed

section \<open>Deadlines\<close>

text \<open>A deadline with no transition of its own expires once: the next Expire is refused and the sweep no longer lists the token.\<close>

theorem expire_once:
  assumes conf: "engineOK sha js e" and ok: "systemOK sha js e db" and fresh: "freshCall cl (pgView db)"
    and run: "Expire e cl i db = (Inr res, db')" and tid: "xi_TokenID i \<noteq> uuidNil"
    and t: "lookupBy tok_ID (xi_TokenID i) (pg_tokens db) = Some t"
    and c: "pgGetByID (xi_CaseID i) db = Inr c" "resolveDefinition e (c_Definition c) (c_Version c) = Inr d"
    and stays: "\<forall>n. Definition_Node d (tok_Node t) = Some n \<longrightarrow> node_OnExpire n = ''''"
    and later: "cl_now cl \<le> cl_now cl'"
  shows "Expire e cl' i db' = (Inl (Err ErrAlreadyExpired), db')"
    and "\<forall>f w ws. pgListOverdue f db' = Inr ws \<longrightarrow> w \<in> set ws \<longrightarrow> tok_ID (wi_Token w) \<noteq> xi_TokenID i"
proof -
  let ?u = "xi_CaseID i"
  note stored = stored_here [OF conf ok fresh, of ?u]
  have get: "r_GetByID (eng_repo e) ?u db = pgGetByID ?u db" by (simp add: engineOK_repo [OF conf] pgRepository_def)
  from run obtain d1 r1 m cc evs db1 where plan: "expirePlan e cl i db = Inr (d1, r1, m)"
    and per: "persist e cl r1 db = (Inr (cc, evs), db1)"
    and dis: "(if m then dispatch e d1 cc evs else returnA ()) db1 = (Inr (), db')" and res: "mr_Case res = cc"
    by (auto simp: Expire_def bindA_eq_Inr split: sum.splits)
  from plan c get obtain actor r tok deadline taken where actor: "resolveActor (xi_Actor i) '''' = Inr actor" "ac_Kind actor = ActorSystem"
    and open0: "c_Status c = StatusOpen" and load: "loadRun e db c d = Inr r" and pick: "pick r (xi_TokenID i) = Inr tok"
    and dl: "tok_DeadlineAt tok = Some deadline" "deadline < cl_now cl" and ox: "onExpire e db r tok = Inr taken"
    and r1: "case taken of None \<Rightarrow> r1 = markExpired (beginRun r (cl_now cl) actor) tok deadline \<and> \<not> m
      | Some tr \<Rightarrow> expireRoute e cl db (markExpired (beginRun r (cl_now cl) actor) tok deadline) (tok_ID tok) tr = Inr r1"
    by (auto simp: expirePlan_def Let_def checkOpen_def split: option.splits)
  have lt: "loadToken e db c (xi_TokenID i) = Inr (r, tok)" using c(2) load pick by (simp add: loadToken_def)
  obtain t0 where t0: "tokenAt db ?u (tok_ID tok) t0" "tok = filled d (c_Unit c) t0" "tok_Status t0 = TokenActive" "tok_ID tok = xi_TokenID i"
    by (rule loadToken_stored [OF conf ok c(1) lt]) (use c(2) tid that in auto)
  then have t0t: "t0 = t" using t by (simp add: tokenAt_def)
  have rd: "run_d r = d" "run_c r = c" by (rule loadRun_pg [OF conf ok c(1) load])+
  have "taken = None" using ox stays t0(2) t0t by (auto simp: onExpire_def rd split: option.splits if_splits)
  with r1 have r1: "r1 = editToken (beginRun r (cl_now cl) actor) (tok\<lparr>tok_ExpiredDeadline := Some deadline\<rparr>) EventExpired (DetailExpiry deadline)"
    and "\<not> m" by (simp_all add: markExpired_def)
  then have db': "db' = db1" using dis by simp
  let ?t = "tok\<lparr>tok_ExpiredDeadline := Some deadline\<rparr>"
  have "tok \<in> set (run_tokens r)" using pick_Inr(1) [OF pick] .
  then have "tokenAt db' ?u (tok_ID ?t) ?t" unfolding db'
    by (intro edit_stored [OF conf ok fresh expirePlan_planned [OF stored plan, unfolded r1]
          expirePlan_caseInv [OF stored plan, unfolded r1] _ per [unfolded r1]]) (simp add: beginRun_def)
  then have at: "tokenAt db' ?u (xi_TokenID i) ?t" using t0(4) by simp
  note cm = commit_systemOK [OF conf ok fresh expire_commit [OF _ run]]
  have ok': "systemOK sha js e db'" and c': "pgGetByID ?u db' = Inr (mr_Case res)" using cm by auto
  note ec = edit_case [OF conf ok per [unfolded r1], unfolded rd(2) res [symmetric]]
  have d': "resolveDefinition e (c_Definition (mr_Case res)) (c_Version (mr_Case res)) = Inr d" using ec c(2) by simp
  obtain r' where l': "loadRun e db' (mr_Case res) d = Inr r'" and p': "pick r' (xi_TokenID i) = Inr (filled d (c_Unit (mr_Case res)) ?t)"
    by (rule load_active [OF conf ok' c' d' at _ tid]) (use t0 in auto)
  show "Expire e cl' i db' = (Inl (Err ErrAlreadyExpired), db')"
    using actor c' d' l' p' dl ec open0 later
    by (simp add: Expire_def expirePlan_def bindA_def readA_def checkOpen_def engineOK_repo [OF conf] pgRepository_def)
  show "\<forall>f w ws. pgListOverdue f db' = Inr ws \<longrightarrow> w \<in> set ws \<longrightarrow> tok_ID (wi_Token w) \<noteq> xi_TokenID i"
  proof (intro allI impI notI)
    fix f w ws assume "pgListOverdue f db' = Inr ws" and "w \<in> set ws" and w: "tok_ID (wi_Token w) = xi_TokenID i"
    then have "overdueMatch f w" and wt: "wi_Token w \<in> set (pg_tokens db')"
      by (auto simp: pgListOverdue_def window_def tokenRows_def dest!: in_set_takeD split: option.splits)
    moreover have "distinct (map tok_ID (pg_tokens db'))" using systemOK_wf [OF ok'] by (simp add: pgOK_def)
    then have "lookupBy tok_ID (xi_TokenID i) (pg_tokens db') = Some (wi_Token w)"
      using wt w lookupBy_iff [of tok_ID "pg_tokens db'" "xi_TokenID i" "wi_Token w"] by simp
    then have "wi_Token w = ?t" using at by (simp add: tokenAt_def)
    ultimately show False using dl(1) by (simp add: overdueMatch_def Let_def)
  qed
qed

section \<open>Cancelled cases\<close>

text \<open>Once a case is cancelled no call moves it, whatever happens in between.\<close>

theorem cancel_final:
  assumes conf: "engineOK sha js e" and ok: "systemOK sha js e db" and fresh: "freshCall cl (pgView db)"
    and run: "Cancel e cl i db = (Inr c, db1)" and steps: "(engineStep e)\<^sup>*\<^sup>* db1 db2"
    and mv: "mi_CaseID mi = ca_CaseID i" "resolveActor (mi_Actor mi) (mi_ActorID mi) = Inr actor" "mi_ExpectedRevision mi = None"
  shows "c_Status c = StatusCancelled" and "MoveDetailed e cl2 mi db2 = (Inl (Err ErrCaseClosed), db2)"
proof -
  let ?u = "ca_CaseID i"
  note cm = commit_systemOK [OF conf ok fresh cancel_commit [OF _ run]]
  have ok1: "systemOK sha js e db1" and c: "pgGetByID ?u db1 = Inr c" using cm by auto
  from run obtain r evs where p: "cancelPlan e cl i db = Inr r" and per: "persist e cl r db = (Inr (c, evs), db1)"
    by (auto simp: Cancel_def bindA_eq_Inr split: sum.splits)
  have "c_Status (run_c r) = StatusCancelled" using p by (auto simp: cancelPlan_def cancelCase_def Let_def)
  then show st: "c_Status c = StatusCancelled" using persist_case [OF conf ok per] by (simp add: writtenCase_def)
  from steps_ended [OF conf steps ok1, of ?u c] c st obtain n where "v_case (pgView db2) ?u = Some (c\<lparr>c_LastSeq := n\<rparr>)"
    by (auto simp: pgGetByID_view)
  then have "pgGetByID ?u db2 = Inr (c\<lparr>c_LastSeq := n\<rparr>)" by (simp add: pgGetByID_view)
  then show "MoveDetailed e cl2 mi db2 = (Inl (Err ErrCaseClosed), db2)"
    using mv st by (simp add: MoveDetailed_def movePlan_def bindA_def readA_def checkRevision_def checkOpen_def engineOK_repo [OF conf] pgRepository_def)
qed

section \<open>Offered actions\<close>

text \<open>An action Move accepts is one AvailableFor offers.\<close>

theorem move_available:
  assumes mv: "movePlan e cl i db = Inr (d, r')" and av: "AvailableFor e db (mi_CaseID i) (mi_TokenID i) = Inr out"
  shows "\<exists>tr \<in> set out. tr_Action tr = mi_Action i"
proof -
  from mv obtain c r tok tr where c: "r_GetByID (eng_repo e) (mi_CaseID i) db = Inr c" and st: "c_Status c = StatusOpen"
    and d: "resolveDefinition e (c_Definition c) (c_Version c) = Inr d" and load: "loadRun e db c d = Inr r"
    and pick: "pick r (mi_TokenID i) = Inr tok" and tr: "findTransition (TransitionsFrom d (tok_Node tok)) (mi_Action i) = Some tr"
    and ret: "checkReturn e db (mi_CaseID i) tok tr = Inr ()" and gd: "checkGuard e db r tok tr = Inr ()"
    by (auto simp: movePlan_def checkOpen_def split: option.splits)
  have mem: "tr \<in> set (TransitionsFrom d (tok_Node tok))" and act: "tr_Action tr = mi_Action i"
    using tr by (auto simp: findTransition_def find_Some_iff)
  from av c st d load pick obtain occupied where
    occ: "(if hasReturnTransition (TransitionsFrom d (tok_Node tok)) then occupiedStates e db (mi_CaseID i) (tok_ScopeID tok) else Inr []) = Inr occupied"
    and loop: "availableLoop e db occupied (snapshot r tok (tok_Node tok)) (TransitionsFrom d (tok_Node tok)) = Inr out"
    by (auto simp: AvailableFor_def Let_def)
  have "tr_Return tr \<longrightarrow> tr_To tr \<in> set occupied"
    using ret occ mem by (auto simp: checkReturn_def hasReturnTransition_def list_ex_iff split: if_splits)
  moreover have "tr_Guard tr = '''' \<or> evalGuard e db (tr_Guard tr) (snapshot r tok (tok_Node tok)) = Inr True"
    using gd by (auto simp: checkGuard_def split: if_splits)
  ultimately have "tr \<in> set out" using mem availableLoop_Inr [OF loop] by simp
  with act show ?thesis by blast
qed

lemma findTransition_unique:
  assumes "Validate d = []" and "tr \<in> set (TransitionsFrom d n)"
  shows "findTransition (TransitionsFrom d n) (tr_Action tr) = Some tr"
proof -
  have dist: "distinct (map (\<lambda>t. nulKey (tr_From t) (tr_Action t)) (d_Transitions d))"
    using assms(1) by (simp add: Validate_wellFormed wellFormed_def transitionsOK_def)
  have sub: "set (TransitionsFrom d n) = {t \<in> set (d_Transitions d). tr_From t = n}" by (auto simp: TransitionsFrom_def)
  obtain t where t: "find (\<lambda>t. tr_Action t = tr_Action tr) (TransitionsFrom d n) = Some t"
    using assms(2) by (cases "find (\<lambda>t. tr_Action t = tr_Action tr) (TransitionsFrom d n)") (auto simp: find_None_iff)
  then have "t \<in> set (TransitionsFrom d n)" "tr_Action t = tr_Action tr" by (auto simp: find_Some_iff)
  moreover have "inj_on (\<lambda>t. nulKey (tr_From t) (tr_Action t)) (set (d_Transitions d))" using dist by (simp add: distinct_map)
  ultimately have "t = tr" using assms(2) unfolding sub inj_on_def by auto
  with t show ?thesis by (simp add: findTransition_def)
qed

text \<open>An action AvailableFor offers is not refused for its transition, its return or its guard.\<close>

theorem available_move:
  assumes av: "AvailableFor e db (mi_CaseID i) (mi_TokenID i) = Inr out" and tr: "tr \<in> set out" "tr_Action tr = mi_Action i"
    and c: "r_GetByID (eng_repo e) (mi_CaseID i) db = Inr c" "c_Status c = StatusOpen" and reg: "registryOK e"
    and mv: "movePlan e cl i db = Inl err"
  shows "resolveActor (mi_Actor i) (mi_ActorID i) = Inl err \<or> checkRevision c (mi_ExpectedRevision i) = Inl err \<or>
    (\<exists>d. resolveDefinition e (c_Definition c) (c_Version c) = Inr d \<and> checkEffectDB e d db = Inl err) \<or>
    checkComment (tr_Comment tr) (trimSpace (mi_Comment i)) = Inl err \<or>
    (\<exists>r tid. route e cl db r tid tr (trimSpace (mi_Comment i)) 0 = Inl err)"
proof -
  from av c obtain d r tok occupied where
    d: "resolveDefinition e (c_Definition c) (c_Version c) = Inr d" and load: "loadRun e db c d = Inr r"
    and pick: "pick r (mi_TokenID i) = Inr tok"
    and occ: "(if hasReturnTransition (TransitionsFrom d (tok_Node tok)) then occupiedStates e db (mi_CaseID i) (tok_ScopeID tok) else Inr []) = Inr occupied"
    and loop: "availableLoop e db occupied (snapshot r tok (tok_Node tok)) (TransitionsFrom d (tok_Node tok)) = Inr out"
    by (auto simp: AvailableFor_def Let_def)
  have mem: "tr \<in> set (TransitionsFrom d (tok_Node tok))" and ret: "tr_Return tr \<longrightarrow> tr_To tr \<in> set occupied"
    and gd: "tr_Guard tr = '''' \<or> evalGuard e db (tr_Guard tr) (snapshot r tok (tok_Node tok)) = Inr True"
    using tr(1) availableLoop_Inr [OF loop] by auto
  have find: "findTransition (TransitionsFrom d (tok_Node tok)) (mi_Action i) = Some tr"
    using findTransition_unique [OF resolveDefinition_Inr(1) [OF reg d] mem] tr(2) by simp
  have "checkReturn e db (mi_CaseID i) tok tr = Inr ()"
    using ret occ mem by (auto simp: checkReturn_def hasReturnTransition_def list_ex_iff requireR_def split: if_splits)
  moreover have "checkGuard e db r tok tr = Inr ()" using gd by (auto simp: checkGuard_def requireR_def)
  ultimately have "resolveActor (mi_Actor i) (mi_ActorID i) = Inl err \<or> checkRevision c (mi_ExpectedRevision i) = Inl err \<or>
      checkEffectDB e d db = Inl err \<or> checkComment (tr_Comment tr) (trimSpace (mi_Comment i)) = Inl err \<or>
      (\<exists>actor. route e cl db (submitStep (beginRun r (cl_now cl) actor) tok i) (tok_ID tok) tr (trimSpace (mi_Comment i)) 0 = Inl err)"
    using mv by (simp add: movePlan_def checkOpen_def bindR_eq_Inl c d load pick find) blast
  then show ?thesis using d by blast
qed

end
