(* ===== verification/Work_Lists.thy ===== *)
theory Work_Lists
  imports Engine_System Queries
begin

text \<open>
  The work lists of a store the engine keeps: what Inbox and Overdue list, and that paging
  through Overdue with the cursor of the last item visits every overdue token once, in order.
\<close>

section \<open>Rows of the join\<close>

lemma tokenRows_mem:
  assumes "pgOK dg db"
  shows "w \<in> set (tokenRows db) \<longleftrightarrow> wi_Token w \<in> set (pg_tokens db) \<and>
    pgGetByID (tok_CaseID (wi_Token w)) db = Inr (wi_Case w)"
  unfolding tokenRows_def pgGetByID_def
  by (cases w) (auto split: option.splits intro!: bexI [of _ "wi_Token w"])

lemma tokenRows_tokens:
  assumes "pgOK dg db"
  shows "map wi_Token (tokenRows db) = pg_tokens db"
proof -
  have "concat (map (\<lambda>t. map wi_Token (case lookupBy c_ID (tok_CaseID t) (pg_cases db) of None \<Rightarrow> [] | Some c \<Rightarrow> [\<lparr>wi_Case = c, wi_Token = t\<rparr>])) ts) = ts"
    if "\<forall>t \<in> set ts. tok_CaseID t \<in> c_ID ` set (pg_cases db)" for ts
    using that by (induction ts) (auto simp: lookupBy_None split: option.split dest: sym)
  then show ?thesis using assms by (simp add: tokenRows_def map_concat comp_def pgOK_def)
qed

section \<open>The inbox\<close>

theorem inbox_lists:
  assumes ok: "pgOK dg db" and page: "page (if_Limit f) (if_Offset f) = Inr (limit, offset)"
  shows "\<exists>all. pgListWorkItems f db = Inr (take (nat limit) (drop (nat offset) all)) \<and> distinct (map (tok_ID \<circ> wi_Token) all) \<and>
    sorted (map (\<lambda>w. c_OpenedAt (wi_Case w)) all) \<and>
    (\<forall>w. w \<in> set all \<longleftrightarrow> wi_Token w \<in> set (pg_tokens db) \<and> pgGetByID (tok_CaseID (wi_Token w)) db = Inr (wi_Case w) \<and>
       inboxMatch (pg_now db) f w)"
proof -
  let ?key = "\<lambda>w. (c_OpenedAt (wi_Case w), c_ID (wi_Case w), tok_EnteredSeq (wi_Token w), tok_ID (wi_Token w))"
  let ?all = "sort_key ?key (filter (inboxMatch (pg_now db) f) (tokenRows db))"
  have "distinct (map tok_ID (pg_tokens db))" using ok by (simp add: pgOK_def)
  then have "distinct (map (tok_ID \<circ> wi_Token) (tokenRows db))"
    unfolding tokenRows_tokens [OF ok, symmetric] by (simp add: comp_def)
  then have "distinct (map (tok_ID \<circ> wi_Token) (filter (inboxMatch (pg_now db) f) (tokenRows db)))"
    by (rule distinct_map_filter)
  then have "distinct (map (tok_ID \<circ> wi_Token) ?all)" by (simp add: distinct_map)
  moreover have "sorted (map ?key ?all)" by simp
  then have "sorted (map (\<lambda>w. c_OpenedAt (wi_Case w)) ?all)"
    unfolding sorted_map by (rule sorted_wrt_mono_rel [rotated]) (auto simp: less_eq_prod_def)
  moreover have "pgListWorkItems f db = Inr (take (nat limit) (drop (nat offset) ?all))"
    using page by (simp add: pgListWorkItems_def window_def)
  moreover have "w \<in> set ?all \<longleftrightarrow> wi_Token w \<in> set (pg_tokens db) \<and> pgGetByID (tok_CaseID (wi_Token w)) db = Inr (wi_Case w) \<and>
       inboxMatch (pg_now db) f w" for w
    using tokenRows_mem [OF ok, of w] by auto
  ultimately show ?thesis by blast
qed

section \<open>Paging through the overdue tokens\<close>

definition overdueAll :: "OverdueFilter \<Rightarrow> 'q tables \<Rightarrow> WorkItem list" where
  "overdueAll f db = sort_key overdueKey (filter (overdueMatch f) (tokenRows db))"

lemma overdueAll_strict:
  assumes "pgOK dg db"
  shows "sorted_wrt (\<lambda>a b. overdueKey a < overdueKey b) (overdueAll f db)"
proof -
  have "distinct (map tok_ID (pg_tokens db))" using assms by (simp add: pgOK_def)
  then have "distinct (map (tok_ID \<circ> wi_Token) (tokenRows db))"
    unfolding tokenRows_tokens [OF assms, symmetric] by (simp add: comp_def)
  then have "distinct (map (tok_ID \<circ> wi_Token) (filter (overdueMatch f) (tokenRows db)))" by (rule distinct_map_filter)
  then have "distinct (map (snd \<circ> overdueKey) (overdueAll f db))"
    by (simp add: overdueAll_def distinct_map overdueKey_def comp_def)
  then have "distinct (map overdueKey (overdueAll f db))" by (metis distinct_map map_map)
  moreover have "sorted (map overdueKey (overdueAll f db))" by (simp add: overdueAll_def)
  ultimately have "sorted_wrt (<) (map overdueKey (overdueAll f db))" by (simp add: strict_sorted_iff)
  then show ?thesis by (simp add: sorted_wrt_map)
qed

lemma filter_after:
  assumes "sorted_wrt (\<lambda>a b. key a < (key b :: 'k :: linorder)) xs" and "k < length xs"
  shows "filter (\<lambda>x. key (xs ! k) < key x) xs = drop (Suc k) xs"
  using assms
proof (induction xs arbitrary: k)
  case (Cons x xs)
  show ?case
  proof (cases k)
    case 0
    with Cons.prems show ?thesis by (auto simp: filter_id_conv)
  next
    case (Suc j)
    then have "key x < key (xs ! j)" using Cons.prems by auto
    then have "\<not> key (xs ! j) < key x" by (rule less_not_sym)
    with Suc Cons show ?thesis by simp
  qed
qed simp

lemma overdueMatch_after:
  assumes w: "overdueMatch f w"
  shows "overdueMatch (f\<lparr>of_After := OverdueCursor_of w\<rparr>) x \<longleftrightarrow> overdueMatch f x \<and> overdueKey w < overdueKey x"
  using w by (auto simp: overdueMatch_def OverdueCursor_of_def overdueKey_def Let_def split: option.splits)

lemma overdueAll_after:
  assumes ok: "pgOK dg db" and k: "k < length (overdueAll f db)"
  shows "overdueAll (f\<lparr>of_After := OverdueCursor_of (overdueAll f db ! k)\<rparr>) db = drop (Suc k) (overdueAll f db)"
proof -
  let ?w = "overdueAll f db ! k"
  have "?w \<in> set (overdueAll f db)" using k by simp
  then have w: "overdueMatch f ?w" by (simp add: overdueAll_def)
  have "overdueMatch (f\<lparr>of_After := OverdueCursor_of ?w\<rparr>) = (\<lambda>x. overdueMatch f x \<and> overdueKey ?w < overdueKey x)"
    by (rule ext) (rule overdueMatch_after [OF w])
  then have "overdueAll (f\<lparr>of_After := OverdueCursor_of ?w\<rparr>) db =
      sort_key overdueKey (filter (\<lambda>x. overdueKey ?w < overdueKey x) (filter (overdueMatch f) (tokenRows db)))"
    by (simp add: overdueAll_def [of "f\<lparr>of_After := OverdueCursor_of ?w\<rparr>"] conj_commute)
  also have "\<dots> = filter (\<lambda>x. overdueKey ?w < overdueKey x) (overdueAll f db)"
    unfolding overdueAll_def [of f db] by (rule filter_sort [symmetric])
  also have "\<dots> = drop (Suc k) (overdueAll f db)" by (rule filter_after [OF overdueAll_strict [OF ok] k])
  finally show ?thesis .
qed

text \<open>The page after the one that ends in the item at position k continues right there.\<close>

theorem overdue_next_page:
  assumes ok: "pgOK dg db" and k: "k < length (overdueAll f db)"
  shows "pgListOverdue (f\<lparr>of_After := OverdueCursor_of (overdueAll f db ! k)\<rparr>) db =
    Inr (take (nat (OverdueFilter_Page f)) (drop (Suc k) (overdueAll f db)))"
  using overdueAll_after [OF ok k] by (simp add: pgListOverdue_def window_def OverdueFilter_Page_def overdueAll_def)

text \<open>The whole sweep: page after page until one comes back empty.\<close>

fun sweep :: "nat \<Rightarrow> OverdueFilter \<Rightarrow> 'q tables \<Rightarrow> WorkItem list result" where
  "sweep 0 f db = Inl (ErrText ''fuel'')"
| "sweep (Suc n) f db =
     bindR (pgListOverdue f db) (\<lambda>ws.
     if ws = [] then Inr []
     else bindR (sweep n (f\<lparr>of_After := OverdueCursor_of (last ws)\<rparr>) db) (\<lambda>rest. Inr (ws @ rest)))"

lemma OverdueFilter_Page_pos: "1 \<le> OverdueFilter_Page f \<and> OverdueFilter_Page f \<le> MaxListLimit"
  by (simp add: OverdueFilter_Page_def page_def MaxListOffset_def MaxListLimit_def DefaultListLimit_def)

theorem sweep_all:
  assumes ok: "pgOK dg db" and fuel: "length (overdueAll f db) < n"
  shows "sweep n f db = Inr (overdueAll f db)"
  using fuel
proof (induction n arbitrary: f)
  case (Suc n)
  let ?p = "nat (OverdueFilter_Page f)" and ?all = "overdueAll f db"
  have p: "0 < ?p" using OverdueFilter_Page_pos [of f] by simp
  have list: "pgListOverdue f db = Inr (take ?p ?all)" by (simp add: pgListOverdue_def window_def overdueAll_def)
  show ?case
  proof (cases "?all = []")
    case True
    with list show ?thesis by simp
  next
    case False
    let ?k = "length (take ?p ?all) - 1"
    have sk: "Suc ?k = min ?p (length ?all)" using False p by simp
    then have k: "?k < length ?all" by linarith
    have "take ?p ?all \<noteq> []" using False p by simp
    moreover have "?k < ?p" using sk by linarith
    ultimately have last: "last (take ?p ?all) = ?all ! ?k" using last_conv_nth nth_take by metis
    have rest: "overdueAll (f\<lparr>of_After := OverdueCursor_of (?all ! ?k)\<rparr>) db = drop (Suc ?k) ?all"
      by (rule overdueAll_after [OF ok k])
    have "sweep n (f\<lparr>of_After := OverdueCursor_of (last (take ?p ?all))\<rparr>) db = Inr (drop (Suc ?k) ?all)"
      unfolding last rest [symmetric]
    proof (rule Suc.IH)
      have "0 < length ?all" using False by simp
      moreover have "Suc ?k \<ge> 1" by simp
      ultimately have "length ?all - Suc ?k < n" using Suc.prems by linarith
      then show "length (overdueAll (f\<lparr>of_After := OverdueCursor_of (?all ! ?k)\<rparr>) db) < n" unfolding rest by simp
    qed
    moreover have "take ?p ?all @ drop (Suc ?k) ?all = ?all" using sk by (auto simp: min_def split: if_splits)
    ultimately show ?thesis using list False p by simp
  qed
qed simp

end
