(* ===== verification/Digest.thy ===== *)
theory Digest
  imports Pg_Store
begin

text \<open>
  What the digest chain proves (vogel_workflow_event_digest of the migrations and VerifyChain):
  the encoding of an event can be decoded field by field, so two histories that verify and end
  in the same digest have the same events, or the hash has a collision at hand.
\<close>

section \<open>Fixed-width integers\<close>

fun beVal :: "nat list \<Rightarrow> int" where
  "beVal [] = 0"
| "beVal (b # bs) = int b * 256 ^ length bs + beVal bs"

lemma beVal_snoc: "beVal (bs @ [b]) = beVal bs * 256 + int b"
  by (induction bs) (simp_all add: algebra_simps)

lemma length_bytesBE [simp]: "length (bytesBE n v) = n"
  by (induction n arbitrary: v) simp_all

lemma beVal_bytesBE: "beVal (bytesBE n v) = v mod 256 ^ n"
proof (induction n arbitrary: v)
  case (Suc n)
  have "beVal (bytesBE (Suc n) v) = (v div 256) mod 256 ^ n * 256 + v mod 256"
    using Suc by (simp add: beVal_snoc)
  also have "\<dots> = v mod (256 * 256 ^ n)"
    using zmod_zmult2_eq [of "256 ^ n" v 256] by simp
  finally show ?case by simp
qed simp

lemma bytesBE_eq: "bytesBE n v = bytesBE n w \<longleftrightarrow> v mod 256 ^ n = w mod 256 ^ n"
proof
  assume "bytesBE n v = bytesBE n w"
  then show "v mod 256 ^ n = w mod 256 ^ n" by (metis beVal_bytesBE)
next
  have "v mod 256 ^ n = w mod 256 ^ n \<Longrightarrow> bytesBE n v = bytesBE n w"
  proof (induction n arbitrary: v w)
    case (Suc n)
    have "(v div 256) mod 256 ^ n = (w div 256) mod 256 ^ n \<and> v mod 256 = w mod 256"
    proof -
      have a: "x mod 256 ^ Suc n = 256 * (x div 256 mod 256 ^ n) + x mod 256" for x :: int
        using zmod_zmult2_eq [of "256 ^ n" x 256] by simp
      have b: "k = k' \<and> r = r'" if "256 * k + r = 256 * k' + r'" "0 \<le> r" "r < 256" "0 \<le> r'" "r' < 256" for k k' r r' :: int
      proof -
        have "k = (256 * k + r) div 256" "k' = (256 * k' + r') div 256" using that by (simp_all add: div_add1_eq)
        then have "k = k'" using that(1) by simp
        with that(1) show ?thesis by simp
      qed
      have "256 * (v div 256 mod 256 ^ n) + v mod 256 = 256 * (w div 256 mod 256 ^ n) + w mod 256"
        using Suc.prems unfolding a .
      then show ?thesis by (rule b) simp_all
    qed
    then have "bytesBE n (v div 256) = bytesBE n (w div 256)" "v mod 256 = w mod 256" using Suc.IH by blast+
    then show ?case by (simp only: bytesBE.simps)
  qed simp
  then show "v mod 256 ^ n = w mod 256 ^ n \<Longrightarrow> bytesBE n v = bytesBE n w" .
qed

lemma int8send_inj:
  assumes "int8send v = int8send w" and "v \<in> {- (2 ^ 63)..<2 ^ 63}" and "w \<in> {- (2 ^ 63)..<2 ^ 63}"
  shows "v = w"
proof -
  have "v mod 2 ^ 64 = w mod 2 ^ 64" using assms(1) by (simp add: int8send_def bytesBE_eq)
  then have "(v + 2 ^ 63) mod 2 ^ 64 = (w + 2 ^ 63) mod 2 ^ 64" by (metis mod_add_left_eq)
  then show ?thesis using assms(2,3) by (simp add: mod_pos_pos_trivial)
qed

lemma textBytes_inj: "textBytes a = textBytes b \<longleftrightarrow> a = b"
proof -
  have "inj (of_char :: char \<Rightarrow> nat)" by (rule inj_of_char)
  then show ?thesis by (simp add: textBytes_def inj_map_eq_map)
qed

section \<open>Fields\<close>

text \<open>A column holds less than 2^63 bytes.\<close>

definition fieldOK :: "nat list option \<Rightarrow> bool" where
  "fieldOK b \<longleftrightarrow> (case b of None \<Rightarrow> True | Some x \<Rightarrow> length x < 2 ^ 63)"

lemma eventField_prefix_free:
  assumes eq: "eventField a @ xs = eventField b @ ys" and ok: "fieldOK a" "fieldOK b"
  shows "a = b \<and> xs = ys"
proof -
  define la lb where "la = (case a of None \<Rightarrow> -1 | Some x \<Rightarrow> int (length x))"
    and "lb = (case b of None \<Rightarrow> -1 | Some x \<Rightarrow> int (length x))"
  define ra rb where "ra = (case a of None \<Rightarrow> [] | Some x \<Rightarrow> x)" and "rb = (case b of None \<Rightarrow> [] | Some x \<Rightarrow> x)"
  have ea: "eventField a = int8send la @ ra" and eb: "eventField b = int8send lb @ rb"
    by (simp_all add: eventField_def la_def lb_def ra_def rb_def split: option.split)
  have len: "length (int8send la) = length (int8send lb)" by (simp add: int8send_def)
  from eq have "int8send la @ (ra @ xs) = int8send lb @ (rb @ ys)" by (simp add: ea eb)
  with len have l: "int8send la = int8send lb" and r: "ra @ xs = rb @ ys" by (simp_all add: append_eq_append_conv)
  have "la = lb"
    by (rule int8send_inj [OF l]) (use ok in \<open>auto simp: la_def lb_def fieldOK_def split: option.splits\<close>)
  then have "length ra = length rb" and none: "(a = None) = (b = None)"
    by (auto simp: la_def lb_def ra_def rb_def split: option.splits)
  with r have "ra = rb" "xs = ys" by (simp_all add: append_eq_append_conv)
  with none show ?thesis by (cases a; cases b) (simp_all add: ra_def rb_def)
qed

lemma eventFields_inj_concat:
  assumes "concat (map eventField fs) = concat (map eventField gs)" and "length fs = length gs"
    and "\<forall>f \<in> set fs. fieldOK f" and "\<forall>g \<in> set gs. fieldOK g"
  shows "fs = gs"
  using assms(2,1,3,4)
proof (induction fs gs rule: list_induct2)
  case (Cons f fs g gs)
  then have "eventField f @ concat (map eventField fs) = eventField g @ concat (map eventField gs)" by simp
  from eventField_prefix_free [OF this] Cons.prems Cons.IH show ?case by simp
qed simp

definition rowOK :: "(Detail \<Rightarrow> string) \<Rightarrow> Event \<Rightarrow> bool" where
  "rowOK js e \<longleftrightarrow> (\<forall>f \<in> set (eventFields js (ev_PrevDigest e) e). fieldOK f)"

lemma encodeEvent_inj:
  assumes "encodeEvent js p e = encodeEvent js p' e'"
    and "\<forall>f \<in> set (eventFields js p e). fieldOK f" and "\<forall>f \<in> set (eventFields js p' e'). fieldOK f"
  shows "eventFields js p e = eventFields js p' e'"
  using assms by (intro eventFields_inj_concat) (simp_all add: encodeEvent_def eventFields_def)

section \<open>Chains\<close>

definition rowFields :: "(Detail \<Rightarrow> string) \<Rightarrow> Event \<Rightarrow> nat list option list" where
  "rowFields js x = eventFields js (ev_PrevDigest x) x"

definition encodeRow :: "(Detail \<Rightarrow> string) \<Rightarrow> Event \<Rightarrow> nat list" where
  "encodeRow js x = encodeEvent js (ev_PrevDigest x) x"

text \<open>The digest a history ends in, as an auditor would keep it.\<close>

definition headDigest :: "Event list \<Rightarrow> digest" where
  "headDigest L = (if L = [] then [] else bytesOf (ev_Digest (last L)))"

lemma verifyLinks_append:
  "verifyLinks p ch (ls @ [l]) = None \<Longrightarrow> verifyLinks p ch ls = None"
  by (induction p ch ls rule: verifyLinks.induct) (auto split: if_splits)

text \<open>A verified history in which every row has a digest: each row hashes to its digest and names the one before.\<close>

lemma verifyLinks_last:
  assumes "verifyLinks p ch (map (digestLink (eventDigest sha js)) (L @ [x])) = None" and "\<forall>y \<in> set (L @ [x]). ev_Digest y \<noteq> None"
  shows "bytesOf (ev_Digest x) = sha (encodeRow js x) \<and>
    bytesOf (ev_PrevDigest x) = (if L = [] then bytesOf p else bytesOf (ev_Digest (last L)))"
  using assms
proof (induction L arbitrary: p ch)
  case (Cons y L)
  have "ed_Digest (digestLink (eventDigest sha js) y) = ev_Digest y" by (simp add: digestLink_def)
  with Cons.prems have "verifyLinks (ev_Digest y) True (map (digestLink (eventDigest sha js)) (L @ [x])) = None"
    by (auto split: if_splits)
  from Cons.IH [OF this] Cons.prems(2) show ?case by simp
qed (auto simp: digestLink_def encodeRow_def eventDigest_def bytesOf_def split: if_splits)

theorem chain_binds:
  assumes "verifyLinks None False (map (digestLink (eventDigest sha js)) L) = None"
    and "verifyLinks None False (map (digestLink (eventDigest sha js)) L') = None"
    and "\<forall>x \<in> set L. ev_Digest x \<noteq> None \<and> rowOK js x" and "\<forall>y \<in> set L'. ev_Digest y \<noteq> None \<and> rowOK js y"
    and sha: "\<forall>b. sha b \<noteq> []" and "headDigest L = headDigest L'"
    and inj: "\<forall>x \<in> set L. \<forall>y \<in> set L'. sha (encodeRow js x) = sha (encodeRow js y) \<longrightarrow> encodeRow js x = encodeRow js y"
  shows "map (rowFields js) L = map (rowFields js) L'"
  using assms(1-4,6,7)
proof (induction L arbitrary: L' rule: rev_induct)
  case Nil
  show ?case
  proof (cases L' rule: rev_cases)
    case (snoc M y)
    with verifyLinks_last [of None False sha js M y] Nil have "sha (encodeRow js y) = []" by (simp add: headDigest_def)
    with sha show ?thesis by blast
  qed simp
next
  case (snoc x M)
  note x = verifyLinks_last [OF snoc.prems(1)]
  show ?case
  proof (cases L' rule: rev_cases)
    case Nil
    with x snoc.prems have "sha (encodeRow js x) = []" by (simp add: headDigest_def)
    with sha show ?thesis by blast
  next
    case L': (snoc M' y)
    note y = verifyLinks_last [OF snoc.prems(2) [unfolded L']]
    have "sha (encodeRow js x) = sha (encodeRow js y)" using x y snoc.prems by (simp add: L' headDigest_def)
    then have "encodeRow js x = encodeRow js y" using snoc.prems(6) by (simp add: L')
    then have f: "rowFields js x = rowFields js y"
      unfolding encodeRow_def rowFields_def using snoc.prems(3,4) by (intro encodeEvent_inj) (simp_all add: rowOK_def L')
    then have "ev_PrevDigest x = ev_PrevDigest y" by (simp add: rowFields_def eventFields_def)
    then have "headDigest M = headDigest M'" using x y snoc.prems(3,4) by (simp add: headDigest_def L' bytesOf_def split: if_splits)
    moreover have "verifyLinks None False (map (digestLink (eventDigest sha js)) M) = None"
      "verifyLinks None False (map (digestLink (eventDigest sha js)) M') = None"
      using snoc.prems(1,2) L' by (auto intro: verifyLinks_append)
    ultimately have "map (rowFields js) M = map (rowFields js) M'"
      by (intro snoc.IH) (use snoc.prems L' in auto)
    with f show ?thesis by (simp add: L')
  qed
qed

text \<open>On the tables: whoever changed a verified history without changing its last digest holds a collision.\<close>

theorem history_tamper_evident:
  assumes repo: "eng_repo e = pgRepository (eventDigest sha js)" and sha: "\<forall>b. sha b \<noteq> []"
    and v: "VerifyChain e db u = Inr ()" "VerifyChain e db' u = Inr ()"
    and rows: "\<forall>x \<in> set (caseEvents db u @ caseEvents db' u). ev_Digest x \<noteq> None \<and> rowOK js x"
    and head: "headDigest (caseEvents db u) = headDigest (caseEvents db' u)"
  shows "map (rowFields js) (caseEvents db u) = map (rowFields js) (caseEvents db' u) \<or>
    (\<exists>a b. a \<noteq> b \<and> sha a = sha b \<and> a \<in> encodeRow js ` set (caseEvents db u) \<and> b \<in> encodeRow js ` set (caseEvents db' u))"
proof (cases "\<forall>x \<in> set (caseEvents db u). \<forall>y \<in> set (caseEvents db' u).
    sha (encodeRow js x) = sha (encodeRow js y) \<longrightarrow> encodeRow js x = encodeRow js y")
  case True
  have vl: "verifyLinks None False (map (digestLink (eventDigest sha js)) (caseEvents x u)) = None"
    if "VerifyChain e x u = Inr ()" for x
    using that by (auto simp: VerifyChain_def repo pgRepository_def pgListEventDigests_def split: option.splits)
  have "map (rowFields js) (caseEvents db u) = map (rowFields js) (caseEvents db' u)"
    by (rule chain_binds [OF vl [OF v(1)] vl [OF v(2)] _ _ sha head True]) (use rows in auto)
  then show ?thesis ..
qed blast

end
