(* ===== verification/Calendar.thy ===== *)
theory Calendar
  imports Engine_Core
begin

text \<open>
  Business-day deadlines (workflow/calendar/calendar.go). The civil calendar is the one of the
  time package (proleptic Gregorian); a time zone is a parameter, since its data is not code of
  this repository.
\<close>

section \<open>Civil dates\<close>

record Date =
  dt_Year :: int
  dt_Month :: int
  dt_Day :: int

definition leap :: "int \<Rightarrow> bool" where
  "leap y \<longleftrightarrow> y mod 4 = 0 \<and> (y mod 100 \<noteq> 0 \<or> y mod 400 = 0)"

definition monthDays :: "int \<Rightarrow> int \<Rightarrow> int" where
  "monthDays y m = (if m = 2 then (if leap y then 29 else 28) else if m = 4 \<or> m = 6 \<or> m = 9 \<or> m = 11 then 30 else 31)"

definition validDate :: "Date \<Rightarrow> bool" where
  "validDate d \<longleftrightarrow> 1 \<le> dt_Month d \<and> dt_Month d \<le> 12 \<and> 1 \<le> dt_Day d \<and> dt_Day d \<le> monthDays (dt_Year d) (dt_Month d)"

text \<open>time.Date carries a day past the end of its month into the next month and year.\<close>

definition nextDay :: "Date \<Rightarrow> Date" where
  "nextDay d =
     (if dt_Day d < monthDays (dt_Year d) (dt_Month d) then d\<lparr>dt_Day := dt_Day d + 1\<rparr>
      else if dt_Month d < 12 then d\<lparr>dt_Month := dt_Month d + 1, dt_Day := 1\<rparr>
      else \<lparr>dt_Year = dt_Year d + 1, dt_Month = 1, dt_Day = 1\<rparr>)"

definition addDays :: "Date \<Rightarrow> nat \<Rightarrow> Date" where
  "addDays d n = (nextDay ^^ n) d"

text \<open>Days since 1 January of year 1, a Monday; the weekday as time.Weekday counts it, Sunday 0.\<close>

definition yearStart :: "int \<Rightarrow> int" where
  "yearStart y = 365 * (y - 1) + (y - 1) div 4 - (y - 1) div 100 + (y - 1) div 400"

fun monthStart :: "int \<Rightarrow> nat \<Rightarrow> int" where
  "monthStart y 0 = 0"
| "monthStart y (Suc m) = monthStart y m + monthDays y (int m + 1)"

definition dayNumber :: "Date \<Rightarrow> int" where
  "dayNumber d = yearStart (dt_Year d) + monthStart (dt_Year d) (nat (dt_Month d - 1)) + dt_Day d - 1"

definition weekday :: "Date \<Rightarrow> int" where
  "weekday d = (dayNumber d + 1) mod 7"

section \<open>Business days\<close>

type_synonym holidays = "(Date \<Rightarrow> bool result) option"

record location =
  loc_date :: "time \<Rightarrow> Date"
  loc_start :: "Date \<Rightarrow> time"

definition maxGapDays :: nat where
  "maxGapDays = 366"

definition isBusinessDay :: "Date \<Rightarrow> holidays \<Rightarrow> bool result" where
  "isBusinessDay d h =
     (if weekday d = 6 \<or> weekday d = 0 then Inr False
      else case h of
        None \<Rightarrow> Inr True
      | Some f \<Rightarrow> bindR (f d) (\<lambda>holiday. Inr (\<not> holiday)))"

text \<open>The loop of BusinessDays; ctxErr k is what the context reports on turn k.\<close>

function businessLoop :: "(nat \<Rightarrow> error option) \<Rightarrow> holidays \<Rightarrow> nat \<Rightarrow> nat \<Rightarrow> nat \<Rightarrow> nat \<Rightarrow> Date \<Rightarrow> Date result" where
  "businessLoop ctxErr h n k counted gap day =
     (if n \<le> counted then Inr day
      else case ctxErr k of
        Some err \<Rightarrow> Inl err
      | None \<Rightarrow>
          let day = addDays day 1 in
          case isBusinessDay day h of
            Inl err \<Rightarrow> Inl err
          | Inr ok \<Rightarrow>
              if \<not> ok then
                (if maxGapDays \<le> gap + 1 then Inl (ErrText ''no business day'')
                 else businessLoop ctxErr h n (k + 1) counted (gap + 1) day)
              else businessLoop ctxErr h n (k + 1) (counted + 1) 0 day)"
  by pat_completeness auto
termination
  by (relation "measures [\<lambda>(c, h, n, k, counted, gap, d). n - counted, \<lambda>(c, h, n, k, counted, gap, d). maxGapDays - gap]")
    (auto simp: maxGapDays_def)

definition BusinessDays :: "int \<Rightarrow> location option \<Rightarrow> holidays \<Rightarrow> (nat \<Rightarrow> error option) \<Rightarrow> time \<Rightarrow> time result" where
  "BusinessDays n loc h ctxErr from =
     (if n < 1 then Inl (ErrText ''n must be at least 1'')
      else case loc of
        None \<Rightarrow> Inl (ErrText ''location is required'')
      | Some l \<Rightarrow>
          bindR (businessLoop ctxErr h (nat n) 0 0 0 (loc_date l from)) (\<lambda>day.
          Inr (loc_start l (addDays day 1))))"

text \<open>Rules maps the name of a rule to its function; a nil function counts as absent.\<close>

type_synonym dueFunc = "time \<Rightarrow> time result"

definition Rules_Due :: "(string \<times> dueFunc option) list \<Rightarrow> DueInput \<Rightarrow> time result" where
  "Rules_Due rules i =
     (case map_of rules (due_Rule i) of
        Some (Some fn) \<Rightarrow> fn (due_From i)
      | _ \<Rightarrow> Inl (Err ErrUnknownDeadlineRule))"

section \<open>The civil calendar is a calendar\<close>

lemma div_step:
  assumes "1 < (k :: int)"
  shows "y div k - (y - 1) div k = (if y mod k = 0 then 1 else 0)"
proof (cases "y mod k = 0")
  case True
  then obtain q where "y = k * q" by auto
  moreover have "(k * q - 1) div k = q - 1"
    using assms by (intro int_div_pos_eq [where r = "k - 1"]) (simp_all add: algebra_simps)
  ultimately show ?thesis using assms by simp
next
  case False
  have "0 \<le> y mod k" "y mod k < k" using assms by simp_all
  then have "(y - 1) div k = y div k"
    using False by (intro int_div_pos_eq [where r = "y mod k - 1"]) auto
  with False show ?thesis by simp
qed

lemma yearStart_next: "yearStart (y + 1) = yearStart y + (if leap y then 366 else 365)"
proof -
  have "y mod 100 = 0 \<longrightarrow> y mod 4 = 0" "y mod 400 = 0 \<longrightarrow> y mod 100 = 0"
    using dvd_trans [of 4 100 y] dvd_trans [of 100 400 y] by (simp_all add: mod_eq_0_iff_dvd)
  moreover have "yearStart (y + 1) = yearStart y + 365 + (y div 4 - (y - 1) div 4) - (y div 100 - (y - 1) div 100) +
      (y div 400 - (y - 1) div 400)"
    by (simp add: yearStart_def)
  then have "yearStart (y + 1) = yearStart y + 365 + (if y mod 4 = 0 then 1 else 0) - (if y mod 100 = 0 then 1 else 0) +
      (if y mod 400 = 0 then 1 else 0)"
    by (simp only: div_step)
  ultimately show ?thesis
    unfolding leap_def by (cases "y mod 4 = 0"; cases "y mod 100 = 0"; cases "y mod 400 = 0") simp_all
qed

lemma monthDays_pos: "28 \<le> monthDays y m"
  by (simp add: monthDays_def)

lemma monthStart_year: "monthStart y 12 = (if leap y then 366 else 365)"
  by (simp add: monthDays_def eval_nat_numeral)

lemma nextDay_valid: "validDate d \<Longrightarrow> validDate (nextDay d)"
  using monthDays_pos [of "dt_Year d" "dt_Month d + 1"] monthDays_pos [of "dt_Year d + 1" 1]
  by (auto simp: validDate_def nextDay_def)

text \<open>The day after is one day on, so weekdays come round in order.\<close>

lemma dayNumber_next:
  assumes "validDate d"
  shows "dayNumber (nextDay d) = dayNumber d + 1"
proof -
  let ?y = "dt_Year d" and ?m = "dt_Month d"
  have m: "1 \<le> ?m" "?m \<le> 12" and day: "dt_Day d \<le> monthDays ?y ?m" using assms by (simp_all add: validDate_def)
  have step: "monthStart ?y (nat ?m) = monthStart ?y (nat (?m - 1)) + monthDays ?y ?m"
  proof -
    have "nat ?m = Suc (nat (?m - 1))" using m by simp
    then show ?thesis using m by simp
  qed
  show ?thesis
  proof (cases "dt_Day d < monthDays ?y ?m")
    case True
    then show ?thesis by (simp add: nextDay_def dayNumber_def)
  next
    case last: False
    show ?thesis
    proof (cases "?m < 12")
      case True
      then show ?thesis using last day step by (simp add: nextDay_def dayNumber_def)
    next
      case False
      then have m12: "?m = 12" using m by simp
      have "monthStart ?y (nat 12) = (if leap ?y then 366 else 365)" using monthStart_year by simp
      then show ?thesis
        using last day step m12 by (simp add: nextDay_def dayNumber_def yearStart_next)
    qed
  qed
qed

lemma addDays_valid: "validDate d \<Longrightarrow> validDate (addDays d n)"
  by (induction n) (simp_all add: addDays_def nextDay_valid)

lemma dayNumber_addDays: "validDate d \<Longrightarrow> dayNumber (addDays d n) = dayNumber d + int n"
  by (induction n) (simp_all add: addDays_def dayNumber_next addDays_valid [unfolded addDays_def])

lemma addDays_add: "addDays (addDays d m) n = addDays d (n + m)"
  by (simp add: addDays_def funpow_add)

lemma weekday_addDays: "validDate d \<Longrightarrow> weekday (addDays d n) = (weekday d + int n) mod 7"
  by (simp add: weekday_def dayNumber_addDays mod_simps algebra_simps)

section \<open>BusinessDays counts business days\<close>

definition business :: "holidays \<Rightarrow> Date \<Rightarrow> bool" where
  "business h d \<longleftrightarrow> isBusinessDay d h = Inr True"

declare businessLoop.simps [simp del]

text \<open>The loop ends on the day that is the (n - counted)-th business day after the one it starts on.\<close>

lemma businessLoop_Inr:
  assumes "businessLoop ctxErr h n k counted gap day = Inr dl" and "counted \<le> n"
  shows "\<exists>m. dl = addDays day m \<and> card {i \<in> {1..m}. business h (addDays day i)} = n - counted \<and>
    (0 < m \<longrightarrow> business h dl)"
  using assms
proof (induction ctxErr h n k counted gap day rule: businessLoop.induct)
  case (1 ctxErr h n k counted gap day)
  show ?case
  proof (cases "n \<le> counted")
    case True
    then have "dl = addDays day 0" using "1.prems"(1) by (simp add: businessLoop.simps [of ctxErr h n] addDays_def)
    with True show ?thesis by (intro exI [of _ 0]) simp
  next
    case less: False
    let ?d = "addDays day 1"
    have ctx: "ctxErr k = None" using "1.prems"(1) less by (auto simp: businessLoop.simps [of ctxErr h n] split: option.splits)
    obtain ok where ok: "isBusinessDay ?d h = Inr ok"
      using "1.prems"(1) less ctx by (auto simp: businessLoop.simps [of ctxErr h n] Let_def split: sum.splits)
    have shift: "{i \<in> {1..Suc m}. business h (addDays day i)} =
        (if business h ?d then {1} else {}) \<union> Suc ` {i \<in> {1..m}. business h (addDays ?d i)}" for m
      by (auto simp: addDays_add image_iff Bex_def) (metis One_nat_def Suc_le_D Suc_le_mono le_SucE not0_implies_Suc not_less_eq_eq)+
    show ?thesis
    proof (cases ok)
      case False
      then have run: "businessLoop ctxErr h n (k + 1) counted (gap + 1) ?d = Inr dl" and gap: "\<not> maxGapDays \<le> gap + 1"
        using "1.prems"(1) less ctx ok by (auto simp: businessLoop.simps [of ctxErr h n k] Let_def split: if_splits)
      from "1.IH"(1) [OF less ctx refl ok _ gap run] False "1.prems"(2) obtain m where
        m: "dl = addDays ?d m" "card {i \<in> {1..m}. business h (addDays ?d i)} = n - counted" "0 < m \<longrightarrow> business h dl" by auto
      have "0 < m" using m(2) less by (cases m) auto
      have "\<not> business h ?d" using False ok by (simp add: business_def)
      then have "card {i \<in> {1..Suc m}. business h (addDays day i)} = n - counted"
        unfolding shift using m(2) by (simp add: card_image)
      with m(1,3) \<open>0 < m\<close> show ?thesis by (intro exI [of _ "Suc m"]) (simp add: addDays_add)
    next
      case True
      then have run: "businessLoop ctxErr h n (k + 1) (counted + 1) 0 ?d = Inr dl"
        using "1.prems"(1) less ctx ok by (auto simp: businessLoop.simps [of ctxErr h n k] Let_def)
      from "1.IH"(2) [OF less ctx refl ok _ run] True less obtain m where
        m: "dl = addDays ?d m" "card {i \<in> {1..m}. business h (addDays ?d i)} = n - (counted + 1)" "0 < m \<longrightarrow> business h dl" by auto
      have b: "business h ?d" using True ok by (simp add: business_def)
      have "card {i \<in> {1..Suc m}. business h (addDays day i)} = Suc (n - (counted + 1))"
        unfolding shift using b m(2) by (subst card_Un_disjoint) (auto simp: card_image)
      moreover have "business h dl" using b m by (cases "m = 0") (auto simp: addDays_def)
      ultimately show ?thesis using m(1) less by (intro exI [of _ "Suc m"]) (simp add: addDays_add)
    qed
  qed
qed

text \<open>
  The deadline is the start of the day after the n-th business day that follows the day of from.
\<close>

theorem BusinessDays_counts:
  assumes "BusinessDays n (Some l) h ctxErr from = Inr t"
  shows "\<exists>m. t = loc_start l (addDays (loc_date l from) (Suc m)) \<and> business h (addDays (loc_date l from) m) \<and>
    int (card {i \<in> {1..m}. business h (addDays (loc_date l from) i)}) = n"
proof -
  let ?d = "loc_date l from"
  from assms obtain day where n: "1 \<le> n" and loop: "businessLoop ctxErr h (nat n) 0 0 0 ?d = Inr day"
    and t: "t = loc_start l (addDays day 1)"
    by (auto simp: BusinessDays_def split: if_splits)
  from businessLoop_Inr [OF loop] obtain m where m: "day = addDays ?d m"
    "card {i \<in> {1..m}. business h (addDays ?d i)} = nat n" "0 < m \<longrightarrow> business h day" by auto
  have "0 < m" using m(2) n by (cases m) auto
  with m n t show ?thesis by (intro exI [of _ m]) (simp add: addDays_add)
qed

text \<open>Without holidays the search never gives up: no more than two days in a row are skipped.\<close>

definition gapOK :: "nat \<Rightarrow> Date \<Rightarrow> bool" where
  "gapOK gap d \<longleftrightarrow> gap = 0 \<or> gap = 1 \<and> (weekday d = 6 \<or> weekday d = 0) \<or> gap = 2 \<and> weekday d = 0"

lemma gapOK_next:
  assumes "validDate d" and "gapOK gap d" and "weekday (addDays d 1) = 6 \<or> weekday (addDays d 1) = 0"
  shows "gapOK (gap + 1) (addDays d 1)"
proof -
  have "weekday (addDays d 1) = (weekday d + 1) mod 7" using weekday_addDays [OF assms(1), of 1] by simp
  with assms(2,3) show ?thesis by (auto simp: gapOK_def)
qed

lemma businessLoop_weekends:
  assumes "validDate day" and "gapOK gap day"
  shows "\<exists>dl. businessLoop (\<lambda>_. None) None n k counted gap day = Inr dl"
proof -
  have "\<exists>dl. businessLoop c h n k counted gap day = Inr dl" if "c = (\<lambda>_. None)" "h = None" for c h
    using assms that
  proof (induction c h n k counted gap day rule: businessLoop.induct)
    case (1 ctxErr h n k counted gap day)
    let ?d = "addDays day 1"
    have v: "validDate ?d" using "1.prems"(1) by (rule addDays_valid)
    show ?case
    proof (cases "n \<le> counted")
      case True
      then show ?thesis by (simp add: businessLoop.simps [of ctxErr h n])
    next
      case less: False
      show ?thesis
      proof (cases "weekday ?d = 6 \<or> weekday ?d = 0")
        case True
        then have nb: "isBusinessDay ?d h = Inr False" by (auto simp: isBusinessDay_def)
        have g: "gapOK (gap + 1) ?d" by (rule gapOK_next [OF "1.prems"(1,2) True])
        then have gap: "\<not> maxGapDays \<le> gap + 1" by (auto simp: gapOK_def maxGapDays_def)
        have "\<exists>dl. businessLoop ctxErr h n (k + 1) counted (gap + 1) ?d = Inr dl"
          by (rule "1.IH"(1) [OF less _ refl nb]) (use "1.prems" gap v g in simp_all)
        then show ?thesis using less gap nb "1.prems"(3) by (subst businessLoop.simps) (simp add: Let_def)
      next
        case False
        then have b: "isBusinessDay ?d h = Inr True" using "1.prems"(4) by (auto simp: isBusinessDay_def)
        have "\<exists>dl. businessLoop ctxErr h n (k + 1) (counted + 1) 0 ?d = Inr dl"
          by (rule "1.IH"(2) [OF less _ refl b]) (use "1.prems" v in \<open>simp_all add: gapOK_def\<close>)
        then show ?thesis using less b "1.prems"(3) by (subst businessLoop.simps) (simp add: Let_def)
      qed
    qed
  qed
  then show ?thesis by simp
qed

theorem BusinessDays_weekends:
  assumes "1 \<le> n" and "validDate (loc_date l from)"
  shows "\<exists>t. BusinessDays n (Some l) None (\<lambda>_. None) from = Inr t"
proof -
  obtain dl where "businessLoop (\<lambda>_. None) None (nat n) 0 0 0 (loc_date l from) = Inr dl"
    using businessLoop_weekends [OF assms(2), of 0 "nat n" 0 0] by (auto simp: gapOK_def)
  with assms(1) show ?thesis by (simp add: BusinessDays_def)
qed

text \<open>A rule the table does not know fails with the sentinel the engine documents.\<close>

lemma Rules_Due_unknown: "map_of rules (due_Rule i) = None \<Longrightarrow> Rules_Due rules i = Inl (Err ErrUnknownDeadlineRule)"
  by (simp add: Rules_Due_def)

end
