(* ===== verification/Http_Status.thy ===== *)
theory Http_Status
  imports Operations
begin

text \<open>
  The HTTP status of a workflow error (workflow/workflowhttp/status.go): the first sentinel of
  the table that the error wraps decides.
\<close>

definition mappings :: "(sentinel \<times> int \<times> string) list" where
  "mappings =
     [(ErrCaseNotFound, 404, ''NOT_FOUND''), (ErrTokenNotFound, 404, ''NOT_FOUND''),
      (ErrConflict, 409, ''CONFLICT''), (ErrAlreadyAssigned, 409, ''CONFLICT''), (ErrCaseClosed, 409, ''CONFLICT''),
      (ErrInvalidTransition, 409, ''CONFLICT''), (ErrReturnNotVisited, 409, ''CONFLICT''), (ErrNoRoute, 409, ''CONFLICT''),
      (ErrGuardRejected, 409, ''CONFLICT''), (ErrLastBranch, 409, ''CONFLICT''), (ErrJoinRejected, 409, ''CONFLICT''),
      (ErrAlreadyExpired, 409, ''CONFLICT''), (ErrNotOverdue, 409, ''CONFLICT''), (ErrCaseExists, 409, ''CONFLICT''),
      (ErrNotAssigned, 409, ''CONFLICT''),
      (ErrCommentRequired, 422, ''UNPROCESSABLE_ENTITY''), (ErrCommentNotAllowed, 422, ''UNPROCESSABLE_ENTITY''),
      (ErrReasonRequired, 422, ''UNPROCESSABLE_ENTITY''), (ErrTokenRequired, 422, ''UNPROCESSABLE_ENTITY''),
      (ErrInvalidActor, 422, ''UNPROCESSABLE_ENTITY''), (ErrOffsetOutOfRange, 400, ''VALIDATION_ERROR'')]"

text \<open>None stands for ok = false.\<close>

definition Status :: "error option \<Rightarrow> (int \<times> string) option" where
  "Status err =
     (case err of
        None \<Rightarrow> None
      | Some er \<Rightarrow> map_option snd (find (\<lambda>(s, _). errorsIs er s) mappings))"

text \<open>The table lists each sentinel once, so an error that wraps one mapped sentinel gets its entry.\<close>

lemma Status_single:
  assumes "(s, m) \<in> set mappings" and "\<forall>t. errorsIs err t \<longleftrightarrow> t = s"
  shows "Status (Some err) = Some m"
proof -
  have dist: "distinct (map fst mappings)" by (simp add: mappings_def)
  have "find (\<lambda>(t, _). errorsIs err t) xs = Some (s, m)" if "(s, m) \<in> set xs" "distinct (map fst xs)" for xs :: "(sentinel \<times> int \<times> string) list"
    using that assms(2) by (induction xs) (auto simp: rev_image_eqI)
  from this [OF assms(1) dist] show ?thesis by (simp add: Status_def)
qed

text \<open>Every failure a consumer records by kind is one a client caused, so it has a status.\<close>

lemma find_mem: "(\<exists>x \<in> set xs. P x) \<Longrightarrow> find P xs \<noteq> None"
  by (simp add: find_None_iff) blast

theorem FailureKindOf_status:
  assumes "FailureKindOf err = Some k"
  shows "Status (Some err) \<noteq> None"
proof -
  from assms obtain s where "(s, k) \<in> set failureKinds" "errorsIs err s"
    by (auto simp: FailureKindOf_def find_Some_iff) (metis nth_mem)
  moreover have "fst ` set failureKinds \<subseteq> fst ` set mappings" by (simp add: failureKinds_def mappings_def)
  ultimately obtain m where "(s, m) \<in> set mappings" by force
  with \<open>errorsIs err s\<close> have "find (\<lambda>(t, _). errorsIs err t) mappings \<noteq> None" by (intro find_mem) auto
  then show ?thesis by (auto simp: Status_def)
qed

text \<open>Errors no client causes are left to the caller: the registry, the schema, the chain and the routing limits.\<close>

lemma Status_server:
  assumes "\<forall>t. errorsIs err t \<longrightarrow> t \<in> {ErrDefinitionNotRegistered, ErrGuardNotRegistered, ErrInvalidDefinition, ErrTooManyDecisionHops,
    ErrUnknownEffect, ErrUnsupportedEventSchema, ErrInvalidFailure, ErrChainBroken, ErrCaseWithoutTokens, ErrInvalidOutcome,
    ErrUnknownAssignRule, ErrUnknownDeadlineRule}"
  shows "Status (Some err) = None"
proof -
  have "find (\<lambda>(t, _). errorsIs err t) mappings = None"
    using assms by (auto simp: find_None_iff mappings_def)
  then show ?thesis by (simp add: Status_def)
qed

end
