(* ===== verification/Effects.thy ===== *)
theory Effects
  imports Engine_System
begin

text \<open>
  The effect jobs (action/action.go, action/worker.go, action/attempt.go, action/notify.go): the
  Registry is the engine's effect sink, Dispatch writes one job per effect on the transaction
  that wrote the events (a transactional outbox), and the Worker runs the handlers. River, the
  job queue, is not code of this repository: enqueueing is a parameter, and what the package
  relies on is stated as hypotheses on it.
\<close>

section \<open>Jobs\<close>

record Args =
  a_CaseID :: uuid
  a_Seq :: int
  a_Effect :: string
  a_Part :: int
  a_TokenID :: uuid
  a_Definition :: string
  a_Version :: int
  a_Domain :: string
  a_ExternalID :: string
  a_Unit :: string
  a_Actor :: Actor
  a_ActorID :: string

text \<open>The fields with the tag river:"unique".\<close>

definition jobKey :: "Args \<Rightarrow> uuid \<times> int \<times> string \<times> int" where
  "jobKey a = (a_CaseID a, a_Seq a, a_Effect a, a_Part a)"

record Run =
  rn_Effect :: string
  rn_CaseID :: uuid
  rn_TokenID :: uuid
  rn_Seq :: int
  rn_Definition :: string
  rn_Version :: int
  rn_Domain :: string
  rn_ExternalID :: string
  rn_Unit :: string
  rn_Actor :: Actor
  rn_ActorID :: string
  rn_Attempt :: int
  rn_Part :: int

text \<open>uuidText prints a UUID, as package uuid does.\<close>

definition IdempotencyKey :: "(uuid \<Rightarrow> string) \<Rightarrow> Run \<Rightarrow> string" where
  "IdempotencyKey uuidText r =
     uuidText (rn_CaseID r) @ ''/'' @ showInt (rn_Seq r) @ ''/'' @ rn_Effect r @
     (if rn_Part r \<noteq> 0 then ''/'' @ showInt (rn_Part r) else '''')"

definition actionKind :: string where
  "actionKind = ''vogel_action''"

definition SystemActor :: "Run \<Rightarrow> Actor" where
  "SystemActor r =
     zeroActor\<lparr>ac_Kind := ActorSystem, ac_ID := actionKind @ '':'' @ rn_Effect r, ac_OnBehalfOf := ac_ID (rn_Actor r)\<rparr>"

section \<open>The tables of the worker\<close>

datatype attemptOutcomeKind =
    OutcomeSucceeded | OutcomeRetry | OutcomeCancelled | OutcomeSnoozed | OutcomeDiscarded | OutcomeUnknownEffect

record Attempt =
  at_ID :: uuid
  at_CaseID :: uuid
  at_Seq :: int
  at_Effect :: string
  at_Part :: int
  at_Attempt :: int
  at_Snooze :: int
  at_JobID :: int
  at_StartedAt :: time
  at_FinishedAt :: time
  at_Outcome :: attemptOutcomeKind
  at_ErrorClass :: string
  at_RequestID :: string
  at_TraceID :: string
  at_ActorKind :: ActorKind
  at_ActorID :: string
  at_ResultRef :: string
  at_ResultDigest :: string

text \<open>js_tx tells whether the handle the caller passes is a transaction.\<close>

record jobStore = pgStore +
  js_tx :: bool
  js_jobs :: "Args list"
  js_attempts :: "Attempt list"

section \<open>Handlers\<close>

type_synonym 'q jobs = "'q jobStore_scheme"

text \<open>
  What the worker tells of a handler's error: whether it asks River to snooze or to cancel, the
  Go type of the innermost error and the known sentinels it matches.
\<close>

record workError =
  we_snooze :: bool
  we_cancel :: bool
  we_type :: string
  we_canceled :: bool
  we_deadline :: bool
  we_unknownEffect :: bool

datatype handled = Handled | Failed workError | Panicked

text \<open>
  A handler runs on a Run and may enqueue the parts of a fan-out, through the function the worker
  puts on its context (None outside a worker). It answers how it ended and the result it recorded.
\<close>

type_synonym 'q enqueueParts = "nat \<Rightarrow> ('q jobs, unit) action"

type_synonym 'q handler = "'q enqueueParts option \<Rightarrow> Run \<Rightarrow> 'q jobs \<Rightarrow> (handled \<times> string \<times> string) \<times> 'q jobs"

section \<open>The registry\<close>

record 'q registry =
  reg_queue :: "Args \<Rightarrow> ('q jobs, unit) action"
  reg_handlers :: "(string \<times> 'q handler) list"

definition NewRegistry :: "(Args \<Rightarrow> ('q jobs, unit) action) \<Rightarrow> 'q registry" where
  "NewRegistry q = \<lparr>reg_queue = q, reg_handlers = []\<rparr>"

definition Registry_Register :: "string \<Rightarrow> 'q handler option \<Rightarrow> 'q registry \<Rightarrow> 'q registry result" where
  "Registry_Register name h r =
     (case h of
        None \<Rightarrow> Inl (Err ErrInvalidRegistration)
      | Some fn \<Rightarrow>
          if name = '''' then Inl (Err ErrInvalidRegistration)
          else if map_of (reg_handlers r) name \<noteq> None then Inl (Err ErrDuplicateEffect)
          else Inr (r\<lparr>reg_handlers := (name, fn) # reg_handlers r\<rparr>))"

definition HasEffect :: "'q registry \<Rightarrow> string \<Rightarrow> bool" where
  "HasEffect r name = (map_of (reg_handlers r) name \<noteq> None)"

section \<open>Dispatch\<close>

definition eventActorID :: "Event \<Rightarrow> string" where
  "eventActorID evt = (if ac_ID (ev_Actor evt) \<noteq> '''' then ac_ID (ev_Actor evt) else ev_ActorID evt)"

definition effectsFor :: "Definition \<Rightarrow> Event \<Rightarrow> string list" where
  "effectsFor d evt =
     (if ev_Kind evt = EventOpened \<or> ev_Kind evt = EventMoved then
        (case Definition_Node d (ev_ToState evt) of None \<Rightarrow> [] | Some n \<Rightarrow> node_Effects n) @
        (if ev_Kind evt = EventMoved then
           (case findTransition (TransitionsFrom d (ev_FromState evt)) (ev_Action evt) of
              None \<Rightarrow> [] | Some tr \<Rightarrow> tr_Effects tr)
         else [])
      else [])"

definition jobFor :: "Case \<Rightarrow> Event \<Rightarrow> string \<Rightarrow> Args" where
  "jobFor c evt name =
     \<lparr>a_CaseID = c_ID c, a_Seq = ev_Seq evt, a_Effect = name, a_Part = 0, a_TokenID = ev_TokenID evt,
      a_Definition = c_Definition c, a_Version = c_Version c, a_Domain = c_Domain c, a_ExternalID = c_ExternalID c,
      a_Unit = c_Unit c, a_Actor = ev_Actor evt, a_ActorID = eventActorID evt\<rparr>"

fun planNames :: "'q registry \<Rightarrow> Case \<Rightarrow> Event \<Rightarrow> string list \<Rightarrow> Args list result" where
  "planNames r c evt [] = Inr []"
| "planNames r c evt (name # names) =
     (if \<not> HasEffect r name then Inl (Err ErrUnknownEffect)
      else bindR (planNames r c evt names) (\<lambda>jobs. Inr (jobFor c evt name # jobs)))"

fun plan :: "'q registry \<Rightarrow> Definition \<Rightarrow> Case \<Rightarrow> Event list \<Rightarrow> Args list result" where
  "plan r d c [] = Inr []"
| "plan r d c (evt # evts) =
     bindR (planNames r c evt (effectsFor d evt)) (\<lambda>jobs.
     bindR (plan r d c evts) (\<lambda>rest. Inr (jobs @ rest)))"

definition resolveTx :: "'q jobs \<Rightarrow> unit result" where
  "resolveTx db = requireR (js_tx db) (Err ErrNoTx)"

definition CheckDB :: "'q jobs \<Rightarrow> unit result" where
  "CheckDB db = resolveTx db"

definition Dispatch :: "'q registry \<Rightarrow> Definition \<Rightarrow> Case \<Rightarrow> Event list \<Rightarrow> ('q jobs, unit) action" where
  "Dispatch r d c events =
     bindA (liftR (plan r d c events)) (\<lambda>jobs.
     if jobs = [] then returnA ()
     else bindA (readA resolveTx) (\<lambda>_. forA (reg_queue r) jobs))"

definition effectSinkOf :: "'q registry \<Rightarrow> 'q jobs effectSink" where
  "effectSinkOf r = \<lparr>sink_HasEffect = HasEffect r, sink_CheckDB = CheckDB, sink_Dispatch = Dispatch r\<rparr>"

section \<open>The worker\<close>

text \<open>A job as River hands it over; None for a job without a row. The snoozes come from its metadata.\<close>

record jobRow =
  job_ID :: int
  job_Attempt :: int
  job_MaxAttempts :: int
  job_Snoozes :: "int option"

definition snoozeCount :: "int option \<Rightarrow> int" where
  "snoozeCount m = (case m of None \<Rightarrow> 0 | Some n \<Rightarrow> n)"

definition failedOutcome :: "jobRow option \<Rightarrow> attemptOutcomeKind" where
  "failedOutcome row =
     (case row of
        Some j \<Rightarrow> if job_MaxAttempts j > 0 \<and> job_Attempt j \<ge> job_MaxAttempts j then OutcomeDiscarded else OutcomeRetry
      | None \<Rightarrow> OutcomeRetry)"

definition attemptOutcome :: "workError option \<Rightarrow> jobRow option \<Rightarrow> attemptOutcomeKind" where
  "attemptOutcome err row =
     (case err of
        None \<Rightarrow> OutcomeSucceeded
      | Some w \<Rightarrow> if we_snooze w then OutcomeSnoozed else if we_cancel w then OutcomeCancelled else failedOutcome row)"

definition errorClass :: "workError option \<Rightarrow> string" where
  "errorClass err =
     (case err of
        None \<Rightarrow> ''''
      | Some w \<Rightarrow>
          if we_canceled w then we_type w @ '' (context.Canceled)''
          else if we_deadline w then we_type w @ '' (context.DeadlineExceeded)''
          else if we_unknownEffect w then we_type w @ '' (workflow.ErrUnknownEffect)''
          else we_type w)"

definition attemptKey :: "Attempt \<Rightarrow> int \<times> int \<times> int" where
  "attemptKey a = (at_JobID a, at_Attempt a, at_Snooze a)"

text \<open>The insert of insertAttempt: a row with the key of another is skipped, a check that fails is an error.\<close>

definition insertAttempt :: "Attempt \<Rightarrow> ('q jobs, unit) action" where
  "insertAttempt a db =
     (if at_Attempt a < 1 \<or> at_Snooze a < 0 then (Inl (ErrText ''check violation''), db)
      else if attemptKey a \<in> attemptKey ` set (js_attempts db) then (Inr (), db)
      else if at_ID a \<in> at_ID ` set (js_attempts db) then (Inl (ErrText ''duplicate key''), db)
      else (Inr (), db\<lparr>js_attempts := js_attempts db @ [a]\<rparr>))"

record 'q workerConfig =
  wk_registry :: "'q registry"
  wk_attemptLog :: bool
  wk_traceIDs :: "(string \<Rightarrow> string \<times> string) option"

text \<open>What one call of Work sees besides the database: its two readings of the clock, its context and the UUID it draws.\<close>

record workCall =
  wc_started :: time
  wc_finished :: time
  wc_requestID :: string
  wc_span :: string
  wc_uuid :: "uuid option"

definition runOf :: "Args \<Rightarrow> jobRow option \<Rightarrow> Run" where
  "runOf a row =
     \<lparr>rn_Effect = a_Effect a, rn_CaseID = a_CaseID a, rn_TokenID = a_TokenID a, rn_Seq = a_Seq a,
      rn_Definition = a_Definition a, rn_Version = a_Version a, rn_Domain = a_Domain a, rn_ExternalID = a_ExternalID a,
      rn_Unit = a_Unit a,
      rn_Actor = (if a_Actor a = zeroActor \<and> a_ActorID a \<noteq> ''''
                  then zeroActor\<lparr>ac_Kind := ActorUnspecified, ac_ID := a_ActorID a\<rparr> else a_Actor a),
      rn_ActorID = a_ActorID a, rn_Attempt = (case row of None \<Rightarrow> 0 | Some j \<Rightarrow> job_Attempt j), rn_Part = a_Part a\<rparr>"

text \<open>The row is written on its own; a write that fails is logged and counted, and the job goes on.\<close>

definition recordAttempt :: "'q workerConfig \<Rightarrow> workCall \<Rightarrow> jobRow option \<Rightarrow> Run \<Rightarrow> attemptOutcomeKind \<Rightarrow> string \<Rightarrow> string \<times> string \<Rightarrow>
    'q jobs \<Rightarrow> 'q jobs" where
  "recordAttempt w wc row run outcome class res db =
     (case row of
        None \<Rightarrow> db
      | Some j \<Rightarrow>
          if \<not> wk_attemptLog w then db
          else case wc_uuid wc of
            None \<Rightarrow> db
          | Some uid \<Rightarrow>
              snd (insertAttempt
                \<lparr>at_ID = uid, at_CaseID = rn_CaseID run, at_Seq = rn_Seq run, at_Effect = rn_Effect run, at_Part = rn_Part run,
                 at_Attempt = job_Attempt j, at_Snooze = snoozeCount (job_Snoozes j), at_JobID = job_ID j,
                 at_StartedAt = wc_started wc, at_FinishedAt = wc_finished wc, at_Outcome = outcome, at_ErrorClass = class,
                 at_RequestID = wc_requestID wc,
                 at_TraceID = (case wk_traceIDs w of None \<Rightarrow> '''' | Some f \<Rightarrow> fst (f (wc_span wc))),
                 at_ActorKind = ac_Kind (rn_Actor run), at_ActorID = ac_ID (rn_Actor run),
                 at_ResultRef = fst res, at_ResultDigest = snd res\<rparr> db))"

definition enqueuePartsOf :: "'q registry \<Rightarrow> Args \<Rightarrow> 'q enqueueParts" where
  "enqueuePartsOf r a n = forA (\<lambda>i. reg_queue r (a\<lparr>a_Part := i\<rparr>)) [1..int n]"

definition unknownEffect :: workError where
  "unknownEffect = \<lparr>we_snooze = False, we_cancel = False, we_type = ''*errors.errorString'', we_canceled = False,
     we_deadline = False, we_unknownEffect = True\<rparr>"

definition Work :: "'q workerConfig \<Rightarrow> workCall \<Rightarrow> Args \<Rightarrow> jobRow option \<Rightarrow> 'q jobs \<Rightarrow> handled \<times> 'q jobs" where
  "Work w wc a row db =
     (let run = runOf a row in
      case map_of (reg_handlers (wk_registry w)) (a_Effect a) of
        None \<Rightarrow> (Failed unknownEffect,
                recordAttempt w wc row run OutcomeUnknownEffect (errorClass (Some unknownEffect)) ('''', '''') db)
      | Some h \<Rightarrow>
          (case h (Some (enqueuePartsOf (wk_registry w) a)) run db of
             ((Handled, res), db') \<Rightarrow> (Handled, recordAttempt w wc row run OutcomeSucceeded '''' res db')
           | ((Failed e, res), db') \<Rightarrow>
               (Failed e, recordAttempt w wc row run (attemptOutcome (Some e) row) (errorClass (Some e)) res db')
           | ((Panicked, res), db') \<Rightarrow> (Panicked, recordAttempt w wc row run (failedOutcome row) ''panic'' res db')))"

section \<open>Notifications\<close>

record Message =
  msg_To :: string
  msg_From :: string
  msg_Subject :: string
  msg_HTML :: string
  msg_Text :: string

text \<open>parses tells whether net/mail.ParseAddress accepts an address.\<close>

definition Message_Validate :: "(string \<Rightarrow> bool) \<Rightarrow> Message \<Rightarrow> bool" where
  "Message_Validate parses m \<longleftrightarrow> msg_To m \<noteq> '''' \<and> parses (msg_To m) \<and> (msg_From m \<noteq> '''' \<longrightarrow> parses (msg_From m)) \<and>
     msg_Subject m \<noteq> '''' \<and> (msg_HTML m \<noteq> '''' \<or> msg_Text m \<noteq> '''')"

definition invalidMessage :: "(string \<Rightarrow> bool) \<Rightarrow> Message option \<Rightarrow> bool" where
  "invalidMessage parses m = (case m of None \<Rightarrow> True | Some x \<Rightarrow> \<not> Message_Validate parses x)"

text \<open>
  The notifier is a parameter: sending either succeeds or fails with an error. A handler returns,
  beside its answer, the messages it sent, in order.
\<close>

fun sendAll :: "(Message \<Rightarrow> workError option) \<Rightarrow> Message option list \<Rightarrow> handled \<times> Message list" where
  "sendAll send [] = (Handled, [])"
| "sendAll send (None # ms) = (Panicked, [])"
| "sendAll send (Some m # ms) =
     (case send m of
        Some e \<Rightarrow> (Failed e, [])
      | None \<Rightarrow> (let (h, sent) = sendAll send ms in (h, m # sent)))"

definition cancelError :: "string \<Rightarrow> workError" where
  "cancelError t = \<lparr>we_snooze = False, we_cancel = True, we_type = t, we_canceled = False, we_deadline = False,
     we_unknownEffect = False\<rparr>"

definition sendPart :: "(string \<Rightarrow> bool) \<Rightarrow> (Message \<Rightarrow> workError option) \<Rightarrow> Run \<Rightarrow> Message option list \<Rightarrow> handled \<times> Message list" where
  "sendPart parses send r msgs =
     (if rn_Part r > int (length msgs) then (Failed (cancelError ''*errors.errorString''), [])
      else let m = msgs ! nat (rn_Part r - 1) in
        if invalidMessage parses m then (Failed (cancelError ''*errors.errorString''), [])
        else sendAll send [m])"

text \<open>cls is what errors.As and the Go type tell of an error of the queue.\<close>

definition notify :: "(string \<Rightarrow> bool) \<Rightarrow> (error \<Rightarrow> workError) \<Rightarrow> (Message \<Rightarrow> workError option) \<Rightarrow> (Run \<Rightarrow> workError + Message option list) \<Rightarrow>
    'q enqueueParts option \<Rightarrow> Run \<Rightarrow> 'q jobs \<Rightarrow> (handled \<times> Message list) \<times> 'q jobs" where
  "notify parses cls send build enq r db =
     (case build r of
        Inl e \<Rightarrow> ((Failed e, []), db)
      | Inr msgs \<Rightarrow>
          if rn_Part r > 0 then (sendPart parses send r msgs, db)
          else if list_ex (invalidMessage parses) msgs then ((Failed (cancelError ''*errors.errorString''), []), db)
          else case enq of
            Some f \<Rightarrow>
              if length msgs > 1 then
                (case f (length msgs) db of
                   (Inl err, db') \<Rightarrow> ((Failed (cls err), []), db')
                 | (Inr _, db') \<Rightarrow> ((Handled, []), db'))
              else (sendAll send msgs, db)
          | None \<Rightarrow> (sendAll send msgs, db))"

definition NotifyHandler :: "(string \<Rightarrow> bool) \<Rightarrow> (error \<Rightarrow> workError) \<Rightarrow> (Message \<Rightarrow> workError option) \<Rightarrow> (Run \<Rightarrow> workError + Message option list) \<Rightarrow> 'q handler" where
  "NotifyHandler parses cls send build enq r db =
     (case notify parses cls send build enq r db of ((h, sent), db') \<Rightarrow> ((h, '''', ''''), db'))"

section \<open>The outbox\<close>

text \<open>
  What the package relies on from River: an insert on the transaction adds the job unless one
  with the same unique fields is there, and touches nothing else.
\<close>

definition insertJob :: "Args list \<Rightarrow> Args \<Rightarrow> Args list" where
  "insertJob js a = (if jobKey a \<in> jobKey ` set js then js else js @ [a])"

definition queueOK :: "(Args \<Rightarrow> ('q jobs, unit) action) \<Rightarrow> bool" where
  "queueOK q \<longleftrightarrow> (\<forall>a db x db'. q a db = (Inr x, db') \<longrightarrow> db' = db\<lparr>js_jobs := insertJob (js_jobs db) a\<rparr>)"

definition addJobs :: "Args list \<Rightarrow> Args list \<Rightarrow> Args list" where
  "addJobs js jobs = foldl insertJob js jobs"

lemma forA_queue:
  assumes "queueOK q" and "forA q jobs db = (Inr x, db')"
  shows "db' = db\<lparr>js_jobs := addJobs (js_jobs db) jobs\<rparr>"
  using assms(2)
proof (induction jobs arbitrary: db)
  case (Cons a jobs)
  from Cons.prems obtain y db1 where q: "q a db = (Inr y, db1)" and rest: "forA q jobs db1 = (Inr x, db')"
    by (auto simp: bindA_eq_Inr)
  have "db1 = db\<lparr>js_jobs := insertJob (js_jobs db) a\<rparr>" using assms(1) q by (auto simp: queueOK_def)
  with Cons.IH [OF rest] show ?case by (simp add: addJobs_def)
qed (simp add: addJobs_def)

lemma addJobs_keys: "jobKey ` set (addJobs js jobs) = jobKey ` set js \<union> jobKey ` set jobs"
  unfolding addJobs_def by (induction jobs arbitrary: js) (auto simp: insertJob_def)

lemma addJobs_distinct: "distinct (map jobKey js) \<Longrightarrow> distinct (map jobKey (addJobs js jobs))"
  unfolding addJobs_def by (induction jobs arbitrary: js) (auto simp: insertJob_def)

lemma addJobs_prefix: "\<exists>new. addJobs js jobs = js @ new \<and> set new \<subseteq> set jobs"
proof (induction jobs arbitrary: js)
  case (Cons a jobs)
  from Cons [of "insertJob js a"] obtain new where "addJobs (insertJob js a) jobs = insertJob js a @ new" "set new \<subseteq> set jobs" by blast
  then show ?case by (cases "jobKey a \<in> jobKey ` set js") (auto simp: addJobs_def insertJob_def)
qed (simp add: addJobs_def)

lemma addJobs_present: "jobKey ` set jobs \<subseteq> jobKey ` set js \<Longrightarrow> addJobs js jobs = js"
  unfolding addJobs_def by (induction jobs) (auto simp: insertJob_def)

lemma planNames_Inr: "planNames r c evt names = Inr jobs \<Longrightarrow> jobs = map (jobFor c evt) names"
  by (induction names arbitrary: jobs) (auto split: if_splits)

definition effectJobs :: "Definition \<Rightarrow> Case \<Rightarrow> Event list \<Rightarrow> Args list" where
  "effectJobs d c evts = concat (map (\<lambda>evt. map (jobFor c evt) (effectsFor d evt)) evts)"

lemma plan_Inr: "plan r d c evts = Inr jobs \<Longrightarrow> jobs = effectJobs d c evts"
  by (induction evts arbitrary: jobs) (auto simp: effectJobs_def dest: planNames_Inr)

text \<open>Dispatch that succeeds has put in exactly the jobs of the events, each once, and changed nothing else.\<close>

theorem Dispatch_outbox:
  assumes "queueOK (reg_queue r)" and "Dispatch r d c evts db = (Inr x, db')"
  shows "db' = db\<lparr>js_jobs := addJobs (js_jobs db) (effectJobs d c evts)\<rparr>"
proof -
  from assms(2) obtain jobs where jobs: "plan r d c evts = Inr jobs"
    and rest: "(if jobs = [] then returnA () else bindA (readA resolveTx) (\<lambda>_. forA (reg_queue r) jobs)) db = (Inr x, db')"
    by (auto simp: Dispatch_def split: sum.splits)
  have "jobs = effectJobs d c evts" by (rule plan_Inr [OF jobs])
  moreover have "db' = db\<lparr>js_jobs := addJobs (js_jobs db) jobs\<rparr>"
    using rest forA_queue [OF assms(1)] by (auto simp: addJobs_def bindA_eq_Inr split: if_splits sum.splits)
  ultimately show ?thesis by simp
qed

text \<open>The registry keeps the contract of a sink, so everything proved of the engine holds with it.\<close>

theorem registry_sinkKeeps:
  assumes "eng_effectSink e = Some (effectSinkOf r)" and "queueOK (reg_queue r)"
  shows "sinkKeeps e (pgOK dg) pgView"
  unfolding sinkKeeps_def
proof (intro allI impI)
  fix d c evs db db'
  assume ok: "pgOK dg db" and dis: "dispatch e d c evs db = (Inr (), db')"
  from dis assms(1) have "Dispatch r d c evs db = (Inr (), db')" by (simp add: dispatch_def effectSinkOf_def)
  from Dispatch_outbox [OF assms(2) this] ok show "pgOK dg db' \<and> pgView db' = pgView db"
    by (simp add: pgOK_def pgView_def)
qed

section \<open>Writing leaves the other tables alone\<close>

lemma pg_more:
  "pgStore.more (snd (pgUpdate c q db)) = pgStore.more db"
  "pgStore.more (snd (pgCreateScope s db)) = pgStore.more db" "pgStore.more (snd (pgUpdateScope s db)) = pgStore.more db"
  "pgStore.more (snd (pgCreateToken t db)) = pgStore.more db" "pgStore.more (snd (pgUpdateToken t db)) = pgStore.more db"
  "pgStore.more (snd (pgAppendEvent dg ev db)) = pgStore.more db"
  by (simp_all add: pgUpdate_def pgCreateScope_def pgUpdateScope_def pgCreateToken_def pgUpdateToken_def pgAppendEvent_def Let_def
      split: option.split)

lemma forA_more:
  assumes "\<And>x db. pgStore.more (snd (f x db)) = pgStore.more db"
  shows "pgStore.more (snd (forA f xs db)) = pgStore.more db"
proof (induction xs arbitrary: db)
  case (Cons x xs)
  have "pgStore.more (snd (f x db)) = pgStore.more db" by (rule assms)
  with Cons show ?case by (cases "f x db") (auto simp: bindA_def split: sum.split)
qed simp

lemma writeState_more:
  assumes "eng_repo e = pgRepository dg"
  shows "pgStore.more (snd (writeState e r db)) = pgStore.more db"
proof -
  have s: "pgStore.more (snd (writeScope e r x y)) = pgStore.more y" for x y
    using assms by (simp add: writeScope_def pgRepository_def pg_more)
  have t: "pgStore.more (snd (writeToken e r x y)) = pgStore.more y" for x y
    using assms by (simp add: writeToken_def pgRepository_def pg_more)
  obtain res1 db1 where a: "forA (writeScope e r) (run_scopes r) db = (res1, db1)" by fastforce
  with forA_more [of "writeScope e r" "run_scopes r" db, OF s] have "pgStore.more db1 = pgStore.more db" by simp
  moreover have "pgStore.more (snd (forA (writeToken e r) (run_tokens r) db1)) = pgStore.more db1" by (rule forA_more [OF t])
  ultimately show ?thesis by (simp add: writeState_def bindA_def a split: sum.split)
qed

lemma appendEvents_more:
  assumes "eng_repo e = pgRepository dg"
  shows "pgStore.more (snd (appendEvents e cl c n evts db)) = pgStore.more db"
proof (induction evts arbitrary: n db)
  case (Cons evt evts)
  have "pgStore.more (snd (appendEvent e cl n c evt db)) = pgStore.more db"
    using assms by (simp add: appendEvent_def pgRepository_def pg_more)
  with Cons [of "n + 1" "snd (appendEvent e cl n c evt db)"] show ?case
    by (cases "appendEvent e cl n c evt db"; cases "appendEvents e cl c (n + 1) evts (snd (appendEvent e cl n c evt db))")
      (auto simp: bindA_def split: sum.split)
qed simp

lemma persist_more:
  assumes repo: "eng_repo e = pgRepository dg" and per: "persist e cl r db = (x, db')"
  shows "pgStore.more db' = pgStore.more db"
proof -
  let ?r = "project r"
  let ?c = "(run_c ?r)\<lparr>c_LastSeq := run_baseSeq ?r + int (length (run_events ?r))\<rparr>"
  obtain u db1 where u: "pgUpdate ?c (run_baseSeq ?r) db = (u, db1)" by fastforce
  have m1: "pgStore.more db1 = pgStore.more db" using pg_more(1) [of ?c "run_baseSeq ?r" db] u by simp
  show ?thesis
  proof (cases u)
    case (Inl err)
    with per u m1 show ?thesis by (simp add: persist_def Let_def bindA_def repo pgRepository_def)
  next
    case (Inr c')
    obtain w db2 where w: "writeState e ?r db1 = (w, db2)" by fastforce
    have m2: "pgStore.more db2 = pgStore.more db1" using writeState_more [OF repo, of ?r db1] w by simp
    show ?thesis
    proof (cases w)
      case (Inl err)
      with per u w m1 m2 \<open>u = Inr c'\<close> show ?thesis by (simp add: persist_def Let_def bindA_def repo pgRepository_def)
    next
      case (Inr y)
      have "pgStore.more (snd (appendEvents e cl c' (run_drawn ?r) (run_events ?r) db2)) = pgStore.more db2"
        by (rule appendEvents_more [OF repo])
      with per u w m1 m2 Inr \<open>u = Inr c'\<close> show ?thesis
        by (cases "appendEvents e cl c' (run_drawn ?r) (run_events ?r) db2")
          (auto simp: persist_def Let_def bindA_def repo pgRepository_def split: sum.splits)
    qed
  qed
qed

lemma js_jobs_more: "pgStore.more a = pgStore.more b \<Longrightarrow> js_jobs a = js_jobs b"
  by (cases a; cases b) simp

text \<open>A Move that commits has enqueued exactly the jobs of the events it appended; one that fails has enqueued none.\<close>

theorem move_outbox:
  assumes repo: "eng_repo e = pgRepository dg" and sink: "eng_effectSink e = Some (effectSinkOf r)"
    and queue: "queueOK (reg_queue r)" and run: "MoveDetailed e cl i db = (Inr res, db')"
  obtains d where "js_jobs db' = addJobs (js_jobs db) (effectJobs d (mr_Case res) (mr_Events res))"
    and "\<exists>rr. movePlan e cl i db = Inr (d, rr)"
proof -
  from run obtain d rr c evs db1 where plan: "movePlan e cl i db = Inr (d, rr)" and per: "persist e cl rr db = (Inr (c, evs), db1)"
    and dis: "dispatch e d c evs db1 = (Inr (), db')" and res: "mr_Case res = c" "mr_Events res = evs"
    by (auto simp: MoveDetailed_def bindA_eq_Inr split: sum.splits)
  have "Dispatch r d c evs db1 = (Inr (), db')" using dis sink by (simp add: dispatch_def effectSinkOf_def)
  from Dispatch_outbox [OF queue this] have "js_jobs db' = addJobs (js_jobs db1) (effectJobs d c evs)" by simp
  also have "js_jobs db1 = js_jobs db" by (rule js_jobs_more [OF persist_more [OF repo per]])
  finally show thesis using that [of d] plan res by auto
qed

text \<open>A definition the engine accepted names only registered effects, so dispatching its events cannot fail on a name.\<close>

lemma findTransition_mem: "findTransition (TransitionsFrom d n) a = Some tr \<Longrightarrow> tr \<in> set (d_Transitions d)"
  by (auto dest!: findTransition_Some simp: TransitionsFrom_mem)

lemma effectsFor_registered:
  assumes "checkEffects e d = Inr ()" and "eng_effectSink e = Some (effectSinkOf r)" and "Validate d = []"
  shows "\<forall>name \<in> set (effectsFor d evt). HasEffect r name"
proof
  fix name assume "name \<in> set (effectsFor d evt)"
  then consider n where "Definition_Node d (ev_ToState evt) = Some n" "name \<in> set (node_Effects n)"
    | tr where "findTransition (TransitionsFrom d (ev_FromState evt)) (ev_Action evt) = Some tr" "name \<in> set (tr_Effects tr)"
  proof -
    have if_mem: "x \<in> set (if P then A @ (if Q then B else []) else []) \<Longrightarrow> x \<in> set A \<or> x \<in> set B" for x :: string and P Q A B
      by (cases P; cases Q) simp_all
    assume "name \<in> set (effectsFor d evt)"
    from if_mem [OF this [unfolded effectsFor_def]] that show thesis
      by (cases "Definition_Node d (ev_ToState evt)"; cases "findTransition (TransitionsFrom d (ev_FromState evt)) (ev_Action evt)")
        auto
  qed
  then have mem: "name \<in> (\<Union>n \<in> set (d_Nodes d). set (node_Effects n)) \<union> (\<Union>t \<in> set (d_Transitions d). set (tr_Effects t))"
  proof cases
    case (1 n)
    have "n \<in> set (d_Nodes d)" using Definition_Node_Some [OF 1(1)] by blast
    with 1(2) show ?thesis by auto
  next
    case (2 tr)
    from findTransition_mem [OF 2(1)] 2(2) show ?thesis by auto
  qed
  moreover have "name \<noteq> ''''"
    using mem assms(3) by (auto simp: Validate_wellFormed wellFormed_def nodesOK_def nodeOK_def transitionsOK_def transitionOK_def effectsOK_def)
  ultimately have "name \<in> set (EffectNames d)" by (simp add: set_EffectNames)
  with assms(1,2) show "HasEffect r name"
    by (auto simp: checkEffects_def effectSinkOf_def filter_empty_conv split: list.splits)
qed

theorem plan_total:
  assumes "checkEffects e d = Inr ()" and "eng_effectSink e = Some (effectSinkOf r)" and "Validate d = []"
  shows "plan r d c evts = Inr (effectJobs d c evts)"
proof -
  have names: "planNames r c evt names = Inr (map (jobFor c evt) names)" if "\<forall>name \<in> set names. HasEffect r name" for evt names
    using that by (induction names) auto
  show ?thesis
    by (induction evts) (simp_all add: effectJobs_def names [OF effectsFor_registered [OF assms]])
qed

section \<open>The idempotency key\<close>

lemma split_first:
  "xs @ c # ys = xs' @ c # ys' \<Longrightarrow> c \<notin> set xs \<Longrightarrow> c \<notin> set xs' \<Longrightarrow> xs = xs' \<and> ys = ys'"
proof (induction xs arbitrary: xs')
  case Nil
  then show ?case by (cases xs') auto
next
  case (Cons x xs)
  then show ?case by (cases xs') auto
qed

lemma slash_not_showInt: "CHR ''/'' \<notin> set (showInt i)"
proof -
  have "CHR ''/'' \<notin> set (digits n)" for n using digits_chars [of "CHR ''/''" n] by auto
  then show ?thesis by (simp add: showInt_def)
qed

text \<open>
  Two executions share their key only if they are the same one, as long as no effect name
  contains a slash; uuidText prints the canonical form of package uuid, which has none.
\<close>

theorem IdempotencyKey_inj:
  assumes "inj uuidText" and "\<forall>u. CHR ''/'' \<notin> set (uuidText u)"
    and "CHR ''/'' \<notin> set (rn_Effect r)" and "CHR ''/'' \<notin> set (rn_Effect r')"
    and "IdempotencyKey uuidText r = IdempotencyKey uuidText r'"
  shows "(rn_CaseID r, rn_Seq r, rn_Effect r, rn_Part r) = (rn_CaseID r', rn_Seq r', rn_Effect r', rn_Part r')"
proof -
  let ?tail = "\<lambda>r. rn_Effect r @ (if rn_Part r \<noteq> 0 then ''/'' @ showInt (rn_Part r) else [])"
  from assms(5) have "uuidText (rn_CaseID r) @ CHR ''/'' # (showInt (rn_Seq r) @ CHR ''/'' # ?tail r) =
      uuidText (rn_CaseID r') @ CHR ''/'' # (showInt (rn_Seq r') @ CHR ''/'' # ?tail r')"
    unfolding IdempotencyKey_def by (simp split del: if_split)
  from split_first [OF this] assms(2) have u: "uuidText (rn_CaseID r) = uuidText (rn_CaseID r')"
    and rest: "showInt (rn_Seq r) @ CHR ''/'' # ?tail r = showInt (rn_Seq r') @ CHR ''/'' # ?tail r'" by blast+
  from split_first [OF rest slash_not_showInt slash_not_showInt] have s: "rn_Seq r = rn_Seq r'" and tail: "?tail r = ?tail r'"
    by (auto dest: showInt_inj)
  have "rn_Effect r = rn_Effect r' \<and> rn_Part r = rn_Part r'"
  proof (cases "rn_Part r = 0")
    case True
    then have "CHR ''/'' \<notin> set (?tail r)" using assms(3) by simp
    then have "CHR ''/'' \<notin> set (?tail r')" using tail by simp
    then have "rn_Part r' = 0" by (simp split: if_splits)
    with True tail show ?thesis by simp
  next
    case False
    then have "CHR ''/'' \<in> set (?tail r)" by simp
    then have "CHR ''/'' \<in> set (?tail r')" using tail by simp
    then have False': "rn_Part r' \<noteq> 0" using assms(4) by (auto split: if_splits)
    from False False' tail have "rn_Effect r @ CHR ''/'' # showInt (rn_Part r) = rn_Effect r' @ CHR ''/'' # showInt (rn_Part r')" by simp
    from split_first [OF this assms(3,4)] show ?thesis by (auto dest: showInt_inj)
  qed
  with u s assms(1) show ?thesis by (simp add: inj_eq)
qed

text \<open>With a slash in the name of an effect the key is not unique.\<close>

lemma IdempotencyKey_collision:
  assumes "rn_Effect r = name @ ''/1''" and "rn_Part r = 0" and "r' = r\<lparr>rn_Effect := name, rn_Part := 1\<rparr>"
  shows "IdempotencyKey uuidText r = IdempotencyKey uuidText r'"
proof -
  have "showInt 1 = ''1''" by code_simp
  then show ?thesis using assms by (simp add: IdempotencyKey_def)
qed

section \<open>The attempt log\<close>

text \<open>A handler that leaves the attempt log alone, as every handler of the package does.\<close>

definition quietHandler :: "'q handler \<Rightarrow> bool" where
  "quietHandler h \<longleftrightarrow> (\<forall>enq r db. js_attempts (snd (h enq r db)) = js_attempts db)"

lemma recordAttempt_log:
  obtains "js_attempts (recordAttempt w wc row run oc cl res db) = js_attempts db"
  | a j where "js_attempts (recordAttempt w wc row run oc cl res db) = js_attempts db @ [a]"
    and "row = Some j" and "attemptKey a = (job_ID j, job_Attempt j, snoozeCount (job_Snoozes j))"
    and "attemptKey a \<notin> attemptKey ` set (js_attempts db)" and "at_Outcome a = oc" and "at_ErrorClass a = cl"
    and "at_CaseID a = rn_CaseID run" and "at_Effect a = rn_Effect run" and "1 \<le> at_Attempt a"
proof (cases "row = None \<or> \<not> wk_attemptLog w \<or> wc_uuid wc = None")
  case True
  then have "js_attempts (recordAttempt w wc row run oc cl res db) = js_attempts db"
    by (auto simp: recordAttempt_def split: option.splits)
  then show thesis by (rule that(1))
next
  case False
  then obtain j uid where j: "row = Some j" and u: "wc_uuid wc = Some uid" and l: "wk_attemptLog w" by auto
  define a where "a = \<lparr>at_ID = uid, at_CaseID = rn_CaseID run, at_Seq = rn_Seq run, at_Effect = rn_Effect run, at_Part = rn_Part run,
                 at_Attempt = job_Attempt j, at_Snooze = snoozeCount (job_Snoozes j), at_JobID = job_ID j,
                 at_StartedAt = wc_started wc, at_FinishedAt = wc_finished wc, at_Outcome = oc, at_ErrorClass = cl,
                 at_RequestID = wc_requestID wc,
                 at_TraceID = (case wk_traceIDs w of None \<Rightarrow> '''' | Some f \<Rightarrow> fst (f (wc_span wc))),
                 at_ActorKind = ac_Kind (rn_Actor run), at_ActorID = ac_ID (rn_Actor run),
                 at_ResultRef = fst res, at_ResultDigest = snd res\<rparr>"
  have eq: "recordAttempt w wc row run oc cl res db = snd (insertAttempt a db)"
    using j u l by (simp add: recordAttempt_def a_def)
  show thesis
  proof (cases "js_attempts (snd (insertAttempt a db)) = js_attempts db")
    case True
    then show thesis using that(1) eq by simp
  next
    case new: False
    then have "js_attempts (snd (insertAttempt a db)) = js_attempts db @ [a]" "attemptKey a \<notin> attemptKey ` set (js_attempts db)" "1 \<le> at_Attempt a"
      by (auto simp: insertAttempt_def split: if_splits)
    with that(2) [of a j] eq j show thesis by (simp add: a_def attemptKey_def)
  qed
qed

text \<open>
  Work appends at most one row, keyed by the job, its attempt and its snoozes; a row already there
  for that key stays as it is. With the log on, a job row and a fresh UUID, the row is there.
\<close>

definition workOutcome :: "handled \<Rightarrow> bool \<Rightarrow> jobRow option \<Rightarrow> attemptOutcomeKind \<times> string" where
  "workOutcome h known row =
     (case h of
        Handled \<Rightarrow> (OutcomeSucceeded, '''')
      | Failed e \<Rightarrow> if known then (attemptOutcome (Some e) row, errorClass (Some e)) else (OutcomeUnknownEffect, errorClass (Some e))
      | Panicked \<Rightarrow> (failedOutcome row, ''panic''))"

theorem Work_attempts:
  assumes quiet: "\<forall>h. map_of (reg_handlers (wk_registry w)) (a_Effect a) = Some h \<longrightarrow> quietHandler h"
    and work: "Work w wc a row db = (h, db')"
  shows "\<exists>rows. js_attempts db' = js_attempts db @ rows \<and> length rows \<le> 1 \<and>
    (\<forall>x \<in> set rows. (\<exists>j. row = Some j \<and> attemptKey x = (job_ID j, job_Attempt j, snoozeCount (job_Snoozes j))) \<and>
       attemptKey x \<notin> attemptKey ` set (js_attempts db) \<and> at_CaseID x = a_CaseID a \<and> at_Effect x = a_Effect a \<and>
       (at_Outcome x, at_ErrorClass x) = workOutcome h (HasEffect (wk_registry w) (a_Effect a)) row)"
proof -
  obtain oc cl res db1 where db': "db' = recordAttempt w wc row (runOf a row) oc cl res db1"
    and same: "js_attempts db1 = js_attempts db" and oc: "(oc, cl) = workOutcome h (HasEffect (wk_registry w) (a_Effect a)) row"
  proof (cases "map_of (reg_handlers (wk_registry w)) (a_Effect a)")
    case None
    with work that [of OutcomeUnknownEffect _ "('''', '''')" db] show thesis
      by (auto simp: Work_def Let_def workOutcome_def HasEffect_def)
  next
    case (Some f)
    obtain out res db1 where f: "f (Some (enqueuePartsOf (wk_registry w) a)) (runOf a row) db = ((out, res), db1)"
      by (metis prod.exhaust)
    with quiet Some have same: "js_attempts db1 = js_attempts db" unfolding quietHandler_def by (metis snd_conv)
    have "h = out \<and> db' = recordAttempt w wc row (runOf a row) (fst (workOutcome out True row)) (snd (workOutcome out True row)) res db1"
      using work Some f by (cases out) (auto simp: Work_def Let_def workOutcome_def)
    with that [OF _ same] Some show thesis by (simp add: HasEffect_def)
  qed
  show ?thesis unfolding db'
    by (rule recordAttempt_log [of w wc row "runOf a row" oc cl res db1]) (use same oc in \<open>auto simp: runOf_def\<close>)
qed

section \<open>Fan-out\<close>

lemma forA_map: "forA (\<lambda>i. f (g i)) xs = forA f (map g xs)"
  by (induction xs) auto

lemma enqueueParts_jobs:
  assumes "queueOK (reg_queue reg)" and "enqueuePartsOf reg a n db = (Inr x, db')"
  shows "db' = db\<lparr>js_jobs := addJobs (js_jobs db) (map (\<lambda>p. a\<lparr>a_Part := p\<rparr>) [1..int n])\<rparr>"
proof -
  have "enqueuePartsOf reg a n = forA (reg_queue reg) (map (\<lambda>p. a\<lparr>a_Part := p\<rparr>) [1..int n])"
    unfolding enqueuePartsOf_def by (rule forA_map)
  with assms(2) have "forA (reg_queue reg) (map (\<lambda>p. a\<lparr>a_Part := p\<rparr>) [1..int n]) db = (Inr x, db')" by simp
  then show ?thesis by (rule forA_queue [OF assms(1)])
qed

text \<open>
  A run with more than one message sends nothing itself and enqueues one job per message; the
  jobs together send every message, each its own, and a job whose message build no longer returns
  is cancelled without sending.
\<close>

lemma notify_part:
  assumes "build r = Inr (map Some msgs)" and "list_all (Message_Validate parses) msgs" and "1 \<le> rn_Part r"
  shows "notify parses cls send build enq r db =
    (if rn_Part r \<le> int (length msgs)
     then (case send (msgs ! nat (rn_Part r - 1)) of None \<Rightarrow> (Handled, [msgs ! nat (rn_Part r - 1)]) | Some e \<Rightarrow> (Failed e, []))
     else (Failed (cancelError ''*errors.errorString''), []), db)"
proof (cases "rn_Part r \<le> int (length msgs)")
  case True
  with assms(3) have "nat (rn_Part r - 1) < length msgs" by linarith
  with assms True show ?thesis
    by (simp add: notify_def sendPart_def Let_def invalidMessage_def list_all_length split: option.split)
next
  case False
  with assms show ?thesis by (simp add: notify_def sendPart_def)
qed

theorem notify_fanout:
  assumes build: "\<forall>p. build (r\<lparr>rn_Part := p\<rparr>) = Inr (map Some msgs)" and valid: "list_all (Message_Validate parses) msgs"
    and many: "1 < length msgs" and queue: "queueOK (reg_queue reg)"
    and run: "notify parses cls send build (Some (enqueuePartsOf reg a)) (r\<lparr>rn_Part := 0\<rparr>) db = ((Handled, sent), db')"
    and up: "\<forall>m \<in> set msgs. send m = None"
  shows "sent = [] \<and> js_jobs db' = addJobs (js_jobs db) (map (\<lambda>p. a\<lparr>a_Part := p\<rparr>) [1..int (length msgs)]) \<and>
    concat (map (\<lambda>p. snd (fst (notify parses cls send build enq (r\<lparr>rn_Part := p\<rparr>) db'))) [1..int (length msgs)]) = msgs"
proof -
  have ok: "\<not> list_ex (invalidMessage parses) (map Some msgs)"
    using valid by (auto simp: list_ex_iff list_all_iff invalidMessage_def)
  from run build ok many have s: "sent = []" and e: "enqueuePartsOf reg a (length msgs) db = (Inr (), db')"
    by (auto simp: notify_def split: prod.splits sum.splits)
  have send: "snd (fst (notify parses cls send build enq (r\<lparr>rn_Part := p\<rparr>) db')) = [msgs ! nat (p - 1)]" if "p \<in> set [1..int (length msgs)]" for p
  proof -
    from that have p: "1 \<le> p" "p \<le> int (length msgs)" by auto
    then have "send (msgs ! nat (p - 1)) = None" using up by simp
    with notify_part [of build "r\<lparr>rn_Part := p\<rparr>" msgs parses cls send enq db'] build valid p show ?thesis by simp
  qed
  have "concat (map (\<lambda>p. snd (fst (notify parses cls send build enq (r\<lparr>rn_Part := p\<rparr>) db'))) [1..int (length msgs)]) =
      concat (map (\<lambda>p. [msgs ! nat (p - 1)]) [1..int (length msgs)])"
    by (rule arg_cong [where f = concat], rule map_cong [OF refl], rule send)
  also have "\<dots> = map (\<lambda>p. msgs ! nat (p - 1)) [1..int (length msgs)]" by (rule concat_map_singleton)
  also have "\<dots> = msgs" by (rule nth_equalityI) simp_all
  finally show ?thesis using s enqueueParts_jobs [OF queue e] by simp
qed

end
