(* ===== verification/Idempotency.thy ===== *)
theory Idempotency
  imports Digest
begin

text \<open>
  Idempotent operations (idempotency/idempotency.go, idempotency/postgres/store.go and the table
  of idempotency/migrations): requests, the statements of the PostgreSQL store, Store.Do inside
  the transaction of the mutation, and the reservations of the HTTP layer. The second half is the
  system of concurrent requests on one table, a step relation whose steps are single statements:
  a key is held by one request at a time, and a stored response is what every retry gets.
\<close>

section \<open>Requests and responses\<close>

type_synonym header = "string \<rightharpoonup> string list"

record idemRequest =
  iq_Scope :: string
  iq_Key :: string
  iq_Fingerprint :: string

definition MaxKeyLength :: nat where
  "MaxKeyLength = 255"

definition Request_Validate :: "idemRequest \<Rightarrow> unit result" where
  "Request_Validate r =
     (if iq_Scope r = '''' then Inl (Err ErrInvalidRequest)
      else if iq_Key r = '''' then Inl (Err ErrInvalidRequest)
      else if length (iq_Key r) > MaxKeyLength then Inl (Err ErrInvalidRequest)
      else if iq_Fingerprint r = [] then Inl (Err ErrInvalidRequest)
      else if list_ex (\<lambda>c. (of_char c :: nat) < 0x20 \<or> (of_char c :: nat) > 0x7e) (iq_Key r) then Inl (Err ErrInvalidRequest)
      else Inr ())"

text \<open>A nil Header is None. A nil and an empty Body are the same bytes.\<close>

record idemResponse =
  rs_Status :: int
  rs_Header :: "header option"
  rs_Body :: string

datatype Reservation = Token uuid | Replay idemResponse

text \<open>sha is SHA-256. Each part is prefixed with its length in eight big-endian bytes.\<close>

definition lengthPrefixed :: "string \<Rightarrow> string" where
  "lengthPrefixed p = map char_of (int8send (int (length p))) @ p"

definition Fingerprint :: "(string \<Rightarrow> string) \<Rightarrow> string list \<Rightarrow> string" where
  "Fingerprint sha parts = sha (concat (map lengthPrefixed parts))"

section \<open>The table\<close>

text \<open>
  Times are microseconds, the resolution of the column type; ks_now is now() of the statement.
  A header is stored as JSON and read back as the same map.
\<close>

datatype keyStatus = KeyInProgress | KeyCompleted

record keyRow =
  kr_scope :: string
  kr_key :: string
  kr_fingerprint :: string
  kr_status :: keyStatus
  kr_response_status :: "int option"
  kr_response_header :: "header option"
  kr_response_body :: string
  kr_created_at :: int
  kr_locked_until :: "int option"
  kr_reservation :: "uuid option"
  kr_expires_at :: int

record keyStore =
  ks_now :: int
  ks_rows :: "keyRow list"

type_synonym 'q keys = "'q keyStore_scheme"

definition keyOf :: "keyRow \<Rightarrow> string \<times> string" where
  "keyOf r = (kr_scope r, kr_key r)"

definition reqKey :: "idemRequest \<Rightarrow> string \<times> string" where
  "reqKey q = (iq_Scope q, iq_Key q)"

definition rowFor :: "'q keys \<Rightarrow> idemRequest \<Rightarrow> keyRow option" where
  "rowFor s q = lookupBy keyOf (reqKey q) (ks_rows s)"

text \<open>INSERT ... ON CONFLICT (scope, key) DO UPDATE ... WHERE takeable: True when a row is returned.\<close>

definition upsertKey :: "(keyRow \<Rightarrow> bool) \<Rightarrow> keyRow \<Rightarrow> 'q keys \<Rightarrow> bool \<times> 'q keys" where
  "upsertKey takeable row s =
     (case lookupBy keyOf (keyOf row) (ks_rows s) of
        None \<Rightarrow> (True, s\<lparr>ks_rows := ks_rows s @ [row]\<rparr>)
      | Some old \<Rightarrow> if takeable old then (True, s\<lparr>ks_rows := replaceBy keyOf row (ks_rows s)\<rparr>) else (False, s))"

text \<open>Duration.Microseconds of a positive duration.\<close>

definition Microseconds :: "duration \<Rightarrow> int" where
  "Microseconds d = d div 1000"

definition DefaultTTL :: duration where
  "DefaultTTL = 24 * 3600 * 1000000000"

definition WithTTL :: "duration \<Rightarrow> duration \<Rightarrow> duration" where
  "WithTTL d ttl = (if d > 0 then d else ttl)"

definition claimRow :: "duration \<Rightarrow> idemRequest \<Rightarrow> 'q keys \<Rightarrow> keyRow" where
  "claimRow ttl q s =
     \<lparr>kr_scope = iq_Scope q, kr_key = iq_Key q, kr_fingerprint = iq_Fingerprint q, kr_status = KeyInProgress,
      kr_response_status = None, kr_response_header = None, kr_response_body = '''', kr_created_at = ks_now s,
      kr_locked_until = None, kr_reservation = None, kr_expires_at = ks_now s + Microseconds ttl\<rparr>"

definition claimSQL :: "duration \<Rightarrow> idemRequest \<Rightarrow> 'q keys \<Rightarrow> bool \<times> 'q keys" where
  "claimSQL ttl q s = upsertKey (\<lambda>r. kr_expires_at r \<le> ks_now s) (claimRow ttl q s) s"

definition reserveSQL :: "duration \<Rightarrow> duration \<Rightarrow> uuid \<Rightarrow> idemRequest \<Rightarrow> 'q keys \<Rightarrow> bool \<times> 'q keys" where
  "reserveSQL ttl lease token q s =
     upsertKey
       (\<lambda>r. kr_expires_at r \<le> ks_now s \<or>
            (kr_status r = KeyInProgress \<and> (\<exists>t. kr_locked_until r = Some t \<and> t \<le> ks_now s) \<and> kr_fingerprint r = iq_Fingerprint q))
       ((claimRow ttl q s)\<lparr>kr_locked_until := Some (ks_now s + Microseconds lease), kr_reservation := Some token\<rparr>) s"

definition existing :: "idemRequest \<Rightarrow> 'q keys \<Rightarrow> idemResponse result" where
  "existing q s =
     (case rowFor s q of
        None \<Rightarrow> Inl (Err ErrNoRows)
      | Some r \<Rightarrow>
          if kr_fingerprint r \<noteq> iq_Fingerprint q then Inl (Err ErrKeyReused)
          else case (kr_status r, kr_response_status r) of
            (KeyCompleted, Some code) \<Rightarrow>
              Inr \<lparr>rs_Status = code, rs_Header = kr_response_header r, rs_Body = kr_response_body r\<rparr>
          | _ \<Rightarrow> Inl (Err ErrInProgress))"

definition nullToken :: "uuid \<Rightarrow> uuid option" where
  "nullToken t = (if t = uuidNil then None else Some t)"

text \<open>The UPDATE of complete touches at most one row: (scope, key) is the primary key.\<close>

definition completeKey :: "idemRequest \<Rightarrow> uuid \<Rightarrow> idemResponse \<Rightarrow> ('q keys, unit) action" where
  "completeKey q token resp s =
     (case rowFor s q of
        Some r \<Rightarrow>
          if kr_fingerprint r = iq_Fingerprint q \<and> kr_status r = KeyInProgress \<and> kr_reservation r = nullToken token
          then (Inr (), s\<lparr>ks_rows := replaceBy keyOf
                 (r\<lparr>kr_status := KeyCompleted, kr_response_status := Some (rs_Status resp), kr_response_header := rs_Header resp,
                    kr_response_body := rs_Body resp, kr_locked_until := None, kr_reservation := None\<rparr>) (ks_rows s)\<rparr>)
          else (Inl (ErrText ''no longer reserved by this request''), s)
      | None \<Rightarrow> (Inl (ErrText ''no longer reserved by this request''), s))"

definition Store_Release :: "idemRequest \<Rightarrow> uuid \<Rightarrow> 'q keys \<Rightarrow> 'q keys" where
  "Store_Release q token s =
     s\<lparr>ks_rows := filter (\<lambda>r. \<not> (keyOf r = reqKey q \<and> kr_status r = KeyInProgress \<and> kr_reservation r = Some token)) (ks_rows s)\<rparr>"

definition expiredKeys :: "'q keys \<Rightarrow> nat \<Rightarrow> (string \<times> string) list" where
  "expiredKeys s n = map keyOf (take n (sort_key kr_expires_at (filter (\<lambda>r. kr_expires_at r \<le> ks_now s) (ks_rows s))))"

definition DeleteExpired :: "int \<Rightarrow> 'q keys \<Rightarrow> nat \<times> 'q keys" where
  "DeleteExpired limit s =
     (let n = nat (if limit \<le> 0 then 1000 else limit); gone = expiredKeys s n in
      (length gone, s\<lparr>ks_rows := filter (\<lambda>r. keyOf r \<notin> set gone) (ks_rows s)\<rparr>))"

section \<open>Do\<close>

text \<open>fn is the mutation: it runs on the same transaction, so on the same state.\<close>

definition Do :: "duration \<Rightarrow> idemRequest \<Rightarrow> ('q keys, idemResponse) action \<Rightarrow> ('q keys, idemResponse \<times> bool) action" where
  "Do ttl q fn s =
     (case Request_Validate q of
        Inl e \<Rightarrow> (Inl e, s)
      | Inr _ \<Rightarrow>
          (case claimSQL ttl q s of
             (False, s1) \<Rightarrow> (map_sum id (\<lambda>resp. (resp, True)) (existing q s1), s1)
           | (True, s1) \<Rightarrow>
               bindA fn (\<lambda>resp. bindA (completeKey q uuidNil resp) (\<lambda>_. returnA (resp, False))) s1))"

section \<open>Reserve, Complete, Release\<close>

text \<open>
  The statements of Reserve are separate: env is what other requests do to the table before the
  read of the conflicting row and before the next claim. The third failed attempt answers
  ErrInProgress.
\<close>

definition reserveAttempts :: nat where
  "reserveAttempts = 3"

fun reserveLoop :: "nat \<Rightarrow> (nat \<Rightarrow> 'q keys \<Rightarrow> 'q keys) \<Rightarrow> duration \<Rightarrow> duration \<Rightarrow> uuid \<Rightarrow> idemRequest \<Rightarrow> ('q keys, Reservation) action" where
  "reserveLoop 0 env ttl lease token q s = (Inl (Err ErrInProgress), s)"
| "reserveLoop (Suc n) env ttl lease token q s =
     (case reserveSQL ttl lease token q s of
        (True, s1) \<Rightarrow> (Inr (Token token), s1)
      | (False, s1) \<Rightarrow>
          (let s2 = env n s1 in
           case existing q s2 of
             Inr resp \<Rightarrow> (Inr (Replay resp), s2)
           | Inl e \<Rightarrow> if errorsIs e ErrNoRows then reserveLoop n env ttl lease token q (env n s2) else (Inl e, s2)))"

definition Reserve :: "(nat \<Rightarrow> 'q keys \<Rightarrow> 'q keys) \<Rightarrow> duration \<Rightarrow> duration \<Rightarrow> uuid \<Rightarrow> idemRequest \<Rightarrow> ('q keys, Reservation) action" where
  "Reserve env ttl lease token q s =
     (case Request_Validate q of
        Inl e \<Rightarrow> (Inl e, s)
      | Inr _ \<Rightarrow>
          if lease \<le> 0 then (Inl (Err ErrInvalidRequest), s)
          else reserveLoop reserveAttempts env ttl lease token q s)"

section \<open>What the statements keep\<close>

definition rowOKKey :: "keyRow \<Rightarrow> bool" where
  "rowOKKey r \<longleftrightarrow> (kr_status r = KeyCompleted \<longleftrightarrow> kr_response_status r \<noteq> None)"

definition keysOK :: "'q keys \<Rightarrow> bool" where
  "keysOK s \<longleftrightarrow> distinct (map keyOf (ks_rows s)) \<and> (\<forall>r \<in> set (ks_rows s). rowOKKey r)"

lemma claimRow_simps [simp]:
  "keyOf (claimRow ttl q s) = reqKey q" "kr_fingerprint (claimRow ttl q s) = iq_Fingerprint q"
  "kr_status (claimRow ttl q s) = KeyInProgress" "kr_expires_at (claimRow ttl q s) = ks_now s + Microseconds ttl"
  "kr_response_status (claimRow ttl q s) = None" "kr_reservation (claimRow ttl q s) = None"
  by (simp_all add: claimRow_def keyOf_def reqKey_def)

lemma keyOf_update [simp]:
  "keyOf (r\<lparr>kr_locked_until := a\<rparr>) = keyOf r" "keyOf (r\<lparr>kr_reservation := b\<rparr>) = keyOf r"
  "keyOf (r\<lparr>kr_status := c\<rparr>) = keyOf r" "keyOf (r\<lparr>kr_response_status := d\<rparr>) = keyOf r"
  "keyOf (r\<lparr>kr_response_header := e\<rparr>) = keyOf r" "keyOf (r\<lparr>kr_response_body := f\<rparr>) = keyOf r"
  by (simp_all add: keyOf_def)

lemma rowFor_key: "rowFor s q = Some r \<Longrightarrow> keyOf r = reqKey q \<and> r \<in> set (ks_rows s)"
  by (auto simp: rowFor_def dest: lookupBy_Some_mem)

lemma replaceBy_subset: "set (replaceBy key y xs) \<subseteq> insert y (set xs)"
  by (auto simp: replaceBy_def)

lemma keysOK_replace: "keysOK s \<Longrightarrow> rowOKKey row \<Longrightarrow> keysOK (s\<lparr>ks_rows := replaceBy keyOf row (ks_rows s)\<rparr>)"
  using replaceBy_subset [of keyOf row "ks_rows s"] by (auto simp: keysOK_def)

lemma upsertKey_keeps:
  assumes "upsertKey takeable row s = (b, s')" and "keysOK s" and "rowOKKey row"
  shows "keysOK s'" and "ks_now s' = ks_now s"
    and "reqKey q \<noteq> keyOf row \<Longrightarrow> rowFor s' q = rowFor s q"
    and "\<not> b \<Longrightarrow> s' = s"
    and "b \<Longrightarrow> reqKey q = keyOf row \<Longrightarrow> rowFor s' q = Some row"
    and "b \<Longrightarrow> reqKey q = keyOf row \<Longrightarrow> rowFor s q = Some old \<Longrightarrow> takeable old"
proof -
  have mem: "keyOf row \<in> keyOf ` set (ks_rows s) \<longleftrightarrow> lookupBy keyOf (keyOf row) (ks_rows s) \<noteq> None"
    by (simp add: lookupBy_None)
  show "keysOK s'"
  proof (cases "lookupBy keyOf (keyOf row) (ks_rows s)")
    case None
    with assms show ?thesis by (auto simp: upsertKey_def keysOK_def lookupBy_None)
  next
    case (Some old)
    with assms keysOK_replace [OF assms(2,3)] show ?thesis by (auto simp: upsertKey_def split: if_splits)
  qed
  show "ks_now s' = ks_now s" "\<not> b \<Longrightarrow> s' = s" using assms(1) by (auto simp: upsertKey_def split: option.splits if_splits)
  show "reqKey q \<noteq> keyOf row \<Longrightarrow> rowFor s' q = rowFor s q"
    using assms(1) by (auto simp: upsertKey_def rowFor_def lookupBy_append lookupBy_replaceBy split: option.splits if_splits)
  show "b \<Longrightarrow> reqKey q = keyOf row \<Longrightarrow> rowFor s' q = Some row"
    using assms(1) mem by (auto simp: upsertKey_def rowFor_def lookupBy_append lookupBy_replaceBy split: option.splits if_splits)
  show "b \<Longrightarrow> reqKey q = keyOf row \<Longrightarrow> rowFor s q = Some old \<Longrightarrow> takeable old"
    using assms(1) by (auto simp: upsertKey_def rowFor_def split: option.splits if_splits)
qed

lemma complete_Inr:
  assumes "completeKey q token resp s = (Inr u, s')"
  obtains r where "rowFor s q = Some r" and "kr_fingerprint r = iq_Fingerprint q" and "kr_status r = KeyInProgress"
    and "kr_reservation r = nullToken token"
    and "s' = s\<lparr>ks_rows := replaceBy keyOf
                 (r\<lparr>kr_status := KeyCompleted, kr_response_status := Some (rs_Status resp), kr_response_header := rs_Header resp,
                    kr_response_body := rs_Body resp, kr_locked_until := None, kr_reservation := None\<rparr>) (ks_rows s)\<rparr>"
  using assms by (auto simp: completeKey_def split: option.splits if_splits)

lemma complete_Inl: "completeKey q token resp s = (Inl e, s') \<Longrightarrow> s' = s"
  by (auto simp: completeKey_def split: option.splits if_splits)

lemma complete_keeps:
  assumes "completeKey q token resp s = (x, s')" and "keysOK s"
  shows "keysOK s'" and "ks_now s' = ks_now s" and "reqKey q' \<noteq> reqKey q \<Longrightarrow> rowFor s' q' = rowFor s q'"
proof -
  have "keysOK s' \<and> ks_now s' = ks_now s \<and> (reqKey q' \<noteq> reqKey q \<longrightarrow> rowFor s' q' = rowFor s q')"
  proof (cases x)
    case (Inl e)
    with assms show ?thesis using complete_Inl by blast
  next
    case (Inr u)
    from complete_Inr [OF assms(1) [unfolded Inr]] obtain r where r: "rowFor s q = Some r"
      and s': "s' = s\<lparr>ks_rows := replaceBy keyOf
                 (r\<lparr>kr_status := KeyCompleted, kr_response_status := Some (rs_Status resp), kr_response_header := rs_Header resp,
                    kr_response_body := rs_Body resp, kr_locked_until := None, kr_reservation := None\<rparr>) (ks_rows s)\<rparr>" by blast
    from rowFor_key [OF r] assms(2) show ?thesis unfolding s'
      by (auto intro!: keysOK_replace simp: rowFor_def lookupBy_replaceBy rowOKKey_def)
  qed
  then show "keysOK s'" "ks_now s' = ks_now s" "reqKey q' \<noteq> reqKey q \<Longrightarrow> rowFor s' q' = rowFor s q'" by blast+
qed

text \<open>A stored response is what the next claim of the same request is answered with, until the key expires.\<close>

definition stored :: "idemRequest \<Rightarrow> idemResponse \<Rightarrow> keyRow \<Rightarrow> bool" where
  "stored q resp r \<longleftrightarrow> kr_fingerprint r = iq_Fingerprint q \<and> kr_status r = KeyCompleted \<and>
     kr_response_status r = Some (rs_Status resp) \<and> kr_response_header r = rs_Header resp \<and> kr_response_body r = rs_Body resp"

lemma complete_stored:
  assumes "completeKey q token resp s = (Inr u, s')"
  obtains r r' where "rowFor s q = Some r" and "rowFor s' q = Some r'" and "stored q resp r'" and "kr_expires_at r' = kr_expires_at r"
proof -
  from complete_Inr [OF assms] obtain r where r: "rowFor s q = Some r" and fp: "kr_fingerprint r = iq_Fingerprint q"
    and s': "s' = s\<lparr>ks_rows := replaceBy keyOf
                 (r\<lparr>kr_status := KeyCompleted, kr_response_status := Some (rs_Status resp), kr_response_header := rs_Header resp,
                    kr_response_body := rs_Body resp, kr_locked_until := None, kr_reservation := None\<rparr>) (ks_rows s)\<rparr>" by blast
  from rowFor_key [OF r] have "keyOf r = reqKey q" "reqKey q \<in> keyOf ` set (ks_rows s)" by force+
  then have "rowFor s' q = Some (r\<lparr>kr_status := KeyCompleted, kr_response_status := Some (rs_Status resp), kr_response_header := rs_Header resp,
                    kr_response_body := rs_Body resp, kr_locked_until := None, kr_reservation := None\<rparr>)"
    unfolding s' by (simp add: rowFor_def lookupBy_replaceBy)
  then show thesis by (rule that [OF r]) (simp_all add: stored_def fp)
qed

lemma existing_stored: "rowFor s q = Some r \<Longrightarrow> stored q resp r \<Longrightarrow> existing q s = Inr resp"
  by (simp add: existing_def stored_def)

lemma upsertKey_held:
  "lookupBy keyOf (keyOf row) (ks_rows s) = Some old \<Longrightarrow> \<not> takeable old \<Longrightarrow> upsertKey takeable row s = (False, s)"
  by (simp add: upsertKey_def)

lemma Do_replays:
  assumes "Request_Validate q = Inr ()" and "rowFor s q = Some r" and "stored q resp r" and "ks_now s < kr_expires_at r"
  shows "Do ttl q fn s = (Inr (resp, True), s)"
  using assms upsertKey_held [of "claimRow ttl q s" s r "\<lambda>r. kr_expires_at r \<le> ks_now s"]
  by (simp add: Do_def claimSQL_def rowFor_def existing_stored)

lemma reserve_held:
  assumes "rowFor s q = Some r" and "ks_now s < kr_expires_at r"
    and "kr_status r = KeyCompleted \<or> kr_fingerprint r \<noteq> iq_Fingerprint q \<or> (\<forall>t. kr_locked_until r = Some t \<longrightarrow> ks_now s < t)"
  shows "reserveSQL ttl lease token q s = (False, s)"
  unfolding reserveSQL_def
  by (rule upsertKey_held [of _ _ r]) (use assms in \<open>auto simp: rowFor_def\<close>)

lemma Reserve_replays:
  assumes "Request_Validate q = Inr ()" and "0 < lease" and "rowFor s q = Some r" and "stored q resp r" and "ks_now s < kr_expires_at r"
  shows "Reserve (\<lambda>_. id) ttl lease token q s = (Inr (Replay resp), s)"
  using assms reserve_held [OF assms(3,5), of ttl lease token]
  by (simp add: Reserve_def reserveAttempts_def numeral_3_eq_3 existing_stored stored_def Let_def)

lemma Reserve_reused:
  assumes "Request_Validate q = Inr ()" and "0 < lease" and "rowFor s q = Some r" and "ks_now s < kr_expires_at r"
    and "kr_fingerprint r \<noteq> iq_Fingerprint q"
  shows "Reserve (\<lambda>_. id) ttl lease token q s = (Inl (Err ErrKeyReused), s)"
  using assms reserve_held [OF assms(3,4), of ttl lease token]
  by (simp add: Reserve_def reserveAttempts_def numeral_3_eq_3 existing_def Let_def)

section \<open>Concurrent requests on one table\<close>

text \<open>A request that holds a reservation, as its process remembers it.\<close>

record idemHolder =
  h_req :: idemRequest
  h_token :: uuid
  h_until :: int
  h_expires :: int

definition leaseLive :: "'q keys \<Rightarrow> idemHolder \<Rightarrow> bool" where
  "leaseLive s h \<longleftrightarrow> ks_now s < h_until h \<and> ks_now s < h_expires h"

text \<open>The mutations Do runs are of other tables.\<close>

definition mutation :: "('q keys, idemResponse) action \<Rightarrow> bool" where
  "mutation fn \<longleftrightarrow> (\<forall>s. ks_rows (snd (fn s)) = ks_rows s \<and> ks_now (snd (fn s)) = ks_now s)"

text \<open>
  One step is one statement (a whole transaction for Do), of any request, in any order; time
  passes in between, and a process may die holding a reservation.
\<close>

inductive idemStep :: "duration \<Rightarrow> 'q keys \<times> idemHolder list \<Rightarrow> 'q keys \<times> idemHolder list \<Rightarrow> bool" for ttl where
  tick: "ks_now s \<le> t \<Longrightarrow> idemStep ttl (s, hs) (s\<lparr>ks_now := t\<rparr>, hs)"
| take: "reserveSQL ttl lease token q s = (True, s') \<Longrightarrow> token \<noteq> uuidNil \<Longrightarrow> token \<notin> h_token ` set hs \<Longrightarrow>
    idemStep ttl (s, hs) (s', \<lparr>h_req = q, h_token = token, h_until = ks_now s + Microseconds lease,
                              h_expires = ks_now s + Microseconds ttl\<rparr> # hs)"
| finish: "h \<in> set hs \<Longrightarrow> completeKey (h_req h) (h_token h) resp s = (x, s') \<Longrightarrow> idemStep ttl (s, hs) (s', remove1 h hs)"
| free: "h \<in> set hs \<Longrightarrow> idemStep ttl (s, hs) (Store_Release (h_req h) (h_token h) s, remove1 h hs)"
| crash: "h \<in> set hs \<Longrightarrow> idemStep ttl (s, hs) (s, remove1 h hs)"
| once: "mutation fn \<Longrightarrow> Do ttl q fn s = (Inr x, s') \<Longrightarrow> idemStep ttl (s, hs) (s', hs)"
| purge: "idemStep ttl (s, hs) (snd (DeleteExpired limit s), hs)"

definition holds :: "'q keys \<Rightarrow> idemHolder \<Rightarrow> bool" where
  "holds s h \<longleftrightarrow> (\<exists>r. rowFor s (h_req h) = Some r \<and> kr_status r = KeyInProgress \<and> kr_reservation r = Some (h_token h) \<and>
     kr_locked_until r = Some (h_until h) \<and> kr_expires_at r = h_expires h)"

definition idemInv :: "'q keys \<times> idemHolder list \<Rightarrow> bool" where
  "idemInv st \<longleftrightarrow> keysOK (fst st) \<and> distinct (map h_token (snd st)) \<and>
     (\<forall>h \<in> set (snd st). h_token h \<noteq> uuidNil \<and> (leaseLive (fst st) h \<longrightarrow> holds (fst st) h))"

text \<open>Do, row by row: either the key was free and is now completed, or nothing changed.\<close>

lemma Do_rows:
  assumes "mutation fn" and "Do ttl q fn s = (Inr x, s')" and "keysOK s"
  shows "keysOK s'" and "ks_now s' = ks_now s" and "reqKey q' \<noteq> reqKey q \<Longrightarrow> rowFor s' q' = rowFor s q'"
    and "ks_rows s' = ks_rows s \<or> (\<forall>r. rowFor s q = Some r \<longrightarrow> kr_expires_at r \<le> ks_now s)"
proof -
  from assms(2) have v: "Request_Validate q = Inr ()" by (cases "Request_Validate q") (auto simp: Do_def)
  obtain b s1 where cl: "claimSQL ttl q s = (b, s1)" by (cases "claimSQL ttl q s")
  note up = upsertKey_keeps [OF cl [unfolded claimSQL_def] assms(3)]
  have row: "rowOKKey (claimRow ttl q s)" by (simp add: rowOKKey_def)
  have "keysOK s' \<and> ks_now s' = ks_now s \<and> (reqKey q' \<noteq> reqKey q \<longrightarrow> rowFor s' q' = rowFor s q') \<and>
      (ks_rows s' = ks_rows s \<or> (\<forall>r. rowFor s q = Some r \<longrightarrow> kr_expires_at r \<le> ks_now s))"
  proof (cases b)
    case False
    with assms cl v up(4) [OF row] show ?thesis by (auto simp: Do_def)
  next
    case True
    with assms(2) cl v obtain resp s2 where fn: "fn s1 = (Inr resp, s2)" and co: "completeKey q uuidNil resp s2 = (Inr (), s')"
      by (auto simp: Do_def bindA_eq_Inr)
    have s2: "ks_rows s2 = ks_rows s1" "ks_now s2 = ks_now s1" using assms(1) fn unfolding mutation_def by (metis snd_conv)+
    then have ok2: "keysOK s2" using up(1) [OF row] by (simp add: keysOK_def)
    have "rowFor s2 q' = rowFor s1 q'" using s2 by (simp add: rowFor_def)
    with complete_keeps(1,2) [OF co ok2] complete_keeps(3) [OF co ok2, of q'] s2 up(2,3) [OF row] up(6) [OF row True] show ?thesis
      by (auto simp: rowFor_def)
  qed
  then show "keysOK s'" "ks_now s' = ks_now s" "reqKey q' \<noteq> reqKey q \<Longrightarrow> rowFor s' q' = rowFor s q'"
    "ks_rows s' = ks_rows s \<or> (\<forall>r. rowFor s q = Some r \<longrightarrow> kr_expires_at r \<le> ks_now s)" by blast+
qed

lemma filter_lookup:
  "distinct (map key xs) \<Longrightarrow> lookupBy key k (filter P xs) = (case lookupBy key k xs of Some x \<Rightarrow> if P x then Some x else None | None \<Rightarrow> None)"
proof (induction xs)
  case (Cons x xs)
  have "k \<notin> key ` set xs \<Longrightarrow> lookupBy key k xs = None" by (simp add: lookupBy_None)
  moreover have "k \<notin> key ` set xs \<Longrightarrow> lookupBy key k (filter P xs) = None" by (auto simp: lookupBy_None)
  ultimately show ?case using Cons by (auto split: option.splits)
qed simp

lemma keysOK_filter: "keysOK s \<Longrightarrow> keysOK (s\<lparr>ks_rows := filter P (ks_rows s)\<rparr>)"
  by (auto simp: keysOK_def distinct_map_filter)

lemma rowFor_filter:
  "keysOK s \<Longrightarrow> rowFor (s\<lparr>ks_rows := filter P (ks_rows s)\<rparr>) q = (case rowFor s q of Some r \<Rightarrow> if P r then Some r else None | None \<Rightarrow> None)"
  by (simp add: rowFor_def keysOK_def filter_lookup)

lemma purge_rows:
  assumes "keysOK s"
  shows "keysOK (snd (DeleteExpired limit s))" and "ks_now (snd (DeleteExpired limit s)) = ks_now s"
    and "rowFor s q = Some r \<Longrightarrow> ks_now s < kr_expires_at r \<Longrightarrow> rowFor (snd (DeleteExpired limit s)) q = Some r"
    and "rowFor (snd (DeleteExpired limit s)) q = Some r \<Longrightarrow> rowFor s q = Some r"
proof -
  have gone: "kr_expires_at r \<le> ks_now s" if "keyOf r \<in> set (expiredKeys s n)" "r \<in> set (ks_rows s)" for r n
  proof -
    from that(1) obtain r' where r': "r' \<in> set (ks_rows s)" "keyOf r' = keyOf r" "kr_expires_at r' \<le> ks_now s"
      by (auto simp: expiredKeys_def dest!: in_set_takeD)
    with assms that(2) have "r' = r" by (auto simp: keysOK_def distinct_map inj_on_def)
    with r'(3) show ?thesis by simp
  qed
  show "keysOK (snd (DeleteExpired limit s))" "ks_now (snd (DeleteExpired limit s)) = ks_now s"
    using keysOK_filter [OF assms] by (simp_all add: DeleteExpired_def Let_def)
  show "rowFor (snd (DeleteExpired limit s)) q = Some r" if row: "rowFor s q = Some r" and live: "ks_now s < kr_expires_at r"
  proof -
    have "keyOf r \<notin> set (expiredKeys s n)" for n using gone [of r n] rowFor_key [OF row] live by auto
    with row show ?thesis by (simp add: DeleteExpired_def Let_def rowFor_filter [OF assms])
  qed
  show "rowFor (snd (DeleteExpired limit s)) q = Some r \<Longrightarrow> rowFor s q = Some r"
    by (auto simp: DeleteExpired_def Let_def rowFor_filter [OF assms] split: option.splits if_splits)
qed

lemma Release_rows:
  assumes "keysOK s"
  shows "keysOK (Store_Release q token s)" and "ks_now (Store_Release q token s) = ks_now s"
    and "rowFor s q' = Some r \<Longrightarrow> kr_status r = KeyCompleted \<or> kr_reservation r \<noteq> Some token \<Longrightarrow> rowFor (Store_Release q token s) q' = Some r"
  using keysOK_filter [OF assms] rowFor_filter [OF assms, of _ q'] by (auto simp: Store_Release_def)

lemma idemStep_clock: "idemStep ttl st st' \<Longrightarrow> keysOK (fst st) \<Longrightarrow> ks_now (fst st) \<le> ks_now (fst st')"
proof (induction rule: idemStep.induct)
  case (take lease token q s s' hs)
  then show ?case by (auto simp: reserveSQL_def upsertKey_def split: option.splits if_splits)
next
  case (finish h hs resp s x s')
  from complete_keeps(2) [OF finish(2)] finish(3) show ?case by simp
next
  case (once fn q s x s' hs)
  from Do_rows(2) [OF once(1,2)] once(3) show ?case by simp
qed (simp_all add: Store_Release_def DeleteExpired_def Let_def)

lemma holds_same: "rowFor s' (h_req h) = rowFor s (h_req h) \<Longrightarrow> holds s' h = holds s h"
  by (simp add: holds_def)

lemma take_rows:
  assumes "reserveSQL ttl lease token q s = (True, s')" and "keysOK s"
  shows "keysOK s'" and "ks_now s' = ks_now s" and "reqKey q' \<noteq> reqKey q \<Longrightarrow> rowFor s' q' = rowFor s q'"
    and "rowFor s' q = Some ((claimRow ttl q s)\<lparr>kr_locked_until := Some (ks_now s + Microseconds lease), kr_reservation := Some token\<rparr>)"
    and "rowFor s q = Some old \<Longrightarrow> kr_expires_at old \<le> ks_now s \<or>
      (kr_status old = KeyInProgress \<and> (\<exists>t. kr_locked_until old = Some t \<and> t \<le> ks_now s) \<and> kr_fingerprint old = iq_Fingerprint q)"
proof -
  have row: "rowOKKey ((claimRow ttl q s)\<lparr>kr_locked_until := Some (ks_now s + Microseconds lease), kr_reservation := Some token\<rparr>)"
    by (simp add: rowOKKey_def)
  note up = upsertKey_keeps [OF assms(1) [unfolded reserveSQL_def] assms(2) row]
  show "keysOK s'" "ks_now s' = ks_now s" by (fact up(1), fact up(2))
  show "reqKey q' \<noteq> reqKey q \<Longrightarrow> rowFor s' q' = rowFor s q'" by (rule up(3)) simp
  show "rowFor s' q = Some ((claimRow ttl q s)\<lparr>kr_locked_until := Some (ks_now s + Microseconds lease), kr_reservation := Some token\<rparr>)"
    by (rule up(5)) simp_all
  show "kr_expires_at old \<le> ks_now s \<or>
      (kr_status old = KeyInProgress \<and> (\<exists>t. kr_locked_until old = Some t \<and> t \<le> ks_now s) \<and> kr_fingerprint old = iq_Fingerprint q)"
    if "rowFor s q = Some old" by (rule up(6) [OF _ _ that]) simp_all
qed

text \<open>When a holder leaves, the others keep what they hold if the step kept it.\<close>

lemma drop_holder:
  assumes "idemInv (s, hs)" and "h \<in> set hs" and "keysOK s'" and "ks_now s' = ks_now s"
    and "\<And>k. k \<in> set hs \<Longrightarrow> h_token k \<noteq> h_token h \<Longrightarrow> holds s k \<Longrightarrow> holds s' k"
  shows "idemInv (s', remove1 h hs)"
proof -
  have dist: "distinct (map h_token hs)" using assms(1) by (simp add: idemInv_def)
  then have sub: "set (remove1 h hs) = set hs - {h}" by (simp add: distinct_map)
  have "distinct (map h_token (remove1 h hs))"
    using dist by (simp add: distinct_map inj_on_diff sub)
  moreover have "h_token k \<noteq> h_token h" if "k \<in> set hs - {h}" for k
    using that dist assms(2) by (auto simp: distinct_map inj_on_def)
  ultimately show ?thesis using assms sub by (auto simp: idemInv_def leaseLive_def)
qed

lemma keep_holders:
  assumes "idemInv (s, hs)" and "keysOK s'" and "ks_now s' = ks_now s"
    and "\<And>k. k \<in> set hs \<Longrightarrow> leaseLive s k \<Longrightarrow> holds s k \<Longrightarrow> holds s' k"
  shows "idemInv (s', hs)"
  using assms by (auto simp: idemInv_def leaseLive_def)

text \<open>A live holder's row is not taken, completed, released or deleted by anybody else.\<close>

lemma idemStep_inv:
  assumes "idemStep ttl st st'" and "idemInv st"
  shows "idemInv st'"
  using assms
proof (induction rule: idemStep.induct)
  case (tick s t hs)
  then show ?case by (auto simp: idemInv_def keysOK_def leaseLive_def holds_def rowFor_def)
next
  case (take lease token q s s' hs)
  from take.prems have ok: "keysOK s" by (simp add: idemInv_def)
  note rows = take_rows [OF take(1) ok]
  have "holds s' h" if "h \<in> set hs" "leaseLive s h" for h
  proof (cases "reqKey (h_req h) = reqKey q")
    case True
    from take.prems that have "holds s h" by (auto simp: idemInv_def)
    then obtain r where r: "rowFor s (h_req h) = Some r" "kr_locked_until r = Some (h_until h)" "kr_expires_at r = h_expires h"
      by (auto simp: holds_def)
    from True r(1) have "rowFor s q = Some r" by (simp add: rowFor_def)
    from rows(5) [OF this] r that(2) show ?thesis by (auto simp: leaseLive_def)
  next
    case False
    from rows(3) [OF False] have "holds s' h = holds s h" by (rule holds_same)
    with take.prems that show ?thesis by (auto simp: idemInv_def)
  qed
  moreover have "holds s' \<lparr>h_req = q, h_token = token, h_until = ks_now s + Microseconds lease, h_expires = ks_now s + Microseconds ttl\<rparr>"
    using rows(4) by (simp add: holds_def)
  ultimately show ?case using take rows(1,2) by (auto simp: idemInv_def leaseLive_def)
next
  case (finish h hs resp s x s')
  from finish.prems have ok: "keysOK s" by (simp add: idemInv_def)
  show ?case
  proof (rule drop_holder [OF finish.prems finish(1) complete_keeps(1,2) [OF finish(2) ok]])
    fix k assume neq: "h_token k \<noteq> h_token h" and hk: "holds s k"
    show "holds s' k"
    proof (cases "reqKey (h_req k) = reqKey (h_req h) \<and> (\<exists>u. x = Inr u)")
      case True
      then obtain u where x: "x = Inr u" by blast
      from complete_Inr [OF finish(2) [unfolded x]] obtain r where r: "rowFor s (h_req h) = Some r" "kr_reservation r = nullToken (h_token h)"
        by blast
      from True r(1) have "rowFor s (h_req k) = Some r" by (simp add: rowFor_def)
      with hk r(2) neq show ?thesis by (auto simp: holds_def nullToken_def split: if_splits)
    next
      case False
      then have "rowFor s' (h_req k) = rowFor s (h_req k)"
        using complete_keeps(3) [OF finish(2) ok] finish(2) by (cases x) (auto dest: complete_Inl)
      with hk holds_same show ?thesis by blast
    qed
  qed
next
  case (free h hs s)
  from free.prems have ok: "keysOK s" by (simp add: idemInv_def)
  show ?case
  proof (rule drop_holder [OF free.prems free(1) Release_rows(1,2) [OF ok]])
    fix k assume "h_token k \<noteq> h_token h" and "holds s k"
    then obtain r where r: "rowFor s (h_req k) = Some r" "kr_reservation r \<noteq> Some (h_token h)" by (auto simp: holds_def)
    from Release_rows(3) [OF ok r(1), of "h_token h" "h_req h"] r(2) have "rowFor (Store_Release (h_req h) (h_token h) s) (h_req k) = Some r" by blast
    with r(1) \<open>holds s k\<close> show "holds (Store_Release (h_req h) (h_token h) s) k" by (simp add: holds_def)
  qed
next
  case (crash h hs s)
  from crash.prems have ok: "keysOK s" by (simp add: idemInv_def)
  show ?case by (rule drop_holder [OF crash.prems crash(1) ok refl])
next
  case (once fn q s x s' hs)
  from once.prems have ok: "keysOK s" by (simp add: idemInv_def)
  note rows = Do_rows [OF once(1,2) ok]
  show ?case
  proof (rule keep_holders [OF once.prems rows(1,2)])
    fix k assume live: "leaseLive s k" and hk: "holds s k"
    then obtain r where r: "rowFor s (h_req k) = Some r" "kr_expires_at r = h_expires k" by (auto simp: holds_def)
    have "rowFor s' (h_req k) = rowFor s (h_req k)"
    proof (cases "reqKey (h_req k) = reqKey q")
      case True
      then have "rowFor s q = Some r" using r(1) by (simp add: rowFor_def)
      with rows(4) live r(2) have "ks_rows s' = ks_rows s" by (auto simp: leaseLive_def)
      then show ?thesis by (simp add: rowFor_def)
    qed (rule rows(3))
    with hk holds_same show "holds s' k" by blast
  qed
next
  case (purge s hs limit)
  from purge.prems have ok: "keysOK s" by (simp add: idemInv_def)
  show ?case
  proof (rule keep_holders [OF purge.prems purge_rows(1,2) [OF ok]])
    fix k assume live: "leaseLive s k" and hk: "holds s k"
    then obtain r where r: "rowFor s (h_req k) = Some r" "ks_now s < kr_expires_at r" by (auto simp: holds_def leaseLive_def)
    from purge_rows(3) [OF ok r] r(1) hk show "holds (snd (DeleteExpired limit s)) k" by (simp add: holds_def)
  qed
qed

lemma idemSteps_inv: "(idemStep ttl)\<^sup>*\<^sup>* st st' \<Longrightarrow> idemInv st \<Longrightarrow> idemInv st'"
  by (induction rule: rtranclp_induct) (auto intro: idemStep_inv)

text \<open>
  Mutual exclusion: in every state the requests can reach, at most one of them has a live lease on
  a key, and the table says which one.
\<close>

theorem idem_exclusive:
  assumes "(idemStep ttl)\<^sup>*\<^sup>* (s0, []) (s, hs)" and "keysOK s0" and "h \<in> set hs" and "k \<in> set hs"
    and "reqKey (h_req h) = reqKey (h_req k)" and "leaseLive s h" and "leaseLive s k"
  shows "h = k" and "holds s h"
proof -
  have inv: "idemInv (s, hs)" by (rule idemSteps_inv [OF assms(1)]) (simp add: idemInv_def assms(2))
  from inv assms(3,6) show "holds s h" by (auto simp: idemInv_def)
  then obtain r where r: "rowFor s (h_req h) = Some r" "kr_reservation r = Some (h_token h)" by (auto simp: holds_def)
  from inv assms(4,7) obtain r' where r': "rowFor s (h_req k) = Some r'" "kr_reservation r' = Some (h_token k)"
    by (auto simp: idemInv_def holds_def)
  from r r' assms(5) have "h_token h = h_token k" by (simp add: rowFor_def)
  with inv assms(3,4) show "h = k" by (auto simp: idemInv_def distinct_map inj_on_def)
qed

text \<open>A stored response stays until its key expires, whatever the requests do.\<close>

lemma idemStep_stored:
  assumes "idemStep ttl st st'" and "keysOK (fst st)" and "rowFor (fst st) q = Some r" and "stored q resp r"
    and "ks_now (fst st') < kr_expires_at r"
  shows "keysOK (fst st') \<and> rowFor (fst st') q = Some r"
  using assms
proof (induction rule: idemStep.induct)
  case (tick s t hs)
  then show ?case by (simp add: keysOK_def rowFor_def)
next
  case (take lease token q' s s' hs)
  then have ok: "keysOK s" and row: "rowFor s q = Some r" by simp_all
  note rows = take_rows [OF take(1) ok]
  have "reqKey q \<noteq> reqKey q'"
  proof
    assume "reqKey q = reqKey q'"
    then have "rowFor s q' = Some r" using row by (simp add: rowFor_def)
    from rows(5) [OF this] take.prems rows(2) show False by (auto simp: stored_def)
  qed
  with rows(1,3) row show ?case by simp
next
  case (finish h hs resp' s x s')
  then have ok: "keysOK s" and row: "rowFor s q = Some r" by simp_all
  have "s' = s" if "reqKey q = reqKey (h_req h)"
  proof (cases x)
    case (Inl e)
    with finish(2) show ?thesis by (auto dest: complete_Inl)
  next
    case (Inr u)
    from complete_Inr [OF finish(2) [unfolded Inr]] obtain r' where "rowFor s (h_req h) = Some r'" "kr_status r' = KeyInProgress" by blast
    with row that finish.prems show ?thesis by (auto simp: rowFor_def stored_def)
  qed
  then have "rowFor s' q = Some r"
    using complete_keeps(3) [OF finish(2) ok, of q] row by (cases "reqKey q = reqKey (h_req h)") simp_all
  with complete_keeps(1) [OF finish(2) ok] show ?case by simp
next
  case (free h hs s)
  then have ok: "keysOK s" and row: "rowFor s q = Some r" by simp_all
  have "kr_status r = KeyCompleted" using free.prems by (simp add: stored_def)
  with Release_rows(1) [OF ok] Release_rows(3) [OF ok row] show ?case by simp
next
  case (once fn q' s x s' hs)
  then have ok: "keysOK s" and row: "rowFor s q = Some r" by simp_all
  note rows = Do_rows [OF once(1,2) ok]
  have "rowFor s' q = rowFor s q"
  proof (cases "reqKey q = reqKey q'")
    case True
    then have "rowFor s q' = Some r" using row by (simp add: rowFor_def)
    with rows(2,4) once.prems have "ks_rows s' = ks_rows s" by auto
    then show ?thesis by (simp add: rowFor_def)
  qed (rule rows(3))
  with rows(1) row show ?case by simp
next
  case (purge s hs limit)
  then have ok: "keysOK s" and row: "rowFor s q = Some r" by simp_all
  from purge.prems purge_rows(2) [OF ok] have "ks_now s < kr_expires_at r" by simp
  with purge_rows(1) [OF ok] purge_rows(3) [OF ok row] show ?case by simp
qed simp

lemma idemStep_keysOK: "idemStep ttl st st' \<Longrightarrow> keysOK (fst st) \<Longrightarrow> keysOK (fst st')"
proof (induction rule: idemStep.induct)
  case (tick s t hs)
  then show ?case by (simp add: keysOK_def)
next
  case (take lease token q s s' hs)
  from take_rows(1) [OF take(1)] take(4) show ?case by simp
next
  case (finish h hs resp s x s')
  from complete_keeps(1) [OF finish(2)] finish(3) show ?case by simp
next
  case (once fn q s x s' hs)
  from Do_rows(1) [OF once(1,2)] once(3) show ?case by simp
next
  case (purge s hs limit)
  from purge_rows(1) [of s limit] purge show ?case by simp
qed (simp_all add: Release_rows(1))

lemma idemSteps_keysOK: "(idemStep ttl)\<^sup>*\<^sup>* st st' \<Longrightarrow> keysOK (fst st) \<Longrightarrow> keysOK (fst st')"
  by (induction rule: rtranclp_induct) (auto intro: idemStep_keysOK)

lemma idemSteps_stored:
  assumes "(idemStep ttl)\<^sup>*\<^sup>* st st'" and "keysOK (fst st)" and "rowFor (fst st) q = Some r" and "stored q resp r"
    and "ks_now (fst st') < kr_expires_at r"
  shows "keysOK (fst st') \<and> rowFor (fst st') q = Some r"
  using assms(1,5)
proof (induction rule: rtranclp_induct)
  case base
  with assms show ?case by simp
next
  case (step st1 st2)
  have inv: "keysOK (fst st1)" by (rule idemSteps_keysOK [OF step(1) assms(2)])
  have "ks_now (fst st1) < kr_expires_at r" using idemStep_clock [OF step(2) inv] step.prems by simp
  with step.IH have "rowFor (fst st1) q = Some r" by simp
  from idemStep_stored [OF step(2) inv this assms(4) step.prems] show ?case .
qed

text \<open>
  Exactly one response per key: once a request stored its response, every later request with the
  same key is answered from the store until the key expires. The same content replays it, another
  content is refused, and no handler runs.
\<close>

theorem idem_one_response:
  assumes "keysOK s0" and "(idemStep ttl)\<^sup>*\<^sup>* (s0, []) (s, hs)" and "completeKey q token resp s = (Inr u, s1)"
    and "(idemStep ttl)\<^sup>*\<^sup>* (s1, hs') (s2, hs2)" and "rowFor s q = Some r" and "ks_now s2 < kr_expires_at r"
    and "Request_Validate q' = Inr ()" and "reqKey q' = reqKey q" and "0 < lease"
  shows "Reserve (\<lambda>_. id) ttl lease t q' s2 =
    (if iq_Fingerprint q' = iq_Fingerprint q then Inr (Replay resp) else Inl (Err ErrKeyReused), s2)"
proof -
  have ok: "keysOK s" using idemSteps_inv [OF assms(2)] assms(1) by (simp add: idemInv_def)
  from complete_stored [OF assms(3)] assms(5) obtain r' where r': "rowFor s1 q = Some r'" "stored q resp r'" "kr_expires_at r' = kr_expires_at r"
    by (metis option.inject)
  have ok1: "keysOK s1" by (rule complete_keeps(1) [OF assms(3) ok])
  from idemSteps_stored [OF assms(4), of q r' resp] ok1 r' assms(6) have r2: "rowFor s2 q = Some r'" by simp
  then have r2': "rowFor s2 q' = Some r'" using assms(8) by (simp add: rowFor_def)
  have live: "ks_now s2 < kr_expires_at r'" using assms(6) r'(3) by simp
  show ?thesis
  proof (cases "iq_Fingerprint q' = iq_Fingerprint q")
    case True
    then have "stored q' resp r'" using r'(2) by (simp add: stored_def)
    from Reserve_replays [OF assms(7,9) r2' this live] True show ?thesis by simp
  next
    case False
    then have "kr_fingerprint r' \<noteq> iq_Fingerprint q'" using r'(2) by (auto simp: stored_def)
    from Reserve_reused [OF assms(7,9) r2' live this] False show ?thesis by simp
  qed
qed

section \<open>The fingerprint\<close>

lemma bytesBE_bytes: "b \<in> set (bytesBE n v) \<Longrightarrow> b < 256"
  by (induction n arbitrary: v) (auto simp: nat_less_iff)

lemma map_char_of_inj:
  assumes "map char_of xs = map char_of (ys :: nat list)" and "\<forall>x \<in> set xs \<union> set ys. x < 256"
  shows "xs = ys"
proof -
  have id: "map of_char (map char_of zs) = zs" if "\<forall>z \<in> set zs. z < 256" for zs :: "nat list"
    using that by (induction zs) (auto simp: of_char_of)
  from assms(1) have "map of_char (map char_of xs) = (map of_char (map char_of ys) :: nat list)" by simp
  with id [of xs] id [of ys] assms(2) show ?thesis by simp
qed

lemma lengthPrefixed_split:
  assumes "lengthPrefixed p @ x = lengthPrefixed p' @ y" and "length p < 2 ^ 63" and "length p' < 2 ^ 63"
  shows "p = p' \<and> x = y"
proof -
  have len: "length (int8send v) = 8" for v by (simp add: int8send_def)
  have "map char_of (int8send (int (length p))) = (map char_of (int8send (int (length p'))) :: string)"
    using arg_cong [OF assms(1), of "take 8"] by (simp add: lengthPrefixed_def len)
  then have "int8send (int (length p)) = int8send (int (length p'))"
    by (rule map_char_of_inj) (auto simp: int8send_def dest: bytesBE_bytes)
  then have "int (length p) = int (length p')"
    using assms(2,3) by (intro int8send_inj) (auto simp: zless_nat_eq_int_zless [symmetric] nat_power_eq)
  with assms(1) show ?thesis by (simp add: lengthPrefixed_def)
qed

theorem fingerprint_input_inj:
  assumes "concat (map lengthPrefixed ps) = concat (map lengthPrefixed qs)" and "\<forall>p \<in> set ps \<union> set qs. length p < 2 ^ 63"
  shows "ps = qs"
  using assms
proof (induction ps arbitrary: qs)
  case Nil
  then show ?case by (cases qs) (auto simp: lengthPrefixed_def int8send_def dest: arg_cong [of _ _ length])
next
  case (Cons p ps)
  then obtain q qs' where qs: "qs = q # qs'"
    by (cases qs) (auto simp: lengthPrefixed_def int8send_def dest: arg_cong [of _ _ length])
  from Cons.prems qs have "lengthPrefixed p @ concat (map lengthPrefixed ps) = lengthPrefixed q @ concat (map lengthPrefixed qs')" by simp
  from lengthPrefixed_split [OF this] Cons.prems(2) qs have "p = q" "concat (map lengthPrefixed ps) = concat (map lengthPrefixed qs')" by auto
  with Cons.IH [of qs'] Cons.prems(2) qs show ?case by simp
qed

end
