(* ===== verification/Idempotency_Http.thy ===== *)
theory Idempotency_Http
  imports Idempotency Text_Values
begin

text \<open>
  The HTTP layer of the idempotent operations (idempotency/httpx/middleware.go): the response
  recorder, what is kept of a response, and serve, which reserves the key, runs the handler and
  stores or releases. The middleware knows its store through an interface, the locale below; the
  PostgreSQL store is its interpretation.
\<close>

section \<open>Response writers\<close>

text \<open>
  A net/http ResponseWriter: the header map the handler edits, and what was sent. The first status
  that is not informational is sent with a copy of the header; later ones are ignored. A status
  that forbids a body drops the writes.
\<close>

record writer =
  wr_header :: header
  wr_status :: "int option"
  wr_sent :: header
  wr_body :: string

definition bodyAllowed :: "int \<Rightarrow> bool" where
  "bodyAllowed code \<longleftrightarrow> \<not> (100 \<le> code \<and> code \<le> 199) \<and> code \<noteq> 204 \<and> code \<noteq> 304"

definition sendHeader :: "int \<Rightarrow> writer \<Rightarrow> writer" where
  "sendHeader code w =
     (if wr_status w \<noteq> None \<or> (100 \<le> code \<and> code \<le> 199 \<and> code \<noteq> 101) then w
      else w\<lparr>wr_status := Some code, wr_sent := wr_header w\<rparr>)"

definition sendBody :: "string \<Rightarrow> writer \<Rightarrow> writer" where
  "sendBody b w =
     (let w1 = sendHeader 200 w in
      if bodyAllowed (the (wr_status w1)) then w1\<lparr>wr_body := wr_body w1 @ b\<rparr> else w1)"

text \<open>A handler that returns without writing anything answers 200 with the header as it is.\<close>

definition finishWriter :: "writer \<Rightarrow> writer" where
  "finishWriter w = sendHeader 200 w"

text \<open>What a handler does to the writer it is given, in order.\<close>

datatype writeOp =
    SetHeader string "string list" | DelHeader string | WriteHeader int | Write string | Flush

section \<open>The recorder\<close>

record recorder =
  rec_w :: writer
  rec_max :: nat
  rec_status :: int
  rec_header :: header
  rec_body :: string
  rec_overflow :: bool

definition newRecorder :: "writer \<Rightarrow> nat \<Rightarrow> recorder" where
  "newRecorder w m = \<lparr>rec_w = w, rec_max = m, rec_status = 0, rec_header = Map.empty, rec_body = '''', rec_overflow = False\<rparr>"

definition recorder_WriteHeader :: "int \<Rightarrow> recorder \<Rightarrow> recorder" where
  "recorder_WriteHeader code rec =
     (let rec1 = (if rec_status rec = 0 \<and> code \<ge> 200 then rec\<lparr>rec_status := code, rec_header := wr_header (rec_w rec)\<rparr> else rec) in
      rec1\<lparr>rec_w := sendHeader code (rec_w rec1)\<rparr>)"

definition recorder_Write :: "string \<Rightarrow> recorder \<Rightarrow> recorder" where
  "recorder_Write b rec =
     (let rec1 = (if rec_status rec = 0 then recorder_WriteHeader 200 rec else rec);
          rec2 = (if rec_overflow rec1 then rec1
                  else if length (rec_body rec1) + length b > rec_max rec1 then rec1\<lparr>rec_overflow := True, rec_body := ''''\<rparr>
                  else rec1\<lparr>rec_body := rec_body rec1 @ b\<rparr>) in
      rec2\<lparr>rec_w := sendBody b (rec_w rec2)\<rparr>)"

definition recorder_Flush :: "recorder \<Rightarrow> recorder" where
  "recorder_Flush rec = (if rec_status rec = 0 then recorder_WriteHeader 200 rec else rec)"

definition recorder_result :: "recorder \<Rightarrow> int \<times> header" where
  "recorder_result rec = (if rec_status rec = 0 then (200, wr_header (rec_w rec)) else (rec_status rec, rec_header rec))"

fun recordOp :: "writeOp \<Rightarrow> recorder \<Rightarrow> recorder" where
  "recordOp (SetHeader n vs) rec = rec\<lparr>rec_w := (rec_w rec)\<lparr>wr_header := (wr_header (rec_w rec))(n \<mapsto> vs)\<rparr>\<rparr>"
| "recordOp (DelHeader n) rec = rec\<lparr>rec_w := (rec_w rec)\<lparr>wr_header := (wr_header (rec_w rec))(n := None)\<rparr>\<rparr>"
| "recordOp (WriteHeader code) rec = recorder_WriteHeader code rec"
| "recordOp (Write b) rec = recorder_Write b rec"
| "recordOp Flush rec = recorder_Flush rec"

definition recordOps :: "writeOp list \<Rightarrow> recorder \<Rightarrow> recorder" where
  "recordOps ops rec = foldl (\<lambda>r op. recordOp op r) rec ops"

section \<open>What is stored and replayed\<close>

definition HeaderReplayed :: string where
  "HeaderReplayed = ''Idempotent-Replayed''"


definition handlerHeaders :: "header \<Rightarrow> header \<Rightarrow> header" where
  "handlerHeaders before final =
     (\<lambda>name. case final name of
        None \<Rightarrow> None
      | Some values \<Rightarrow>
          if EqualFold name ''Set-Cookie'' \<or> EqualFold name HeaderReplayed then None
          else if before name = Some values then None
          else Some values)"

definition replay :: "idemResponse \<Rightarrow> writer \<Rightarrow> writer" where
  "replay resp w =
     (let h = (case rs_Header resp of None \<Rightarrow> wr_header w | Some kept \<Rightarrow> wr_header w ++ kept);
          w1 = w\<lparr>wr_header := h(HeaderReplayed \<mapsto> [''true''])\<rparr> in
      sendBody (rs_Body resp) (sendHeader (rs_Status resp) w1))"

section \<open>The middleware\<close>

text \<open>A request: the user of its principal (None without one), its Idempotency-Key header, its body and whether it could be read.\<close>

record httpRequest =
  hr_user :: "string option"
  hr_method :: string
  hr_path :: string
  hr_query :: string
  hr_key :: string
  hr_body :: string
  hr_readable :: bool

text \<open>
  The store of the middleware: Reserve draws the token, Complete and Release take it back. Time
  and other requests go on between the statements, so the state is whatever the store makes it.
\<close>

record 's idemStoreOps =
  so_Reserve :: "idemRequest \<Rightarrow> ('s, Reservation) action"
  so_Complete :: "idemRequest \<Rightarrow> uuid \<Rightarrow> idemResponse \<Rightarrow> ('s, unit) action"
  so_Release :: "idemRequest \<Rightarrow> uuid \<Rightarrow> 's \<Rightarrow> 's"

record middlewareConfig =
  mc_Required :: bool
  mc_MaxRequestBytes :: nat
  mc_MaxResponseBytes :: nat

definition Middleware_Scope :: "(string \<Rightarrow> string) \<Rightarrow> (string \<Rightarrow> string) \<Rightarrow> string \<Rightarrow> string \<Rightarrow> string \<Rightarrow> string" where
  "Middleware_Scope sha hex user method path = ''http:'' @ hex (Fingerprint sha [user, method, path])"

definition requestOf :: "(string \<Rightarrow> string) \<Rightarrow> (string \<Rightarrow> string) \<Rightarrow> string \<Rightarrow> httpRequest \<Rightarrow> idemRequest" where
  "requestOf sha hex user r =
     \<lparr>iq_Scope = Middleware_Scope sha hex user (hr_method r) (hr_path r), iq_Key = hr_key r,
      iq_Fingerprint = Fingerprint sha [hr_method r, hr_path r, hr_query r, hr_body r]\<rparr>"

text \<open>
  The handler: what it writes, whether it panics, and what it does to the state. serve ends in a
  response written by the handler (Passed for a request the middleware leaves alone), in a replay,
  in an error response with its status and code, or in the handler's panic.
\<close>

type_synonym 's httpHandler = "httpRequest \<Rightarrow> 's \<Rightarrow> (writeOp list \<times> bool) \<times> 's"

datatype served = Passed "writeOp list" bool | Ran writer | Replayed writer | Refused int string | PanickedAfterRelease

definition serve :: "(string \<Rightarrow> string) \<Rightarrow> (string \<Rightarrow> string) \<Rightarrow> 's idemStoreOps \<Rightarrow> middlewareConfig \<Rightarrow> 's httpHandler \<Rightarrow> writer \<Rightarrow>
    httpRequest \<Rightarrow> 's \<Rightarrow> served \<times> 's" where
  "serve sha hex store cfg h w r s =
     (let pass = (case h r s of ((ops, p), s') \<Rightarrow> (Passed ops p, s')) in
      case hr_user r of
        None \<Rightarrow> pass
      | Some user \<Rightarrow>
          if user = '''' then pass
          else if hr_key r = '''' then (if mc_Required cfg then (Refused 400 ''VALIDATION_ERROR'', s) else pass)
          else if length (hr_body r) > mc_MaxRequestBytes cfg then (Refused 413 ''BODY_TOO_LARGE'', s)
          else if \<not> hr_readable r then (Refused 400 ''VALIDATION_ERROR'', s)
          else let q = requestOf sha hex user r in
            case Request_Validate q of
              Inl _ \<Rightarrow> (Refused 400 ''VALIDATION_ERROR'', s)
            | Inr _ \<Rightarrow>
                (case so_Reserve store q s of
                   (Inl e, s1) \<Rightarrow>
                     if errorsIs e ErrInProgress then (Refused 409 ''CONFLICT'', s1)
                     else if errorsIs e ErrKeyReused then (Refused 422 ''UNPROCESSABLE_ENTITY'', s1)
                     else (Refused 503 ''SERVICE_UNAVAILABLE'', s1)
                 | (Inr (Replay resp), s1) \<Rightarrow> (Replayed (replay resp w), s1)
                 | (Inr (Token token), s1) \<Rightarrow>
                     (case h r s1 of
                        ((ops, True), s2) \<Rightarrow> (PanickedAfterRelease, so_Release store q token s2)
                      | ((ops, False), s2) \<Rightarrow>
                          (let rec = recordOps ops (newRecorder w (mc_MaxResponseBytes cfg)); (status, header) = recorder_result rec in
                           if status \<ge> 500 \<or> rec_overflow rec then (Ran (finishWriter (rec_w rec)), so_Release store q token s2)
                           else (Ran (finishWriter (rec_w rec)),
                                 snd (so_Complete store q token
                                   \<lparr>rs_Status = status, rs_Header = Some (handlerHeaders (wr_header w) header), rs_Body = rec_body rec\<rparr> s2))))))"

section \<open>The recorder keeps what the client got\<close>

text \<open>
  A writer nothing was sent on yet, and the handlers net/http serves: a status is three digits, a
  protocol switch never goes through a recorded response, and a header set by outer middleware is
  not removed.
\<close>

definition freshWriter :: "writer \<Rightarrow> bool" where
  "freshWriter w \<longleftrightarrow> wr_status w = None \<and> wr_body w = ''''"

fun opOK :: "writeOp \<Rightarrow> bool" where
  "opOK (WriteHeader code) \<longleftrightarrow> 100 \<le> code \<and> code \<le> 999 \<and> code \<noteq> 101"
| "opOK (DelHeader n) \<longleftrightarrow> False"
| "opOK _ \<longleftrightarrow> True"

definition recInv :: "header \<Rightarrow> recorder \<Rightarrow> bool" where
  "recInv before rec \<longleftrightarrow> dom before \<subseteq> dom (wr_header (rec_w rec)) \<and>
     (if rec_status rec = 0
      then freshWriter (rec_w rec) \<and> rec_body rec = '''' \<and> \<not> rec_overflow rec
      else 200 \<le> rec_status rec \<and> wr_status (rec_w rec) = Some (rec_status rec) \<and> wr_sent (rec_w rec) = rec_header rec \<and>
        dom before \<subseteq> dom (rec_header rec) \<and>
        (\<not> rec_overflow rec \<longrightarrow> wr_body (rec_w rec) = (if bodyAllowed (rec_status rec) then rec_body rec else '''')))"

lemma recInv_WriteHeader:
  assumes "recInv before rec" and "100 \<le> code" and "code \<noteq> 101"
  shows "recInv before (recorder_WriteHeader code rec)"
  using assms by (auto simp: recInv_def recorder_WriteHeader_def sendHeader_def freshWriter_def bodyAllowed_def Let_def split: if_splits)

lemma recInv_Write:
  assumes "recInv before rec"
  shows "recInv before (recorder_Write b rec)"
proof -
  define rec1 where "rec1 = (if rec_status rec = 0 then recorder_WriteHeader 200 rec else rec)"
  have inv: "recInv before rec1" using recInv_WriteHeader [OF assms, of 200] assms by (simp add: rec1_def)
  have st: "rec_status rec1 \<noteq> 0" by (simp add: rec1_def recorder_WriteHeader_def Let_def)
  have "recorder_Write b rec =
      (let rec2 = (if rec_overflow rec1 then rec1
                  else if length (rec_body rec1) + length b > rec_max rec1 then rec1\<lparr>rec_overflow := True, rec_body := ''''\<rparr>
                  else rec1\<lparr>rec_body := rec_body rec1 @ b\<rparr>) in
      rec2\<lparr>rec_w := sendBody b (rec_w rec2)\<rparr>)" by (simp add: recorder_Write_def rec1_def Let_def)
  with inv st show ?thesis
    by (auto simp: recInv_def sendBody_def sendHeader_def Let_def split: if_splits)
qed

lemma recInv_op: "recInv before rec \<Longrightarrow> opOK op \<Longrightarrow> recInv before (recordOp op rec)"
  by (cases op) (auto simp: recInv_WriteHeader recInv_Write recorder_Flush_def, auto simp: recInv_def freshWriter_def)

lemma recInv_ops: "recInv before rec \<Longrightarrow> list_all opOK ops \<Longrightarrow> recInv before (recordOps ops rec)"
  unfolding recordOps_def by (induction ops arbitrary: rec) (auto simp: recInv_op)

lemma recInv_new: "freshWriter w \<Longrightarrow> recInv (wr_header w) (newRecorder w m)"
  by (simp add: recInv_def newRecorder_def)

text \<open>What is stored, replayed on a writer like the first one, shows the client what it got the first time.\<close>

definition sameClientView :: "writer \<Rightarrow> writer \<Rightarrow> bool" where
  "sameClientView a b \<longleftrightarrow> wr_status a = wr_status b \<and> wr_body a = wr_body b \<and>
     (\<forall>name. \<not> EqualFold name ''Set-Cookie'' \<longrightarrow> \<not> EqualFold name HeaderReplayed \<longrightarrow> wr_sent a name = wr_sent b name)"

lemma replay_recorded:
  assumes fresh: "freshWriter w" and ops: "list_all opOK ops"
    and rec: "rec = recordOps ops (newRecorder w m)" and res: "recorder_result rec = (status, header)" and "\<not> rec_overflow rec"
  shows "sameClientView (finishWriter (rec_w rec))
    (replay \<lparr>rs_Status = status, rs_Header = Some (handlerHeaders (wr_header w) header), rs_Body = rec_body rec\<rparr> w)"
proof -
  have inv: "recInv (wr_header w) rec" unfolding rec by (rule recInv_ops [OF recInv_new [OF fresh] ops])
  have st: "200 \<le> status" using inv res by (auto simp: recInv_def recorder_result_def split: if_splits)
  have sent: "wr_status (finishWriter (rec_w rec)) = Some status" "wr_sent (finishWriter (rec_w rec)) = header"
    and body: "wr_body (finishWriter (rec_w rec)) = (if bodyAllowed status then rec_body rec else '''')"
    and dom: "dom (wr_header w) \<subseteq> dom header"
    using inv res assms(5) by (auto simp: recInv_def recorder_result_def finishWriter_def sendHeader_def freshWriter_def split: if_splits)
  let ?resp = "\<lparr>rs_Status = status, rs_Header = Some (handlerHeaders (wr_header w) header), rs_Body = rec_body rec\<rparr>"
  have rep: "wr_status (replay ?resp w) = Some status" "wr_body (replay ?resp w) = (if bodyAllowed status then rec_body rec else '''')"
    "wr_sent (replay ?resp w) = (wr_header w ++ handlerHeaders (wr_header w) header)(HeaderReplayed \<mapsto> [''true''])"
    using fresh st by (auto simp: replay_def sendBody_def sendHeader_def freshWriter_def Let_def)
  have "(wr_header w ++ handlerHeaders (wr_header w) header) name = header name"
    if "\<not> EqualFold name ''Set-Cookie''" "\<not> EqualFold name HeaderReplayed" for name
    using that dom by (cases "header name") (auto simp: handlerHeaders_def map_add_def split: option.splits)
  moreover have "EqualFold HeaderReplayed HeaderReplayed" by simp
  ultimately show ?thesis using sent body rep by (auto simp: sameClientView_def)
qed

section \<open>The store as the middleware sees it\<close>

text \<open>
  The contract the middleware relies on. holding s q t u: the request q holds its key with token t,
  and the key expires at u. answered s q resp u: the response of q is stored until u. passes s s':
  other requests ran and time passed.
\<close>

locale idem_store =
  fixes store :: "'s idemStoreOps" and clock :: "'s \<Rightarrow> int"
    and holding :: "'s \<Rightarrow> idemRequest \<Rightarrow> uuid \<Rightarrow> int \<Rightarrow> bool" and answered :: "'s \<Rightarrow> idemRequest \<Rightarrow> idemResponse \<Rightarrow> int \<Rightarrow> bool"
    and passes :: "'s \<Rightarrow> 's \<Rightarrow> bool" and ok :: "'s \<Rightarrow> bool"
  assumes reserve_holds: "ok s \<Longrightarrow> so_Reserve store q s = (Inr (Token t), s') \<Longrightarrow> t \<noteq> uuidNil \<Longrightarrow> \<exists>u. holding s' q t u"
    and complete_answers: "holding s q t u \<Longrightarrow> \<exists>s'. so_Complete store q t resp s = (Inr (), s') \<and> answered s' q resp u"
    and reserve_answers: "answered s q resp u \<Longrightarrow> clock s < u \<Longrightarrow> Request_Validate q = Inr () \<Longrightarrow>
      so_Reserve store q s = (Inr (Replay resp), s)"
    and passes_answers: "answered s q resp u \<Longrightarrow> passes s s' \<Longrightarrow> clock s' < u \<Longrightarrow> answered s' q resp u"
begin

lemma serve_stores:
  assumes "hr_user r = Some user" and "user \<noteq> ''''" and "hr_key r \<noteq> ''''" and "length (hr_body r) \<le> mc_MaxRequestBytes cfg"
    and "hr_readable r" and "q = requestOf sha hex user r" and "Request_Validate q = Inr ()"
    and "so_Reserve store q s = (Inr (Token t), s1)" and "h r s1 = ((ops, False), s2)" and "holding s2 q t u"
    and "rec = recordOps ops (newRecorder w (mc_MaxResponseBytes cfg))" and "recorder_result rec = (status, header)"
    and "status < 500" and "\<not> rec_overflow rec"
  shows "\<exists>s3. serve sha hex store cfg h w r s = (Ran (finishWriter (rec_w rec)), s3) \<and>
    answered s3 q \<lparr>rs_Status = status, rs_Header = Some (handlerHeaders (wr_header w) header), rs_Body = rec_body rec\<rparr> u"
proof -
  from complete_answers [OF assms(10)] obtain s3 where
    "so_Complete store q t \<lparr>rs_Status = status, rs_Header = Some (handlerHeaders (wr_header w) header), rs_Body = rec_body rec\<rparr> s2 = (Inr (), s3)"
    "answered s3 q \<lparr>rs_Status = status, rs_Header = Some (handlerHeaders (wr_header w) header), rs_Body = rec_body rec\<rparr> u" by blast
  with assms show ?thesis by (simp add: serve_def Let_def)
qed

text \<open>
  A retry gets the first response: the handler runs once, and until the key expires a request with
  the same key and content shows the client the same status, body and headers without running it.
\<close>

theorem serve_retry:
  assumes "hr_user r = Some user" and "user \<noteq> ''''" and "hr_key r \<noteq> ''''" and "length (hr_body r) \<le> mc_MaxRequestBytes cfg"
    and "hr_readable r" and "q = requestOf sha hex user r" and "Request_Validate q = Inr ()"
    and "so_Reserve store q s = (Inr (Token t), s1)" and "h r s1 = ((ops, False), s2)"
    and "rec = recordOps ops (newRecorder w (mc_MaxResponseBytes cfg))" and "recorder_result rec = (status, header)"
    and "status < 500" and "\<not> rec_overflow rec" and "freshWriter w" and "list_all opOK ops"
    and "ok s" and "t \<noteq> uuidNil" and kept: "\<And>u. holding s1 q t u \<Longrightarrow> holding s2 q t u"
  shows "\<exists>a s3 u. serve sha hex store cfg h w r s = (Ran a, s3) \<and> holding s1 q t u \<and>
    (\<forall>h' s4. passes s3 s4 \<longrightarrow> clock s4 < u \<longrightarrow>
       (\<exists>b. serve sha hex store cfg h' w r s4 = (Replayed b, s4) \<and> sameClientView a b))"
proof -
  let ?resp = "\<lparr>rs_Status = status, rs_Header = Some (handlerHeaders (wr_header w) header), rs_Body = rec_body rec\<rparr>"
  from reserve_holds [OF assms(16,8,17)] obtain u where u: "holding s1 q t u" by blast
  from serve_stores [where h = h, OF assms(1-9) kept [OF u] assms(10-13)] obtain s3
    where first: "serve sha hex store cfg h w r s = (Ran (finishWriter (rec_w rec)), s3)" and ans: "answered s3 q ?resp u" by blast
  have "\<exists>b. serve sha hex store cfg h' w r s4 = (Replayed b, s4) \<and> sameClientView (finishWriter (rec_w rec)) b"
    if "passes s3 s4" "clock s4 < u" for h' s4
  proof -
    from passes_answers [OF ans that] have "answered s4 q ?resp u" .
    from reserve_answers [OF this that(2) assms(7)] have "so_Reserve store q s4 = (Inr (Replay ?resp), s4)" .
    with assms(1-7) have "serve sha hex store cfg h' w r s4 = (Replayed (replay ?resp w), s4)" by (simp add: serve_def Let_def)
    with replay_recorded [OF assms(14,15,10,11,13)] show ?thesis by blast
  qed
  with first u show ?thesis by blast
qed

end

section \<open>The PostgreSQL store\<close>

definition DefaultLease :: duration where
  "DefaultLease = 60 * 1000000000"

definition Middleware_lease :: "duration \<Rightarrow> duration" where
  "Middleware_lease d = (if d \<le> 0 then DefaultLease else d)"

text \<open>token is what uuid.New draws for the request.\<close>

definition pgIdemStore :: "duration \<Rightarrow> duration \<Rightarrow> uuid \<Rightarrow> 'q keys idemStoreOps" where
  "pgIdemStore ttl lease token =
     \<lparr>so_Reserve = Reserve (\<lambda>_. id) ttl (Middleware_lease lease) token, so_Complete = completeKey, so_Release = Store_Release\<rparr>"

definition keyHeld :: "'q keys \<Rightarrow> idemRequest \<Rightarrow> uuid \<Rightarrow> int \<Rightarrow> bool" where
  "keyHeld s q t u \<longleftrightarrow> t \<noteq> uuidNil \<and> (\<exists>r. rowFor s q = Some r \<and> kr_fingerprint r = iq_Fingerprint q \<and> kr_status r = KeyInProgress \<and>
     kr_reservation r = Some t \<and> kr_expires_at r = u) \<and> keysOK s"

definition keyAnswered :: "'q keys \<Rightarrow> idemRequest \<Rightarrow> idemResponse \<Rightarrow> int \<Rightarrow> bool" where
  "keyAnswered s q resp u \<longleftrightarrow> keysOK s \<and> (\<exists>r. rowFor s q = Some r \<and> stored q resp r \<and> kr_expires_at r = u)"

definition othersRan :: "'q keys \<Rightarrow> 'q keys \<Rightarrow> bool" where
  "othersRan s s' \<longleftrightarrow> (\<exists>ttl hs hs'. (idemStep ttl)\<^sup>*\<^sup>* (s, hs) (s', hs'))"

lemma Reserve_token:
  assumes "Reserve (\<lambda>_. id) ttl lease token q s = (Inr (Token t), s')"
  shows "t = token \<and> (\<exists>s0. reserveSQL ttl lease token q s0 = (True, s') \<and> (keysOK s \<longrightarrow> keysOK s0))"
proof -
  have loop: "t = token \<and> (\<exists>s0. reserveSQL ttl lease token q s0 = (True, s') \<and> (keysOK s \<longrightarrow> keysOK s0))"
    if "reserveLoop n (\<lambda>_. id) ttl lease token q s = (Inr (Token t), s')" for n
    using that
  proof (induction n)
    case (Suc n)
    obtain b s1 where sql: "reserveSQL ttl lease token q s = (b, s1)" by (cases "reserveSQL ttl lease token q s")
    show ?case
    proof (cases b)
      case True
      with sql Suc.prems show ?thesis by auto
    next
      case False
      have "s1 = s" using sql False by (auto simp: reserveSQL_def upsertKey_def split: option.splits if_splits)
      with sql False Suc show ?thesis by (auto simp: Let_def split: sum.splits if_splits)
    qed
  qed simp
  from assms have "reserveLoop reserveAttempts (\<lambda>_. id) ttl lease token q s = (Inr (Token t), s')"
    by (auto simp: Reserve_def split: sum.splits if_splits)
  then show ?thesis by (rule loop)
qed

interpretation pgkeys: idem_store "pgIdemStore ttl lease token :: 'q keys idemStoreOps" ks_now keyHeld keyAnswered othersRan keysOK
proof
  fix q :: idemRequest and s s' :: "'q keys" and t
  assume ok: "keysOK s" and res: "so_Reserve (pgIdemStore ttl lease token) q s = (Inr (Token t), s')" and t: "t \<noteq> uuidNil"
  from res have "Reserve (\<lambda>_. id) ttl (Middleware_lease lease) token q s = (Inr (Token t), s')" by (simp add: pgIdemStore_def)
  from Reserve_token [OF this] ok obtain s0 where eq: "t = token" and ok0: "keysOK s0"
    and sql: "reserveSQL ttl (Middleware_lease lease) token q s0 = (True, s')" by blast
  from take_rows(1,4) [OF sql ok0] t eq show "\<exists>u. keyHeld s' q t u" by (simp add: keyHeld_def)
next
  fix s :: "'q keys" and q t u resp
  assume held: "keyHeld s q t u"
  then obtain r where r: "rowFor s q = Some r" "kr_fingerprint r = iq_Fingerprint q" "kr_status r = KeyInProgress"
    "kr_reservation r = Some t" "kr_expires_at r = u" and t: "t \<noteq> uuidNil" and ok: "keysOK s" by (auto simp: keyHeld_def)
  then obtain s' where co: "completeKey q t resp s = (Inr (), s')" by (auto simp: completeKey_def nullToken_def)
  from complete_stored [OF co] r(1,5) obtain r' where "rowFor s' q = Some r'" "stored q resp r'" "kr_expires_at r' = u" by (metis option.inject)
  with co complete_keeps(1) [OF co ok]
  show "\<exists>s'. so_Complete (pgIdemStore ttl lease token) q t resp s = (Inr (), s') \<and> keyAnswered s' q resp u"
    by (auto simp: pgIdemStore_def keyAnswered_def)
next
  fix s :: "'q keys" and q resp u
  assume "keyAnswered s q resp u" and "ks_now s < u" and v: "Request_Validate q = Inr ()"
  then obtain r where r: "rowFor s q = Some r" "stored q resp r" "ks_now s < kr_expires_at r" by (auto simp: keyAnswered_def)
  have "0 < Middleware_lease lease" by (simp add: Middleware_lease_def DefaultLease_def)
  from Reserve_replays [OF v this r] show "so_Reserve (pgIdemStore ttl lease token) q s = (Inr (Replay resp), s)" by (simp add: pgIdemStore_def)
next
  fix s s' :: "'q keys" and q resp u
  assume ans: "keyAnswered s q resp u" and ran: "othersRan s s'" and live: "ks_now s' < u"
  from ans obtain r where r: "rowFor s q = Some r" "stored q resp r" "kr_expires_at r = u" and ok: "keysOK s" by (auto simp: keyAnswered_def)
  from ran obtain ttl' hs hs' where steps: "(idemStep ttl')\<^sup>*\<^sup>* (s, hs) (s', hs')" by (auto simp: othersRan_def)
  from idemSteps_stored [OF steps, of q r resp] ok r live show "keyAnswered s' q resp u" by (auto simp: keyAnswered_def)
qed

end
