(* ===== verification/Access_Control.thy ===== *)
theory Access_Control
  imports Text_Values
begin

text \<open>
  Authentication and authorization of a request (access/access.go and the middlewares Authenticate,
  RequireAccess and RequirePermission of httpx/middleware/auth.go, access.go and authz.go). The
  identity provider (auth.Authenticator), the policy decision point (authz.Checker) and the
  resolver of principal attributes are implemented by consumers: they are parameters, and since
  they may keep state of their own they run over a world of type 'w.
\<close>

section \<open>Principals, resources, guards\<close>

record principal =
  p_UserID :: string
  p_Roles :: "string list"

text \<open>
  A map of attributes is an association list; nil is the empty list. A guard and an authenticated
  principal are pointers in Go: gd_id and the number beside a principal are those pointers, which
  key the memo of a request.
\<close>

type_synonym attrs = "(string \<times> string) list"

record authzPrincipal =
  zp_ID :: string
  zp_Roles :: "string list"
  zp_Attr :: attrs

record resource =
  res_Kind :: string
  res_ID :: string
  res_Attr :: attrs

type_synonym 'w checker = "authzPrincipal \<Rightarrow> resource \<Rightarrow> string \<Rightarrow> ('w, bool) action"
type_synonym 'w resolver = "nat \<times> principal \<Rightarrow> ('w, attrs) action"

record 'w accessGuard =
  gd_id :: nat
  gd_checker :: "'w checker"
  gd_attributes :: "'w resolver option"

definition NewGuard :: "nat \<Rightarrow> 'w checker \<Rightarrow> 'w resolver option \<Rightarrow> 'w accessGuard" where
  "NewGuard g checker attributes = \<lparr>gd_id = g, gd_checker = checker, gd_attributes = attributes\<rparr>"

definition HasPrincipalAttributes :: "'w accessGuard \<Rightarrow> bool" where
  "HasPrincipalAttributes g \<longleftrightarrow> gd_attributes g \<noteq> None"

section \<open>The request\<close>

text \<open>
  What the context of a request carries: its principal, and the memo of resolved attributes when
  WithRequestScope installed one. An entry keeps the outcome of the resolver, error included.
\<close>

type_synonym scopeEntries = "((nat \<times> nat) \<times> attrs result) list"

record 'w reqState =
  rq_principal :: "(nat \<times> principal) option"
  rq_scope :: "scopeEntries option"
  rq_world :: 'w

definition WithRequestScope :: "'w reqState \<Rightarrow> 'w reqState" where
  "WithRequestScope s = (case rq_scope s of Some _ \<Rightarrow> s | None \<Rightarrow> s\<lparr>rq_scope := Some []\<rparr>)"

section \<open>Guard\<close>

definition onWorld :: "('w, 'a) action \<Rightarrow> ('w reqState, 'a) action" where
  "onWorld m s = (case m (rq_world s) of (x, w) \<Rightarrow> (x, s\<lparr>rq_world := w\<rparr>))"

text \<open>callResolver: a resolver's error is wrapped in ErrUnavailable; maps are copied, so equal.\<close>

definition callResolver :: "'w resolver \<Rightarrow> nat \<times> principal \<Rightarrow> ('w reqState, attrs) action" where
  "callResolver f p s =
     (case onWorld (f p) s of
        (Inl e, s') \<Rightarrow> (Inl (ErrWrap (Err ErrUnavailable) e), s')
      | (Inr m, s') \<Rightarrow> (Inr m, s'))"

definition resolveAttributes :: "nat \<Rightarrow> 'w resolver \<Rightarrow> nat \<times> principal \<Rightarrow> ('w reqState, attrs) action" where
  "resolveAttributes g f p s =
     (case rq_scope s of
        None \<Rightarrow> callResolver f p s
      | Some entries \<Rightarrow>
          (case map_of entries (g, fst p) of
             Some entry \<Rightarrow> (entry, s)
           | None \<Rightarrow>
               (case callResolver f p s of
                  (entry, s') \<Rightarrow> (entry, s'\<lparr>rq_scope := Some (((g, fst p), entry) # entries)\<rparr>))))"

definition Guard_Principal :: "'w accessGuard \<Rightarrow> ('w reqState, authzPrincipal) action" where
  "Guard_Principal g s =
     (case rq_principal s of
        None \<Rightarrow> (Inl (Err ErrUnauthenticated), s)
      | Some ap \<Rightarrow>
          (case gd_attributes g of
             None \<Rightarrow> (Inr \<lparr>zp_ID = p_UserID (snd ap), zp_Roles = p_Roles (snd ap), zp_Attr = []\<rparr>, s)
           | Some f \<Rightarrow>
               bindA (resolveAttributes (gd_id g) f ap) (\<lambda>attr.
                 returnA \<lparr>zp_ID = p_UserID (snd ap), zp_Roles = p_Roles (snd ap), zp_Attr = attr\<rparr>) s))"

definition Guard_Check :: "'w accessGuard \<Rightarrow> resource \<Rightarrow> string \<Rightarrow> ('w reqState, unit) action" where
  "Guard_Check g r act =
     bindA (Guard_Principal g) (\<lambda>p s.
       case onWorld (gd_checker g p r act) s of
         (Inl e, s') \<Rightarrow> (Inl (ErrWrap (Err ErrUnavailable) e), s')
       | (Inr allowed, s') \<Rightarrow> (if allowed then Inr () else Inl (Err ErrForbidden), s'))"

section \<open>The middlewares\<close>

text \<open>
  A middleware either calls the next handler or answers with a status and an error code. Logging
  and the text of the message are left out.
\<close>

datatype 'w mwOutcome = CallNext "'w reqState" | Respond int string "'w reqState" | RespondNothing "'w reqState"

definition writeAccessStatus :: "error \<Rightarrow> 'w reqState \<Rightarrow> 'w mwOutcome" where
  "writeAccessStatus e s =
     (if errorsIs e ErrUnauthenticated then Respond 401 ''UNAUTHORIZED'' s
      else if errorsIs e ErrForbidden then Respond 403 ''FORBIDDEN'' s
      else if errorsIs e ErrUnavailable then Respond 503 ''SERVICE_UNAVAILABLE'' s
      else RespondNothing s)"

definition wildcardResourceID :: string where
  "wildcardResourceID = ''*''"

definition RequireAccess :: "'w accessGuard \<Rightarrow> string \<Rightarrow> string \<Rightarrow> string \<Rightarrow> 'w reqState \<Rightarrow> 'w mwOutcome" where
  "RequireAccess g kind act urlID s =
     (let s1 = (if HasPrincipalAttributes g then WithRequestScope s else s);
          res = \<lparr>res_Kind = kind, res_ID = (if urlID = '''' then wildcardResourceID else urlID), res_Attr = []\<rparr> in
      case Guard_Check g res act s1 of
        (Inl e, s2) \<Rightarrow> writeAccessStatus e s2
      | (Inr _, s2) \<Rightarrow> CallNext s2)"

definition RequirePermission :: "nat \<Rightarrow> 'w checker \<Rightarrow> string \<Rightarrow> string \<Rightarrow> string \<Rightarrow> 'w reqState \<Rightarrow> 'w mwOutcome" where
  "RequirePermission g checker = RequireAccess (NewGuard g checker None)"

text \<open>strings.Fields: the runs of characters between white space.\<close>

fun fieldsLoop :: "nat \<Rightarrow> string \<Rightarrow> string \<Rightarrow> string list" where
  "fieldsLoop 0 cur s = (if cur = [] then [] else [rev cur])"
| "fieldsLoop (Suc n) cur s =
     (case stripAny spaceRunes s of
        Some rest \<Rightarrow> (if cur = [] then [] else [rev cur]) @ fieldsLoop n [] rest
      | None \<Rightarrow> (case s of [] \<Rightarrow> (if cur = [] then [] else [rev cur]) | c # cs \<Rightarrow> fieldsLoop n (c # cur) cs))"

definition Fields :: "string \<Rightarrow> string list" where
  "Fields s = fieldsLoop (length s) [] s"


definition extractBearerToken :: "string \<Rightarrow> string option" where
  "extractBearerToken authorization =
     (case Fields authorization of
        [scheme, token] \<Rightarrow> if EqualFold scheme ''Bearer'' then Some token else None
      | _ \<Rightarrow> None)"

text \<open>The authenticator returns the principal it verified, with its pointer.\<close>

definition Authenticate :: "(string \<Rightarrow> ('w, nat \<times> principal) action) \<Rightarrow> string \<Rightarrow> 'w reqState \<Rightarrow> 'w mwOutcome" where
  "Authenticate a authorization s =
     (case extractBearerToken authorization of
        None \<Rightarrow> Respond 401 ''UNAUTHORIZED'' s
      | Some token \<Rightarrow>
          (case onWorld (a token) s of
             (Inl e, s') \<Rightarrow>
               if errorsIs e ErrServiceUnavailable then Respond 503 ''SERVICE_UNAVAILABLE'' s'
               else if errorsIs e ErrAuthForbidden then Respond 403 ''FORBIDDEN'' s'
               else Respond 401 ''UNAUTHORIZED'' s'
           | (Inr p, s') \<Rightarrow> CallNext (s'\<lparr>rq_principal := Some p\<rparr>)))"

text \<open>A route behind both middlewares.\<close>

definition protectedRoute :: "(string \<Rightarrow> ('w, nat \<times> principal) action) \<Rightarrow> 'w accessGuard \<Rightarrow> string \<Rightarrow> string \<Rightarrow> string \<Rightarrow> string \<Rightarrow>
    'w reqState \<Rightarrow> 'w mwOutcome" where
  "protectedRoute a g kind act authorization urlID s =
     (case Authenticate a authorization s of
        CallNext s1 \<Rightarrow> RequireAccess g kind act urlID s1
      | Respond st c s1 \<Rightarrow> Respond st c s1
      | RespondNothing s1 \<Rightarrow> RespondNothing s1)"

section \<open>Fail-closed\<close>

lemma callResolver_Inl: "callResolver f p s = (Inl e, s') \<Longrightarrow> errorsIs e ErrUnavailable"
  by (auto simp: callResolver_def split: prod.splits sum.splits)

text \<open>An entry of the memo is an outcome of callResolver: an error in it is an ErrUnavailable.\<close>

definition scopeOKEntries :: "'w reqState \<Rightarrow> bool" where
  "scopeOKEntries s \<longleftrightarrow> (\<forall>entries k e. rq_scope s = Some entries \<longrightarrow> (k, Inl e) \<in> set entries \<longrightarrow> errorsIs e ErrUnavailable)"

lemma callResolver_scope: "callResolver f p s = (x, s') \<Longrightarrow> rq_scope s' = rq_scope s \<and> rq_principal s' = rq_principal s"
  by (auto simp: callResolver_def onWorld_def split: prod.splits sum.splits)

lemma resolveAttributes_ok:
  assumes "scopeOKEntries s" and "resolveAttributes g f p s = (x, s')"
  shows "scopeOKEntries s'" and "x = Inl e \<Longrightarrow> errorsIs e ErrUnavailable"
proof -
  have "scopeOKEntries s' \<and> (\<forall>e. x = Inl e \<longrightarrow> errorsIs e ErrUnavailable)"
  proof (cases "rq_scope s")
    case None
    with assms(2) have "callResolver f p s = (x, s')" by (simp add: resolveAttributes_def)
    with callResolver_scope [OF this] None show ?thesis by (auto simp: scopeOKEntries_def dest: callResolver_Inl)
  next
    case (Some entries)
    show ?thesis
    proof (cases "map_of entries (g, fst p)")
      case None
      obtain y s1 where call: "callResolver f p s = (y, s1)" by fastforce
      with None Some assms(2) have "x = y" "s' = s1\<lparr>rq_scope := Some (((g, fst p), y) # entries)\<rparr>"
        by (auto simp: resolveAttributes_def)
      with call assms(1) Some show ?thesis by (auto simp: scopeOKEntries_def dest: callResolver_Inl)
    next
      case (Some entry)
      with assms \<open>rq_scope s = Some entries\<close> have "x = entry" "s' = s" by (simp_all add: resolveAttributes_def)
      with Some assms(1) \<open>rq_scope s = Some entries\<close> show ?thesis by (auto simp: scopeOKEntries_def dest!: map_of_SomeD)
    qed
  qed
  then show "scopeOKEntries s'" "x = Inl e \<Longrightarrow> errorsIs e ErrUnavailable" by blast+
qed

text \<open>
  Check answers one of four ways, and grants only what the checker granted to the principal of the
  request.
\<close>

definition granted :: "'w accessGuard \<Rightarrow> resource \<Rightarrow> string \<Rightarrow> 'w reqState \<Rightarrow> bool" where
  "granted g r act s \<longleftrightarrow> (\<exists>ap attr w w'. rq_principal s = Some ap \<and>
     gd_checker g \<lparr>zp_ID = p_UserID (snd ap), zp_Roles = p_Roles (snd ap), zp_Attr = attr\<rparr> r act w = (Inr True, w'))"

lemma Principal_Inr:
  assumes "Guard_Principal g s = (Inr p, s')"
  obtains ap attr where "rq_principal s = Some ap" and "p = \<lparr>zp_ID = p_UserID (snd ap), zp_Roles = p_Roles (snd ap), zp_Attr = attr\<rparr>"
  using assms by (auto simp: Guard_Principal_def bindA_eq_Inr split: option.splits)

lemma Check_Inr: "Guard_Check g r act s = (Inr (), s') \<Longrightarrow> granted g r act s"
proof -
  assume "Guard_Check g r act s = (Inr (), s')"
  then obtain p s1 where p: "Guard_Principal g s = (Inr p, s1)"
    and c: "(case onWorld (gd_checker g p r act) s1 of
         (Inl e, s') \<Rightarrow> (Inl (ErrWrap (Err ErrUnavailable) e), s')
       | (Inr allowed, s') \<Rightarrow> (if allowed then Inr () else Inl (Err ErrForbidden), s')) = (Inr (), s')"
    by (auto simp: Guard_Check_def bindA_eq_Inr)
  from c obtain w' where "gd_checker g p r act (rq_world s1) = (Inr True, w')"
    by (auto simp: onWorld_def split: prod.splits sum.splits if_splits)
  with Principal_Inr [OF p] show ?thesis unfolding granted_def by metis
qed

lemma Check_Inl:
  assumes "scopeOKEntries s" and "Guard_Check g r act s = (Inl e, s')"
  shows "(e = Err ErrUnauthenticated \<and> rq_principal s = None) \<or> e = Err ErrForbidden \<or>
    (errorsIs e ErrUnavailable \<and> rq_principal s \<noteq> None)"
proof -
  from assms(2) consider "Guard_Principal g s = (Inl e, s')"
    | p s1 where "Guard_Principal g s = (Inr p, s1)"
      "(case onWorld (gd_checker g p r act) s1 of
         (Inl e, s') \<Rightarrow> (Inl (ErrWrap (Err ErrUnavailable) e), s')
       | (Inr allowed, s') \<Rightarrow> (if allowed then Inr () else Inl (Err ErrForbidden), s')) = (Inl e, s')"
    by (auto simp: Guard_Check_def bindA_eq_Inl)
  then show ?thesis
  proof cases
    case 1
    then show ?thesis
    proof (cases "rq_principal s")
      case (Some ap)
      with 1 obtain f where "resolveAttributes (gd_id g) f ap s = (Inl e, s')"
        by (auto simp: Guard_Principal_def bindA_eq_Inl split: option.splits)
      from resolveAttributes_ok(2) [OF assms(1) this refl] Some show ?thesis by simp
    qed (auto simp: Guard_Principal_def)
  next
    case (2 p s1)
    from Principal_Inr [OF 2(1)] obtain ap where "rq_principal s = Some ap" by blast
    with 2(2) show ?thesis by (auto split: prod.splits sum.splits if_splits)
  qed
qed

text \<open>
  A protected route is fail-closed: the handler runs only for a bearer token the identity provider
  verified and an action the policy allows that principal on that resource. Any other request gets
  401, 403 or 503, and never an empty answer.
\<close>

theorem protected_fail_closed:
  assumes "rq_scope s = None"
  shows "case protectedRoute a g kind act authorization urlID s of
      CallNext s' \<Rightarrow> \<exists>token p w. extractBearerToken authorization = Some token \<and> fst (a token (rq_world s)) = Inr p \<and>
        granted g \<lparr>res_Kind = kind, res_ID = (if urlID = '''' then wildcardResourceID else urlID), res_Attr = []\<rparr> act
          (s\<lparr>rq_world := w, rq_principal := Some p\<rparr>)
    | Respond status code s' \<Rightarrow> (status, code) \<in> {(401, ''UNAUTHORIZED''), (403, ''FORBIDDEN''), (503, ''SERVICE_UNAVAILABLE'')}
    | RespondNothing s' \<Rightarrow> False"
proof (cases "extractBearerToken authorization")
  case None
  then show ?thesis by (simp add: protectedRoute_def Authenticate_def)
next
  case (Some token)
  obtain x w where a: "a token (rq_world s) = (x, w)" by fastforce
  show ?thesis
  proof (cases x)
    case (Inl e)
    with Some a show ?thesis by (simp add: protectedRoute_def Authenticate_def onWorld_def)
  next
    case (Inr p)
    let ?s = "s\<lparr>rq_world := w, rq_principal := Some p\<rparr>"
    let ?s1 = "if HasPrincipalAttributes g then WithRequestScope ?s else ?s"
    let ?r = "\<lparr>res_Kind = kind, res_ID = (if urlID = '''' then wildcardResourceID else urlID), res_Attr = []\<rparr>"
    have route: "protectedRoute a g kind act authorization urlID s = RequireAccess g kind act urlID ?s"
      using Some a Inr by (simp add: protectedRoute_def Authenticate_def onWorld_def)
    have ok: "scopeOKEntries ?s1" "rq_principal ?s1 = Some p"
      using assms by (auto simp: scopeOKEntries_def WithRequestScope_def)
    obtain y s2 where c: "Guard_Check g ?r act ?s1 = (y, s2)" by fastforce
    show ?thesis
    proof (cases y)
      case (Inl e)
      from Check_Inl [OF ok(1) c [unfolded Inl]] ok(2)
      have "e = Err ErrForbidden \<or> errorsIs e ErrUnavailable" by auto
      with c Inl route show ?thesis by (auto simp: RequireAccess_def Let_def writeAccessStatus_def)
    next
      case y: (Inr u)
      have "granted g ?r act ?s1" by (rule Check_Inr) (use c y in simp)
      then have "granted g ?r act ?s" using ok(2) by (auto simp: granted_def)
      moreover have "fst (a token (rq_world s)) = Inr p" using a Inr by simp
      moreover have "protectedRoute a g kind act authorization urlID s = CallNext s2"
        using c y unfolding route by (simp add: RequireAccess_def Let_def)
      ultimately show ?thesis using Some by (simp only: mwOutcome.case) blast
    qed
  qed
qed

section \<open>One resolution per request\<close>

text \<open>
  Inside a request scope the attributes of a principal are resolved once per guard: a second
  resolution answers the same without running the resolver.
\<close>

theorem resolved_once:
  assumes "rq_scope s \<noteq> None" and "resolveAttributes g f p s = (x, s1)"
    and "rq_scope s2 = rq_scope s1"
  shows "resolveAttributes g f' p s2 = (x, s2)"
proof -
  from assms(1) obtain entries where sc: "rq_scope s = Some entries" by blast
  show ?thesis
  proof (cases "map_of entries (g, fst p)")
    case None
    obtain y s0 where "callResolver f p s = (y, s0)" by fastforce
    with None sc assms(2) have "x = y" "rq_scope s1 = Some (((g, fst p), x) # entries)"
      by (auto simp: resolveAttributes_def)
    with assms(3) show ?thesis by (simp add: resolveAttributes_def)
  next
    case (Some entry)
    with sc assms(2) have "x = entry" "s1 = s" by (simp_all add: resolveAttributes_def)
    with sc Some assms(3) show ?thesis by (simp add: resolveAttributes_def)
  qed
qed

end
