(* ===== verification/Audit_Trail.thy ===== *)
theory Audit_Trail
  imports Text_Values
begin

text \<open>
  The audit recorder and its redaction (audit/redact.go, audit/recorder.go) and the redaction of
  log attributes (logger/redact.go). Payloads are Go values with sharing and possibly cycles: a map
  or a slice is a reference into a heap the redactor only reads, and what it returns is a tree of
  its own.
\<close>

section \<open>Keys\<close>

text \<open>
  lower is strings.ToLower (with the decoding of runes strings.Map does after it); its Unicode
  tables are a parameter. The characters removed are ASCII, so removing bytes and removing runes
  are the same.
\<close>

type_synonym lowering = "string \<Rightarrow> string"

definition normalizeKey :: "lowering \<Rightarrow> string \<Rightarrow> string" where
  "normalizeKey lower key = filter (\<lambda>c. c \<notin> {CHR ''_'', CHR ''-'', CHR ''.'', CHR '' ''}) (lower key)"

record keyMatcher =
  km_needles :: "string list"

definition newKeyMatcher :: "lowering \<Rightarrow> string list \<Rightarrow> keyMatcher" where
  "newKeyMatcher lower keys = \<lparr>km_needles = filter (\<lambda>n. n \<noteq> '''') (map (normalizeKey lower) keys)\<rparr>"

text \<open>strings.Contains.\<close>

fun containsText :: "string \<Rightarrow> string \<Rightarrow> bool" where
  "containsText [] n = (n = [])"
| "containsText (c # s) n = (stripPrefix n (c # s) \<noteq> None \<or> containsText s n)"

definition matches :: "lowering \<Rightarrow> keyMatcher \<Rightarrow> string \<Rightarrow> bool" where
  "matches lower m key = list_ex (containsText (normalizeKey lower key)) (km_needles m)"

definition defaultRedactedKeys :: "string list" where
  "defaultRedactedKeys =
     [''password'', ''passwd'', ''token'', ''secret'', ''authorization'', ''api_key'', ''private_key'', ''credential'', ''cookie'']"

definition RedactedValue :: string where
  "RedactedValue = ''[REDACTED]''"

section \<open>Values\<close>

text \<open>
  What is stored is JSON. What a caller passes is a Go value: a map is the address of its entries, a slice the address of its items and
  its length; address 0 is nil. Numbers are their JSON text. A plain value is one normalizeValue
  leaves alone. A typed value is one that goes through encoding/json first: its generic form (in
  the same heap, at addresses nothing else refers to), or None when it cannot be encoded.
\<close>

datatype generic = GNil | GBool bool | GNum string | GStr string | GMap nat | GSlice nat nat

datatype gval = Plain generic | Typed "generic option"

record heap =
  hp_maps :: "nat \<Rightarrow> (string \<times> gval) list"
  hp_slices :: "nat \<Rightarrow> nat \<Rightarrow> gval list"

fun normalizeValue :: "gval \<Rightarrow> generic result" where
  "normalizeValue (Plain g) = Inr g"
| "normalizeValue (Typed (Some g)) = Inr g"
| "normalizeValue (Typed None) = Inl (ErrWrap (Err ErrUnredactable) (ErrText ''json''))"

section \<open>The walk\<close>

type_synonym hook = "string \<Rightarrow> generic \<Rightarrow> gval option"

record redactor =
  rd_lower :: lowering
  rd_keys :: keyMatcher
  rd_hooks :: "hook list"

definition maxRedactDepth :: nat where
  "maxRedactDepth = 1000"


text \<open>The first hook that takes the value.\<close>

fun firstHook :: "hook list \<Rightarrow> string \<Rightarrow> generic \<Rightarrow> gval option" where
  "firstHook [] key v = None"
| "firstHook (h # hs) key v = (case h key v of Some r \<Rightarrow> Some r | None \<Rightarrow> firstHook hs key v)"

text \<open>redactField, over the walk that goes on below it.\<close>

definition redactField :: "redactor \<Rightarrow> (generic \<Rightarrow> json result) \<Rightarrow> string \<Rightarrow> gval \<Rightarrow> json result" where
  "redactField rd descend key value =
     (if matches (rd_lower rd) (rd_keys rd) key then Inr (if value = Plain GNil then JNull else JStr RedactedValue)
      else bindR (normalizeValue value) (\<lambda>v.
        bindR (case firstHook (rd_hooks rd) key v of None \<Rightarrow> Inr v | Some repl \<Rightarrow> normalizeValue repl) descend))"

text \<open>
  redactValue with redactMap and enter: n is how many levels the walk may still enter (the depth
  counted down from maxRedactDepth), path the containers it is inside of. A map counts as length
  -1; an empty slice is not tracked.
\<close>

fun redactValue :: "redactor \<Rightarrow> heap \<Rightarrow> nat \<Rightarrow> (nat \<times> int) list \<Rightarrow> generic \<Rightarrow> json result" where
  "redactValue rd h n path GNil = Inr JNull"
| "redactValue rd h n path (GBool b) = Inr (JBool b)"
| "redactValue rd h n path (GNum x) = Inr (JNum x)"
| "redactValue rd h n path (GStr x) = Inr (JStr x)"
| "redactValue rd h 0 path (GMap a) = (if a = 0 then Inr JNull else Inl (Err ErrUnredactable))"
| "redactValue rd h (Suc n) path (GMap a) =
     (if a = 0 then Inr JNull
      else if (a, -1) \<in> set path then Inl (Err ErrUnredactable)
      else bindR (mapR (\<lambda>(k, v). bindR (redactField rd (redactValue rd h n ((a, -1) # path)) k v) (\<lambda>j. Inr (k, j))) (hp_maps h a))
             (\<lambda>es. Inr (JObj es)))"
| "redactValue rd h 0 path (GSlice a l) = (if a = 0 then Inr JNull else Inl (Err ErrUnredactable))"
| "redactValue rd h (Suc n) path (GSlice a l) =
     (if a = 0 then Inr JNull
      else if l \<noteq> 0 \<and> (a, int l) \<in> set path then Inl (Err ErrUnredactable)
      else bindR (mapR (\<lambda>v. bindR (normalizeValue v) (redactValue rd h n (if l \<noteq> 0 then (a, int l) # path else path))) (hp_slices h a l))
             (\<lambda>js. Inr (JArr js)))"

definition isDiff :: "(string \<times> gval) list \<Rightarrow> bool" where
  "isDiff m \<longleftrightarrow> m \<noteq> [] \<and> list_all (\<lambda>(k, _). k = ''old'' \<or> k = ''new'') m"

text \<open>redactChanges: a difference is redacted side by side under the name of its field.\<close>

definition redactChanges :: "redactor \<Rightarrow> heap \<Rightarrow> nat \<Rightarrow> json result" where
  "redactChanges rd h a =
     (if a = 0 then Inr JNull
      else
        let field = redactField rd (redactValue rd h maxRedactDepth []) in
        bindR (mapR (\<lambda>(k, v).
          case v of
            Plain (GMap d) \<Rightarrow>
              if d \<noteq> 0 \<and> isDiff (hp_maps h d)
              then bindR (mapR (\<lambda>(side, sv). bindR (field k sv) (\<lambda>j. Inr (side, j))) (hp_maps h d)) (\<lambda>sides. Inr (k, JObj sides))
              else bindR (field k v) (\<lambda>j. Inr (k, j))
          | _ \<Rightarrow> bindR (field k v) (\<lambda>j. Inr (k, j))) (hp_maps h a)) (\<lambda>es. Inr (JObj es)))"

section \<open>Entries\<close>

text \<open>The payloads of an entry are the addresses of their maps; the rest of the entry goes through unchanged.\<close>

record auditEntry =
  ae_ResourceType :: string
  ae_ResourceID :: string
  ae_OperationCategory :: string
  ae_OperationName :: string
  ae_Status :: string
  ae_Source :: string
  ae_ActorID :: string
  ae_Username :: string
  ae_RequestID :: "string option"
  ae_IP :: string
  ae_UserAgent :: string
  ae_InputPayload :: nat
  ae_BeforeSnapshot :: nat
  ae_AfterSnapshot :: nat
  ae_ChangedFields :: nat

record storedEntry =
  se_entry :: auditEntry
  se_InputPayload :: json
  se_BeforeSnapshot :: json
  se_AfterSnapshot :: json
  se_ChangedFields :: json

definition redactEntry :: "redactor \<Rightarrow> heap \<Rightarrow> auditEntry \<Rightarrow> storedEntry result" where
  "redactEntry rd h e =
     bindR (redactValue rd h maxRedactDepth [] (GMap (ae_InputPayload e))) (\<lambda>input.
     bindR (redactValue rd h maxRedactDepth [] (GMap (ae_BeforeSnapshot e))) (\<lambda>before.
     bindR (redactValue rd h maxRedactDepth [] (GMap (ae_AfterSnapshot e))) (\<lambda>after.
     bindR (redactChanges rd h (ae_ChangedFields e)) (\<lambda>changes.
     Inr \<lparr>se_entry = e, se_InputPayload = input, se_BeforeSnapshot = before, se_AfterSnapshot = after,
          se_ChangedFields = changes\<rparr>))))"

definition NewRecorder :: "lowering \<Rightarrow> string list \<Rightarrow> hook list \<Rightarrow> redactor" where
  "NewRecorder lower keys hooks =
     \<lparr>rd_lower = lower, rd_keys = newKeyMatcher lower (defaultRedactedKeys @ keys), rd_hooks = hooks\<rparr>"

text \<open>What Record reads from its context: the principal's user and name, the request ID and the request's metadata.\<close>

record auditContext =
  ax_principal :: "(string \<times> string) option"
  ax_requestID :: string
  ax_info :: "(string \<times> string) option"

definition applyActorAndRequestContext :: "auditContext \<Rightarrow> auditEntry \<Rightarrow> auditEntry" where
  "applyActorAndRequestContext ctx e =
     (let e1 = (case ax_principal ctx of None \<Rightarrow> e | Some (u, n) \<Rightarrow> e\<lparr>ae_ActorID := u, ae_Username := n\<rparr>);
          e2 = (if ax_requestID ctx \<noteq> '''' then e1\<lparr>ae_RequestID := Some (ax_requestID ctx)\<rparr> else e1) in
      case ax_info ctx of None \<Rightarrow> e2 | Some (ip, ua) \<Rightarrow> e2\<lparr>ae_IP := ip, ae_UserAgent := ua\<rparr>)"

definition newEntry :: "lowering \<Rightarrow> string \<Rightarrow> string \<Rightarrow> string \<Rightarrow> string \<Rightarrow> auditEntry" where
  "newEntry lower source act resourceType resourceID =
     \<lparr>ae_ResourceType = resourceType, ae_ResourceID = resourceID, ae_OperationCategory = lower act,
      ae_OperationName = lower act @ ''_'' @ resourceType, ae_Status = ''success'', ae_Source = source, ae_ActorID = '''',
      ae_Username = '''', ae_RequestID = None, ae_IP = '''', ae_UserAgent = '''', ae_InputPayload = 0, ae_BeforeSnapshot = 0,
      ae_AfterSnapshot = 0, ae_ChangedFields = 0\<rparr>"

text \<open>Options are functions on the entry; create is the repository.\<close>

definition Record :: "redactor \<Rightarrow> heap \<Rightarrow> (storedEntry \<Rightarrow> ('s, unit) action) \<Rightarrow> auditContext \<Rightarrow> string \<Rightarrow> string \<Rightarrow> string \<Rightarrow> string \<Rightarrow>
    (auditEntry \<Rightarrow> auditEntry) list \<Rightarrow> ('s, unit) action" where
  "Record rd h create ctx source act resourceType resourceID opts s =
     (let e = foldl (\<lambda>e opt. opt e) (applyActorAndRequestContext ctx (newEntry (rd_lower rd) source act resourceType resourceID)) opts in
      case redactEntry rd h e of
        Inl er \<Rightarrow> (Inl er, s)
      | Inr st \<Rightarrow> create st s)"

section \<open>Log attributes\<close>

definition isBuiltInKey :: "string \<Rightarrow> bool" where
  "isBuiltInKey key \<longleftrightarrow> key \<in> {''time'', ''level'', ''msg'', ''source''}"

definition redactAttr :: "lowering \<Rightarrow> keyMatcher \<Rightarrow> string list \<Rightarrow> string \<times> string \<Rightarrow> string \<times> string" where
  "redactAttr lower m groups a =
     (if groups = [] \<and> isBuiltInKey (fst a) then a
      else if matches lower m (fst a) \<or> list_ex (matches lower m) groups then (fst a, RedactedValue)
      else a)"

section \<open>Nothing sensitive is stored\<close>


text \<open>A stored value is clean when every sensitive key in it, at any depth, holds null or the redaction mark.\<close>

fun clean :: "redactor \<Rightarrow> json \<Rightarrow> bool" where
  "clean rd (JArr js) = list_all (clean rd) js"
| "clean rd (JObj es) =
     list_all (\<lambda>(k, j). (matches (rd_lower rd) (rd_keys rd) k \<longrightarrow> j \<in> {JNull, JStr RedactedValue}) \<and> clean rd j) es"
| "clean rd _ = True"

lemma redactField_clean:
  assumes "redactField rd descend key v = Inr j" and "\<forall>g j. descend g = Inr j \<longrightarrow> clean rd j"
  shows "clean rd j \<and> (matches (rd_lower rd) (rd_keys rd) key \<longrightarrow> j \<in> {JNull, JStr RedactedValue})"
  using assms by (auto simp: redactField_def split: if_splits)

lemma redactValue_clean: "redactValue rd h n path g = Inr j \<Longrightarrow> clean rd j"
proof (induction rd h n path g arbitrary: j rule: redactValue.induct)
  case (6 rd h n path a)
  show ?case
  proof (cases "a = 0")
    case False
    let ?field = "redactField rd (redactValue rd h n ((a, -1) # path))"
    from False 6(2) have path: "(a, -1) \<notin> set path" by (auto split: if_splits)
    with False 6(2) obtain es where j: "j = JObj es"
      and all: "mapR (\<lambda>(k, v). bindR (?field k v) (\<lambda>j. Inr (k, j))) (hp_maps h a) = Inr es" by auto
    have below: "\<forall>g j'. redactValue rd h n ((a, -1) # path) g = Inr j' \<longrightarrow> clean rd j'"
      using 6(1) False path by blast
    have "(matches (rd_lower rd) (rd_keys rd) k \<longrightarrow> j' \<in> {JNull, JStr RedactedValue}) \<and> clean rd j'" if "(k, j') \<in> set es" for k j'
    proof -
      from mapR_mem [OF all that] obtain v where "?field k v = Inr j'" by auto
      from redactField_clean [OF this below] show ?thesis by blast
    qed
    then show ?thesis unfolding j by (auto simp: list_all_iff)
  qed (use 6 in auto)
next
  case (8 rd h n path a l)
  show ?case
  proof (cases "a = 0")
    case False
    let ?p = "if l \<noteq> 0 then (a, int l) # path else path"
    from False 8(2) have path: "\<not> (l \<noteq> 0 \<and> (a, int l) \<in> set path)" by (auto split: if_splits)
    from 8(2) have "bindR (mapR (\<lambda>v. bindR (normalizeValue v) (redactValue rd h n ?p)) (hp_slices h a l)) (\<lambda>js. Inr (JArr js)) = Inr j"
      unfolding redactValue.simps if_not_P [OF False] if_not_P [OF path] .
    then obtain js where j: "j = JArr js" and all: "mapR (\<lambda>v. bindR (normalizeValue v) (redactValue rd h n ?p)) (hp_slices h a l) = Inr js"
      by (auto simp del: bindR_eq_Inr simp: bindR_eq_Inr [of "mapR _ _"])
    have "clean rd j'" if "j' \<in> set js" for j'
    proof -
      from mapR_mem [OF all that] obtain v where "bindR (normalizeValue v) (redactValue rd h n ?p) = Inr j'" by blast
      then obtain g where "normalizeValue v = Inr g" "redactValue rd h n ?p g = Inr j'" by (auto simp del: redactValue.simps)
      then show ?thesis using 8(1) [OF False path] by blast
    qed
    then show ?thesis unfolding j by (simp add: list_all_iff)
  qed (use 8 in auto)
qed (auto split: if_splits)

lemma redactChanges_clean:
  assumes "redactChanges rd h a = Inr (JObj es)" and "(k, j) \<in> set es"
  shows "clean rd j \<or> (\<exists>sides. j = JObj sides \<and> (\<forall>(side, sj) \<in> set sides. clean rd sj))"
    and "matches (rd_lower rd) (rd_keys rd) k \<Longrightarrow>
      j \<in> {JNull, JStr RedactedValue} \<or> (\<exists>sides. j = JObj sides \<and> (\<forall>(side, sj) \<in> set sides. sj \<in> {JNull, JStr RedactedValue}))"
proof -
  let ?field = "redactField rd (redactValue rd h maxRedactDepth [])"
  let ?whole = "\<lambda>k v. bindR (?field k v) (\<lambda>j. Inr (k, j))"
  let ?f = "\<lambda>(k, v). case v of
            Plain (GMap d) \<Rightarrow>
              if d \<noteq> 0 \<and> isDiff (hp_maps h d)
              then bindR (mapR (\<lambda>(side, sv). bindR (?field k sv) (\<lambda>j. Inr (side, j))) (hp_maps h d)) (\<lambda>sides. Inr (k, JObj sides))
              else ?whole k v
          | _ \<Rightarrow> ?whole k v"
  have "\<forall>g j. redactValue rd h maxRedactDepth [] g = Inr j \<longrightarrow> clean rd j" using redactValue_clean by blast
  note field = redactField_clean [OF _ this]
  from assms(1) have "mapR ?f (hp_maps h a) = Inr es" by (auto simp: redactChanges_def Let_def split: if_splits)
  from mapR_mem [OF this assms(2)] obtain x where "?f x = Inr (k, j)" by blast
  then obtain k' v where f: "?f (k', v) = Inr (k, j)" by (cases x) blast
  then consider "?whole k' v = Inr (k, j)"
    | d where "bindR (mapR (\<lambda>(side, sv). bindR (?field k' sv) (\<lambda>j. Inr (side, j))) (hp_maps h d)) (\<lambda>sides. Inr (k', JObj sides)) = Inr (k, j)"
    by (auto simp del: bindR_eq_Inr split: gval.splits generic.splits if_splits)
  then have "(clean rd j \<and> (matches (rd_lower rd) (rd_keys rd) k \<longrightarrow> j \<in> {JNull, JStr RedactedValue})) \<or>
      (\<exists>sides. j = JObj sides \<and> (\<forall>(side, sj) \<in> set sides. clean rd sj \<and>
         (matches (rd_lower rd) (rd_keys rd) k \<longrightarrow> sj \<in> {JNull, JStr RedactedValue})))"
  proof cases
    case 1
    then have "?field k v = Inr j" by auto
    from field [OF this] show ?thesis by blast
  next
    case (2 d)
    then obtain sides where j: "j = JObj sides" and k: "k' = k"
      and all: "mapR (\<lambda>(side, sv). bindR (?field k sv) (\<lambda>j. Inr (side, j))) (hp_maps h d) = Inr sides"
      by auto
    have "clean rd sj \<and> (matches (rd_lower rd) (rd_keys rd) k \<longrightarrow> sj \<in> {JNull, JStr RedactedValue})" if "(side, sj) \<in> set sides" for side sj
    proof -
      from mapR_mem [OF all that] obtain sv where "?field k sv = Inr sj" by auto
      from field [OF this] show ?thesis by blast
    qed
    with j show ?thesis by blast
  qed
  then show "clean rd j \<or> (\<exists>sides. j = JObj sides \<and> (\<forall>(side, sj) \<in> set sides. clean rd sj))"
    "matches (rd_lower rd) (rd_keys rd) k \<Longrightarrow>
      j \<in> {JNull, JStr RedactedValue} \<or> (\<exists>sides. j = JObj sides \<and> (\<forall>(side, sj) \<in> set sides. sj \<in> {JNull, JStr RedactedValue}))"
    by fast+
qed

text \<open>Field by field of the change record: a sensitive field shows null or the mark, on both sides of a difference.\<close>

fun cleanChanges :: "redactor \<Rightarrow> json \<Rightarrow> bool" where
  "cleanChanges rd (JObj es) =
     list_all (\<lambda>(k, j). (case j of JObj sides \<Rightarrow> clean rd j \<or> list_all (\<lambda>(_, sj). clean rd sj) sides | _ \<Rightarrow> clean rd j) \<and>
       (matches (rd_lower rd) (rd_keys rd) k \<longrightarrow>
          (case j of JObj sides \<Rightarrow> list_all (\<lambda>(_, sj). sj \<in> {JNull, JStr RedactedValue}) sides | _ \<Rightarrow> j \<in> {JNull, JStr RedactedValue}))) es"
| "cleanChanges rd j = (j = JNull)"

lemma redactChanges_cleanChanges:
  assumes "redactChanges rd h a = Inr j"
  shows "cleanChanges rd j"
proof (cases "a = 0")
  case True
  with assms show ?thesis by (simp add: redactChanges_def)
next
  case False
  with assms obtain es where j: "j = JObj es" by (auto simp: redactChanges_def Let_def)
  have "(case j' of JObj sides \<Rightarrow> clean rd j' \<or> list_all (\<lambda>(_, sj). clean rd sj) sides | _ \<Rightarrow> clean rd j') \<and>
       (matches (rd_lower rd) (rd_keys rd) k \<longrightarrow>
          (case j' of JObj sides \<Rightarrow> list_all (\<lambda>(_, sj). sj \<in> {JNull, JStr RedactedValue}) sides | _ \<Rightarrow> j' \<in> {JNull, JStr RedactedValue}))"
    if "(k, j') \<in> set es" for k j'
    using redactChanges_clean [OF assms [unfolded j] that] by (cases j') (auto simp: list_all_iff)
  then show ?thesis unfolding j by (auto simp: list_all_iff)
qed

text \<open>
  Record stores nothing sensitive: whatever the options and hooks, an entry that reaches the
  repository is clean in all four payloads; an entry that cannot be redacted is refused with
  ErrUnredactable and the repository is not called.
\<close>

definition entryClean :: "redactor \<Rightarrow> storedEntry \<Rightarrow> bool" where
  "entryClean rd st \<longleftrightarrow> clean rd (se_InputPayload st) \<and> clean rd (se_BeforeSnapshot st) \<and> clean rd (se_AfterSnapshot st) \<and>
     cleanChanges rd (se_ChangedFields st)"

lemma redactEntry_clean: "redactEntry rd h e = Inr st \<Longrightarrow> entryClean rd st"
  by (auto simp: redactEntry_def entryClean_def intro: redactValue_clean redactChanges_cleanChanges)


lemma normalizeValue_Inl: "normalizeValue v = Inl e \<Longrightarrow> errorsIs e ErrUnredactable"
  by (cases v rule: normalizeValue.cases) auto

lemma redactField_Inl:
  assumes "redactField rd descend key v = Inl e" and "\<And>g e. descend g = Inl e \<Longrightarrow> errorsIs e ErrUnredactable"
  shows "errorsIs e ErrUnredactable"
  using assms by (auto simp: redactField_def bindR_eq_Inl split: if_splits option.splits dest: normalizeValue_Inl)

lemma redactValue_Inl: "redactValue rd h n path g = Inl e \<Longrightarrow> errorsIs e ErrUnredactable"
proof (induction rd h n path g arbitrary: e rule: redactValue.induct)
  case (6 rd h n path a)
  show ?case
  proof (cases "a = 0 \<or> (a, -1) \<in> set path")
    case False
    let ?field = "redactField rd (redactValue rd h n ((a, -1) # path))"
    from False 6(2) have "mapR (\<lambda>(k, v). bindR (?field k v) (\<lambda>j. Inr (k, j))) (hp_maps h a) = Inl e"
      by (auto simp: bindR_eq_Inl)
    from mapR_Inl [OF this] obtain k v where "?field k v = Inl e" by (auto simp: bindR_eq_Inl)
    then show ?thesis by (rule redactField_Inl) (rule 6(1), use False in auto)
  qed (use 6(2) in \<open>auto split: if_splits\<close>)
next
  case (8 rd h n path a l)
  show ?case
  proof (cases "a = 0 \<or> (l \<noteq> 0 \<and> (a, int l) \<in> set path)")
    case False
    let ?p = "if l \<noteq> 0 then (a, int l) # path else path"
    from False have nz: "a \<noteq> 0" and path: "\<not> (l \<noteq> 0 \<and> (a, int l) \<in> set path)" by simp_all
    from 8(2) have "bindR (mapR (\<lambda>v. bindR (normalizeValue v) (redactValue rd h n ?p)) (hp_slices h a l)) (\<lambda>js. Inr (JArr js)) = Inl e"
      unfolding redactValue.simps if_not_P [OF nz] if_not_P [OF path] .
    then have "mapR (\<lambda>v. bindR (normalizeValue v) (redactValue rd h n ?p)) (hp_slices h a l) = Inl e" by (simp add: bindR_eq_Inl)
    from mapR_Inl [OF this] obtain v where "bindR (normalizeValue v) (redactValue rd h n ?p) = Inl e" by blast
    then consider "normalizeValue v = Inl e" | g where "normalizeValue v = Inr g" "redactValue rd h n ?p g = Inl e" unfolding bindR_eq_Inl by blast
    then show ?thesis using 8(1) [OF nz path] normalizeValue_Inl by cases blast+
  qed (use 8(2) in \<open>auto split: if_splits\<close>)
qed (auto split: if_splits)

lemma redactChanges_Inl:
  assumes "redactChanges rd h a = Inl e"
  shows "errorsIs e ErrUnredactable"
proof -
  let ?field = "redactField rd (redactValue rd h maxRedactDepth [])"
  have field: "errorsIs e ErrUnredactable" if "?field k v = Inl e" for k v e
    using that by (rule redactField_Inl) (rule redactValue_Inl)
  have sides: "errorsIs e ErrUnredactable"
    if "mapR (\<lambda>(side, sv). bindR (?field k sv) (\<lambda>j. Inr (side, j))) m = Inl e" for k m e
    using mapR_Inl [OF that] field by (auto simp: bindR_eq_Inl)
  from assms obtain x where "(case x of (k, v) \<Rightarrow> case v of
            Plain (GMap d) \<Rightarrow>
              if d \<noteq> 0 \<and> isDiff (hp_maps h d)
              then bindR (mapR (\<lambda>(side, sv). bindR (?field k sv) (\<lambda>j. Inr (side, j))) (hp_maps h d)) (\<lambda>sides. Inr (k, JObj sides))
              else bindR (?field k v) (\<lambda>j. Inr (k, j))
          | _ \<Rightarrow> bindR (?field k v) (\<lambda>j. Inr (k, j))) = Inl e"
    by (auto simp: redactChanges_def Let_def bindR_eq_Inl dest!: mapR_Inl split: if_splits)
  then show ?thesis
    by (auto simp: bindR_eq_Inl split: prod.splits gval.splits generic.splits if_splits intro: field sides)
qed


text \<open>The repository only sees clean entries: replacing it by one that refuses unclean entries changes nothing.\<close>

definition guarded :: "redactor \<Rightarrow> (storedEntry \<Rightarrow> ('s, unit) action) \<Rightarrow> storedEntry \<Rightarrow> ('s, unit) action" where
  "guarded rd create st s = (if entryClean rd st then create st s else (Inl (ErrText ''leak''), s))"

theorem Record_clean:
  "Record rd h create ctx source act rt rid opts s = Record rd h (guarded rd create) ctx source act rt rid opts s"
  by (auto simp: Record_def Let_def guarded_def dest: redactEntry_clean split: sum.split)

theorem Record_refuses:
  assumes "redactEntry rd h (foldl (\<lambda>e opt. opt e) (applyActorAndRequestContext ctx (newEntry (rd_lower rd) source act rt rid)) opts) = Inl e"
  shows "Record rd h create ctx source act rt rid opts s = (Inl e, s) \<and> errorsIs e ErrUnredactable"
  using assms
  by (auto simp: Record_def redactEntry_def bindR_eq_Inl intro: redactValue_Inl redactChanges_Inl)

text \<open>A payload that contains itself is refused; the walk always ends.\<close>


lemma redact_self:
  assumes "a \<noteq> 0" and "(k, Plain (GMap a)) \<in> set (hp_maps h a)" and "\<not> matches (rd_lower rd) (rd_keys rd) k" and "rd_hooks rd = []"
  shows "\<exists>e. redactValue rd h maxRedactDepth [] (GMap a) = Inl e"
proof -
  have n: "maxRedactDepth = Suc (Suc 998)" by (simp add: maxRedactDepth_def)
  let ?f = "\<lambda>(k, v). bindR (redactField rd (redactValue rd h (Suc 998) [(a, -1)]) k v) (\<lambda>j. Inr (k, j))"
  have "redactValue rd h (Suc 998) [(a, -1)] (GMap a) = Inl (Err ErrUnredactable)" using assms(1) by (simp only: redactValue.simps) simp
  then have "?f (k, Plain (GMap a)) = Inl (Err ErrUnredactable)" using assms by (simp add: redactField_def)
  from mapR_fails [where f = ?f, OF assms(2) this] obtain e where e: "mapR ?f (hp_maps h a) = Inl e" by blast
  have "redactValue rd h (Suc (Suc 998)) [] (GMap a) = bindR (mapR ?f (hp_maps h a)) (\<lambda>es. Inr (JObj es))"
    using assms(1) by (simp only: redactValue.simps if_False list.set empty_iff)
  with e show ?thesis unfolding n by (metis bindR.simps(1))
qed

section \<open>The denylist\<close>

text \<open>The rules of WithRedactedKeys: a key matches when, normalized, it contains a normalized entry of the list.\<close>

lemma containsText_iff: "containsText s n \<longleftrightarrow> (\<exists>a b. s = a @ n @ b)"
proof (induction s)
  case (Cons c s)
  have "stripPrefix n (c # s) \<noteq> None \<longleftrightarrow> (\<exists>b. c # s = n @ b)" using stripPrefix_Some by (metis not_None_eq option.distinct(1))
  moreover have "(\<exists>a b. c # s = a @ n @ b) \<longleftrightarrow> (\<exists>b. c # s = n @ b) \<or> (\<exists>a b. s = a @ n @ b)"
    by (metis append.left_neutral append_Cons append_eq_Cons_conv)
  ultimately show ?case using Cons by simp
qed simp

theorem matches_iff:
  "matches lower (newKeyMatcher lower keys) key \<longleftrightarrow>
     (\<exists>k \<in> set keys. \<exists>a b. normalizeKey lower k \<noteq> '''' \<and> normalizeKey lower key = a @ normalizeKey lower k @ b)"
  by (auto simp: matches_def newKeyMatcher_def list_ex_iff containsText_iff)

end
