(* ===== verification/Forms.thy ===== *)
theory Forms
  imports Validate Text_Values
begin

text \<open>
  Process specifications with forms (examples/boilerplate/internal/domain/process): field types,
  forms and their validation, and the compilation of a specification into a workflow definition.
  CEL, the language of the visibility rules, is a parameter: an environment of declared names, the
  compilation of an expression in it and the evaluation of the program.
\<close>

section \<open>Field types\<close>

text \<open>A config is the JSON of the field's config key; None when it is absent or blank.\<close>

type_synonym fieldConfig = "json option"

text \<open>
  An object's keys are distinct up to case. CELType is the type of the variable a field is to the
  rules, by name.
\<close>

record FieldType =
  ft_Key :: string
  ft_CELType :: string
  ft_ValidateConfig :: "fieldConfig \<Rightarrow> unit result"
  ft_Validate :: "json \<Rightarrow> fieldConfig \<Rightarrow> unit result"

text \<open>NewFieldRegistry: the types by key, an error when a key repeats.\<close>

fun registerTypes :: "FieldType list \<Rightarrow> (string \<times> FieldType) list \<Rightarrow> (string \<times> FieldType) list result" where
  "registerTypes [] acc = Inr acc"
| "registerTypes (t # ts) acc =
     (if map_of acc (ft_Key t) \<noteq> None then Inl (ErrText ''field type registered twice'')
      else registerTypes ts ((ft_Key t, t) # acc))"

definition NewFieldRegistry :: "FieldType list \<Rightarrow> (string \<times> FieldType) list result" where
  "NewFieldRegistry types = registerTypes types []"

text \<open>decodeConfig: the entries of a config object; null and an absent config have none.\<close>

definition configEntries :: "fieldConfig \<Rightarrow> (string \<times> json) list result" where
  "configEntries cfg =
     (case cfg of
        None \<Rightarrow> Inr []
      | Some JNull \<Rightarrow> Inr []
      | Some (JObj es) \<Rightarrow> Inr es
      | Some _ \<Rightarrow> Inl (ErrText ''invalid config''))"

fun decodeMaxLength :: "int \<Rightarrow> (string \<times> json) list \<Rightarrow> int result" where
  "decodeMaxLength n [] = Inr n"
| "decodeMaxLength n ((k, v) # es) =
     (if \<not> EqualFold k ''maxLength'' then Inl (ErrText ''invalid config'')
      else case v of
        JNull \<Rightarrow> decodeMaxLength n es
      | JNum x \<Rightarrow> (case ParseInt64 x of None \<Rightarrow> Inl (ErrText ''invalid config'') | Some m \<Rightarrow> decodeMaxLength m es)
      | _ \<Rightarrow> Inl (ErrText ''invalid config''))"

definition validateLengthConfig :: "fieldConfig \<Rightarrow> int result" where
  "validateLengthConfig cfg =
     bindR (configEntries cfg) (\<lambda>es.
     bindR (decodeMaxLength 0 es) (\<lambda>n.
     if n < 0 then Inl (ErrText ''maxLength must not be negative'') else Inr n))"

definition errNotString :: error where
  "errNotString = ErrText ''must be a string''"

definition validateLength :: "json \<Rightarrow> fieldConfig \<Rightarrow> int \<Rightarrow> unit result" where
  "validateLength value cfg defaultMax =
     (case value of
        JStr s \<Rightarrow>
          bindR (validateLengthConfig cfg) (\<lambda>m.
          let limit = (if m = 0 then defaultMax else m) in
          if int (runeCount s) > limit then Inl (ErrText (''must be at most '' @ showInt limit @ '' characters'')) else Inr ())
      | _ \<Rightarrow> Inl errNotString)"

definition textField :: FieldType where
  "textField = \<lparr>ft_Key = ''text'', ft_CELType = ''string'', ft_ValidateConfig = (\<lambda>cfg. bindR (validateLengthConfig cfg) (\<lambda>_. Inr ())),
     ft_Validate = (\<lambda>v cfg. validateLength v cfg 200)\<rparr>"

definition textareaField :: FieldType where
  "textareaField = \<lparr>ft_Key = ''textarea'', ft_CELType = ''string'', ft_ValidateConfig = (\<lambda>cfg. bindR (validateLengthConfig cfg) (\<lambda>_. Inr ())),
     ft_Validate = (\<lambda>v cfg. validateLength v cfg 2000)\<rparr>"

text \<open>parseAddress is net/mail.ParseAddress: the address it reads, without the display name.\<close>

definition emailField :: "(string \<Rightarrow> string option) \<Rightarrow> FieldType" where
  "emailField parseAddress = \<lparr>ft_Key = ''email'', ft_CELType = ''string'',
     ft_ValidateConfig = (\<lambda>cfg. bindR (configEntries cfg) (\<lambda>es. if es = [] then Inr () else Inl (ErrText ''invalid config''))),
     ft_Validate = (\<lambda>v _. case v of
        JStr s \<Rightarrow> if parseAddress s = Some s then Inr () else Inl (ErrText ''must be a single email address'')
      | _ \<Rightarrow> Inl errNotString)\<rparr>"

text \<open>A null option decodes as the empty string.\<close>

definition decodeOption :: "json \<Rightarrow> string result" where
  "decodeOption j = (case j of JStr s \<Rightarrow> Inr s | JNull \<Rightarrow> Inr '''' | _ \<Rightarrow> Inl (ErrText ''invalid config''))"

fun decodeOptions :: "string list \<Rightarrow> (string \<times> json) list \<Rightarrow> string list result" where
  "decodeOptions os [] = Inr os"
| "decodeOptions os ((k, v) # es) =
     (if \<not> EqualFold k ''options'' then Inl (ErrText ''invalid config'')
      else case v of
        JNull \<Rightarrow> decodeOptions [] es
      | JArr js \<Rightarrow> bindR (mapR decodeOption js) (\<lambda>os'. decodeOptions os' es)
      | _ \<Rightarrow> Inl (ErrText ''invalid config''))"

definition selectOptions :: "fieldConfig \<Rightarrow> string list result" where
  "selectOptions cfg = bindR (configEntries cfg) (decodeOptions [])"

fun checkOptions :: "string list \<Rightarrow> string list \<Rightarrow> unit result" where
  "checkOptions [] seen = Inr ()"
| "checkOptions (o' # os) seen =
     (if o' = '''' then Inl (ErrText ''options must not contain an empty value'')
      else if o' \<in> set seen then Inl (ErrText (''option '' @ o' @ '' is repeated''))
      else checkOptions os (o' # seen))"

definition selectField :: FieldType where
  "selectField = \<lparr>ft_Key = ''select'', ft_CELType = ''string'',
     ft_ValidateConfig = (\<lambda>cfg.
       bindR (selectOptions cfg) (\<lambda>os.
       if os = [] then Inl (ErrText ''options must not be empty'') else checkOptions os [])),
     ft_Validate = (\<lambda>v cfg. case v of
        JStr s \<Rightarrow>
          bindR (selectOptions cfg) (\<lambda>os.
          if s \<in> set os then Inr () else Inl (ErrText ''must be one of the configured options''))
      | _ \<Rightarrow> Inl errNotString)\<rparr>"

definition DefaultFieldTypes :: "(string \<Rightarrow> string option) \<Rightarrow> FieldType list" where
  "DefaultFieldTypes parseAddress = [textField, textareaField, emailField parseAddress, selectField]"

section \<open>Forms\<close>

text \<open>A compiled rule evaluates over the variables to a boolean, or fails.\<close>

type_synonym program = "(string \<Rightarrow> json option) \<Rightarrow> bool result"

record cel =
  cel_NewEnv :: "(string \<times> string) list \<Rightarrow> unit result"
  cel_Compile :: "(string \<times> string) list \<Rightarrow> string \<Rightarrow> (bool \<times> program result) result"

record FieldSpec =
  fs_Key :: string
  fs_Type :: string
  fs_Label :: string
  fs_Required :: bool
  fs_Config :: fieldConfig
  fs_VisibleWhen :: string

record compiledField =
  cf_spec :: FieldSpec
  cf_typ :: FieldType
  cf_visible :: "program option"

record Form =
  fm_fields :: "compiledField list"
  fm_zero :: "string list"

text \<open>ruleEnv: the declared names, each of them a string variable that starts out empty.\<close>

fun ruleVariables :: "(string \<times> FieldType) list \<Rightarrow> FieldSpec list \<Rightarrow> (string \<times> string) list \<Rightarrow> (string \<times> string) list result" where
  "ruleVariables reg [] acc = Inr (rev acc)"
| "ruleVariables reg (f # fs) acc =
     (case map_of reg (fs_Type f) of
        None \<Rightarrow> Inl (ErrText ''unknown type'')
      | Some ty \<Rightarrow>
          if fs_Key f \<in> fst ` set acc then Inl (ErrText ''declared twice in the definition'')
          else ruleVariables reg fs ((fs_Key f, ft_CELType ty) # acc))"

definition ruleEnv :: "cel \<Rightarrow> (string \<times> FieldType) list \<Rightarrow> FieldSpec list \<Rightarrow> (string \<times> string) list result" where
  "ruleEnv cel reg allFields = bindR (ruleVariables reg allFields []) (\<lambda>env. bindR (cel_NewEnv cel env) (\<lambda>_. Inr env))"

definition compileRule :: "cel \<Rightarrow> (string \<times> string) list \<Rightarrow> string \<Rightarrow> program result" where
  "compileRule cel env expr =
     bindR (cel_Compile cel env expr) (\<lambda>(isBool, prg). if isBool then prg else Inl (ErrText ''must evaluate to bool''))"

fun compileFields :: "cel \<Rightarrow> (string \<times> FieldType) list \<Rightarrow> (string \<times> string) list \<Rightarrow> FieldSpec list \<Rightarrow> string list \<Rightarrow> compiledField list result" where
  "compileFields cel reg env [] seen = Inr []"
| "compileFields cel reg env (sp # sps) seen =
     (if fs_Key sp = '''' then Inl (ErrText ''field without key'')
      else if fs_Key sp \<in> set seen then Inl (ErrText ''declared twice'')
      else case map_of reg (fs_Type sp) of
        None \<Rightarrow> Inl (ErrText ''unknown type'')
      | Some ty \<Rightarrow>
          bindR (ft_ValidateConfig ty (fs_Config sp)) (\<lambda>_.
          bindR (if fs_VisibleWhen sp \<noteq> '''' then bindR (compileRule cel env (fs_VisibleWhen sp)) (\<lambda>p. Inr (Some p)) else Inr None) (\<lambda>vis.
          bindR (compileFields cel reg env sps (fs_Key sp # seen)) (\<lambda>cfs.
          Inr (\<lparr>cf_spec = sp, cf_typ = ty, cf_visible = vis\<rparr> # cfs)))))"

definition CompileForm :: "cel \<Rightarrow> (string \<times> FieldType) list \<Rightarrow> FieldSpec list \<Rightarrow> FieldSpec list \<Rightarrow> Form result" where
  "CompileForm cel reg allFields nodeFields =
     bindR (ruleEnv cel reg allFields) (\<lambda>env.
     bindR (compileFields cel reg env nodeFields []) (\<lambda>cfs. Inr \<lparr>fm_fields = cfs, fm_zero = map fst env\<rparr>))"

section \<open>Validating a submission\<close>

text \<open>
  Maps are association lists. The variables of the rules: what is submitted (strings only), then
  the case's data, then empty, each for declared names only.
\<close>

definition formKeys :: "Form \<Rightarrow> string list" where
  "formKeys f = map (fs_Key \<circ> cf_spec) (fm_fields f)"

fun isString :: "json \<Rightarrow> bool" where
  "isString (JStr _) = True"
| "isString _ = False"

definition ruleVars :: "Form \<Rightarrow> (string \<times> json) list \<Rightarrow> (string \<times> json) list \<Rightarrow> string \<Rightarrow> json option" where
  "ruleVars f submitted caseData k =
     (if k \<in> set (formKeys f) \<and> (case map_of submitted k of None \<Rightarrow> False | Some v \<Rightarrow> isString v) then map_of submitted k
      else if k \<in> set (fm_zero f) then (case map_of caseData k of None \<Rightarrow> Some (JStr []) | Some v \<Rightarrow> Some v)
      else None)"

datatype fieldOutcome = Skipped | Invalid string | Accepted json

definition errorText :: "error \<Rightarrow> string" where
  "errorText e = (case e of ErrText m \<Rightarrow> m | _ \<Rightarrow> '''')"

definition fieldValue :: "compiledField \<Rightarrow> (string \<times> json) list \<Rightarrow> fieldOutcome" where
  "fieldValue cf submitted =
     (let v = map_of submitted (fs_Key (cf_spec cf)) in
      if v = None \<or> v = Some JNull \<or> v = Some (JStr '''')
      then (if fs_Required (cf_spec cf) then Invalid ''is required'' else Skipped)
      else case ft_Validate (cf_typ cf) (the v) (fs_Config (cf_spec cf)) of
        Inl e \<Rightarrow> Invalid (errorText e)
      | Inr _ \<Rightarrow> Accepted (the v))"

definition fieldOutcomeOf :: "(string \<Rightarrow> json option) \<Rightarrow> compiledField \<Rightarrow> (string \<times> json) list \<Rightarrow> fieldOutcome" where
  "fieldOutcomeOf vars cf submitted =
     (case cf_visible cf of
        None \<Rightarrow> fieldValue cf submitted
      | Some prg \<Rightarrow>
          (case prg vars of
             Inl _ \<Rightarrow> Invalid ''visibility rule failed''
           | Inr b \<Rightarrow> if b then fieldValue cf submitted else Skipped))"

definition Form_Validate :: "Form \<Rightarrow> (string \<times> json) list \<Rightarrow> (string \<times> json) list \<Rightarrow> (string \<times> string) list + (string \<times> json) list" where
  "Form_Validate f submitted caseData =
     (let unknown = map (\<lambda>(k, _). (k, ''is not a field of this form'')) (filter (\<lambda>(k, _). k \<notin> set (formKeys f)) submitted);
          outs = map (\<lambda>cf. (fs_Key (cf_spec cf), fieldOutcomeOf (ruleVars f submitted caseData) cf submitted)) (fm_fields f);
          errs = unknown @ List.map_filter (\<lambda>(k, o'). case o' of Invalid m \<Rightarrow> Some (k, m) | _ \<Rightarrow> None) outs;
          out = List.map_filter (\<lambda>(k, o'). case o' of Accepted v \<Rightarrow> Some (k, v) | _ \<Rightarrow> None) outs in
      if errs \<noteq> [] then Inl errs else Inr out)"

section \<open>Process specifications\<close>

record ProfileSpec =
  pf_Position :: string
  pf_Unit :: string

record NodeSpec =
  ns_ID :: string
  ns_Start :: bool
  ns_Terminal :: bool
  ns_Profile :: "ProfileSpec option"
  ns_Form :: "FieldSpec list"

record TransitionSpec =
  ts_From :: string
  ts_To :: string
  ts_Action :: string

record ProcessSpec =
  ps_Name :: string
  ps_Nodes :: "NodeSpec list"
  ps_Transitions :: "TransitionSpec list"

record Process =
  p_Spec :: ProcessSpec
  p_Definition :: Definition
  p_Forms :: "(string \<times> Form) list"

definition compileNode :: "NodeSpec \<Rightarrow> Node result" where
  "compileNode n =
     (if ns_Terminal n \<and> ns_Form n \<noteq> [] then Inl (ErrText ''a terminal node cannot have a form'')
      else
        let node = zeroNode\<lparr>node_ID := ns_ID n, node_Start := ns_Start n, node_Terminal := ns_Terminal n\<rparr> in
        case ns_Profile n of
          None \<Rightarrow> Inr node
        | Some pf \<Rightarrow>
            if ns_Start n then Inl (ErrText ''the start node cannot name a profile'')
            else if pf_Position pf = '''' \<or> pf_Unit pf = '''' then Inl (ErrText ''a profile needs a position and a unit'')
            else Inr (node\<lparr>node_Eligible := ByPositionInUnit (pf_Position pf) (pf_Unit pf)\<rparr>))"

definition compileTransition :: "TransitionSpec \<Rightarrow> Transition" where
  "compileTransition t = zeroTransition\<lparr>tr_From := ts_From t, tr_To := ts_To t, tr_Action := ts_Action t\<rparr>"

definition specFields :: "ProcessSpec \<Rightarrow> FieldSpec list" where
  "specFields sp = concat (map ns_Form (ps_Nodes sp))"

definition CompileProcess :: "cel \<Rightarrow> (string \<times> FieldType) list \<Rightarrow> ProcessSpec \<Rightarrow> int \<Rightarrow> Process result" where
  "CompileProcess cel reg sp version =
     bindR (mapR compileNode (ps_Nodes sp)) (\<lambda>nodes.
     let d = \<lparr>d_Name = ps_Name sp, d_Version = version, d_Nodes = nodes,
              d_Transitions = map compileTransition (ps_Transitions sp)\<rparr> in
     bindR (requireR (Validate d = []) (Err ErrInvalidDefinition)) (\<lambda>_.
     bindR (mapR (\<lambda>n. bindR (CompileForm cel reg (specFields sp) (ns_Form n)) (\<lambda>f. Inr (ns_ID n, f)))
              (filter (\<lambda>n. ns_Form n \<noteq> []) (ps_Nodes sp))) (\<lambda>forms.
     Inr \<lparr>p_Spec = sp, p_Definition = d, p_Forms = rev forms\<rparr>)))"

text \<open>ValidateNode: a node without a form takes no values at all.\<close>

definition ValidateNode :: "Process \<Rightarrow> string \<Rightarrow> (string \<times> json) list \<Rightarrow> (string \<times> json) list \<Rightarrow> (string \<times> json) list result" where
  "ValidateNode p nodeID values caseData =
     (case map_of (p_Forms p) nodeID of
        None \<Rightarrow> if values \<noteq> [] then Inl (ErrFields (map (\<lambda>(k, _). (k, ''is not a field of this form'')) values)) else Inr []
      | Some form \<Rightarrow> (case Form_Validate form values caseData of Inl errs \<Rightarrow> Inl (ErrFields errs) | Inr clean \<Rightarrow> Inr clean))"

definition ProfiledNodes :: "Process \<Rightarrow> string list" where
  "ProfiledNodes p = map node_ID (filter (\<lambda>n. \<not> Eligibility_IsZero (node_Eligible n)) (d_Nodes (p_Definition p)))"

section \<open>What a validated submission guarantees\<close>

definition isVisible :: "Form \<Rightarrow> (string \<times> json) list \<Rightarrow> (string \<times> json) list \<Rightarrow> compiledField \<Rightarrow> bool" where
  "isVisible f submitted caseData cf =
     (case cf_visible cf of None \<Rightarrow> True | Some prg \<Rightarrow> prg (ruleVars f submitted caseData) = Inr True)"

definition blank :: "json option \<Rightarrow> bool" where
  "blank v \<longleftrightarrow> v = None \<or> v = Some JNull \<or> v = Some (JStr '''')"

lemma fieldOutcome_Accepted:
  "fieldOutcomeOf (ruleVars f submitted caseData) cf submitted = Accepted v \<longleftrightarrow>
     isVisible f submitted caseData cf \<and> map_of submitted (fs_Key (cf_spec cf)) = Some v \<and> \<not> blank (Some v) \<and>
     ft_Validate (cf_typ cf) v (fs_Config (cf_spec cf)) = Inr ()"
  by (auto simp: fieldOutcomeOf_def fieldValue_def isVisible_def blank_def Let_def split: option.splits sum.splits if_splits)

lemma fieldOutcome_required:
  assumes "isVisible f submitted caseData cf" and "fs_Required (cf_spec cf)"
  shows "fieldOutcomeOf (ruleVars f submitted caseData) cf submitted \<noteq> Skipped"
  using assms by (auto simp: fieldOutcomeOf_def fieldValue_def isVisible_def Let_def split: option.splits sum.splits)

lemma fieldOutcome_Skipped:
  "fieldOutcomeOf (ruleVars f submitted caseData) cf submitted = Skipped \<Longrightarrow>
     \<not> isVisible f submitted caseData cf \<or> blank (map_of submitted (fs_Key (cf_spec cf)))"
  by (auto simp: fieldOutcomeOf_def fieldValue_def isVisible_def blank_def Let_def split: option.splits sum.splits if_splits)

lemma Form_Validate_Inr:
  assumes "Form_Validate f submitted caseData = Inr out"
  shows "fst ` set submitted \<subseteq> set (formKeys f)"
    and "\<forall>cf \<in> set (fm_fields f). \<nexists>m. fieldOutcomeOf (ruleVars f submitted caseData) cf submitted = Invalid m"
    and "set out = {(fs_Key (cf_spec cf), v) | cf v. cf \<in> set (fm_fields f) \<and>
           fieldOutcomeOf (ruleVars f submitted caseData) cf submitted = Accepted v}"
proof -
  show "fst ` set submitted \<subseteq> set (formKeys f)"
    using assms by (auto simp: Form_Validate_def Let_def filter_empty_conv split: if_splits)
  show "\<forall>cf \<in> set (fm_fields f). \<nexists>m. fieldOutcomeOf (ruleVars f submitted caseData) cf submitted = Invalid m"
    using assms by (fastforce simp: Form_Validate_def Let_def map_filter_Nil split: if_splits fieldOutcome.splits)
  show "set out = {(fs_Key (cf_spec cf), v) | cf v. cf \<in> set (fm_fields f) \<and>
           fieldOutcomeOf (ruleVars f submitted caseData) cf submitted = Accepted v}"
  proof -
    have "out = List.map_filter (\<lambda>(k, o'). case o' of Accepted v \<Rightarrow> Some (k, v) | _ \<Rightarrow> None)
        (map (\<lambda>cf. (fs_Key (cf_spec cf), fieldOutcomeOf (ruleVars f submitted caseData) cf submitted)) (fm_fields f))"
      using assms by (simp add: Form_Validate_def Let_def split: if_splits)
    moreover have "(case o' of Accepted v \<Rightarrow> Some (k, v) | _ \<Rightarrow> None) = Some y \<longleftrightarrow> (\<exists>v. o' = Accepted v \<and> y = (k, v))"
      for o' k and y :: "string \<times> json" by (cases o') auto
    ultimately have "y \<in> set out \<longleftrightarrow> (\<exists>cf \<in> set (fm_fields f). \<exists>v.
        fieldOutcomeOf (ruleVars f submitted caseData) cf submitted = Accepted v \<and> y = (fs_Key (cf_spec cf), v))" for y
      by (simp add: set_map_filter')
    then show ?thesis by blast
  qed
qed

text \<open>What comes out was submitted, is visible and passes its type; what is required and visible is there.\<close>

theorem Form_Validate_sound:
  assumes "Form_Validate f submitted caseData = Inr out"
  shows "fst ` set submitted \<subseteq> set (formKeys f)"
    and "(k, v) \<in> set out \<Longrightarrow> map_of submitted k = Some v \<and>
           (\<exists>cf \<in> set (fm_fields f). fs_Key (cf_spec cf) = k \<and> isVisible f submitted caseData cf \<and>
              ft_Validate (cf_typ cf) v (fs_Config (cf_spec cf)) = Inr ())"
    and "cf \<in> set (fm_fields f) \<Longrightarrow> isVisible f submitted caseData cf \<Longrightarrow>
           fs_Required (cf_spec cf) \<or> \<not> blank (map_of submitted (fs_Key (cf_spec cf))) \<Longrightarrow>
           fs_Key (cf_spec cf) \<in> fst ` set out"
proof -
  note out = Form_Validate_Inr [OF assms]
  show "fst ` set submitted \<subseteq> set (formKeys f)" by (rule out(1))
  show "(k, v) \<in> set out \<Longrightarrow> map_of submitted k = Some v \<and>
           (\<exists>cf \<in> set (fm_fields f). fs_Key (cf_spec cf) = k \<and> isVisible f submitted caseData cf \<and>
              ft_Validate (cf_typ cf) v (fs_Config (cf_spec cf)) = Inr ())"
    by (auto simp: out(3) fieldOutcome_Accepted)
  assume cf: "cf \<in> set (fm_fields f)" and vis: "isVisible f submitted caseData cf"
    and needed: "fs_Required (cf_spec cf) \<or> \<not> blank (map_of submitted (fs_Key (cf_spec cf)))"
  have "fieldOutcomeOf (ruleVars f submitted caseData) cf submitted \<noteq> Skipped"
    using fieldOutcome_required [OF vis] fieldOutcome_Skipped [of f submitted caseData cf] vis needed by blast
  with out(2) cf obtain v where "fieldOutcomeOf (ruleVars f submitted caseData) cf submitted = Accepted v"
    by (metis fieldOutcome.exhaust)
  with cf show "fs_Key (cf_spec cf) \<in> fst ` set out" by (force simp: out(3))
qed

section \<open>What a compiled process guarantees\<close>

lemma compileFields_Inr:
  assumes "compileFields cel reg env sps seen = Inr cfs"
  shows "map cf_spec cfs = sps" and "distinct (map fs_Key sps)" and "set (map fs_Key sps) \<inter> set seen = {}"
    and "'''' \<notin> set (map fs_Key sps)"
    and "cf \<in> set cfs \<Longrightarrow> map_of reg (fs_Type (cf_spec cf)) = Some (cf_typ cf) \<and>
           ft_ValidateConfig (cf_typ cf) (fs_Config (cf_spec cf)) = Inr () \<and>
           (cf_visible cf = None \<longleftrightarrow> fs_VisibleWhen (cf_spec cf) = '''')"
proof -
  have "map cf_spec cfs = sps \<and> distinct (map fs_Key sps) \<and> set (map fs_Key sps) \<inter> set seen = {} \<and>
      '''' \<notin> set (map fs_Key sps) \<and> (\<forall>cf \<in> set cfs. map_of reg (fs_Type (cf_spec cf)) = Some (cf_typ cf) \<and>
           ft_ValidateConfig (cf_typ cf) (fs_Config (cf_spec cf)) = Inr () \<and>
           (cf_visible cf = None \<longleftrightarrow> fs_VisibleWhen (cf_spec cf) = ''''))"
    using assms
  proof (induction sps arbitrary: seen cfs)
    case Nil
    then show ?case by simp
  next
    case (Cons sp sps)
    from Cons.prems obtain ty vis rest where
      key: "fs_Key sp \<noteq> ''''" "fs_Key sp \<notin> set seen" and
      ty: "map_of reg (fs_Type sp) = Some ty" "ft_ValidateConfig ty (fs_Config sp) = Inr ()" and
      vis: "(if fs_VisibleWhen sp \<noteq> '''' then bindR (compileRule cel env (fs_VisibleWhen sp)) (\<lambda>p. Inr (Some p)) else Inr None) = Inr vis" and
      rest: "compileFields cel reg env sps (fs_Key sp # seen) = Inr rest" and
      cfs: "cfs = \<lparr>cf_spec = sp, cf_typ = ty, cf_visible = vis\<rparr> # rest"
      by (auto split: if_splits option.splits)
    have "vis = None \<longleftrightarrow> fs_VisibleWhen sp = ''''" using vis by (auto split: if_splits)
    then show ?case using Cons.IH [OF rest] key ty cfs by auto
  qed
  then show "map cf_spec cfs = sps" and "distinct (map fs_Key sps)" and "set (map fs_Key sps) \<inter> set seen = {}"
    and "'''' \<notin> set (map fs_Key sps)"
    and "cf \<in> set cfs \<Longrightarrow> map_of reg (fs_Type (cf_spec cf)) = Some (cf_typ cf) \<and>
           ft_ValidateConfig (cf_typ cf) (fs_Config (cf_spec cf)) = Inr () \<and>
           (cf_visible cf = None \<longleftrightarrow> fs_VisibleWhen (cf_spec cf) = '''')" by blast+
qed

lemma ruleVariables_Inr:
  "ruleVariables reg fs acc = Inr env \<Longrightarrow> map fst env = rev (map fst acc) @ map fs_Key fs \<and>
     (distinct (map fst acc) \<longrightarrow> distinct (map fst env))"
proof (induction reg fs acc rule: ruleVariables.induct)
  case (1 reg acc)
  then show ?case by (auto simp flip: rev_map)
next
  case (2 reg f fs acc)
  then show ?case by (fastforce split: option.splits if_splits)
qed

lemma CompileForm_Inr:
  assumes "CompileForm cel reg allFields nodeFields = Inr f"
  shows "formKeys f = map fs_Key nodeFields" and "distinct (formKeys f)" and "'''' \<notin> set (formKeys f)"
    and "fm_zero f = map fs_Key allFields" and "distinct (fm_zero f)"
proof -
  obtain env cfs where env: "ruleVariables reg allFields [] = Inr env"
    and cfs: "compileFields cel reg env nodeFields [] = Inr cfs"
    and f: "f = \<lparr>fm_fields = cfs, fm_zero = map fst env\<rparr>"
    using assms by (auto simp: CompileForm_def ruleEnv_def)
  note fields = compileFields_Inr [OF cfs]
  show keys: "formKeys f = map fs_Key nodeFields"
    using fields(1) by (auto simp: formKeys_def f)
  show "distinct (formKeys f)" "'''' \<notin> set (formKeys f)" using fields(2,4) by (simp_all add: keys)
  show "fm_zero f = map fs_Key allFields" "distinct (fm_zero f)"
    using ruleVariables_Inr [OF env] by (auto simp: f)
qed

lemma compileNode_Inr:
  assumes "compileNode n = Inr node"
  shows "node_ID node = ns_ID n" and "node_Start node = ns_Start n" and "node_Terminal node = ns_Terminal n"
    and "Eligibility_IsZero (node_Eligible node) \<longleftrightarrow> ns_Profile n = None"
    and "ns_Terminal n \<Longrightarrow> ns_Form n = []" and "node_Kind node = NodeTask"
  using assms
  by (auto simp: compileNode_def Let_def zeroNode_def Eligibility_IsZero_def ByPositionInUnit_def split: if_splits option.splits)

lemma mapR_map:
  assumes "mapR g xs = Inr ys" and "\<And>x y. g x = Inr y \<Longrightarrow> h y = k x"
  shows "map h ys = map k xs"
  using assms(1) by (induction xs arbitrary: ys) (auto simp: assms(2))

lemma mapR_arg: "mapR g xs = Inr ys \<Longrightarrow> x \<in> set xs \<Longrightarrow> \<exists>y \<in> set ys. g x = Inr y"
  by (induction xs arbitrary: ys) auto

lemma CompileProcess_Inr:
  assumes "CompileProcess cel reg sp version = Inr p"
  obtains nodes forms where
    "mapR compileNode (ps_Nodes sp) = Inr nodes"
    "p_Definition p = \<lparr>d_Name = ps_Name sp, d_Version = version, d_Nodes = nodes,
       d_Transitions = map compileTransition (ps_Transitions sp)\<rparr>"
    "Validate (p_Definition p) = []" "p_Spec p = sp"
    "mapR (\<lambda>n. bindR (CompileForm cel reg (specFields sp) (ns_Form n)) (\<lambda>f. Inr (ns_ID n, f)))
       (filter (\<lambda>n. ns_Form n \<noteq> []) (ps_Nodes sp)) = Inr forms"
    "p_Forms p = rev forms"
  using assms by (auto simp: CompileProcess_def Let_def requireR_def split: if_splits)

text \<open>
  A process that compiles is a valid definition with the specification's nodes; its profiled nodes
  are those with a profile; its forms belong to nodes of the specification, none of them terminal.
\<close>

theorem CompileProcess_valid:
  assumes "CompileProcess cel reg sp version = Inr p"
  shows "Validate (p_Definition p) = []"
    and "d_Name (p_Definition p) = ps_Name sp" and "d_Version (p_Definition p) = version"
    and "map node_ID (d_Nodes (p_Definition p)) = map ns_ID (ps_Nodes sp)"
    and "ProfiledNodes p = map ns_ID (filter (\<lambda>n. ns_Profile n \<noteq> None) (ps_Nodes sp))"
    and "(nid, f) \<in> set (p_Forms p) \<Longrightarrow>
           \<exists>n \<in> set (ps_Nodes sp). ns_ID n = nid \<and> \<not> ns_Terminal n \<and> formKeys f = map fs_Key (ns_Form n) \<and> ns_Form n \<noteq> []"
proof -
  obtain nodes forms where nodes: "mapR compileNode (ps_Nodes sp) = Inr nodes"
    and d: "p_Definition p = \<lparr>d_Name = ps_Name sp, d_Version = version, d_Nodes = nodes,
       d_Transitions = map compileTransition (ps_Transitions sp)\<rparr>"
    and valid: "Validate (p_Definition p) = []"
    and forms: "mapR (\<lambda>n. bindR (CompileForm cel reg (specFields sp) (ns_Form n)) (\<lambda>f. Inr (ns_ID n, f)))
       (filter (\<lambda>n. ns_Form n \<noteq> []) (ps_Nodes sp)) = Inr forms"
    and p: "p_Forms p = rev forms"
    using assms by (rule CompileProcess_Inr)
  show "Validate (p_Definition p) = []" by (rule valid)
  show "d_Name (p_Definition p) = ps_Name sp" "d_Version (p_Definition p) = version" by (simp_all add: d)
  show "map node_ID (d_Nodes (p_Definition p)) = map ns_ID (ps_Nodes sp)"
    using mapR_map [OF nodes, of node_ID ns_ID] by (simp add: d compileNode_Inr)
  have "map node_ID (filter (\<lambda>n. \<not> Eligibility_IsZero (node_Eligible n)) ys) =
      map ns_ID (filter (\<lambda>n. ns_Profile n \<noteq> None) xs)" if "mapR compileNode xs = Inr ys" for xs ys
    using that by (induction xs arbitrary: ys) (auto simp: compileNode_Inr)
  from this [OF nodes] show "ProfiledNodes p = map ns_ID (filter (\<lambda>n. ns_Profile n \<noteq> None) (ps_Nodes sp))"
    by (simp add: ProfiledNodes_def d)
  assume "(nid, f) \<in> set (p_Forms p)"
  then have "(nid, f) \<in> set forms" by (simp add: p)
  from mapR_mem [OF forms this] obtain n where n: "n \<in> set (ps_Nodes sp)" "ns_Form n \<noteq> []" "ns_ID n = nid"
    and f: "CompileForm cel reg (specFields sp) (ns_Form n) = Inr f" by auto
  then obtain node where "compileNode n = Inr node" using mapR_arg [OF nodes] by blast
  then show "\<exists>n \<in> set (ps_Nodes sp). ns_ID n = nid \<and> \<not> ns_Terminal n \<and> formKeys f = map fs_Key (ns_Form n) \<and> ns_Form n \<noteq> []"
    using n CompileForm_Inr(1) [OF f] compileNode_Inr(5) by blast
qed

text \<open>
  Fields are declared once in the whole process, so the forms of two nodes share no key and every
  rule finds every declared name bound.
\<close>

lemma concat_once:
  "distinct (concat (map g xs)) \<Longrightarrow> x \<in> set xs \<Longrightarrow> y \<in> set xs \<Longrightarrow> k \<in> set (g x) \<Longrightarrow> k \<in> set (g y) \<Longrightarrow> x = y"
  by (induction xs) auto

theorem form_keys_disjoint:
  assumes "CompileProcess cel reg sp version = Inr p"
    and "(nid, f) \<in> set (p_Forms p)" and "(nid', f') \<in> set (p_Forms p)" and "nid \<noteq> nid'"
  shows "set (formKeys f) \<inter> set (formKeys f') = {}" and "set (formKeys f) \<subseteq> set (fm_zero f)"
proof -
  obtain forms where forms: "mapR (\<lambda>n. bindR (CompileForm cel reg (specFields sp) (ns_Form n)) (\<lambda>f. Inr (ns_ID n, f)))
       (filter (\<lambda>n. ns_Form n \<noteq> []) (ps_Nodes sp)) = Inr forms" and p: "p_Forms p = rev forms"
    using assms(1) by (auto elim!: CompileProcess_Inr)
  from mapR_mem [OF forms, of "(nid, f)"] assms(2) obtain n where n: "n \<in> set (ps_Nodes sp)" "ns_ID n = nid"
    and f: "CompileForm cel reg (specFields sp) (ns_Form n) = Inr f" by (auto simp: p)
  from mapR_mem [OF forms, of "(nid', f')"] assms(3) obtain n' where n': "n' \<in> set (ps_Nodes sp)" "ns_ID n' = nid'"
    and f': "CompileForm cel reg (specFields sp) (ns_Form n') = Inr f'" by (auto simp: p)
  note keys = CompileForm_Inr [OF f]
  have once: "distinct (concat (map (\<lambda>n. map fs_Key (ns_Form n)) (ps_Nodes sp)))"
    using keys(4,5) by (simp add: specFields_def map_concat comp_def)
  show "set (formKeys f) \<inter> set (formKeys f') = {}"
    using concat_once [OF once n(1) n'(1)] n(2) n'(2) assms(4) keys(1) CompileForm_Inr(1) [OF f'] by auto
  show "set (formKeys f) \<subseteq> set (fm_zero f)"
    using n(1) by (auto simp: keys(1,4) specFields_def)
qed

theorem ruleVars_bound:
  assumes "k \<in> set (fm_zero f)"
  shows "ruleVars f submitted caseData k \<noteq> None"
  using assms by (auto simp: ruleVars_def split: option.splits)

text \<open>What each of the default types accepts.\<close>

lemma length_accepted:
  "validateLength v cfg m = Inr () \<Longrightarrow> \<exists>s n. v = JStr s \<and> validateLengthConfig cfg = Inr n \<and>
     int (runeCount s) \<le> (if n = 0 then m else n)"
proof (cases v)
  case (JStr s)
  assume "validateLength v cfg m = Inr ()"
  then obtain n where n: "validateLengthConfig cfg = Inr n"
      "(if int (runeCount s) > (if n = 0 then m else n)
        then Inl (ErrText (''must be at most '' @ showInt (if n = 0 then m else n) @ '' characters'')) else Inr ()) = Inr ()"
    unfolding validateLength_def JStr json.case Let_def bindR_eq_Inr by blast
  have "int (runeCount s) \<le> (if n = 0 then m else n)"
  proof (rule ccontr)
    assume "\<not> int (runeCount s) \<le> (if n = 0 then m else n)"
    with n(2) show False by (simp only: not_le if_True sum.distinct)
  qed
  with n(1) JStr show ?thesis by blast
qed (simp_all add: validateLength_def)

lemma select_accepted:
  "ft_Validate selectField v cfg = Inr () \<Longrightarrow> \<exists>s os. v = JStr s \<and> selectOptions cfg = Inr os \<and> s \<in> set os"
  by (cases v) (auto simp: selectField_def split: if_splits)

lemma email_accepted:
  "ft_Validate (emailField parseAddress) v cfg = Inr () \<Longrightarrow> \<exists>s. v = JStr s \<and> parseAddress s = Some s"
  by (cases v) (auto simp: emailField_def split: if_splits)

text \<open>With the default types every accepted value is a string.\<close>

theorem default_strings:
  assumes "NewFieldRegistry (DefaultFieldTypes parseAddress) = Inr reg" and "map_of reg k = Some t"
    and "ft_Validate t v cfg = Inr ()"
  shows "\<exists>s. v = JStr s"
proof -
  have reg: "reg = [(''select'', selectField), (''email'', emailField parseAddress), (''textarea'', textareaField), (''text'', textField)]"
    using assms(1)
    by (simp add: NewFieldRegistry_def DefaultFieldTypes_def textField_def textareaField_def emailField_def selectField_def)
  have "t \<in> {selectField, emailField parseAddress, textareaField, textField}"
    using assms(2) by (auto simp: reg split: if_splits)
  then consider "t = selectField" | "t = emailField parseAddress" | "t = textareaField" | "t = textField"
    by (simp only: insert_iff empty_iff) argo
  then show ?thesis
  proof cases
    case 1
    then show ?thesis using select_accepted [of v cfg] assms(3) by (simp only: 1) blast
  next
    case 2
    then show ?thesis using email_accepted [of parseAddress v cfg] assms(3) by (simp only: 2) blast
  next
    case 3
    then have "validateLength v cfg 2000 = Inr ()" using assms(3) by (simp add: textareaField_def)
    then show ?thesis by (blast dest: length_accepted)
  next
    case 4
    then have "validateLength v cfg 200 = Inr ()" using assms(3) by (simp add: textField_def)
    then show ?thesis by (blast dest: length_accepted)
  qed
qed

end
