(* ===== verification/Process_Catalog.thy ===== *)
theory Process_Catalog
  imports Effects Forms
begin

text \<open>
  Publishing processes (examples/boilerplate): the JSON form of a specification and its strict
  reading, the table of published versions, and the catalog that compiles each version and
  registers it with the engine.
\<close>

section \<open>A specification as JSON\<close>

text \<open>encoding/json on the specification's structs: omitempty leaves zero values out.\<close>

definition omitEmpty :: "string \<Rightarrow> bool \<Rightarrow> json \<Rightarrow> (string \<times> json) list" where
  "omitEmpty k keep v = (if keep then [(k, v)] else [])"

definition marshalField :: "FieldSpec \<Rightarrow> json" where
  "marshalField f = JObj ([(''key'', JStr (fs_Key f)), (''type'', JStr (fs_Type f)), (''label'', JStr (fs_Label f))] @
     omitEmpty ''required'' (fs_Required f) (JBool (fs_Required f)) @
     (case fs_Config f of None \<Rightarrow> [] | Some cfg \<Rightarrow> [(''config'', cfg)]) @
     omitEmpty ''visibleWhen'' (fs_VisibleWhen f \<noteq> '''') (JStr (fs_VisibleWhen f)))"

definition marshalProfile :: "ProfileSpec \<Rightarrow> json" where
  "marshalProfile pf = JObj ([(''position'', JStr (pf_Position pf))] @ omitEmpty ''unit'' (pf_Unit pf \<noteq> '''') (JStr (pf_Unit pf)))"

definition marshalNode :: "NodeSpec \<Rightarrow> json" where
  "marshalNode n = JObj ([(''id'', JStr (ns_ID n))] @
     omitEmpty ''start'' (ns_Start n) (JBool (ns_Start n)) @
     omitEmpty ''terminal'' (ns_Terminal n) (JBool (ns_Terminal n)) @
     (case ns_Profile n of None \<Rightarrow> [] | Some pf \<Rightarrow> [(''profile'', marshalProfile pf)]) @
     omitEmpty ''form'' (ns_Form n \<noteq> []) (JArr (map marshalField (ns_Form n))))"

definition marshalTransition :: "TransitionSpec \<Rightarrow> json" where
  "marshalTransition t = JObj [(''from'', JStr (ts_From t)), (''to'', JStr (ts_To t)), (''action'', JStr (ts_Action t))]"

definition marshalSpec :: "ProcessSpec \<Rightarrow> json" where
  "marshalSpec sp = JObj [(''name'', JStr (ps_Name sp)), (''nodes'', JArr (map marshalNode (ps_Nodes sp))),
     (''transitions'', JArr (map marshalTransition (ps_Transitions sp)))]"

text \<open>
  Decoding with DisallowUnknownFields: names match without regard to case, an unknown name or a
  value of the wrong kind is an error, null leaves the field as it is.
\<close>

abbreviation parseError :: error where
  "parseError \<equiv> ErrText ''parse process spec''"

fun foldR :: "('a \<Rightarrow> 'r \<Rightarrow> 'r result) \<Rightarrow> 'a list \<Rightarrow> 'r \<Rightarrow> 'r result" where
  "foldR f [] r = Inr r"
| "foldR f (x # xs) r = bindR (f x r) (foldR f xs)"

definition decodeStruct :: "(string \<times> json \<Rightarrow> 'r \<Rightarrow> 'r result) \<Rightarrow> 'r \<Rightarrow> json \<Rightarrow> 'r result" where
  "decodeStruct field zero j = (case j of JNull \<Rightarrow> Inr zero | JObj es \<Rightarrow> foldR field es zero | _ \<Rightarrow> Inl parseError)"

definition decodeString :: "json \<Rightarrow> (string \<Rightarrow> 'r) \<Rightarrow> 'r \<Rightarrow> 'r result" where
  "decodeString j set' r = (case j of JNull \<Rightarrow> Inr r | JStr s \<Rightarrow> Inr (set' s) | _ \<Rightarrow> Inl parseError)"

definition decodeBool :: "json \<Rightarrow> (bool \<Rightarrow> 'r) \<Rightarrow> 'r \<Rightarrow> 'r result" where
  "decodeBool j set' r = (case j of JNull \<Rightarrow> Inr r | JBool b \<Rightarrow> Inr (set' b) | _ \<Rightarrow> Inl parseError)"

definition decodeList :: "(json \<Rightarrow> 'a result) \<Rightarrow> json \<Rightarrow> ('a list \<Rightarrow> 'r) \<Rightarrow> 'r result" where
  "decodeList dec j set' =
     (case j of JNull \<Rightarrow> Inr (set' []) | JArr js \<Rightarrow> bindR (mapR dec js) (\<lambda>xs. Inr (set' xs)) | _ \<Rightarrow> Inl parseError)"

fun decodeFieldKey :: "string \<times> json \<Rightarrow> FieldSpec \<Rightarrow> FieldSpec result" where
  "decodeFieldKey (k, v) r =
     (if EqualFold k ''key'' then decodeString v (\<lambda>s. r\<lparr>fs_Key := s\<rparr>) r
      else if EqualFold k ''type'' then decodeString v (\<lambda>s. r\<lparr>fs_Type := s\<rparr>) r
      else if EqualFold k ''label'' then decodeString v (\<lambda>s. r\<lparr>fs_Label := s\<rparr>) r
      else if EqualFold k ''required'' then decodeBool v (\<lambda>b. r\<lparr>fs_Required := b\<rparr>) r
      else if EqualFold k ''config'' then Inr (r\<lparr>fs_Config := Some v\<rparr>)
      else if EqualFold k ''visibleWhen'' then decodeString v (\<lambda>s. r\<lparr>fs_VisibleWhen := s\<rparr>) r
      else Inl parseError)"

definition decodeField :: "json \<Rightarrow> FieldSpec result" where
  "decodeField = decodeStruct decodeFieldKey
     \<lparr>fs_Key = '''', fs_Type = '''', fs_Label = '''', fs_Required = False, fs_Config = None, fs_VisibleWhen = ''''\<rparr>"

fun decodeProfileKey :: "string \<times> json \<Rightarrow> ProfileSpec \<Rightarrow> ProfileSpec result" where
  "decodeProfileKey (k, v) r =
     (if EqualFold k ''position'' then decodeString v (\<lambda>s. r\<lparr>pf_Position := s\<rparr>) r
      else if EqualFold k ''unit'' then decodeString v (\<lambda>s. r\<lparr>pf_Unit := s\<rparr>) r
      else Inl parseError)"

fun decodeNodeKey :: "string \<times> json \<Rightarrow> NodeSpec \<Rightarrow> NodeSpec result" where
  "decodeNodeKey (k, v) r =
     (if EqualFold k ''id'' then decodeString v (\<lambda>s. r\<lparr>ns_ID := s\<rparr>) r
      else if EqualFold k ''start'' then decodeBool v (\<lambda>b. r\<lparr>ns_Start := b\<rparr>) r
      else if EqualFold k ''terminal'' then decodeBool v (\<lambda>b. r\<lparr>ns_Terminal := b\<rparr>) r
      else if EqualFold k ''profile'' then
        (if v = JNull then Inr (r\<lparr>ns_Profile := None\<rparr>)
         else bindR (decodeStruct decodeProfileKey \<lparr>pf_Position = '''', pf_Unit = ''''\<rparr> v) (\<lambda>pf. Inr (r\<lparr>ns_Profile := Some pf\<rparr>)))
      else if EqualFold k ''form'' then decodeList decodeField v (\<lambda>fs. r\<lparr>ns_Form := fs\<rparr>)
      else Inl parseError)"

definition decodeNode :: "json \<Rightarrow> NodeSpec result" where
  "decodeNode = decodeStruct decodeNodeKey
     \<lparr>ns_ID = '''', ns_Start = False, ns_Terminal = False, ns_Profile = None, ns_Form = []\<rparr>"

fun decodeTransitionKey :: "string \<times> json \<Rightarrow> TransitionSpec \<Rightarrow> TransitionSpec result" where
  "decodeTransitionKey (k, v) r =
     (if EqualFold k ''from'' then decodeString v (\<lambda>s. r\<lparr>ts_From := s\<rparr>) r
      else if EqualFold k ''to'' then decodeString v (\<lambda>s. r\<lparr>ts_To := s\<rparr>) r
      else if EqualFold k ''action'' then decodeString v (\<lambda>s. r\<lparr>ts_Action := s\<rparr>) r
      else Inl parseError)"

definition decodeTransition :: "json \<Rightarrow> TransitionSpec result" where
  "decodeTransition = decodeStruct decodeTransitionKey \<lparr>ts_From = '''', ts_To = '''', ts_Action = ''''\<rparr>"

fun decodeSpecKey :: "string \<times> json \<Rightarrow> ProcessSpec \<Rightarrow> ProcessSpec result" where
  "decodeSpecKey (k, v) r =
     (if EqualFold k ''name'' then decodeString v (\<lambda>s. r\<lparr>ps_Name := s\<rparr>) r
      else if EqualFold k ''nodes'' then decodeList decodeNode v (\<lambda>ns. r\<lparr>ps_Nodes := ns\<rparr>)
      else if EqualFold k ''transitions'' then decodeList decodeTransition v (\<lambda>ts. r\<lparr>ps_Transitions := ts\<rparr>)
      else Inl parseError)"

text \<open>ParseProcessSpec: the version belongs to publishing and may not be in the specification.\<close>

definition ParseProcessSpec :: "json \<Rightarrow> ProcessSpec result" where
  "ParseProcessSpec raw =
     (case raw of
        JObj es \<Rightarrow>
          if map_of es ''version'' \<noteq> None then Inl (ErrText ''version is assigned on publish and must not be set'')
          else decodeStruct decodeSpecKey \<lparr>ps_Name = '''', ps_Nodes = [], ps_Transitions = []\<rparr> raw
      | JNull \<Rightarrow> Inr \<lparr>ps_Name = '''', ps_Nodes = [], ps_Transitions = []\<rparr>
      | _ \<Rightarrow> Inl parseError)"

section \<open>What is stored reads back\<close>

lemma key_cases:
  "\<not> EqualFold ''type'' ''key''" "\<not> EqualFold ''label'' ''key''" "\<not> EqualFold ''label'' ''type''"
  "\<not> EqualFold ''required'' ''key''" "\<not> EqualFold ''required'' ''type''" "\<not> EqualFold ''required'' ''label''"
  "\<not> EqualFold ''config'' ''key''" "\<not> EqualFold ''config'' ''type''" "\<not> EqualFold ''config'' ''label''" "\<not> EqualFold ''config'' ''required''"
  "\<not> EqualFold ''visibleWhen'' ''key''" "\<not> EqualFold ''visibleWhen'' ''type''" "\<not> EqualFold ''visibleWhen'' ''label''"
  "\<not> EqualFold ''visibleWhen'' ''required''" "\<not> EqualFold ''visibleWhen'' ''config''"
  "\<not> EqualFold ''unit'' ''position''"
  "\<not> EqualFold ''start'' ''id''" "\<not> EqualFold ''terminal'' ''id''" "\<not> EqualFold ''terminal'' ''start''"
  "\<not> EqualFold ''profile'' ''id''" "\<not> EqualFold ''profile'' ''start''" "\<not> EqualFold ''profile'' ''terminal''"
  "\<not> EqualFold ''form'' ''id''" "\<not> EqualFold ''form'' ''start''" "\<not> EqualFold ''form'' ''terminal''" "\<not> EqualFold ''form'' ''profile''"
  "\<not> EqualFold ''to'' ''from''" "\<not> EqualFold ''action'' ''from''" "\<not> EqualFold ''action'' ''to''"
  "\<not> EqualFold ''nodes'' ''name''" "\<not> EqualFold ''transitions'' ''name''" "\<not> EqualFold ''transitions'' ''nodes''"
  by (simp_all add: EqualFold_def asciiLower_def)

lemma foldR_append: "foldR f (xs @ ys) r = bindR (foldR f xs r) (foldR f ys)"
proof (induction xs arbitrary: r)
  case (Cons x xs)
  then show ?case by (cases "f x r") simp_all
qed simp

lemmas decode_simps = decodeStruct_def decodeString_def decodeBool_def decodeList_def omitEmpty_def foldR_append

lemma decode_marshalField: "decodeField (marshalField f) = Inr f"
  by (cases f) (simp add: decodeField_def marshalField_def decode_simps key_cases split: option.split)

lemma mapR_inverse: "(\<And>x. dec (enc x) = Inr x) \<Longrightarrow> mapR dec (map enc xs) = Inr xs"
  by (induction xs) auto

lemma decode_marshalNode: "decodeNode (marshalNode n) = Inr n"
  by (cases n) (auto simp: decodeNode_def marshalNode_def marshalProfile_def decode_simps key_cases
      mapR_inverse [where dec = decodeField and enc = marshalField, OF decode_marshalField] split: option.split)

lemma decode_marshalTransition: "decodeTransition (marshalTransition t) = Inr t"
  by (cases t) (simp add: decodeTransition_def marshalTransition_def decode_simps key_cases)

text \<open>A specification read back from what Publish stores is the specification.\<close>

theorem ParseProcessSpec_marshal: "ParseProcessSpec (marshalSpec sp) = Inr sp"
  by (cases sp) (simp add: ParseProcessSpec_def marshalSpec_def decode_simps key_cases
      mapR_inverse [where dec = decodeNode and enc = marshalNode, OF decode_marshalNode]
      mapR_inverse [where dec = decodeTransition and enc = marshalTransition, OF decode_marshalTransition])

section \<open>The tables of published versions and of collected values\<close>

record versionRow =
  vr_Name :: string
  vr_Version :: int
  vr_Spec :: json

record valueRow =
  cv_CaseID :: uuid
  cv_Field :: string
  cv_Value :: json
  cv_NodeID :: string
  cv_ActorID :: string
  cv_RecordedAt :: time

record bpmsStore = jobStore +
  bp_versions :: "versionRow list"
  bp_values :: "valueRow list"

type_synonym 'q bpms = "'q bpmsStore_scheme"

text \<open>
  A statement computes the next version from the rows its snapshot sees; the primary key is checked
  against the rows there are, so of two publishes at once one gets ErrPublishConflict.
\<close>

definition versionsOf :: "string \<Rightarrow> versionRow list \<Rightarrow> int list" where
  "versionsOf name rows = map vr_Version (filter (\<lambda>r. vr_Name r = name) rows)"

definition Insert :: "versionRow list \<Rightarrow> string \<Rightarrow> json \<Rightarrow> ('q bpms, int) action" where
  "Insert seen name sp = (\<lambda>db.
     let version = foldl max 0 (versionsOf name seen) + 1 in
     if version \<in> set (versionsOf name (bp_versions db)) then (Inl (Err ErrPublishConflict), db)
     else (Inr version, db\<lparr>bp_versions := bp_versions db @ [\<lparr>vr_Name = name, vr_Version = version, vr_Spec = sp\<rparr>]\<rparr>))"

definition InsertFirst :: "versionRow list \<Rightarrow> string \<Rightarrow> json \<Rightarrow> ('q bpms, bool) action" where
  "InsertFirst seen name sp = (\<lambda>db.
     if versionsOf name seen \<noteq> [] \<or> 1 \<in> set (versionsOf name (bp_versions db)) then (Inr False, db)
     else (Inr True, db\<lparr>bp_versions := bp_versions db @ [\<lparr>vr_Name = name, vr_Version = 1, vr_Spec = sp\<rparr>]\<rparr>))"

definition AllVersions :: "'q bpms \<Rightarrow> versionRow list" where
  "AllVersions db = sort_key (\<lambda>r. (vr_Name r, vr_Version r)) (bp_versions db)"

section \<open>The catalog\<close>

record 'db catalog =
  cat_fields :: "(string \<times> FieldType) list"
  cat_engine :: "'db engine"
  cat_byKey :: "(string \<times> Process) list"
  cat_latest :: "(string \<times> int) list"

definition NewCatalog :: "(string \<times> FieldType) list \<Rightarrow> 'db engine \<Rightarrow> 'db catalog" where
  "NewCatalog reg e = \<lparr>cat_fields = reg, cat_engine = e, cat_byKey = [], cat_latest = []\<rparr>"

definition Get :: "'db catalog \<Rightarrow> string \<Rightarrow> int \<Rightarrow> Process option" where
  "Get c name version = map_of (cat_byKey c) (Key \<lparr>d_Name = name, d_Version = version, d_Nodes = [], d_Transitions = []\<rparr>)"

definition Latest :: "'db catalog \<Rightarrow> string \<Rightarrow> Process option" where
  "Latest c name = (case map_of (cat_latest c) name of None \<Rightarrow> None | Some v \<Rightarrow> Get c name v)"

definition All :: "'db catalog \<Rightarrow> Process list" where
  "All c = map snd (cat_byKey c)"

definition add :: "Process \<Rightarrow> 'db catalog \<Rightarrow> 'db catalog result" where
  "add p c =
     (let d = p_Definition p in
      if Get c (d_Name d) (d_Version d) \<noteq> None then Inr c
      else bindR (Register d (cat_engine c)) (\<lambda>e.
        Inr (c\<lparr>cat_engine := e, cat_byKey := AList.update (Key d) p (cat_byKey c),
               cat_latest :=
                 (if d_Version d > (case map_of (cat_latest c) (d_Name d) of None \<Rightarrow> 0 | Some v \<Rightarrow> v)
                  then AList.update (d_Name d) (d_Version d) (cat_latest c) else cat_latest c)\<rparr>)))"

definition publishError :: "error \<Rightarrow> error" where
  "publishError err = ErrWrap (ErrText ''publish'') err"

definition withVersion :: "int \<Rightarrow> Process \<Rightarrow> Process" where
  "withVersion v p = p\<lparr>p_Definition := (p_Definition p)\<lparr>d_Version := v\<rparr>\<rparr>"

text \<open>A catalog is memory: what it learned stays when the transaction around it does not.\<close>

definition Publish :: "cel \<Rightarrow> versionRow list \<Rightarrow> ProcessSpec \<Rightarrow> 'q bpms catalog \<Rightarrow> 'q bpms \<Rightarrow> Process result \<times> 'q bpms catalog \<times> 'q bpms" where
  "Publish cel seen sp c db =
     (case CompileProcess cel (cat_fields c) sp 1 of
        Inl err \<Rightarrow> (Inl (publishError err), c, db)
      | Inr p \<Rightarrow>
          (case Insert seen (ps_Name sp) (marshalSpec sp) db of
             (Inl err, db') \<Rightarrow> (Inl err, c, db')
           | (Inr version, db') \<Rightarrow>
               (case add (withVersion version p) c of
                  Inl err \<Rightarrow> (Inl err, c, db')
                | Inr c' \<Rightarrow> (Inr (withVersion version p), c', db'))))"

fun loadRows :: "cel \<Rightarrow> versionRow list \<Rightarrow> 'db catalog \<Rightarrow> unit result \<times> 'db catalog" where
  "loadRows cel [] c = (Inr (), c)"
| "loadRows cel (r # rs) c =
     (case bindR (ParseProcessSpec (vr_Spec r)) (\<lambda>sp. bindR (CompileProcess cel (cat_fields c) sp (vr_Version r)) (\<lambda>p. add p c)) of
        Inl err \<Rightarrow> (Inl err, c)
      | Inr c' \<Rightarrow> loadRows cel rs c')"

definition Load :: "cel \<Rightarrow> 'q bpms catalog \<Rightarrow> 'q bpms \<Rightarrow> unit result \<times> 'q bpms catalog" where
  "Load cel c db = loadRows cel (AllVersions db) c"

definition EnsurePublished :: "cel \<Rightarrow> versionRow list \<Rightarrow> json \<Rightarrow> 'q bpms catalog \<Rightarrow> 'q bpms \<Rightarrow> unit result \<times> 'q bpms catalog \<times> 'q bpms" where
  "EnsurePublished cel seen raw c db =
     (case ParseProcessSpec raw of
        Inl err \<Rightarrow> (Inl err, c, db)
      | Inr sp \<Rightarrow>
          if Latest c (ps_Name sp) \<noteq> None then (Inr (), c, db)
          else case CompileProcess cel (cat_fields c) sp 1 of
            Inl err \<Rightarrow> (Inl (publishError err), c, db)
          | Inr p \<Rightarrow>
              (case InsertFirst seen (ps_Name sp) (marshalSpec sp) db of
                 (Inl err, db') \<Rightarrow> (Inl err, c, db')
               | (Inr inserted, db') \<Rightarrow>
                   if \<not> inserted then (case Load cel c db' of (r, c') \<Rightarrow> (r, c', db'))
                   else case add p c of Inl err \<Rightarrow> (Inl err, c, db') | Inr c' \<Rightarrow> (Inr (), c', db')))"

section \<open>Compiling does not depend on the version\<close>

lemma Validate_version:
  assumes "Validate d = []" and "1 \<le> v"
  shows "Validate (d\<lparr>d_Version := v\<rparr>) = []"
proof -
  have maps: "nodeByID (d\<lparr>d_Version := v\<rparr>) = nodeByID d" "outgoingByNode (d\<lparr>d_Version := v\<rparr>) = outgoingByNode d"
      "StartNode (d\<lparr>d_Version := v\<rparr>) = StartNode d" "Definition_Node (d\<lparr>d_Version := v\<rparr>) = Definition_Node d"
      "TransitionsFrom (d\<lparr>d_Version := v\<rparr>) = TransitionsFrom d"
    by (auto simp: fun_eq_iff nodeByID_def outgoingByNode_def StartNode_def Definition_Node_def TransitionsFrom_def)
  have "checkCounts (d\<lparr>d_Version := v\<rparr>) = checkCounts d" "gatewayNodes (d\<lparr>d_Version := v\<rparr>) = gatewayNodes d"
      "gatewayAdjacency (d\<lparr>d_Version := v\<rparr>) = gatewayAdjacency d" "checkReachable (d\<lparr>d_Version := v\<rparr>) = checkReachable d"
    by (auto simp: fun_eq_iff checkCounts_def gatewayNodes_def gatewayAdjacency_def checkReachable_def maps split: option.split)
  moreover from this have "checkGatewayCycle (d\<lparr>d_Version := v\<rparr>) = checkGatewayCycle d"
    by (simp only: checkGatewayCycle_def maps)
  moreover have "validateBlocks (d\<lparr>d_Version := v\<rparr>) = validateBlocks d"
  proof -
    have "splitNodes (d\<lparr>d_Version := v\<rparr>) = splitNodes d" by (simp add: splitNodes_def)
    moreover from this have "blocksOf (d\<lparr>d_Version := v\<rparr>) = blocksOf d" by (simp add: blocksOf_def maps)
    moreover from this have "namedBy (d\<lparr>d_Version := v\<rparr>) = namedBy d" by (simp add: fun_eq_iff namedBy_def splitNodes_def maps)
    moreover from this have "joinViolation (d\<lparr>d_Version := v\<rparr>) = joinViolation d"
        "returnViolation (d\<lparr>d_Version := v\<rparr>) = returnViolation d"
      by (simp_all add: fun_eq_iff joinViolation_def returnViolation_def maps)
    ultimately show ?thesis by (simp add: validateBlocks_def maps)
  qed
  moreover have "validateJoinPolicies (d\<lparr>d_Version := v\<rparr>) = validateJoinPolicies d"
  proof -
    have "policyTarget (d\<lparr>d_Version := v\<rparr>) = policyTarget d" by (simp add: fun_eq_iff policyTarget_def maps)
    then have "nodePolicy (d\<lparr>d_Version := v\<rparr>) = nodePolicy d"
      by (intro ext) (unfold nodePolicy_def maps, simp)
    moreover have "parallelPolicy (d\<lparr>d_Version := v\<rparr>) = parallelPolicy d" "inclusivePolicy (d\<lparr>d_Version := v\<rparr>) = inclusivePolicy d"
        "transitionPolicy (d\<lparr>d_Version := v\<rparr>) = transitionPolicy d"
      by (unfold parallelPolicy_def inclusivePolicy_def transitionPolicy_def maps) (rule refl)+
    ultimately show ?thesis by (simp add: validateJoinPolicies_def)
  qed
  ultimately show ?thesis using assms by (simp add: Validate_def maps)
qed

lemma CompileProcess_version:
  assumes "CompileProcess cel reg sp w = Inr p" and "1 \<le> v"
  shows "CompileProcess cel reg sp v = Inr (withVersion v p)"
proof -
  obtain nodes forms where nodes: "mapR compileNode (ps_Nodes sp) = Inr nodes"
    and d: "p_Definition p = \<lparr>d_Name = ps_Name sp, d_Version = w, d_Nodes = nodes,
       d_Transitions = map compileTransition (ps_Transitions sp)\<rparr>"
    and valid: "Validate (p_Definition p) = []" and sp: "p_Spec p = sp"
    and forms: "mapR (\<lambda>n. bindR (CompileForm cel reg (specFields sp) (ns_Form n)) (\<lambda>f. Inr (ns_ID n, f)))
       (filter (\<lambda>n. ns_Form n \<noteq> []) (ps_Nodes sp)) = Inr forms"
    and p: "p_Forms p = rev forms"
    using assms(1) by (rule CompileProcess_Inr)
  have "Validate \<lparr>d_Name = ps_Name sp, d_Version = v, d_Nodes = nodes, d_Transitions = map compileTransition (ps_Transitions sp)\<rparr> = []"
    using Validate_version [OF valid assms(2)] by (simp add: d)
  then show ?thesis
    by (cases p) (use d sp p in \<open>simp add: CompileProcess_def nodes forms Let_def requireR_def withVersion_def\<close>)
qed

text \<open>A compiled process names no effect and no rule, so the engine takes it.\<close>

lemma Register_compiled:
  assumes "CompileProcess cel reg sp v = Inr p"
  shows "\<exists>e'. Register (p_Definition p) e = Inr e'"
proof -
  obtain nodes where nodes: "mapR compileNode (ps_Nodes sp) = Inr nodes"
    and d: "p_Definition p = \<lparr>d_Name = ps_Name sp, d_Version = v, d_Nodes = nodes,
       d_Transitions = map compileTransition (ps_Transitions sp)\<rparr>"
    and valid: "Validate (p_Definition p) = []"
    using assms by (auto elim: CompileProcess_Inr)
  have "node_Effects n = [] \<and> node_DeadlineRule n = '''' \<and> node_AssignRule n = ''''" if "n \<in> set nodes" for n
    using mapR_mem [OF nodes that] by (auto simp: compileNode_def zeroNode_def Let_def split: if_splits option.splits)
  moreover have "sortedNames xs = []" if "\<forall>x \<in> set xs. x = ''''" for xs
    using that by (simp add: sortedNames_def filter_empty_conv)
  moreover have "tr_Effects (compileTransition t) = []" for t by (simp add: compileTransition_def zeroTransition_def)
  ultimately have "EffectNames (p_Definition p) = []" "DeadlineRules (p_Definition p) = []" "AssignRules (p_Definition p) = []"
    by (simp_all add: d EffectNames_def DeadlineRules_def AssignRules_def)
  then show ?thesis using valid by (simp add: Register_def requireR_def checkEffects_def)
qed

section \<open>The catalog agrees with the engine\<close>

definition catalogOK :: "'db catalog \<Rightarrow> bool" where
  "catalogOK c \<longleftrightarrow> registryOK (cat_engine c) \<and>
     (\<forall>k p. map_of (cat_byKey c) k = Some p \<longrightarrow>
        k = Key (p_Definition p) \<and> 1 \<le> d_Version (p_Definition p) \<and> map_of (eng_definitions (cat_engine c)) k = Some (p_Definition p) \<and>
        (\<exists>v. map_of (cat_latest c) (d_Name (p_Definition p)) = Some v \<and> d_Version (p_Definition p) \<le> v)) \<and>
     (\<forall>n v. map_of (cat_latest c) n = Some v \<longrightarrow> (\<exists>p. Get c n v = Some p))"

lemma catalogOK_byKey:
  assumes "catalogOK c" and "map_of (cat_byKey c) k = Some p"
  shows "k = Key (p_Definition p)" and "1 \<le> d_Version (p_Definition p)"
    and "map_of (eng_definitions (cat_engine c)) k = Some (p_Definition p)"
    and "\<exists>v. map_of (cat_latest c) (d_Name (p_Definition p)) = Some v \<and> d_Version (p_Definition p) \<le> v"
  using assms by (simp_all add: catalogOK_def)

lemma Key_of: "Key \<lparr>d_Name = d_Name d, d_Version = d_Version d, d_Nodes = [], d_Transitions = []\<rparr> = Key d"
  by (simp add: Key_def)

lemma catalogOK_new: "registryOK e \<Longrightarrow> catalogOK (NewCatalog reg e)"
  by (simp add: catalogOK_def NewCatalog_def)

lemma Get_name:
  assumes "catalogOK c" and "Get c n v = Some p"
  shows "d_Name (p_Definition p) = n" and "d_Version (p_Definition p) = v"
proof -
  have "Key \<lparr>d_Name = n, d_Version = v, d_Nodes = [], d_Transitions = []\<rparr> = Key (p_Definition p)"
    using assms by (auto simp: catalogOK_def Get_def)
  from Key_inj [OF this] show "d_Name (p_Definition p) = n" "d_Version (p_Definition p) = v" by simp_all
qed

lemma add_Inr:
  assumes "add p c = Inr c'"
  shows "Get c' (d_Name (p_Definition p)) (d_Version (p_Definition p)) \<noteq> None" and "cat_fields c' = cat_fields c"
    and "Get c n v = Some q \<Longrightarrow> Get c' n v = Some q"
    and "Get c (d_Name (p_Definition p)) (d_Version (p_Definition p)) = None \<Longrightarrow>
           Get c' (d_Name (p_Definition p)) (d_Version (p_Definition p)) = Some p"
    and "Get c' n v = Some q \<Longrightarrow> Get c n v = Some q \<or> q = p"
  using assms by (auto simp: add_def Let_def Get_def Key_of map_of_update split: if_splits)

theorem add_catalogOK:
  assumes ok: "catalogOK c" and add: "add p c = Inr c'"
  shows "catalogOK c'"
proof (cases "Get c (d_Name (p_Definition p)) (d_Version (p_Definition p)) = None")
  case False
  then show ?thesis using ok add by (simp add: add_def Let_def)
next
  case True
  let ?d = "p_Definition p"
  from True add obtain e where e: "Register ?d (cat_engine c) = Inr e"
    and c': "c' = c\<lparr>cat_engine := e, cat_byKey := AList.update (Key ?d) p (cat_byKey c),
               cat_latest :=
                 (if d_Version ?d > (case map_of (cat_latest c) (d_Name ?d) of None \<Rightarrow> 0 | Some v \<Rightarrow> v)
                  then AList.update (d_Name ?d) (d_Version ?d) (cat_latest c) else cat_latest c)\<rparr>"
    by (auto simp: add_def Let_def)
  note reg = Register_Inr [OF e]
  have version: "1 \<le> d_Version ?d" using reg(1) by (simp add: Validate_wellFormed wellFormed_def)
  have latest: "map_of (cat_latest c') = (if d_Version ?d > (case map_of (cat_latest c) (d_Name ?d) of None \<Rightarrow> 0 | Some v \<Rightarrow> v)
      then (map_of (cat_latest c))(d_Name ?d \<mapsto> d_Version ?d) else map_of (cat_latest c))"
    by (simp add: c' map_of_update)
  have grows: "\<exists>w. map_of (cat_latest c') n = Some w \<and> v \<le> w" if "map_of (cat_latest c) n = Some v" for n v
    using that by (auto simp: latest split: option.splits)
  have top: "\<exists>w. map_of (cat_latest c') (d_Name ?d) = Some w \<and> d_Version ?d \<le> w"
    using version by (auto simp: latest split: option.splits)
  have "k = Key (p_Definition q) \<and> 1 \<le> d_Version (p_Definition q) \<and> map_of (eng_definitions (cat_engine c')) k = Some (p_Definition q) \<and>
        (\<exists>v. map_of (cat_latest c') (d_Name (p_Definition q)) = Some v \<and> d_Version (p_Definition q) \<le> v)"
    if q: "map_of (cat_byKey c') k = Some q" for k q
  proof (cases "k = Key ?d")
    case True
    then have "q = p" using q by (simp add: c' map_of_update)
    then show ?thesis using True version top by (simp add: c' reg(5))
  next
    case False
    then have old: "map_of (cat_byKey c) k = Some q" using q by (simp add: c' map_of_update)
    note f = catalogOK_byKey [OF ok old]
    from f(4) grows have "\<exists>v. map_of (cat_latest c') (d_Name (p_Definition q)) = Some v \<and> d_Version (p_Definition q) \<le> v"
      by (meson order_trans)
    moreover have "map_of (eng_definitions (cat_engine c')) k = Some (p_Definition q)" using f(3) False by (simp add: c' reg(5))
    ultimately show ?thesis using f(1,2) by blast
  qed
  moreover have "\<exists>q. Get c' n v = Some q" if v: "map_of (cat_latest c') n = Some v" for n v
  proof (cases "map_of (cat_latest c) n = Some v")
    case True
    then obtain q where "Get c n v = Some q" using ok unfolding catalogOK_def by blast
    from add_Inr(3) [OF add this] show ?thesis by blast
  next
    case False
    then have "n = d_Name ?d" "v = d_Version ?d" using v by (auto simp: latest split: if_splits)
    then show ?thesis using add_Inr(1) [OF add] by blast
  qed
  moreover have "registryOK (cat_engine c')"
    using Register_registryOK [OF _ e] ok by (simp add: c' catalogOK_def)
  ultimately show ?thesis unfolding catalogOK_def by blast
qed

text \<open>Latest is the highest version the catalog has of a name, and the engine has it too.\<close>

theorem Latest_highest:
  assumes ok: "catalogOK c" and "Latest c n = Some p"
  shows "d_Name (p_Definition p) = n"
    and "Get c n v = Some q \<Longrightarrow> v \<le> d_Version (p_Definition p)"
    and "resolveDefinition (cat_engine c) n (d_Version (p_Definition p)) = Inr (p_Definition p)"
proof -
  obtain w where w: "map_of (cat_latest c) n = Some w" "Get c n w = Some p"
    using assms(2) by (auto simp: Latest_def split: option.splits)
  note name = Get_name [OF ok w(2)]
  show "d_Name (p_Definition p) = n" by (rule name(1))
  show "v \<le> d_Version (p_Definition p)" if q: "Get c n v = Some q"
  proof -
    note nq = Get_name [OF ok q]
    have "\<exists>v'. map_of (cat_latest c) (d_Name (p_Definition q)) = Some v' \<and> d_Version (p_Definition q) \<le> v'"
      by (rule catalogOK_byKey(4) [OF ok q [unfolded Get_def]])
    with w(1) nq name show ?thesis by simp
  qed
  have "map_of (eng_definitions (cat_engine c)) (Key (p_Definition p)) = Some (p_Definition p)" "1 \<le> d_Version (p_Definition p)"
    using catalogOK_byKey [OF ok w(2) [unfolded Get_def]] by simp_all
  then show "resolveDefinition (cat_engine c) n (d_Version (p_Definition p)) = Inr (p_Definition p)"
    using name(1) by (simp add: resolveDefinition_def Key_def)
qed

section \<open>Published versions\<close>

text \<open>Every row is a version of its own and holds a specification that compiles.\<close>

definition versionOK :: "cel \<Rightarrow> (string \<times> FieldType) list \<Rightarrow> versionRow \<Rightarrow> bool" where
  "versionOK cel reg r \<longleftrightarrow> 1 \<le> vr_Version r \<and>
     (\<exists>sp p. vr_Spec r = marshalSpec sp \<and> ps_Name sp = vr_Name r \<and> CompileProcess cel reg sp 1 = Inr p)"

definition versionsOK :: "cel \<Rightarrow> (string \<times> FieldType) list \<Rightarrow> 'q bpms \<Rightarrow> bool" where
  "versionsOK cel reg db \<longleftrightarrow> distinct (map (\<lambda>r. (vr_Name r, vr_Version r)) (bp_versions db)) \<and> (\<forall>r \<in> set (bp_versions db). versionOK cel reg r)"

lemma foldl_max: "(m::int) \<le> foldl max m xs" "x \<in> set xs \<Longrightarrow> x \<le> foldl max m xs"
proof -
  show le: "m \<le> foldl max m xs" for m :: int and xs
    by (induction xs arbitrary: m) (auto intro: order_trans [OF max.cobounded1])
  show "x \<in> set xs \<Longrightarrow> x \<le> foldl max m xs"
  proof (induction xs arbitrary: m)
    case (Cons y ys)
    then show ?case using le [of "max m y" ys] by auto
  qed simp
qed

lemma Insert_rows:
  assumes "Insert seen name raw db = (res, db')"
  shows "(\<exists>err. res = Inl err) \<and> db' = db \<or>
    (\<exists>v. res = Inr v \<and> 1 \<le> v \<and> v \<notin> set (versionsOf name (bp_versions db)) \<and> (\<forall>w \<in> set (versionsOf name seen). w < v) \<and>
       db' = db\<lparr>bp_versions := bp_versions db @ [\<lparr>vr_Name = name, vr_Version = v, vr_Spec = raw\<rparr>]\<rparr>)"
proof -
  have "1 \<le> foldl max 0 (versionsOf name seen) + 1" "\<forall>w \<in> set (versionsOf name seen). w < foldl max 0 (versionsOf name seen) + 1"
    using foldl_max by (simp_all add: le_less_trans)
  then show ?thesis using assms by (auto simp: Insert_def Let_def split: if_splits)
qed

text \<open>Without a concurrent publish the insert cannot fail.\<close>

lemma Insert_alone: "\<exists>v db'. Insert (bp_versions db) name raw db = (Inr v, db')"
proof -
  let ?m = "foldl max 0 (versionsOf name (bp_versions db))"
  have "?m + 1 \<notin> set (versionsOf name (bp_versions db))" using foldl_max(2) [of "?m + 1" "versionsOf name (bp_versions db)" 0] by auto
  then show ?thesis by (simp add: Insert_def Let_def)
qed

lemma versionsOK_append:
  assumes "versionsOK cel reg db" and "versionOK cel reg r" and "vr_Version r \<notin> set (versionsOf (vr_Name r) (bp_versions db))"
  shows "versionsOK cel reg (db\<lparr>bp_versions := bp_versions db @ [r]\<rparr>)"
  using assms by (auto simp: versionsOK_def versionsOf_def)

theorem Publish_versions:
  assumes ok: "versionsOK cel (cat_fields c) db" and pub: "Publish cel seen sp c db = (res, c', db')"
  shows "versionsOK cel (cat_fields c) db'"
    and "db' = db \<or> (\<exists>r. db' = db\<lparr>bp_versions := bp_versions db @ [r]\<rparr> \<and> vr_Name r = ps_Name sp)"
    and "res = Inr p \<Longrightarrow> CompileProcess cel (cat_fields c) sp (d_Version (p_Definition p)) = Inr p \<and>
       \<lparr>vr_Name = ps_Name sp, vr_Version = d_Version (p_Definition p), vr_Spec = marshalSpec sp\<rparr> \<in> set (bp_versions db')"
proof -
  let ?row = "\<lambda>v. \<lparr>vr_Name = ps_Name sp, vr_Version = v, vr_Spec = marshalSpec sp\<rparr>"
  have "(db' = db \<and> (\<nexists>p. res = Inr p)) \<or> (\<exists>q v. CompileProcess cel (cat_fields c) sp 1 = Inr q \<and> 1 \<le> v \<and>
      v \<notin> set (versionsOf (ps_Name sp) (bp_versions db)) \<and> db' = db\<lparr>bp_versions := bp_versions db @ [?row v]\<rparr> \<and>
      (\<forall>p. res = Inr p \<longrightarrow> p = withVersion v q))"
  proof (cases "CompileProcess cel (cat_fields c) sp 1")
    case (Inl err)
    then show ?thesis using pub by (auto simp: Publish_def)
  next
    case (Inr q)
    obtain ires db1 where ins: "Insert seen (ps_Name sp) (marshalSpec sp) db = (ires, db1)" by fastforce
    from Insert_rows [OF ins] show ?thesis
    proof (elim disjE conjE exE)
      fix err assume "ires = Inl err" "db1 = db"
      then show ?thesis using pub Inr ins by (auto simp: Publish_def)
    next
      fix v assume v: "ires = Inr v" "1 \<le> v" "v \<notin> set (versionsOf (ps_Name sp) (bp_versions db))"
        "db1 = db\<lparr>bp_versions := bp_versions db @ [?row v]\<rparr>"
      then have "db' = db1 \<and> (\<forall>p. res = Inr p \<longrightarrow> p = withVersion v q)"
        using pub Inr ins by (auto simp: Publish_def split: sum.splits)
      with v Inr show ?thesis by blast
    qed
  qed
  then have "versionsOK cel (cat_fields c) db' \<and> (db' = db \<or> (\<exists>r. db' = db\<lparr>bp_versions := bp_versions db @ [r]\<rparr> \<and> vr_Name r = ps_Name sp)) \<and>
      (\<forall>p. res = Inr p \<longrightarrow> CompileProcess cel (cat_fields c) sp (d_Version (p_Definition p)) = Inr p \<and> ?row (d_Version (p_Definition p)) \<in> set (bp_versions db'))"
  proof (elim disjE conjE exE)
    assume "db' = db" "\<nexists>p. res = Inr p"
    then show ?thesis using ok by simp
  next
    fix q v assume q: "CompileProcess cel (cat_fields c) sp 1 = Inr q" "1 \<le> v" "v \<notin> set (versionsOf (ps_Name sp) (bp_versions db))"
      and db': "db' = db\<lparr>bp_versions := bp_versions db @ [?row v]\<rparr>" and res: "\<forall>p. res = Inr p \<longrightarrow> p = withVersion v q"
    have "versionOK cel (cat_fields c) (?row v)" using q by (auto simp: versionOK_def)
    from versionsOK_append [OF ok this] q(3) have ok': "versionsOK cel (cat_fields c) db'" by (simp add: db')
    have vd: "d_Version (p_Definition (withVersion v q)) = v" by (simp add: withVersion_def)
    have "CompileProcess cel (cat_fields c) sp (d_Version (p_Definition p)) = Inr p \<and> ?row (d_Version (p_Definition p)) \<in> set (bp_versions db')"
      if "res = Inr p" for p
      using CompileProcess_version [OF q(1,2)] res that vd by (simp add: db')
    with ok' db' show ?thesis by auto
  qed
  then show "versionsOK cel (cat_fields c) db'"
    and "db' = db \<or> (\<exists>r. db' = db\<lparr>bp_versions := bp_versions db @ [r]\<rparr> \<and> vr_Name r = ps_Name sp)"
    and "res = Inr p \<Longrightarrow> CompileProcess cel (cat_fields c) sp (d_Version (p_Definition p)) = Inr p \<and> ?row (d_Version (p_Definition p)) \<in> set (bp_versions db')"
    by blast+
qed

section \<open>A replica loads everything that was published\<close>

lemma versionOK_compiles:
  assumes "versionOK cel reg r"
  obtains sp p where "ParseProcessSpec (vr_Spec r) = Inr sp" "vr_Spec r = marshalSpec sp"
    "CompileProcess cel reg sp (vr_Version r) = Inr p"
    "d_Name (p_Definition p) = vr_Name r" "d_Version (p_Definition p) = vr_Version r"
proof -
  from assms obtain sp q where sp: "vr_Spec r = marshalSpec sp" "ps_Name sp = vr_Name r" "CompileProcess cel reg sp 1 = Inr q" "1 \<le> vr_Version r"
    by (auto simp: versionOK_def)
  note p = CompileProcess_version [OF sp(3,4)]
  from CompileProcess_valid(2,3) [OF p] sp p show thesis
    by (intro that [of sp "withVersion (vr_Version r) q"]) (simp_all add: ParseProcessSpec_marshal)
qed

definition rowProcess :: "cel \<Rightarrow> (string \<times> FieldType) list \<Rightarrow> versionRow \<Rightarrow> Process result" where
  "rowProcess cel reg r = bindR (ParseProcessSpec (vr_Spec r)) (\<lambda>sp. CompileProcess cel reg sp (vr_Version r))"

lemma loadRows_all:
  assumes "\<forall>r \<in> set rows. versionOK cel (cat_fields c) r" and "distinct (map (\<lambda>r. (vr_Name r, vr_Version r)) rows)" and "catalogOK c"
  shows "\<exists>c'. loadRows cel rows c = (Inr (), c') \<and> catalogOK c' \<and> cat_fields c' = cat_fields c \<and>
    (\<forall>n v q. Get c n v = Some q \<longrightarrow> Get c' n v = Some q) \<and>
    (\<forall>r \<in> set rows. \<exists>p. rowProcess cel (cat_fields c) r = Inr p \<and>
       (Get c (vr_Name r) (vr_Version r) = None \<longrightarrow> Get c' (vr_Name r) (vr_Version r) = Some p))"
  using assms
proof (induction rows arbitrary: c)
  case Nil
  then show ?case by simp
next
  case (Cons r rows)
  from Cons.prems(1) have "versionOK cel (cat_fields c) r" by simp
  then obtain sp p where sp: "ParseProcessSpec (vr_Spec r) = Inr sp" and p: "CompileProcess cel (cat_fields c) sp (vr_Version r) = Inr p"
    and d: "d_Name (p_Definition p) = vr_Name r" "d_Version (p_Definition p) = vr_Version r"
    by (rule versionOK_compiles)
  have "\<exists>c1. add p c = Inr c1" using Register_compiled [OF p, of "cat_engine c"] by (auto simp: add_def Let_def)
  then obtain c1 where c1: "add p c = Inr c1" by blast
  note a = add_Inr [OF c1]
  have other: "Get c1 (vr_Name r') (vr_Version r') = None" if "r' \<in> set rows" "Get c (vr_Name r') (vr_Version r') = None" for r'
  proof (rule ccontr)
    assume "Get c1 (vr_Name r') (vr_Version r') \<noteq> None"
    then obtain q where q: "Get c1 (vr_Name r') (vr_Version r') = Some q" by blast
    with a(5) that(2) have "q = p" by fastforce
    with Get_name [OF add_catalogOK [OF Cons.prems(3) c1] q] d have "(vr_Name r', vr_Version r') = (vr_Name r, vr_Version r)" by simp
    moreover have "(vr_Name r', vr_Version r') \<in> (\<lambda>r. (vr_Name r, vr_Version r)) ` set rows" using that(1) by blast
    ultimately show False using Cons.prems(2) by simp
  qed
  have "\<forall>r \<in> set rows. versionOK cel (cat_fields c1) r" "distinct (map (\<lambda>r. (vr_Name r, vr_Version r)) rows)"
    using Cons.prems(1,2) a(2) by simp_all
  from Cons.IH [OF this add_catalogOK [OF Cons.prems(3) c1]] obtain c' where
    c': "loadRows cel rows c1 = (Inr (), c')" "catalogOK c'" "cat_fields c' = cat_fields c1"
    and keep: "\<forall>n v q. Get c1 n v = Some q \<longrightarrow> Get c' n v = Some q"
    and rest: "\<forall>r \<in> set rows. \<exists>p. rowProcess cel (cat_fields c1) r = Inr p \<and>
       (Get c1 (vr_Name r) (vr_Version r) = None \<longrightarrow> Get c' (vr_Name r) (vr_Version r) = Some p)" by blast
  have "loadRows cel (r # rows) c = (Inr (), c')" using c'(1) by (simp add: sp p c1)
  moreover have "\<exists>p. rowProcess cel (cat_fields c) r' = Inr p \<and>
       (Get c (vr_Name r') (vr_Version r') = None \<longrightarrow> Get c' (vr_Name r') (vr_Version r') = Some p)" if r': "r' \<in> set (r # rows)" for r'
  proof (cases "r' = r")
    case True
    have "rowProcess cel (cat_fields c) r = Inr p" by (simp add: rowProcess_def sp p)
    moreover have "Get c' (vr_Name r) (vr_Version r) = Some p" if "Get c (vr_Name r) (vr_Version r) = None"
    proof -
      have "Get c1 (vr_Name r) (vr_Version r) = Some p" using a(4) that unfolding d by blast
      then show ?thesis by (rule keep [rule_format])
    qed
    ultimately show ?thesis unfolding True by (intro exI [of _ p] conjI impI)
  next
    case False
    then have mem: "r' \<in> set rows" using r' by simp
    have "\<exists>q. rowProcess cel (cat_fields c) r' = Inr q \<and>
        (Get c1 (vr_Name r') (vr_Version r') = None \<longrightarrow> Get c' (vr_Name r') (vr_Version r') = Some q)"
      using bspec [OF rest mem] by (simp only: a(2))
    then obtain q where row: "rowProcess cel (cat_fields c) r' = Inr q"
      and q: "Get c1 (vr_Name r') (vr_Version r') = None \<longrightarrow> Get c' (vr_Name r') (vr_Version r') = Some q" by (elim exE conjE)
    show ?thesis by (intro exI [of _ q] conjI impI) (rule row, rule mp [OF q other [OF mem]])
  qed
  moreover have "\<forall>n v q. Get c n v = Some q \<longrightarrow> Get c' n v = Some q" by (intro allI impI keep [rule_format] a(3))
  ultimately show ?case using c'(2) trans [OF c'(3) a(2)] by (intro exI [of _ c'] conjI ballI)
qed

theorem Load_all:
  assumes "versionsOK cel reg db" and "registryOK e"
  shows "\<exists>c'. Load cel (NewCatalog reg e) db = (Inr (), c') \<and> catalogOK c' \<and>
    (\<forall>r \<in> set (bp_versions db). \<exists>p. rowProcess cel reg r = Inr p \<and> Get c' (vr_Name r) (vr_Version r) = Some p)"
proof -
  have rows: "\<forall>r \<in> set (AllVersions db). versionOK cel (cat_fields (NewCatalog reg e)) r"
    using assms(1) by (simp add: AllVersions_def versionsOK_def NewCatalog_def)
  have "distinct (map (\<lambda>r. (vr_Name r, vr_Version r)) (AllVersions db))"
    using assms(1) by (simp add: AllVersions_def versionsOK_def distinct_map)
  from loadRows_all [OF rows this catalogOK_new [OF assms(2)]] show ?thesis
    by (auto simp: Load_def AllVersions_def NewCatalog_def Get_def)
qed

text \<open>What Publish returned is what every replica that boots later loads under that version.\<close>

theorem Publish_reload:
  assumes "versionsOK cel (cat_fields c) db" and "Publish cel seen sp c db = (Inr p, c', db')" and "registryOK e"
  shows "\<exists>c''. Load cel (NewCatalog (cat_fields c) e) db' = (Inr (), c'') \<and> Get c'' (ps_Name sp) (d_Version (p_Definition p)) = Some p"
proof -
  note pub = Publish_versions [OF assms(1,2)]
  obtain c'' where c'': "Load cel (NewCatalog (cat_fields c) e) db' = (Inr (), c'')"
    and all: "\<forall>r \<in> set (bp_versions db'). \<exists>p. rowProcess cel (cat_fields c) r = Inr p \<and> Get c'' (vr_Name r) (vr_Version r) = Some p"
    using Load_all [OF pub(1) assms(3)] by blast
  let ?r = "\<lparr>vr_Name = ps_Name sp, vr_Version = d_Version (p_Definition p), vr_Spec = marshalSpec sp\<rparr>"
  have "?r \<in> set (bp_versions db')" "rowProcess cel (cat_fields c) ?r = Inr p"
    using pub(3) [OF refl] by (simp_all add: rowProcess_def ParseProcessSpec_marshal)
  with all c'' show ?thesis by force
qed

text \<open>Seeding publishes version 1 at most: a name that has a version keeps its rows, whoever boots.\<close>

theorem EnsurePublished_versions:
  assumes ok: "versionsOK cel (cat_fields c) db" and run: "EnsurePublished cel seen raw c db = (res, c', db')"
  shows "versionsOK cel (cat_fields c) db'"
    and "db' = db \<or> (\<exists>r. db' = db\<lparr>bp_versions := bp_versions db @ [r]\<rparr> \<and> vr_Version r = 1 \<and> 1 \<notin> set (versionsOf (vr_Name r) (bp_versions db)))"
proof -
  have "versionsOK cel (cat_fields c) db' \<and>
    (db' = db \<or> (\<exists>r. db' = db\<lparr>bp_versions := bp_versions db @ [r]\<rparr> \<and> vr_Version r = 1 \<and> 1 \<notin> set (versionsOf (vr_Name r) (bp_versions db))))"
  proof (cases "db' = db")
    case False
    let ?row = "\<lambda>sp. \<lparr>vr_Name = ps_Name sp, vr_Version = 1, vr_Spec = marshalSpec sp\<rparr>"
    from False run obtain sp p where p: "CompileProcess cel (cat_fields c) sp 1 = Inr p"
      and new: "1 \<notin> set (versionsOf (ps_Name sp) (bp_versions db))"
      and db': "db' = db\<lparr>bp_versions := bp_versions db @ [?row sp]\<rparr>"
      by (auto simp: EnsurePublished_def InsertFirst_def split: sum.splits if_splits prod.splits)
    have "versionOK cel (cat_fields c) (?row sp)" using p by (auto simp: versionOK_def)
    from versionsOK_append [OF ok this] new have "versionsOK cel (cat_fields c) db'" by (simp add: db')
    moreover have "db' = db\<lparr>bp_versions := bp_versions db @ [?row sp]\<rparr> \<and> vr_Version (?row sp) = 1 \<and>
        1 \<notin> set (versionsOf (vr_Name (?row sp)) (bp_versions db))" using new db' by simp
    ultimately show ?thesis by blast
  qed (simp add: ok)
  then show "versionsOK cel (cat_fields c) db'"
    and "db' = db \<or> (\<exists>r. db' = db\<lparr>bp_versions := bp_versions db @ [r]\<rparr> \<and> vr_Version r = 1 \<and> 1 \<notin> set (versionsOf (vr_Name r) (bp_versions db)))"
    by blast+
qed

end
