(* ===== verification/Process_Service.thy ===== *)
theory Process_Service
  imports Process_Catalog Work_Lists Operation_Facts
begin

text \<open>
  The process service of the boilerplate: opening a case with its first form, the inbox of an
  actor, claiming and submitting tokens, and who may see a case. It runs on the engine's tables
  with the collected values beside them, in transactions that roll back on error.
\<close>

section \<open>Transactions and profiles\<close>

text \<open>pgx.BeginFunc: the function runs in a transaction, committed unless it fails.\<close>

definition BeginFunc :: "('q bpms, 'a) action \<Rightarrow> ('q bpms, 'a) action" where
  "BeginFunc f = (\<lambda>db.
     case f (db\<lparr>js_tx := True\<rparr>) of
       (Inl err, _) \<Rightarrow> (Inl err, db)
     | (Inr x, db') \<Rightarrow> (Inr x, db'\<lparr>js_tx := js_tx db\<rparr>))"

text \<open>Who holds a position in a unit: the directory, a parameter.\<close>

type_synonym profiles = "string \<Rightarrow> string \<Rightarrow> string list result"

definition Holds :: "profiles \<Rightarrow> Eligibility \<Rightarrow> string \<Rightarrow> bool result" where
  "Holds profiles e actor =
     (if Eligibility_IsZero e then Inr False
      else bindR (profiles (el_Position e) (el_Unit e)) (\<lambda>people. Inr (actor \<in> set people)))"

record ProfileHolder =
  ph_Position :: string
  ph_Unit :: string
  ph_UserID :: string

text \<open>The directory in memory the boilerplate ships.\<close>

definition MemoryDirectory :: "ProfileHolder list \<Rightarrow> profiles" where
  "MemoryDirectory holders position unit =
     Inr (map ph_UserID (filter (\<lambda>h. ph_Position h = position \<and> ph_Unit h = unit) holders))"

definition MemoryDirectory_Set :: "string \<Rightarrow> string \<Rightarrow> string list \<Rightarrow> profiles \<Rightarrow> profiles" where
  "MemoryDirectory_Set position unit userIDs dir =
     (\<lambda>p u. if p = position \<and> u = unit then Inr userIDs else dir p u)"

section \<open>Collected values\<close>

text \<open>jsonb keeps any JSON but a string with a NUL character.\<close>

fun jsonbOK :: "json \<Rightarrow> bool" where
  "jsonbOK (JStr s) \<longleftrightarrow> CHR 0x00 \<notin> set s"
| "jsonbOK (JArr js) \<longleftrightarrow> list_all jsonbOK js"
| "jsonbOK (JObj es) \<longleftrightarrow> list_all (\<lambda>(k, v). CHR 0x00 \<notin> set k \<and> jsonbOK v) es"
| "jsonbOK _ \<longleftrightarrow> True"

definition insertValue :: "uuid \<Rightarrow> string \<Rightarrow> string \<Rightarrow> string \<times> json \<Rightarrow> ('q bpms, unit) action" where
  "insertValue caseID nodeID actorID = (\<lambda>(k, v) db.
     if \<not> jsonbOK v then (Inl (ErrText ''save case value''), db)
     else (Inr (), db\<lparr>bp_values := bp_values db @ [\<lparr>cv_CaseID = caseID, cv_Field = k, cv_Value = v, cv_NodeID = nodeID,
        cv_ActorID = actorID, cv_RecordedAt = pg_now db\<rparr>]\<rparr>))"

definition Save :: "uuid \<Rightarrow> string \<Rightarrow> string \<Rightarrow> (string \<times> json) list \<Rightarrow> ('q bpms, unit) action" where
  "Save caseID nodeID actorID vals = forA (insertValue caseID nodeID actorID) (sort_key fst vals)"

definition valuesOf :: "uuid \<Rightarrow> 'q bpms \<Rightarrow> valueRow list" where
  "valuesOf caseID db = filter (\<lambda>r. cv_CaseID r = caseID) (bp_values db)"

text \<open>The latest row of each field, by field.\<close>

definition Current :: "uuid \<Rightarrow> 'q bpms \<Rightarrow> (string \<times> json) list" where
  "Current caseID db =
     map (\<lambda>f. (f, cv_Value (last (filter (\<lambda>r. cv_Field r = f) (valuesOf caseID db)))))
       (sort (remdups (map cv_Field (valuesOf caseID db))))"

section \<open>The service\<close>

definition CaseDomain :: string where
  "CaseDomain = ''bpms''"

definition startInput :: "Process \<Rightarrow> string \<Rightarrow> string \<Rightarrow> OpenInput" where
  "startInput p externalID actor =
     \<lparr>oi_Definition = d_Name (p_Definition p), oi_Version = d_Version (p_Definition p),
      oi_Domain = CaseDomain, oi_ExternalID = externalID, oi_Unit = '''', oi_Tenant = '''', oi_Actor = humanActor actor, oi_ActorID = ''''\<rparr>"

definition moveInput :: "uuid \<Rightarrow> uuid \<Rightarrow> string \<Rightarrow> string \<Rightarrow> MoveInput" where
  "moveInput caseID tokenID action actor =
     \<lparr>mi_CaseID = caseID, mi_TokenID = tokenID, mi_Action = action, mi_Actor = humanActor actor,
      mi_ActorID = '''', mi_Comment = '''', mi_Step = None, mi_ExpectedRevision = None\<rparr>"

text \<open>cl and cl' are what Open and Move draw: their clock and their UUIDs.\<close>

definition Start :: "call \<Rightarrow> call \<Rightarrow> 'q bpms catalog \<Rightarrow> string \<Rightarrow> string \<Rightarrow> string \<Rightarrow> string \<Rightarrow> (string \<times> json) list \<Rightarrow> ('q bpms, Case) action" where
  "Start cl cl' cat externalID actor process action vals =
     (case Latest cat process of
        None \<Rightarrow> liftR (Inl (Err ErrProcessNotFound))
      | Some p \<Rightarrow>
          let start = (case StartNode (p_Definition p) of None \<Rightarrow> '''' | Some n \<Rightarrow> node_ID n) in
          bindA (liftR (ValidateNode p start vals [])) (\<lambda>clean.
          BeginFunc
            (bindA (OpenCase (cat_engine cat) cl (startInput p externalID actor)) (\<lambda>opened.
             bindA (Save (c_ID opened) start actor clean) (\<lambda>_.
             Move (cat_engine cat) cl' (moveInput (c_ID opened) uuidNil action actor))))))"

fun seenOnce :: "'a list \<Rightarrow> 'a list \<Rightarrow> 'a list" where
  "seenOnce seen [] = []"
| "seenOnce seen (x # xs) = (if x \<in> set seen then seenOnce seen xs else x # seenOnce (x # seen) xs)"

definition profiledStates :: "'q bpms catalog \<Rightarrow> string list" where
  "profiledStates cat = seenOnce [] (concat (map ProfiledNodes (All cat)))"

definition declaredEligibilities :: "'q bpms catalog \<Rightarrow> Eligibility list" where
  "declaredEligibilities cat =
     seenOnce [] (map (\<lambda>n. \<lparr>el_Position = el_Position (node_Eligible n), el_Unit = ResolveUnit (node_Eligible n) ''''\<rparr>)
       (filter (\<lambda>n. \<not> Eligibility_IsZero (node_Eligible n)) (concat (map (d_Nodes \<circ> p_Definition) (All cat)))))"

fun heldLoop :: "profiles \<Rightarrow> string \<Rightarrow> Eligibility list \<Rightarrow> Eligibility list result" where
  "heldLoop profiles actor [] = Inr []"
| "heldLoop profiles actor (e # es) =
     bindR (Holds profiles e actor) (\<lambda>ok.
     bindR (heldLoop profiles actor es) (\<lambda>rest. Inr (if ok then e # rest else rest)))"

definition heldEligibilities :: "profiles \<Rightarrow> 'q bpms catalog \<Rightarrow> string \<Rightarrow> Eligibility list result" where
  "heldEligibilities profiles cat actor = heldLoop profiles actor (declaredEligibilities cat)"

definition inboxFilter :: "string list \<Rightarrow> Eligibility list \<Rightarrow> string \<Rightarrow> bool \<Rightarrow> InboxFilter" where
  "inboxFilter states held assignedTo unassigned =
     \<lparr>if_Tenant = '''', if_Domain = CaseDomain, if_States = states, if_Eligibility = held, if_AssignedTo = assignedTo,
      if_Unassigned = unassigned, if_Overdue = False, if_Limit = 0, if_Offset = 0\<rparr>"

definition ServiceInbox :: "profiles \<Rightarrow> 'q bpms catalog \<Rightarrow> 'q bpms \<Rightarrow> string \<Rightarrow> WorkItem list result" where
  "ServiceInbox profiles cat db actor =
     (if profiledStates cat = [] then Inr []
      else
        bindR (heldEligibilities profiles cat actor) (\<lambda>held.
        bindR (if held \<noteq> [] then Inbox (cat_engine cat) db (inboxFilter [] held '''' True) else Inr []) (\<lambda>unclaimed.
        bindR (Inbox (cat_engine cat) db (inboxFilter (profiledStates cat) [] actor False)) (\<lambda>claimed.
        Inr (unclaimed @ claimed)))))"

definition activeToken :: "'q bpms engine \<Rightarrow> 'q bpms \<Rightarrow> uuid \<Rightarrow> uuid \<Rightarrow> Token result" where
  "activeToken e db caseID tokenID =
     bindR (Tokens e db caseID) (\<lambda>tokens.
     let act = filter (\<lambda>t. tok_Status t = TokenActive) tokens in
     if tokenID = uuidNil then
       (case act of
          [t] \<Rightarrow> Inr t
        | [] \<Rightarrow> Inl (Err ErrCaseClosed)
        | _ \<Rightarrow> Inl (Err ErrTokenRequired))
     else case find (\<lambda>t. tok_ID t = tokenID) act of
       None \<Rightarrow> Inl (Err ErrTokenNotFound)
     | Some t \<Rightarrow> Inr t)"

definition ServiceClaim :: "call \<Rightarrow> profiles \<Rightarrow> 'q bpms catalog \<Rightarrow> string \<Rightarrow> uuid \<Rightarrow> uuid \<Rightarrow> ('q bpms, Case) action" where
  "ServiceClaim cl profiles cat actor caseID tokenID =
     BeginFunc
       (bindA (readA (\<lambda>db. activeToken (cat_engine cat) db caseID tokenID)) (\<lambda>tok.
        bindA (liftR (Holds profiles (tok_Eligible tok) actor)) (\<lambda>ok.
        if \<not> ok then liftR (Inl (Err ErrNotHolder))
        else ClaimWith (cat_engine cat) cl
          \<lparr>ci_CaseID = caseID, ci_TokenID = tok_ID tok, ci_Actor = humanActor actor, ci_ExpectedRevision = None\<rparr>)))"

text \<open>Submit: the reads up to the token, which decide what a failure record names, then the rest.\<close>

definition submitToken :: "'q bpms engine \<Rightarrow> uuid \<Rightarrow> uuid \<Rightarrow> 'q bpms \<Rightarrow> (Case \<times> Token) result" where
  "submitToken e caseID tokenID db =
     bindR (r_GetByID (eng_repo e) caseID db) (\<lambda>current.
     bindR (requireR (c_Status current = StatusOpen) (Err ErrCaseClosed)) (\<lambda>_.
     bindR (activeToken e db caseID tokenID) (\<lambda>tok. Inr (current, tok))))"

definition submitTx :: "call \<Rightarrow> 'q bpms catalog \<Rightarrow> string \<Rightarrow> uuid \<Rightarrow> uuid \<Rightarrow> string \<Rightarrow> (string \<times> json) list \<Rightarrow> ('q bpms, Case) action" where
  "submitTx cl cat actor caseID tokenID action vals =
     bindA (readA (submitToken (cat_engine cat) caseID tokenID)) (\<lambda>(current, tok).
     if tok_AssignedTo tok \<noteq> actor then liftR (Inl (Err ErrNotClaimant))
     else case Get cat (c_Definition current) (c_Version current) of
       None \<Rightarrow> liftR (Inl (Err ErrProcessNotFound))
     | Some p \<Rightarrow>
         bindA (readA (\<lambda>db. ValidateNode p (tok_Node tok) vals (Current caseID db))) (\<lambda>clean.
         bindA (Save caseID (tok_Node tok) actor clean) (\<lambda>_.
         Move (cat_engine cat) cl (moveInput caseID (tok_ID tok) action actor))))"

definition Submit :: "call \<Rightarrow> call \<Rightarrow> 'q bpms catalog \<Rightarrow> string \<Rightarrow> uuid \<Rightarrow> uuid \<Rightarrow> string \<Rightarrow> (string \<times> json) list \<Rightarrow> ('q bpms, Case) action" where
  "Submit cl cl' cat actor caseID tokenID action vals = (\<lambda>db.
     let moved = (case submitToken (cat_engine cat) caseID tokenID (db\<lparr>js_tx := True\<rparr>) of Inl _ \<Rightarrow> tokenID | Inr (_, tok) \<Rightarrow> tok_ID tok) in
     case BeginFunc (submitTx cl cat actor caseID tokenID action vals) db of
       (Inr c, db') \<Rightarrow> (Inr c, db')
     | (Inl err, db') \<Rightarrow>
         (case FailureKindOf err of
            None \<Rightarrow> (Inl err, db')
          | Some kind \<Rightarrow>
              (case BeginFunc (RecordFailure (cat_engine cat) cl'
                       \<lparr>fi_CaseID = caseID, fi_TokenID = moved, fi_Actor = humanActor actor, fi_Action = action, fi_Kind = kind, fi_Detail = RawAbsent\<rparr>) db' of
                 (Inl rerr, db'') \<Rightarrow> (Inl (ErrWrap err rerr), db'')
               | (Inr _, db'') \<Rightarrow> (Inl err, db''))))"

section \<open>Who may see a case\<close>

fun relatedTokens :: "profiles \<Rightarrow> string \<Rightarrow> Token list \<Rightarrow> bool result" where
  "relatedTokens profiles actor [] = Inr False"
| "relatedTokens profiles actor (t # ts) =
     (if tok_Status t \<noteq> TokenActive then relatedTokens profiles actor ts
      else if tok_AssignedTo t = actor then Inr True
      else bindR (Holds profiles (tok_Eligible t) actor) (\<lambda>ok. if ok then Inr True else relatedTokens profiles actor ts))"

definition related :: "profiles \<Rightarrow> 'q bpms engine \<Rightarrow> 'q bpms \<Rightarrow> string \<Rightarrow> Case \<Rightarrow> bool result" where
  "related profiles e db actor c =
     bindR (History e db (c_ID c)) (\<lambda>events.
     if list_ex (\<lambda>ev. ac_ID (ev_Actor ev) = actor) events then Inr True
     else if c_Status c \<noteq> StatusOpen then Inr False
     else bindR (Tokens e db (c_ID c)) (relatedTokens profiles actor))"

record CaseView =
  vw_Case :: Case
  vw_Values :: "(string \<times> json) list"
  vw_History :: "valueRow list"

definition View :: "profiles \<Rightarrow> 'q bpms engine \<Rightarrow> 'q bpms \<Rightarrow> string \<Rightarrow> uuid \<Rightarrow> CaseView result" where
  "View profiles e db actor caseID =
     bindR (r_GetByID (eng_repo e) caseID db) (\<lambda>c.
     bindR (related profiles e db actor c) (\<lambda>allowed.
     if \<not> allowed then Inl (Err ErrNoAccess)
     else Inr \<lparr>vw_Case = c, vw_Values = Current caseID db, vw_History = valuesOf caseID db\<rparr>))"

section \<open>Values\<close>

definition newRow :: "uuid \<Rightarrow> string \<Rightarrow> string \<Rightarrow> time \<Rightarrow> string \<times> json \<Rightarrow> valueRow" where
  "newRow caseID nodeID actorID now = (\<lambda>(k, v).
     \<lparr>cv_CaseID = caseID, cv_Field = k, cv_Value = v, cv_NodeID = nodeID, cv_ActorID = actorID, cv_RecordedAt = now\<rparr>)"

lemma newRow_simps [simp]:
  "cv_CaseID (newRow u n a t kv) = u" "cv_Field (newRow u n a t kv) = fst kv" "cv_Value (newRow u n a t kv) = snd kv"
  by (simp_all add: newRow_def split: prod.split)

lemma forA_insertValue:
  "forA (insertValue u n a) kvs db = (Inr x, db') \<Longrightarrow> db' = db\<lparr>bp_values := bp_values db @ map (newRow u n a (pg_now db)) kvs\<rparr>"
proof (induction kvs arbitrary: db)
  case (Cons kv kvs)
  then obtain db1 where "insertValue u n a kv db = (Inr (), db1)" and rest: "forA (insertValue u n a) kvs db1 = (Inr x, db')"
    by (auto simp: bindA_eq_Inr)
  then have "db1 = db\<lparr>bp_values := bp_values db @ [newRow u n a (pg_now db) kv]\<rparr>"
    by (auto simp: insertValue_def newRow_def split: prod.splits if_splits)
  with Cons.IH [OF rest] show ?case by simp
qed simp

text \<open>A save that succeeds appends one row per value, in the order of the fields, and nothing else.\<close>

lemma Save_rows:
  assumes "Save u n a vals db = (Inr x, db')"
  shows "db' = db\<lparr>bp_values := bp_values db @ map (newRow u n a (pg_now db)) (sort_key fst vals)\<rparr>"
  using forA_insertValue assms unfolding Save_def by blast

lemma Current_lookup:
  "map_of (Current u db) k =
     (if k \<in> cv_Field ` set (valuesOf u db) then Some (cv_Value (last (filter (\<lambda>r. cv_Field r = k) (valuesOf u db)))) else None)"
  by (auto simp: Current_def map_of_map_restrict restrict_map_def)

lemma filter_key:
  assumes "distinct (map fst kvs)"
  shows "filter (\<lambda>kv. fst kv = k) kvs = (case map_of kvs k of None \<Rightarrow> [] | Some v \<Rightarrow> [(k, v)])"
  using assms by (induction kvs) (force simp: filter_empty_conv split: option.splits dest: map_of_SomeD)+

text \<open>
  The current values after a save are the saved ones over what there was; other cases keep theirs.
\<close>

theorem Current_Save:
  assumes keys: "distinct (map fst vals)" and save: "Save u n a vals db = (Inr x, db')"
  shows "map_of (Current u db') k = (case map_of vals k of None \<Rightarrow> map_of (Current u db) k | Some v \<Rightarrow> Some v)"
    and "u' \<noteq> u \<Longrightarrow> Current u' db' = Current u' db"
proof -
  let ?rows = "map (newRow u n a (pg_now db)) (sort_key fst vals)"
  note db' = Save_rows [OF save]
  have here: "valuesOf u db' = valuesOf u db @ ?rows" by (simp add: valuesOf_def db' filter_map comp_def)
  have mo: "map_of (sort_key fst vals) = map_of vals"
    by (rule map_of_eqI) (use keys in \<open>auto simp: distinct_map map_of_eq_Some_iff\<close>)
  have "distinct (map fst (sort_key fst vals))" using keys by (simp add: distinct_map)
  from filter_key [OF this, of k] have new: "filter (\<lambda>r. cv_Field r = k) ?rows =
      (case map_of vals k of None \<Rightarrow> [] | Some v \<Rightarrow> [newRow u n a (pg_now db) (k, v)])"
    by (simp add: filter_map comp_def mo split: option.split)
  show "map_of (Current u db') k = (case map_of vals k of None \<Rightarrow> map_of (Current u db) k | Some v \<Rightarrow> Some v)"
  proof (cases "map_of vals k")
    case None
    then have "k \<notin> fst ` set vals" by (simp add: map_of_eq_None_iff)
    then have "k \<notin> cv_Field ` set ?rows" by force
    with None new show ?thesis by (simp add: Current_lookup here image_Un)
  next
    case (Some v)
    then have "k \<in> cv_Field ` set ?rows" by (force dest: map_of_SomeD)
    with Some new show ?thesis by (simp add: Current_lookup here image_Un)
  qed
  show "Current u' db' = Current u' db" if "u' \<noteq> u"
  proof -
    have "valuesOf u' db' = valuesOf u' db" using that by (simp add: valuesOf_def db' filter_map comp_def)
    then show ?thesis by (simp add: Current_def)
  qed
qed

section \<open>Transactions\<close>

lemma BeginFunc_Inr:
  assumes "BeginFunc f db = (Inr x, db')"
  obtains db1 where "f (db\<lparr>js_tx := True\<rparr>) = (Inr x, db1)" and "db' = db1\<lparr>js_tx := js_tx db\<rparr>"
  using assms by (auto simp: BeginFunc_def split: prod.splits sum.splits)

text \<open>What fails leaves no trace.\<close>

lemma BeginFunc_Inl: "BeginFunc f db = (Inl err, db') \<Longrightarrow> db' = db"
  by (auto simp: BeginFunc_def split: prod.splits sum.splits)

lemma step_tx: "engineStep e db (db\<lparr>js_tx := b\<rparr>)"
  by (rule engineStep.outside) simp_all

lemma step_save:
  assumes "Save u n a vals db = (Inr x, db')"
  shows "engineStep e db db'"
  by (rule engineStep.outside) (simp_all add: Save_rows [OF assms])

lemma view_tx [simp]: "pgView (db\<lparr>js_tx := b\<rparr>) = pgView (db :: 'q bpms)"
  by (simp add: pgView_def)

lemma Move_step:
  assumes "Move e cl i db = (Inr c, db')" and "freshCall cl (pgView db)"
  shows "engineStep e db db'"
proof -
  from assms(1) obtain res where "MoveDetailed e cl i db = (Inr res, db')" by (auto simp: Move_def bindA_eq_Inr)
  then show ?thesis by (rule engineStep.moved [OF assms(2)])
qed

lemma Open_step:
  assumes "OpenCase e cl i db = (Inr c, db')" and "freshCall cl (pgView db)"
  shows "engineStep e db db'"
proof -
  from assms(1) obtain res where "OpenDetailed e cl i db = (Inr res, db')" by (auto simp: OpenCase_def bindA_eq_Inr)
  then show ?thesis by (rule engineStep.opened [OF assms(2)])
qed

lemma view_save:
  assumes "Save u n a vals db = (Inr x, db')"
  shows "pgView db' = pgView db"
  by (simp add: Save_rows [OF assms] pgView_def)

text \<open>Opening a case and its first move are calls of the engine, with the form saved in between.\<close>

theorem Start_steps:
  assumes run: "Start cl cl' cat ext actor process action vals db = (Inr c, db')"
    and fresh: "freshCall cl (pgView db)"
    and fresh': "\<And>i opened db1. OpenCase (cat_engine cat) cl i (db\<lparr>js_tx := True\<rparr>) = (Inr opened, db1) \<Longrightarrow> freshCall cl' (pgView db1)"
  shows "(engineStep (cat_engine cat))\<^sup>*\<^sup>* db db'"
proof -
  from run obtain p start clean where p: "Latest cat process = Some p"
    and tx: "BeginFunc (bindA (OpenCase (cat_engine cat) cl (startInput p ext actor)) (\<lambda>opened.
             bindA (Save (c_ID opened) start actor clean) (\<lambda>_.
             Move (cat_engine cat) cl' (moveInput (c_ID opened) uuidNil action actor)))) db = (Inr c, db')"
    by (auto simp: Start_def Let_def split: option.splits sum.splits)
  from tx obtain opened db1 db2 db3 where
    o: "OpenCase (cat_engine cat) cl (startInput p ext actor) (db\<lparr>js_tx := True\<rparr>) = (Inr opened, db1)"
    and s: "Save (c_ID opened) start actor clean db1 = (Inr (), db2)"
    and m: "Move (cat_engine cat) cl' (moveInput (c_ID opened) uuidNil action actor) db2 = (Inr c, db3)"
    and db': "db' = db3\<lparr>js_tx := js_tx db\<rparr>"
    by (auto simp: bindA_eq_Inr elim!: BeginFunc_Inr)
  have "engineStep (cat_engine cat) db (db\<lparr>js_tx := True\<rparr>)" by (rule step_tx)
  moreover have "engineStep (cat_engine cat) (db\<lparr>js_tx := True\<rparr>) db1" by (rule Open_step [OF o]) (simp add: fresh)
  moreover have "engineStep (cat_engine cat) db1 db2" by (rule step_save [OF s])
  moreover have "engineStep (cat_engine cat) db2 db3" by (rule Move_step [OF m]) (simp add: view_save [OF s] fresh' [OF o])
  moreover have "engineStep (cat_engine cat) db3 db'" unfolding db' by (rule step_tx)
  ultimately show ?thesis by (meson converse_rtranclp_into_rtranclp rtranclp.rtrancl_refl)
qed

section \<open>Submitting\<close>

lemma bp_values_more:
  fixes db db' :: "'q bpms"
  assumes "pgStore.more db' = pgStore.more db"
  shows "bp_values db' = bp_values db" and "bp_versions db' = bp_versions db"
  using assms by (cases db; cases db'; simp)+

text \<open>Moving a token leaves the collected values alone: the engine writes its tables, the registry its jobs.\<close>

lemma Move_values:
  fixes e :: "'q bpms engine"
  assumes repo: "eng_repo e = pgRepository dg" and sink: "eng_effectSink e = Some (effectSinkOf r)"
    and queue: "queueOK (reg_queue r)" and run: "Move e cl i db = (Inr c, db')"
  shows "bp_values db' = bp_values db"
proof -
  from run obtain d rr c0 evs db1 where per: "persist e cl rr db = (Inr (c0, evs), db1)"
    and dis: "dispatch e d c0 evs db1 = (Inr (), db')"
    by (auto simp: Move_def MoveDetailed_def bindA_eq_Inr split: sum.splits)
  have "Dispatch r d c0 evs db1 = (Inr (), db')" using dis sink by (simp add: dispatch_def effectSinkOf_def)
  from Dispatch_outbox [OF queue this] have "bp_values db' = bp_values db1" by simp
  also have "\<dots> = bp_values db" by (rule bp_values_more(1) [OF persist_more [OF repo per]])
  finally show ?thesis .
qed

lemma activeToken_Inr:
  assumes "activeToken e db caseID tokenID = Inr t"
  shows "tok_Status t = TokenActive" and "tokenID \<noteq> uuidNil \<Longrightarrow> tok_ID t = tokenID"
    and "\<exists>ts. Tokens e db caseID = Inr ts \<and> t \<in> set ts"
proof -
  obtain ts where ts: "Tokens e db caseID = Inr ts"
    using assms by (auto simp: activeToken_def)
  let ?act = "filter (\<lambda>t. tok_Status t = TokenActive) ts"
  have "t \<in> set ?act \<and> (tokenID \<noteq> uuidNil \<longrightarrow> tok_ID t = tokenID)"
  proof (cases "tokenID = uuidNil")
    case True
    then have "?act = [t]" using assms ts by (auto simp: activeToken_def Let_def split: list.splits)
    then show ?thesis using True by simp
  next
    case False
    then have "find (\<lambda>t. tok_ID t = tokenID) ?act = Some t"
      using assms ts by (auto simp: activeToken_def Let_def split: option.splits)
    then have "t \<in> set ?act" "tok_ID t = tokenID" unfolding find_Some_iff by (metis nth_mem)+
    then show ?thesis by simp
  qed
  then show "tok_Status t = TokenActive" and "tokenID \<noteq> uuidNil \<Longrightarrow> tok_ID t = tokenID"
    and "\<exists>ts. Tokens e db caseID = Inr ts \<and> t \<in> set ts" using ts by auto
qed

text \<open>
  A submit that succeeds was made by the assignee of an active token of an open case, with values
  its form accepts; exactly those are saved, and the rest is a move of that token.
\<close>

theorem Submit_succeeds:
  fixes cat :: "'q bpms catalog"
  assumes repo: "eng_repo (cat_engine cat) = pgRepository dg"
    and sink: "eng_effectSink (cat_engine cat) = Some (effectSinkOf r)" and queue: "queueOK (reg_queue r)"
    and fresh: "freshCall cl (pgView db)"
    and run: "Submit cl cl' cat actor caseID tokenID action vals db = (Inr c, db')"
  obtains current tok p accepted where
    "submitToken (cat_engine cat) caseID tokenID (db\<lparr>js_tx := True\<rparr>) = Inr (current, tok)"
    "c_Status current = StatusOpen" "tok_Status tok = TokenActive" "tok_AssignedTo tok = actor"
    "Get cat (c_Definition current) (c_Version current) = Some p"
    "ValidateNode p (tok_Node tok) vals (Current caseID db) = Inr accepted"
    "bp_values db' = bp_values db @ map (newRow caseID (tok_Node tok) actor (pg_now db)) (sort_key fst accepted)"
    "(engineStep (cat_engine cat))\<^sup>*\<^sup>* db db'"
proof -
  let ?e = "cat_engine cat" and ?db = "db\<lparr>js_tx := True\<rparr>"
  have tx: "BeginFunc (submitTx cl cat actor caseID tokenID action vals) db = (Inr c, db')"
    using run by (auto simp: Submit_def Let_def split: prod.splits sum.splits option.splits)
  from BeginFunc_Inr [OF tx] obtain db3 where
    body: "submitTx cl cat actor caseID tokenID action vals ?db = (Inr c, db3)" and db': "db' = db3\<lparr>js_tx := js_tx db\<rparr>" by metis
  from body obtain current tok where ct: "submitToken ?e caseID tokenID ?db = Inr (current, tok)"
    and rest: "(if tok_AssignedTo tok \<noteq> actor then liftR (Inl (Err ErrNotClaimant))
     else case Get cat (c_Definition current) (c_Version current) of
       None \<Rightarrow> liftR (Inl (Err ErrProcessNotFound))
     | Some p \<Rightarrow>
         bindA (readA (\<lambda>db. ValidateNode p (tok_Node tok) vals (Current caseID db))) (\<lambda>clean.
         bindA (Save caseID (tok_Node tok) actor clean) (\<lambda>_.
         Move ?e cl (moveInput caseID (tok_ID tok) action actor)))) ?db = (Inr c, db3)"
    by (auto simp: submitTx_def split: sum.splits)
  from rest obtain p accepted db2 where mine: "tok_AssignedTo tok = actor"
    and p: "Get cat (c_Definition current) (c_Version current) = Some p"
    and ok: "ValidateNode p (tok_Node tok) vals (Current caseID ?db) = Inr accepted"
    and s: "Save caseID (tok_Node tok) actor accepted ?db = (Inr (), db2)"
    and m: "Move ?e cl (moveInput caseID (tok_ID tok) action actor) db2 = (Inr c, db3)"
    by (auto simp: bindA_eq_Inr split: if_splits option.splits sum.splits)
  have cur: "Current caseID ?db = Current caseID db" by (simp add: Current_def valuesOf_def)
  have "bp_values db' = bp_values db2" using Move_values [OF repo sink queue m] by (simp add: db')
  then have vals: "bp_values db' = bp_values db @ map (newRow caseID (tok_Node tok) actor (pg_now db)) (sort_key fst accepted)"
    by (simp add: Save_rows [OF s])
  have "engineStep ?e db ?db" by (rule step_tx)
  moreover have "engineStep ?e ?db db2" by (rule step_save [OF s])
  moreover have "engineStep ?e db2 db3" by (rule Move_step [OF m]) (simp add: view_save [OF s] fresh)
  moreover have "engineStep ?e db3 db'" unfolding db' by (rule step_tx)
  ultimately have steps: "(engineStep ?e)\<^sup>*\<^sup>* db db'" by (meson converse_rtranclp_into_rtranclp rtranclp.rtrancl_refl)
  have st: "c_Status current = StatusOpen" and act: "activeToken ?e ?db caseID tokenID = Inr tok"
    using ct by (auto simp: submitToken_def)
  show thesis
    by (rule that [OF ct st activeToken_Inr(1) [OF act] mine p _ vals steps]) (use ok cur in simp)
qed

text \<open>
  A submit that fails saves no value and moves no token; when its error is one that is recorded, one
  event is appended in a transaction of its own.
\<close>

lemma RecordFailure_rows:
  fixes e :: "'q bpms engine"
  assumes repo: "eng_repo e = pgRepository dg" and run: "RecordFailure e cl i db = (Inr ev, db')"
  shows "pg_tokens db' = pg_tokens db \<and> pg_scopes db' = pg_scopes db \<and> bp_values db' = bp_values db \<and> js_tx db' = js_tx db \<and>
    (\<exists>row. pg_events db' = pg_events db @ [row])"
proof -
  from run obtain c0 db1 ev0 where a: "pgAdvanceLastSeq (fi_CaseID i) db = (Inr c0, db1)" and b: "pgAppendEvent dg ev0 db1 = (Inr ev, db')"
    by (auto simp: RecordFailure_def bindA_eq_Inr repo pgRepository_def appendEvent_def split: sum.splits)
  from a obtain cs where "db1 = db\<lparr>pg_cases := cs\<rparr>"
    by (auto simp: pgAdvanceLastSeq_def Let_def split: option.splits)
  moreover from b obtain row where "db' = db1\<lparr>pg_events := pg_events db1 @ [row]\<rparr>"
    by (auto simp: pgAppendEvent_def Let_def split: if_splits)
  ultimately show ?thesis by simp
qed

theorem Submit_fails:
  fixes cat :: "'q bpms catalog"
  assumes repo: "eng_repo (cat_engine cat) = pgRepository dg"
    and run: "Submit cl cl' cat actor caseID tokenID action vals db = (Inl err, db')"
  shows "bp_values db' = bp_values db" and "pg_tokens db' = pg_tokens db" and "pg_scopes db' = pg_scopes db"
    and "db' = db \<or> (\<exists>row. pg_events db' = pg_events db @ [row])"
    and "(engineStep (cat_engine cat))\<^sup>*\<^sup>* db db'"
proof -
  obtain res db1 where tx: "BeginFunc (submitTx cl cat actor caseID tokenID action vals) db = (res, db1)" by fastforce
  with run obtain err1 where res: "res = Inl err1" by (cases res) (auto simp: Submit_def Let_def)
  with tx have db1: "db1 = db" by (auto dest: BeginFunc_Inl)
  have "db' = db \<or> (\<exists>fi x db2. RecordFailure (cat_engine cat) cl' fi (db\<lparr>js_tx := True\<rparr>) = (Inr x, db2) \<and> db' = db2\<lparr>js_tx := js_tx db\<rparr>)"
  proof (cases "FailureKindOf err1")
    case None
    then show ?thesis using run tx res db1 by (simp add: Submit_def Let_def)
  next
    case (Some kind)
    let ?fi = "\<lparr>fi_CaseID = caseID,
      fi_TokenID = (case submitToken (cat_engine cat) caseID tokenID (db\<lparr>js_tx := True\<rparr>) of Inl _ \<Rightarrow> tokenID | Inr (_, tok) \<Rightarrow> tok_ID tok),
      fi_Actor = humanActor actor, fi_Action = action, fi_Kind = kind, fi_Detail = RawAbsent\<rparr>"
    obtain rres db2 where rec: "BeginFunc (RecordFailure (cat_engine cat) cl' ?fi) db = (rres, db2)" by fastforce
    then have "db' = db2" using run tx res db1 Some by (auto simp: Submit_def Let_def split: sum.splits)
    then show ?thesis
      using rec by (cases rres) (auto dest: BeginFunc_Inl elim!: BeginFunc_Inr)
  qed
  then have "bp_values db' = bp_values db \<and> pg_tokens db' = pg_tokens db \<and> pg_scopes db' = pg_scopes db \<and>
      (db' = db \<or> (\<exists>row. pg_events db' = pg_events db @ [row])) \<and> (engineStep (cat_engine cat))\<^sup>*\<^sup>* db db'"
  proof (elim disjE exE conjE)
    fix fi x db2 assume rf: "RecordFailure (cat_engine cat) cl' fi (db\<lparr>js_tx := True\<rparr>) = (Inr x, db2)" and db': "db' = db2\<lparr>js_tx := js_tx db\<rparr>"
    note rows = RecordFailure_rows [OF repo rf]
    have "engineStep (cat_engine cat) db (db\<lparr>js_tx := True\<rparr>)" by (rule step_tx)
    moreover have "engineStep (cat_engine cat) (db\<lparr>js_tx := True\<rparr>) db2" by (rule engineStep.failed [OF rf])
    moreover have "engineStep (cat_engine cat) db2 db'" unfolding db' by (rule step_tx)
    ultimately have "(engineStep (cat_engine cat))\<^sup>*\<^sup>* db db'" by (meson converse_rtranclp_into_rtranclp rtranclp.rtrancl_refl)
    with rows show ?thesis by (simp add: db')
  qed simp
  then show "bp_values db' = bp_values db" and "pg_tokens db' = pg_tokens db" and "pg_scopes db' = pg_scopes db"
    and "db' = db \<or> (\<exists>row. pg_events db' = pg_events db @ [row])"
    and "(engineStep (cat_engine cat))\<^sup>*\<^sup>* db db'" by blast+
qed

section \<open>Who can do what\<close>

lemma Holds_True: "Holds profiles el actor = Inr True \<longleftrightarrow>
    \<not> Eligibility_IsZero el \<and> (\<exists>people. profiles (el_Position el) (el_Unit el) = Inr people \<and> actor \<in> set people)"
  by (auto simp: Holds_def)

text \<open>Only a holder of the token's profile claims it, and then the token is theirs.\<close>

theorem ServiceClaim_holder:
  fixes cat :: "'q bpms catalog"
  assumes conf: "engineOK sha js (cat_engine cat)" and ok: "systemOK sha js (cat_engine cat) db" and fresh: "freshCall cl (pgView db)"
    and ids: "uuidNil \<notin> tok_ID ` set (pg_tokens db)"
    and run: "ServiceClaim cl profiles cat actor caseID tokenID db = (Inr c, db')"
  obtains tok t' where "activeToken (cat_engine cat) (db\<lparr>js_tx := True\<rparr>) caseID tokenID = Inr tok"
    "Holds profiles (tok_Eligible tok) actor = Inr True"
    "tokenAt db' caseID (tok_ID tok) t'" "tok_AssignedTo t' = actor" "tok_AssignedTo tok = '''' \<or> tok_AssignedTo tok = actor"
proof -
  let ?e = "cat_engine cat" and ?db = "db\<lparr>js_tx := True\<rparr>"
  from run obtain db1 where body: "bindA (readA (\<lambda>db. activeToken ?e db caseID tokenID)) (\<lambda>tok.
        bindA (liftR (Holds profiles (tok_Eligible tok) actor)) (\<lambda>ok.
        if \<not> ok then liftR (Inl (Err ErrNotHolder))
        else ClaimWith ?e cl \<lparr>ci_CaseID = caseID, ci_TokenID = tok_ID tok, ci_Actor = humanActor actor, ci_ExpectedRevision = None\<rparr>)) ?db = (Inr c, db1)"
    and db': "db' = db1\<lparr>js_tx := js_tx db\<rparr>" unfolding ServiceClaim_def by (rule BeginFunc_Inr)
  then obtain tok where tok: "activeToken ?e ?db caseID tokenID = Inr tok" and holds: "Holds profiles (tok_Eligible tok) actor = Inr True"
    and cl: "ClaimWith ?e cl \<lparr>ci_CaseID = caseID, ci_TokenID = tok_ID tok, ci_Actor = humanActor actor, ci_ExpectedRevision = None\<rparr> ?db = (Inr c, db1)"
    by (auto split: sum.splits if_splits)
  have ok': "systemOK sha js ?e ?db" using ok by (simp add: systemOK_def pgOK_def pgView_def)
  obtain ts where ts: "Tokens ?e ?db caseID = Inr ts" "tok \<in> set ts" using activeToken_Inr(3) [OF tok] by blast
  from ts(1) obtain c0 d rr where c0: "pgGetByID caseID ?db = Inr c0" and rr: "loadRun ?e ?db c0 d = Inr rr" "ts = sortTokens (run_tokens rr)"
    by (auto simp: Tokens_def engineOK_repo [OF conf] pgRepository_def)
  from ts(2) obtain t0 where t0: "tokenAt ?db caseID (tok_ID t0) t0" "tok = filled d (c_Unit c0) t0"
    using loadRun_pg(4) [OF conf ok' c0 rr(1)] by (auto simp: rr(2) sortTokens_def)
  have "t0 \<in> set (pg_tokens db)" using t0(1) lookupBy_Some_mem [of tok_ID _ "pg_tokens db"] by (auto simp: tokenAt_def)
  then have tid: "tok_ID tok \<noteq> uuidNil" using ids t0(2) by auto
  obtain t t' where t: "tokenAt ?db caseID (tok_ID tok) t" "tokenAt db1 caseID (tok_ID tok) t'" "tok_AssignedTo t' = actor"
      "tok_AssignedTo t = '''' \<or> tok_AssignedTo t = actor"
    by (rule claim_stored [OF conf ok' _ cl]) (use fresh tid in \<open>auto simp: humanActor_def\<close>)
  have "t = t0" using tokenAt_unique [OF t(1), of caseID t0] t0 by simp
  then have "tok_AssignedTo tok = '''' \<or> tok_AssignedTo tok = actor" using t(4) t0(2) by simp
  moreover have "tokenAt db' caseID (tok_ID tok) t'" using t(2) by (simp add: db' tokenAt_def)
  ultimately show thesis using that [OF tok holds _ t(3)] by blast
qed

text \<open>Whoever sees a case acted on it, has one of its tokens or may take one.\<close>

lemma relatedTokens_True:
  assumes "relatedTokens profiles actor ts = Inr True"
  shows "\<exists>t \<in> set ts. tok_Status t = TokenActive \<and> (tok_AssignedTo t = actor \<or> Holds profiles (tok_Eligible t) actor = Inr True)"
  using assms by (induction ts) (auto split: if_splits)

theorem View_related:
  assumes "View profiles e db actor caseID = Inr v"
  shows "(\<exists>evs. History e db (c_ID (vw_Case v)) = Inr evs \<and> (\<exists>ev \<in> set evs. ac_ID (ev_Actor ev) = actor)) \<or>
    c_Status (vw_Case v) = StatusOpen \<and> (\<exists>ts. Tokens e db (c_ID (vw_Case v)) = Inr ts \<and>
      (\<exists>t \<in> set ts. tok_Status t = TokenActive \<and> (tok_AssignedTo t = actor \<or> Holds profiles (tok_Eligible t) actor = Inr True)))"
    and "vw_Values v = Current caseID db"
proof -
  from assms obtain c where rel: "related profiles e db actor c = Inr True"
    and v: "v = \<lparr>vw_Case = c, vw_Values = Current caseID db, vw_History = valuesOf caseID db\<rparr>"
    by (auto simp: View_def split: if_splits)
  show "vw_Values v = Current caseID db" by (simp add: v)
  from rel show "(\<exists>evs. History e db (c_ID (vw_Case v)) = Inr evs \<and> (\<exists>ev \<in> set evs. ac_ID (ev_Actor ev) = actor)) \<or>
    c_Status (vw_Case v) = StatusOpen \<and> (\<exists>ts. Tokens e db (c_ID (vw_Case v)) = Inr ts \<and>
      (\<exists>t \<in> set ts. tok_Status t = TokenActive \<and> (tok_AssignedTo t = actor \<or> Holds profiles (tok_Eligible t) actor = Inr True)))"
    by (auto simp: related_def v list_ex_iff dest: relatedTokens_True split: if_splits)
qed

text \<open>The inbox lists active tokens of open cases the actor may claim or has claimed.\<close>

lemma heldLoop_mem: "heldLoop profiles actor els = Inr held \<Longrightarrow> el \<in> set held \<Longrightarrow> Holds profiles el actor = Inr True"
  by (induction els arbitrary: held) (auto split: if_splits)

lemma window_subset: "set (window limit offset xs) \<subseteq> set xs"
  by (auto simp: window_def dest: in_set_takeD in_set_dropD)

lemma pgListWorkItems_match: "pgListWorkItems f db = Inr ws \<Longrightarrow> w \<in> set ws \<Longrightarrow> inboxMatch (pg_now db) f w"
  using window_subset by (fastforce simp: pgListWorkItems_def split: prod.splits)

theorem ServiceInbox_sound:
  fixes cat :: "'q bpms catalog"
  assumes repo: "eng_repo (cat_engine cat) = pgRepository dg" and actor: "actor \<noteq> ''''"
    and run: "ServiceInbox profiles cat db actor = Inr ws" and w: "w \<in> set ws"
  shows "tok_Status (wi_Token w) = TokenActive \<and> c_Status (wi_Case w) = StatusOpen \<and> c_Domain (wi_Case w) = CaseDomain \<and>
    (tok_AssignedTo (wi_Token w) = '''' \<and> Holds profiles (tok_Eligible (wi_Token w)) actor = Inr True \<or>
     tok_AssignedTo (wi_Token w) = actor)"
proof -
  have dom: "CaseDomain \<noteq> ''''" by (simp add: CaseDomain_def)
  from run w obtain held un ac where held: "heldEligibilities profiles cat actor = Inr held"
    and un: "(if held \<noteq> [] then pgListWorkItems (inboxFilter [] held '''' True) db else Inr []) = Inr un"
    and ac: "pgListWorkItems (inboxFilter (profiledStates cat) [] actor False) db = Inr ac" and mem: "w \<in> set un \<or> w \<in> set ac"
    by (auto simp: ServiceInbox_def Inbox_def repo pgRepository_def split: if_splits)
  from mem show ?thesis
  proof
    assume "w \<in> set un"
    then have "held \<noteq> []" "inboxMatch (pg_now db) (inboxFilter [] held '''' True) w"
      using un pgListWorkItems_match by (auto split: if_splits)
    then show ?thesis using heldLoop_mem [OF held [unfolded heldEligibilities_def]] dom by (auto simp: inboxMatch_def inboxFilter_def Let_def)
  next
    assume "w \<in> set ac"
    then have "inboxMatch (pg_now db) (inboxFilter (profiledStates cat) [] actor False) w" using ac pgListWorkItems_match by blast
    then show ?thesis using actor dom by (auto simp: inboxMatch_def inboxFilter_def Let_def)
  qed
qed

end
