(* ===== verification/Spec2Isabelle.thy ===== *)
theory Spec2Isabelle
  imports Scenario Operation_Facts Work_Lists Digest Calendar Http_Status Effects Idempotency_Http Access_Control Audit_Trail Process_Service
begin

text \<open>
  HEADER
\<close>

section \<open>Definitions\<close>

text \<open>
  C1. Definition.Validate accepts exactly the definitions that are well formed (unique non-empty
  node IDs, one start, a terminal, known endpoints, unambiguous actions, routes and default
  routes, no cycle of automatic nodes, everything reachable from the start) and whose blocks and
  join policies pass their own rules.
\<close>

theorem validate_accepts_wellFormed:
  "Validate d = [] \<longleftrightarrow> wellFormed d \<and> validateBlocks d = [] \<and> validateJoinPolicies d = []"
  by (rule Validate_wellFormed)

text \<open>
  C2. detectGatewayCycle returns nil exactly when the graph it is given is acyclic, and
  otherwise a path that follows edges and ends where it starts.
\<close>

theorem detectGatewayCycle_correct:
  assumes "\<forall>x. set (adj x) \<subseteq> set nodes" and "\<forall>x. x \<notin> set nodes \<longrightarrow> adj x = []"
  shows "case detectGatewayCycle nodes adj of
           None \<Rightarrow> acyclic (edges adj)
         | Some c \<Rightarrow> isCycle adj c"
  using detectGatewayCycle_None [of adj nodes] detectGatewayCycle_Some [of adj nodes] assms
  by (auto split: option.split)

theorem detectGatewayCycle_correct_witness:
  "case detectGatewayCycle [''a'', ''b''] (\<lambda>x. if x = ''a'' then [''b''] else []) of
     None \<Rightarrow> acyclic (edges (\<lambda>x. if x = ''a'' then [''b''] else []))
   | Some c \<Rightarrow> isCycle (\<lambda>x. if x = ''a'' then [''b''] else []) c"
  by (rule detectGatewayCycle_correct) auto

text \<open>
  C3. route satisfies the recursion equation of the Go loop on every run: whatever the
  definition, the bounds on decision hops and gateway steps end the recursion.
\<close>

theorem route_recursion:
  "route e cl db r tid tr comment hops = routeStep (route e cl db) e cl db r tid tr comment hops"
  by (rule route_unfold)

section \<open>The running system\<close>

text \<open>
  C4. Whatever sequence of calls an engine on PostgreSQL commits, starting from empty tables, the
  store keeps the invariant of the system: the tables keep their keys and digests, every case is
  well formed for its definition, and its events are numbered without a gap.
\<close>

theorem reachable_invariant:
  assumes "engineOK sha js e" and "reachable e db"
  shows "systemOK sha js e db"
  by (rule reachable_systemOK [OF assms])

theorem reachable_invariant_witness: "systemOK sha0 js0 sampleEngine store4"
  by (rule reachable_invariant [OF sample_engineOK sample_reachable(3)])

text \<open>
  C5. An open case is never stuck: it has an active token, the token rests on a task node of the
  definition, and at least one transition leaves that node.
\<close>

theorem open_case_actionable:
  assumes "engineOK sha js e" and "reachable e db" and "pgGetByID u db = Inr c" and "c_Status c = StatusOpen"
    and "resolveDefinition e (c_Definition c) (c_Version c) = Inr d" and "pgListTokens u db = Inr ts"
  shows "\<exists>t \<in> set ts. \<exists>n. tok_Status t = TokenActive \<and> Definition_Node d (tok_Node t) = Some n \<and>
    \<not> IsAutomatic (node_Kind n) \<and> TransitionsFrom d (tok_Node t) \<noteq> []"
  using system_never_stuck [OF reachable_systemOK [OF assms(1,2)] assms(3-6)] .

theorem open_case_actionable_witness:
  "\<exists>t \<in> set (projr (pgListTokens 100 store2)). \<exists>n. tok_Status t = TokenActive \<and>
     Definition_Node reviewDef (tok_Node t) = Some n \<and> \<not> IsAutomatic (node_Kind n) \<and> TransitionsFrom reviewDef (tok_Node t) \<noteq> []"
proof (rule open_case_actionable [OF sample_engineOK sample_reachable(2), where u = 100 and c = "projr (pgGetByID 100 store2)"])
  show "pgGetByID 100 store2 = Inr (projr (pgGetByID 100 store2))" by code_simp
  show "c_Status (projr (pgGetByID 100 store2)) = StatusOpen" by code_simp
  have "c_Definition (projr (pgGetByID 100 store2)) = ''review'' \<and> c_Version (projr (pgGetByID 100 store2)) = 1" by code_simp
  then show "resolveDefinition sampleEngine (c_Definition (projr (pgGetByID 100 store2))) (c_Version (projr (pgGetByID 100 store2))) = Inr reviewDef"
    by (simp add: sample_resolve)
  show "pgListTokens 100 store2 = Inr (projr (pgListTokens 100 store2))" by (simp add: pgListTokens_def)
qed

text \<open>
  C6. A case that closed or was cancelled has no live token and no open scope left.
\<close>

theorem ended_case_quiet:
  assumes "engineOK sha js e" and "reachable e db" and "pgGetByID u db = Inr c" and "c_Status c \<noteq> StatusOpen"
    and "resolveDefinition e (c_Definition c) (c_Version c) = Inr d"
    and "pgListTokens u db = Inr ts" and "pgListScopes u db = Inr ss"
  shows "(\<forall>t \<in> set ts. \<not> Live (tok_Status t)) \<and> (\<forall>s \<in> set ss. sc_Status s \<noteq> ScopeOpen)"
  by (rule system_ended_quiet [OF reachable_systemOK [OF assms(1,2)] assms(3-7)])

theorem ended_case_quiet_witness:
  "list_all (\<lambda>t. \<not> Live (tok_Status t)) (projr (pgListTokens 100 (snd cancel3))) \<and>
   list_all (\<lambda>s. sc_Status s \<noteq> ScopeOpen) (projr (pgListScopes 100 (snd cancel3)))"
  unfolding list_all_iff
proof (rule ended_case_quiet [OF sample_engineOK sample_cancel_reachable, where u = 100 and c = "projr (pgGetByID 100 (snd cancel3))"])
  show "pgGetByID 100 (snd cancel3) = Inr (projr (pgGetByID 100 (snd cancel3)))" by code_simp
  show "c_Status (projr (pgGetByID 100 (snd cancel3))) \<noteq> StatusOpen" by code_simp
  have "c_Definition (projr (pgGetByID 100 (snd cancel3))) = ''review'' \<and> c_Version (projr (pgGetByID 100 (snd cancel3))) = 1"
    by code_simp
  then show "resolveDefinition sampleEngine (c_Definition (projr (pgGetByID 100 (snd cancel3))))
      (c_Version (projr (pgGetByID 100 (snd cancel3)))) = Inr reviewDef"
    by (simp add: sample_resolve)
qed (simp_all add: pgListTokens_def pgListScopes_def)

text \<open>
  C7. A case that ended stays as it ended: whatever calls are committed afterwards, its row (the
  sequence of its events apart), its tokens and its scopes do not change.
\<close>

theorem ended_case_final:
  assumes "engineOK sha js e" and "reachable e db" and "(engineStep e)\<^sup>*\<^sup>* db db'"
    and "pgGetByID u db = Inr c" and "c_Status c \<noteq> StatusOpen"
  shows "\<exists>n. pgGetByID u db' = Inr (c\<lparr>c_LastSeq := n\<rparr>) \<and> tokensIn (pgView db') u = tokensIn (pgView db) u \<and>
    scopesIn (pgView db') u = scopesIn (pgView db) u"
  using steps_ended [OF assms(1,3) reachable_systemOK [OF assms(1,2)] _ assms(5), of u] assms(4) by (simp add: pgGetByID_view)

theorem ended_case_final_witness:
  "\<exists>n. pgGetByID 100 (snd cancel3) = Inr ((projr (pgGetByID 100 (snd cancel3)))\<lparr>c_LastSeq := n\<rparr>) \<and>
     tokensIn (pgView (snd cancel3)) 100 = tokensIn (pgView (snd cancel3)) 100 \<and>
     scopesIn (pgView (snd cancel3)) 100 = scopesIn (pgView (snd cancel3)) 100"
  by (rule ended_case_final [OF sample_engineOK sample_cancel_reachable rtranclp.rtrancl_refl]) code_simp+

text \<open>
  C8. The history ListEvents returns for a case is complete and in order: its events are numbered
  1, 2, 3 and so on up to the LastSeq of the case.
\<close>

theorem history_gap_free:
  assumes "engineOK sha js e" and "reachable e db" and "pgGetByID u db = Inr c" and "pgListEvents u db = Inr evs"
  shows "map ev_Seq evs = [1..c_LastSeq c]"
  by (rule system_history [OF reachable_systemOK [OF assms(1,2)] assms(3,4)])

theorem history_gap_free_witness: "map ev_Seq (projr (pgListEvents 100 store2)) = [1..c_LastSeq case2]"
  by (rule history_gap_free [OF sample_engineOK sample_reachable(2) sample_case2(1)]) (simp add: pgListEvents_def)

text \<open>
  C9. The event table is append-only: no call changes or removes an event that is there.
\<close>

theorem history_append_only:
  assumes "engineOK sha js e" and "reachable e db" and "(engineStep e)\<^sup>*\<^sup>* db db'"
  shows "\<exists>rows. pg_events db' = pg_events db @ rows"
  by (rule steps_events [OF assms(1,3) reachable_systemOK [OF assms(1,2)]])

theorem history_append_only_witness: "\<exists>rows. pg_events store2 = pg_events store1 @ rows"
  by (rule history_append_only [OF sample_engineOK sample_reachable(1) sample_runs(1)])

text \<open>
  C10. VerifyChain accepts the history of every case the engine wrote.
\<close>

theorem verify_accepts:
  assumes "engineOK sha js e" and "reachable e db" and "pgGetByID u db = Inr c"
  shows "VerifyChain e db u = Inr ()"
  by (rule system_chain [OF assms(1) reachable_systemOK [OF assms(1,2)] assms(3)])

theorem verify_accepts_witness: "VerifyChain sampleEngine store2 100 = Inr ()"
  by (rule verify_accepts [OF sample_engineOK sample_reachable(2) sample_case2(1)])





text \<open>
  C13. No lost update: when anything the store holds of a case (row, tokens, scopes or events)
  changed between the moment Move read it and the moment it writes, the write is refused with
  ErrConflict and changes nothing.
\<close>

theorem no_lost_update:
  assumes "engineOK sha js e" and "reachable e db" and "freshCall cl (pgView db)" and "movePlan e cl i db = Inr (d, r)"
    and "(engineStep e)\<^sup>*\<^sup>* db db'" and "stateOf db' (mi_CaseID i) \<noteq> stateOf db (mi_CaseID i)"
  shows "persist e cl r db' = (Inl (Err ErrConflict), db')"
  using stale_plan [OF assms(1) reachable_systemOK [OF assms(1,2)] movePlan_planned [OF stored_here assms(4)] assms(5)]
    assms reachable_systemOK [OF assms(1,2)]
  by (auto simp: sameCase_def stateOf_def)

theorem no_lost_update_witness:
  "\<exists>d r. movePlan sampleEngine (sampleCall 30 300) (sampleMove 100 201 ''ok'' '''') store2 = Inr (d, r) \<and>
     persist sampleEngine (sampleCall 30 300) r store3 = (Inl (Err ErrConflict), store3)"
proof -
  obtain d r where plan: "movePlan sampleEngine (sampleCall 30 300) (sampleMove 100 201 ''ok'' '''') store2 = Inr (d, r)"
    using run_commits(3) by (auto simp: approve3_def committed_def MoveDetailed_def split: sum.splits)
  have "c_Revision case2 \<noteq> c_Revision (projr (pgGetByID 100 store3))" by code_simp
  then have "stateOf store3 (mi_CaseID (sampleMove 100 201 ''ok'' '''')) \<noteq> stateOf store2 (mi_CaseID (sampleMove 100 201 ''ok'' ''''))"
    by (auto simp: stateOf_def sampleMove_def case2_def pgView_def pgGetByID_def split: option.splits)
  from no_lost_update [OF sample_engineOK sample_reachable(2) sample_fresh(2) plan sample_runs(2) this] plan
  show ?thesis by blast
qed



section \<open>Operations\<close>

text \<open>
  C15. A claim is exclusive: once a token is claimed, the claim of anybody else on it fails with
  ErrAlreadyAssigned and changes nothing.
\<close>

theorem claim_exclusive:
  assumes "engineOK sha js e" and "reachable e db" and "freshCall cl (pgView db)"
    and "ClaimWith e cl i db = (Inr c, db')" and "ci_TokenID i \<noteq> uuidNil"
    and "resolveActor actor' '''' = Inr a'" and "ac_ID a' \<noteq> ''''" and "ac_ID a' \<noteq> ac_ID (ci_Actor i)"
  shows "ClaimWith e cl' (i\<lparr>ci_Actor := actor', ci_ExpectedRevision := None\<rparr>) db' = (Inl (Err ErrAlreadyAssigned), db')"
  by (rule claim_excludes [OF assms(1) reachable_systemOK [OF assms(1,2)] assms(3-8)])

theorem claim_exclusive_witness:
  "ClaimWith sampleEngine (sampleCall 50 500) (sampleClaim\<lparr>ci_Actor := humanActor ''bob'', ci_ExpectedRevision := None\<rparr>) (snd claim3) =
     (Inl (Err ErrAlreadyAssigned), snd claim3)"
proof -
  obtain c where "claim3 = (Inr c, snd claim3)" using other_commits(1) by (rule committedE)
  then show ?thesis unfolding claim3_def
    by (rule claim_exclusive [OF sample_engineOK sample_reachable(2) sample_fresh(2), where a' = "humanActor ''bob''"]) code_simp+
qed

text \<open>
  C16. Claiming an unassigned token and releasing it again restores the token; at most its
  eligibility was filled in on the way.
\<close>

theorem claim_release_restores:
  assumes "engineOK sha js e" and "reachable e db" and "freshCall cl (pgView db)"
    and "ClaimWith e cl i db = (Inr c, db1)" and "ci_TokenID i \<noteq> uuidNil"
    and "lookupBy tok_ID (ci_TokenID i) (pg_tokens db) = Some t" and "tok_AssignedTo t = ''''"
    and "freshCall cl1 (pgView db1)" and "ReleaseWith e cl1 j db1 = (Inr c1, db2)"
    and "ri_CaseID j = ci_CaseID i" and "ri_TokenID j = ci_TokenID i"
  shows "\<exists>el. lookupBy tok_ID (ci_TokenID i) (pg_tokens db2) = Some (t\<lparr>tok_Eligible := el\<rparr>)"
  by (rule claim_release [OF assms(1) reachable_systemOK [OF assms(1,2)] assms(3-11)])

theorem claim_release_restores_witness:
  "\<exists>el. lookupBy tok_ID 201 (pg_tokens (snd release4)) = Some ((the (lookupBy tok_ID 201 (pg_tokens store2)))\<lparr>tok_Eligible := el\<rparr>)"
proof -
  obtain c where c: "claim3 = (Inr c, snd claim3)" using other_commits(1) by (rule committedE)
  obtain c1 where c1: "release4 = (Inr c1, snd release4)" using other_commits(2) by (rule committedE)
  have id: "ci_TokenID sampleClaim = 201" by (simp add: sampleClaim_def)
  show ?thesis unfolding id [symmetric]
    by (rule claim_release_restores [OF sample_engineOK sample_reachable(2) sample_fresh(2) c [unfolded claim3_def] _ _ _
          freshCall_below [OF other_ids(1), of 40, unfolded claim3_def] c1 [unfolded release4_def claim3_def], folded release4_def claim3_def])
      code_simp+
qed

text \<open>
  C17. A deadline whose node names no transition expires once: the next Expire fails with
  ErrAlreadyExpired, and the sweep no longer lists the token.
\<close>

theorem expire_only_once:
  assumes "engineOK sha js e" and "reachable e db" and "freshCall cl (pgView db)"
    and "Expire e cl i db = (Inr res, db')" and "xi_TokenID i \<noteq> uuidNil"
    and "lookupBy tok_ID (xi_TokenID i) (pg_tokens db) = Some t" and "pgGetByID (xi_CaseID i) db = Inr c"
    and "resolveDefinition e (c_Definition c) (c_Version c) = Inr d"
    and "\<forall>n. Definition_Node d (tok_Node t) = Some n \<longrightarrow> node_OnExpire n = ''''" and "cl_now cl \<le> cl_now cl'"
  shows "Expire e cl' i db' = (Inl (Err ErrAlreadyExpired), db') \<and>
    (\<forall>f w ws. pgListOverdue f db' = Inr ws \<longrightarrow> w \<in> set ws \<longrightarrow> tok_ID (wi_Token w) \<noteq> xi_TokenID i)"
  using expire_once [OF assms(1) reachable_systemOK [OF assms(1,2)] assms(3-10)] by blast

theorem expire_only_once_witness:
  "Expire sampleEngine (sampleCall 90 900) sampleExpire (snd expire4) = (Inl (Err ErrAlreadyExpired), snd expire4) \<and>
    \<not> (\<exists>f w ws. pgListOverdue f (snd expire4) = Inr ws \<and> w \<in> set ws \<and> tok_ID (wi_Token w) = xi_TokenID sampleExpire)"
proof -
  let ?db = "snd deadline3"
  obtain res where x: "expire4 = (Inr res, snd expire4)" using other_commits(4) by (rule committedE)
  have c: "pgGetByID (xi_CaseID sampleExpire) ?db = Inr (projr (pgGetByID 100 ?db))" by code_simp
  have "c_Definition (projr (pgGetByID 100 ?db)) = ''review'' \<and> c_Version (projr (pgGetByID 100 ?db)) = 1" by code_simp
  then have d: "resolveDefinition sampleEngine (c_Definition (projr (pgGetByID 100 ?db))) (c_Version (projr (pgGetByID 100 ?db))) = Inr reviewDef"
    by (simp add: sample_resolve)
  have t: "lookupBy tok_ID (xi_TokenID sampleExpire) (pg_tokens ?db) = Some (the (lookupBy tok_ID 201 (pg_tokens ?db)))" by code_simp
  have "map_option node_OnExpire (Definition_Node reviewDef (tok_Node (the (lookupBy tok_ID 201 (pg_tokens ?db))))) = Some ''''"
    by code_simp
  then have stays: "\<forall>n. Definition_Node reviewDef (tok_Node (the (lookupBy tok_ID 201 (pg_tokens ?db)))) = Some n \<longrightarrow> node_OnExpire n = ''''"
    by auto
  have "Expire sampleEngine (sampleCall 90 900) sampleExpire (snd expire4) = (Inl (Err ErrAlreadyExpired), snd expire4) \<and>
    (\<forall>f w ws. pgListOverdue f (snd expire4) = Inr ws \<longrightarrow> w \<in> set ws \<longrightarrow> tok_ID (wi_Token w) \<noteq> xi_TokenID sampleExpire)"
    by (rule expire_only_once [OF sample_engineOK sample_deadline_reachable freshCall_below [OF other_ids(2)] x [unfolded expire4_def] _ t c d stays,
          folded expire4_def]) (simp_all add: sampleExpire_def sampleCall_def)
  then show ?thesis by blast
qed

text \<open>
  C18. A cancelled case is refused: after Cancel commits, and after any further calls, Move on
  that case fails with ErrCaseClosed and changes nothing.
\<close>

theorem cancelled_case_closed:
  assumes "engineOK sha js e" and "reachable e db" and "freshCall cl (pgView db)" and "Cancel e cl i db = (Inr c, db1)"
    and "(engineStep e)\<^sup>*\<^sup>* db1 db2" and "mi_CaseID mi = ca_CaseID i"
    and "resolveActor (mi_Actor mi) (mi_ActorID mi) = Inr actor" and "mi_ExpectedRevision mi = None"
  shows "c_Status c = StatusCancelled \<and> MoveDetailed e cl2 mi db2 = (Inl (Err ErrCaseClosed), db2)"
  using cancel_final [OF assms(1) reachable_systemOK [OF assms(1,2)] assms(3-8)] by blast

theorem cancelled_case_closed_witness:
  "\<exists>c :: Case. c_Status c = StatusCancelled \<and>
     MoveDetailed sampleEngine (sampleCall 60 600) (sampleMove 100 201 ''ok'' '''') (snd cancel3) = (Inl (Err ErrCaseClosed), snd cancel3)"
proof -
  obtain c where c: "cancel3 = (Inr c, snd cancel3)" using other_commits(5) by (rule committedE)
  have "c_Status c = StatusCancelled \<and>
     MoveDetailed sampleEngine (sampleCall 60 600) (sampleMove 100 201 ''ok'' '''') (snd cancel3) = (Inl (Err ErrCaseClosed), snd cancel3)"
    by (rule cancelled_case_closed [OF sample_engineOK sample_reachable(2) sample_fresh(2) c [unfolded cancel3_def] rtranclp.rtrancl_refl,
          where actor = ana, folded cancel3_def]) code_simp+
  then show ?thesis by blast
qed

text \<open>
  C19. Every action Move accepts on a token is one AvailableFor offers for it.
\<close>

theorem accepted_was_offered:
  assumes "movePlan e cl i db = Inr (d, r)" and "AvailableFor e db (mi_CaseID i) (mi_TokenID i) = Inr out"
  shows "\<exists>tr \<in> set out. tr_Action tr = mi_Action i"
  by (rule move_available [OF assms])

theorem accepted_was_offered_witness:
  "\<exists>tr \<in> set (projr (AvailableFor sampleEngine store2 100 201)). tr_Action tr = ''ok''"
proof -
  obtain d r where plan: "movePlan sampleEngine (sampleCall 30 300) (sampleMove 100 201 ''ok'' '''') store2 = Inr (d, r)"
    using run_commits(3) by (auto simp: approve3_def committed_def MoveDetailed_def split: sum.splits)
  have "AvailableFor sampleEngine store2 (mi_CaseID (sampleMove 100 201 ''ok'' '''')) (mi_TokenID (sampleMove 100 201 ''ok'' '''')) =
      Inr (projr (AvailableFor sampleEngine store2 100 201))" by code_simp
  from accepted_was_offered [OF plan this] show ?thesis by (simp add: sampleMove_def)
qed



text \<open>
  C21. A join verdict is final: when a round closes with a verdict, the answers that come later
  do not change it, and a round in which every branch answered or was cancelled (one answer at
  least) closes.
\<close>

theorem verdict_final:
  "(closes p t = (True, v) \<and> laterTally t t' \<longrightarrow> closes p t' = (True, v)) \<and>
   (p \<in> {JoinAllApprove, JoinAnyApprove, JoinCollect} \<and> complete t \<longrightarrow> fst (closes p t))"
  using closes_stable [of p t v t'] closes_complete [of p t] by blast

theorem verdict_final_witness:
  "closes JoinAllApprove \<lparr>t_approved = 1, t_rejected = 1, t_cancelled = 0, t_expected = 3\<rparr> = (True, OutcomeRejected) \<and>
   closes JoinAllApprove \<lparr>t_approved = 2, t_rejected = 1, t_cancelled = 0, t_expected = 3\<rparr> = (True, OutcomeRejected) \<and>
   fst (closes JoinAllApprove \<lparr>t_approved = 2, t_rejected = 1, t_cancelled = 0, t_expected = 3\<rparr>)"
  using verdict_final [of JoinAllApprove "\<lparr>t_approved = 1, t_rejected = 1, t_cancelled = 0, t_expected = 3\<rparr>" OutcomeRejected
      "\<lparr>t_approved = 2, t_rejected = 1, t_cancelled = 0, t_expected = 3\<rparr>"]
  by (simp add: laterTally_def)

text \<open>
  C22. LastActorOf returns the actor of the acting event with the highest sequence number on the
  node, and the empty string when nobody acted there, in whatever order the history comes.
\<close>

theorem last_actor_latest:
  "if \<exists>ev \<in> set history. actsOn node ev
   then \<exists>ev \<in> set history. actsOn node ev \<and> LastActorOf history node = ac_ID (ev_Actor ev) \<and>
          (\<forall>x \<in> set history. actsOn node x \<longrightarrow> ev_Seq x \<le> ev_Seq ev)
   else LastActorOf history node = ''''"
  by (rule LastActorOf_spec)

theorem last_actor_latest_witness:
  "if \<exists>ev \<in> set (pg_events store2). actsOn ''d'' ev
   then \<exists>ev \<in> set (pg_events store2). actsOn ''d'' ev \<and> LastActorOf (pg_events store2) ''d'' = ac_ID (ev_Actor ev) \<and>
          (\<forall>x \<in> set (pg_events store2). actsOn ''d'' x \<longrightarrow> ev_Seq x \<le> ev_Seq ev)
   else LastActorOf (pg_events store2) ''d'' = ''''"
  by (rule last_actor_latest)

text \<open>
  C23. Paging through Overdue with the cursor of the last item visits every overdue token exactly
  once, in the order of the list, whatever the page size.
\<close>

theorem overdue_sweep_complete:
  assumes "engineOK sha js e" and "reachable e db" and "length (overdueAll f db) < n"
  shows "sweep n f db = Inr (overdueAll f db) \<and> sorted_wrt (\<lambda>a b. overdueKey a < overdueKey b) (overdueAll f db) \<and>
    (\<forall>w. w \<in> set (overdueAll f db) \<longleftrightarrow> wi_Token w \<in> set (pg_tokens db) \<and>
       pgGetByID (tok_CaseID (wi_Token w)) db = Inr (wi_Case w) \<and> overdueMatch f w)"
proof -
  have ok: "pgOK (eventDigest sha js) db" using reachable_systemOK [OF assms(1,2)] by (simp add: systemOK_def)
  show ?thesis using sweep_all [OF ok assms(3)] overdueAll_strict [OF ok] tokenRows_mem [OF ok]
    by (auto simp: overdueAll_def)
qed

theorem overdue_sweep_complete_witness:
  "let f = \<lparr>of_Tenant = '''', of_Limit = 1, of_Before = 100, of_After = None\<rparr>; db = snd deadline3 in
   sweep 3 f db = Inr (overdueAll f db) \<and> sorted_wrt (\<lambda>a b. overdueKey a < overdueKey b) (overdueAll f db) \<and>
    (\<forall>w. w \<in> set (overdueAll f db) \<longleftrightarrow> wi_Token w \<in> set (pg_tokens db) \<and>
       pgGetByID (tok_CaseID (wi_Token w)) db = Inr (wi_Case w) \<and> overdueMatch f w)"
  unfolding Let_def by (rule overdue_sweep_complete [OF sample_engineOK sample_deadline_reachable]) code_simp

text \<open>
  C24. The engine New builds only resolves valid definitions: a lookup returns a definition with
  the name asked for, with the version asked for when one was, and with the highest registered
  version of the name when none was.
\<close>

theorem resolve_valid:
  assumes "resolveDefinition (New repo cfg sink defs) name version = Inr d"
  shows "Validate d = [] \<and> d_Name d = name \<and> (0 < version \<longrightarrow> d_Version d = version) \<and>
    (version \<le> 0 \<longrightarrow> (\<forall>k d'. map_of (eng_definitions (New repo cfg sink defs)) k = Some d' \<longrightarrow> d_Name d' = name \<longrightarrow>
       d_Version d' \<le> d_Version d))"
  by (rule New_resolve [OF assms])

theorem resolve_valid_witness:
  "Validate reviewDef = [] \<and> d_Name reviewDef = ''review'' \<and> d_Version reviewDef = 1"
  using resolve_valid [OF sample_resolve [unfolded sampleEngine_def resolveDefinition_guards]] by simp



end
